(* ===== verification/Lex_Prelude.thy ===== *)
theory Lex_Prelude
  imports Main "HOL-Library.Word"
begin

unbundle bit_operations_syntax

text \<open>
  What every component of the development shares: names for the machine types of the
  program, the collections of simplification facts the component theories fill, and
  generic lemmas on lists that the libraries do not state in the form used here.

  The generator works on bytes. An input byte is a \<open>byte\<close> (an 8-bit word); where the
  code passes a byte as an \<open>unsigned\<close> or stores it in an \<open>int\<close> loop counter the
  model uses \<open>nat\<close>, with the width written out at every cast.
\<close>

type_synonym byte = "8 word"
type_synonym u32 = "32 word"
type_synonym u64 = "64 word"

text \<open>The value of a byte as the \<open>unsigned\<close> the code converts it to.\<close>

abbreviation ub :: "byte \<Rightarrow> nat" where
  "ub b \<equiv> unat b"

named_theorems byteset_simps \<open>membership of bytes in the sets the code builds\<close>
named_theorems frame_simps \<open>what an operation leaves unchanged\<close>
named_theorems wf_intros \<open>well-formedness is kept\<close>

section \<open>Bytes\<close>

lemma ub_less [simp]: "ub b < 256"
  by (rule order_less_le_trans[OF unsigned_less]) simp

lemma ub_of_nat [simp]: "n < 256 \<Longrightarrow> ub (of_nat n) = n"
  by (simp add: unat_of_nat)

lemma ub_inj: "ub a = ub b \<longleftrightarrow> a = b"
  by (simp add: word_unat_eq_iff)

lemma all_bytes: "(\<forall>n<256. P n) \<longleftrightarrow> (\<forall>b :: byte. P (ub b))"
  by (metis ub_less ub_of_nat)

section \<open>Lists\<close>

text \<open>
  \<open>std::sort\<close> followed by \<open>std::unique\<close> and \<open>erase\<close>: the ascending list of the
  elements, each once.
\<close>

definition sort_unique :: "'a::linorder list \<Rightarrow> 'a list" where
  "sort_unique xs = remdups_adj (sort xs)"

lemma set_sort_unique [simp]: "set (sort_unique xs) = set xs"
  by (simp add: sort_unique_def)

lemma sorted_sort_unique [simp]: "sorted (sort_unique xs)"
  by (simp add: sort_unique_def sorted_remdups_adj)

lemma strict_sorted_remdups_adj: "sorted xs \<Longrightarrow> sorted_wrt (<) (remdups_adj xs)"
  by (induction xs rule: remdups_adj.induct) (auto simp: order.strict_iff_order)

lemma strict_sorted_sort_unique: "sorted_wrt (<) (sort_unique xs)"
  by (simp add: sort_unique_def strict_sorted_remdups_adj)

lemma distinct_sort_unique [simp]: "distinct (sort_unique xs)"
  using strict_sorted_sort_unique strict_sorted_iff by blast

lemma sort_unique_cong: "set xs = set ys \<Longrightarrow> sort_unique xs = sort_unique ys"
  by (metis set_sort_unique strict_sorted_equal strict_sorted_sort_unique)

lemma sort_unique_eqI: "sorted_wrt (<) ys \<Longrightarrow> set ys = set xs \<Longrightarrow> sort_unique xs = ys"
  by (metis set_sort_unique strict_sorted_equal strict_sorted_sort_unique)

lemma sort_unique_Nil_iff [simp]: "sort_unique xs = [] \<longleftrightarrow> xs = []"
  by (metis set_empty set_sort_unique)

text \<open>Writing past the end of the prefix that is kept does not change the prefix.\<close>

lemma nth_append_left: "i < length xs \<Longrightarrow> (xs @ ys) ! i = xs ! i"
  by (simp add: nth_append)

lemma count_list_update_True:
  "i < length bs \<Longrightarrow> \<not> bs ! i \<Longrightarrow> Suc (count_list (bs[i := True]) False) = count_list bs False"
proof (induction bs arbitrary: i)
  case Nil
  then show ?case by simp
next
  case (Cons b bs)
  then show ?case by (cases i) auto
qed

end
