(* ===== verification/Byte_Set.thy ===== *)
theory Byte_Set
  imports Lex_Prelude
begin

text \<open>
  The bitset over the 256 byte values of \<open>src/src/regex.hpp\<close> (struct \<open>ByteSet\<close>):
  four 64-bit words, the byte \<open>b\<close> being bit \<open>b & 63\<close> of word \<open>(b >> 6) & 3\<close>.
  The interface \<open>byte_container\<close> states what the rest of the program relies on; the
  bitset is shown to provide it, and the loops that fill a set are reasoned about there.
\<close>

section \<open>The bitset\<close>

datatype byte_set = ByteSet u64 u64 u64 u64

fun word_at :: "byte_set \<Rightarrow> nat \<Rightarrow> u64" where
  "word_at (ByteSet w0 w1 w2 w3) i =
     (if i = 0 then w0 else if i = 1 then w1 else if i = 2 then w2 else w3)"

fun word_upd :: "byte_set \<Rightarrow> nat \<Rightarrow> u64 \<Rightarrow> byte_set" where
  "word_upd (ByteSet w0 w1 w2 w3) i x =
     (if i = 0 then ByteSet x w1 w2 w3 else if i = 1 then ByteSet w0 x w2 w3
      else if i = 2 then ByteSet w0 w1 x w3 else ByteSet w0 w1 w2 x)"

definition bs_add :: "byte_set \<Rightarrow> nat \<Rightarrow> byte_set" where
  "bs_add s b =
     (let i = drop_bit 6 b AND 3
      in word_upd s i (word_at s i OR push_bit (b AND 63) 1))"

definition bs_test :: "byte_set \<Rightarrow> nat \<Rightarrow> bool" where
  "bs_test s b \<longleftrightarrow> drop_bit (b AND 63) (word_at s (drop_bit 6 b AND 3)) AND 1 \<noteq> 0"

fun bs_invert :: "byte_set \<Rightarrow> byte_set" where
  "bs_invert (ByteSet w0 w1 w2 w3) = ByteSet (NOT w0) (NOT w1) (NOT w2) (NOT w3)"

definition bs_clear :: byte_set where
  "bs_clear = ByteSet 0 0 0 0"

fun bs_empty :: "byte_set \<Rightarrow> bool" where
  "bs_empty (ByteSet w0 w1 w2 w3) \<longleftrightarrow> w0 = 0 \<and> w1 = 0 \<and> w2 = 0 \<and> w3 = 0"

section \<open>Bits and bytes\<close>

lemma slot_div: "drop_bit 6 b AND 3 = (b div 64) mod 4" for b :: nat
proof -
  have "drop_bit 6 b AND mask 2 = take_bit 2 (drop_bit 6 b)"
    by (simp add: take_bit_eq_mask)
  then show ?thesis
    by (simp add: mask_eq_exp_minus_1 take_bit_eq_mod drop_bit_eq_div)
qed

lemma offs_mod: "b AND 63 = b mod 64" for b :: nat
proof -
  have "b AND mask 6 = take_bit 6 b"
    by (simp add: take_bit_eq_mask)
  then show ?thesis
    by (simp add: mask_eq_exp_minus_1 take_bit_eq_mod)
qed

lemma bs_test_bit: "bs_test s b \<longleftrightarrow> bit (word_at s (b div 64 mod 4)) (b mod 64)"
  by (simp add: bs_test_def slot_div offs_mod bit_iff_odd_drop_bit and_one_eq odd_iff_mod_2_eq_one)

lemma word_at_upd:
  "i < 4 \<Longrightarrow> j < 4 \<Longrightarrow> word_at (word_upd s i x) j = (if i = j then x else word_at s j)"
  by (cases s) auto

lemma same_slot: "b div 64 = c div 64 \<Longrightarrow> b mod 64 = c mod 64 \<Longrightarrow> b = c" for b c :: nat
  by (metis div_mult_mod_eq)

lemma bs_test_add:
  assumes "b < 256" "c < 256"
  shows "bs_test (bs_add s b) c \<longleftrightarrow> c = b \<or> bs_test s c"
proof -
  have bd: "b div 64 mod 4 = b div 64" "c div 64 mod 4 = c div 64"
    using assms by auto
  have lt: "b div 64 < 4" "c div 64 < 4"
    using assms by auto
  have eq: "c = b \<longleftrightarrow> b div 64 = c div 64 \<and> b mod 64 = c mod 64"
    using same_slot[of b c] by blast
  have "bs_test (bs_add s b) c \<longleftrightarrow>
      bit (if b div 64 = c div 64 then word_at s (b div 64) OR push_bit (b mod 64) 1
           else word_at s (c div 64)) (c mod 64)"
    by (simp add: bs_test_bit bs_add_def Let_def slot_div offs_mod bd word_at_upd lt)
  also have "\<dots> \<longleftrightarrow> (b div 64 = c div 64 \<and> b mod 64 = c mod 64) \<or> bs_test s c"
    by (cases "b div 64 = c div 64") (auto simp: bs_test_bit bd bit_or_iff bit_exp_iff)
  finally show ?thesis
    by (simp only: eq)
qed

lemma bs_test_clear: "\<not> bs_test bs_clear b"
  by (simp add: bs_test_bit bs_clear_def)

lemma bs_test_invert:
  assumes "b < 256"
  shows "bs_test (bs_invert s) b \<longleftrightarrow> \<not> bs_test s b"
proof -
  have "b mod 64 < 64" by simp
  then show ?thesis
    by (cases s) (auto simp: bs_test_bit bit_not_iff simp del: mod_less_divisor)
qed

text \<open>A set is determined by its members: there is no hidden bit.\<close>

lemma word_at_testD:
  assumes "\<And>b. b < 256 \<Longrightarrow> bs_test s b = bs_test t b" "i < 4"
  shows "word_at s i = word_at t i"
proof (rule bit_word_eqI)
  fix n assume "n < LENGTH(64)"
  then have n: "n < 64" by simp
  then have "64 * i + n < 256" using assms(2) by simp
  from assms(1)[OF this] n assms(2) show "bit (word_at s i) n = bit (word_at t i) n"
    by (simp add: bs_test_bit)
qed

lemma byte_set_eqI:
  assumes "\<And>b. b < 256 \<Longrightarrow> bs_test s b = bs_test t b"
  shows "s = t"
proof -
  have w: "i < 4 \<Longrightarrow> word_at s i = word_at t i" for i
    using word_at_testD[OF assms] by blast
  show ?thesis
    using w[of 0] w[of 1] w[of 2] w[of 3] by (cases s; cases t) simp
qed

lemma bs_empty_eq: "bs_empty s \<longleftrightarrow> s = bs_clear"
  by (cases s) (simp add: bs_clear_def)

lemma bs_empty_iff: "bs_empty s \<longleftrightarrow> (\<forall>b<256. \<not> bs_test s b)"
  using byte_set_eqI[of s bs_clear] by (auto simp: bs_empty_eq bs_test_clear)

lemma bs_nonemptyI: "bs_test s b \<Longrightarrow> b < 256 \<Longrightarrow> \<not> bs_empty s"
  by (auto simp: bs_empty_iff)

lemma bs_nonemptyE:
  assumes "\<not> bs_empty s"
  obtains b :: byte where "bs_test s (ub b)"
  using assms unfolding bs_empty_iff all_bytes by blast

lemma bs_invert_involutive: "bs_invert (bs_invert s) = s"
  by (cases s) simp

section \<open>The interface the parser relies on\<close>

locale byte_container =
  fixes add :: "'s \<Rightarrow> nat \<Rightarrow> 's"
    and test :: "'s \<Rightarrow> nat \<Rightarrow> bool"
    and clear :: 's
  assumes test_add: "b < 256 \<Longrightarrow> c < 256 \<Longrightarrow> test (add s b) c \<longleftrightarrow> c = b \<or> test s c"
    and test_clear: "\<not> test clear c"
begin

lemma test_fold_add:
  assumes "\<forall>b\<in>set bs. b < 256" "c < 256"
  shows "test (fold (\<lambda>b s. add s b) bs s) c \<longleftrightarrow> c \<in> set bs \<or> test s c"
  using assms by (induction bs arbitrary: s) (auto simp: test_add)

lemma test_fold_if:
  assumes "\<forall>b\<in>set bs. b < 256" "c < 256"
  shows "test (fold (\<lambda>b s. if P b then add s b else s) bs s) c \<longleftrightarrow> (c \<in> set bs \<and> P c) \<or> test s c"
  using assms by (induction bs arbitrary: s) (auto simp: test_add)

lemma test_fold_filter:
  assumes "c < 256"
  shows "test (fold (\<lambda>b s. if P b then add s b else s) [0..<256] clear) c \<longleftrightarrow> P c"
  using assms test_fold_if[of "[0..<256]" c P clear] by (simp add: test_clear)

end

interpretation bset: byte_container bs_add bs_test bs_clear
  by unfold_locales (auto simp: bs_test_add bs_test_clear)

lemmas [byteset_simps] = bs_test_add bs_test_clear bs_test_invert

text \<open>Sets ordered by inclusion, decided on the words.\<close>

instantiation byte_set :: order_bot
begin

definition less_eq_byte_set :: "byte_set \<Rightarrow> byte_set \<Rightarrow> bool" where
  "less_eq_byte_set s t \<longleftrightarrow> (\<forall>i\<in>{0,1,2,3}. word_at s i AND NOT (word_at t i) = 0)"

definition less_byte_set :: "byte_set \<Rightarrow> byte_set \<Rightarrow> bool" where
  "less_byte_set s t \<longleftrightarrow> s \<le> t \<and> s \<noteq> (t :: byte_set)"

definition bot_byte_set :: byte_set where
  "bot_byte_set = bs_clear"

lemma byte_set_le_words:
  "s \<le> t \<longleftrightarrow> (\<forall>i<4. \<forall>n<64. bit (word_at s i) n \<longrightarrow> bit (word_at t i) n)"
proof -
  have sub: "a AND NOT b = 0 \<longleftrightarrow> (\<forall>n<64. bit a n \<longrightarrow> bit b n)" for a b :: u64
    by (auto simp: bit_eq_iff bit_and_iff bit_not_iff)
  have four: "(\<forall>i<4. P i) \<longleftrightarrow> P 0 \<and> P 1 \<and> P 2 \<and> P (3::nat)" for P
    by (auto simp: less_Suc_eq numeral_eq_Suc)
  show ?thesis
    unfolding less_eq_byte_set_def sub four by auto
qed

lemma byte_set_le_iff: "s \<le> t \<longleftrightarrow> (\<forall>b<256. bs_test s b \<longrightarrow> bs_test t b)"
proof
  assume "s \<le> t"
  then show "\<forall>b<256. bs_test s b \<longrightarrow> bs_test t b"
    by (auto simp: byte_set_le_words bs_test_bit)
next
  assume sub: "\<forall>b<256. bs_test s b \<longrightarrow> bs_test t b"
  show "s \<le> t"
    unfolding byte_set_le_words
  proof (intro allI impI)
    fix i n :: nat
    assume "i < 4" "n < 64" "bit (word_at s i) n"
    moreover from this have "64 * i + n < 256" by simp
    ultimately show "bit (word_at t i) n"
      using sub[rule_format, of "64 * i + n"] by (simp add: bs_test_bit)
  qed
qed

instance
proof
  fix s t u :: byte_set
  show "s < t \<longleftrightarrow> s \<le> t \<and> \<not> t \<le> s"
    unfolding less_byte_set_def byte_set_le_iff by (auto intro: byte_set_eqI)
  show "s \<le> s" by (simp add: byte_set_le_iff)
  show "s \<le> t \<Longrightarrow> t \<le> u \<Longrightarrow> s \<le> u" by (simp add: byte_set_le_iff)
  show "s \<le> t \<Longrightarrow> t \<le> s \<Longrightarrow> s = t" by (auto simp: byte_set_le_iff intro: byte_set_eqI)
  show "bot \<le> s" by (simp add: byte_set_le_iff bot_byte_set_def bs_test_clear)
qed

end

section \<open>Properties\<close>

text \<open>The operations of \<open>ByteSet\<close> are those of a set of byte values: adding, clearing,
inverting and testing act on exactly the byte they are given, and \<open>empty\<close> holds for the
set without members only.\<close>

theorem byte_set_operations:
  assumes "b < 256" "c < 256"
  shows "(bs_test (bs_add s b) c \<longleftrightarrow> c = b \<or> bs_test s c) \<and> \<not> bs_test bs_clear c \<and>
    (bs_test (bs_invert s) c \<longleftrightarrow> \<not> bs_test s c) \<and> (bs_empty s \<longleftrightarrow> (\<forall>d<256. \<not> bs_test s d))"
  using assms by (simp add: bs_test_add bs_test_clear bs_test_invert bs_empty_iff)

lemma byte_set_operations_witness:
  "bs_test (bs_add bs_clear 200) 200 \<and> \<not> bs_test (bs_add bs_clear 200) 100"
  using byte_set_operations[of 200 200 bs_clear] byte_set_operations[of 200 100 bs_clear] by simp

end
