(* ===== verification/Regex_Ast.thy ===== *)
theory Regex_Ast
  imports Byte_Set
begin

text \<open>
  The regex trees of \<open>src/src/regex.hpp\<close> and the functions on trees of
  \<open>regex.cpp\<close> and \<open>nfa.cpp\<close>: the length of a tree (\<open>fixed_length\<close>) and the
  anchor helpers. A \<open>NodePtr\<close> is a value of \<open>node\<close>: either null or a node of one of
  the kinds with the fields that kind uses. \<open>lang\<close> is the specification: the byte
  strings a tree is meant to match.
\<close>

section \<open>Trees\<close>

datatype node =
    Null
  | Empty
  | Class byte_set
  | Concat node node
  | Alt node node
  | Star node
  | Plus node
  | Question node
  | Repeat node u32 u32
  | AnchorBOL
  | AnchorEOL
  | TrailBoundary

definition kInf :: u32 where
  "kInf = 0xffffffff"

section \<open>Languages\<close>

type_synonym lang = "byte list set"

definition conc :: "lang \<Rightarrow> lang \<Rightarrow> lang" where
  "conc A B = {u @ v |u v. u \<in> A \<and> v \<in> B}"

primrec lpow :: "lang \<Rightarrow> nat \<Rightarrow> lang" where
  "lpow A 0 = {[]}"
| "lpow A (Suc n) = conc A (lpow A n)"

definition lstar :: "lang \<Rightarrow> lang" where
  "lstar A = (\<Union>n. lpow A n)"

lemma concI [intro]: "u \<in> A \<Longrightarrow> v \<in> B \<Longrightarrow> u @ v \<in> conc A B"
  by (auto simp: conc_def)

lemma concE [elim]:
  assumes "w \<in> conc A B"
  obtains u v where "w = u @ v" "u \<in> A" "v \<in> B"
  using assms by (auto simp: conc_def)

lemma conc_eps [simp]: "conc {[]} A = A" "conc A {[]} = A"
  by (auto simp: conc_def)

lemma conc_empty [simp]: "conc {} A = {}" "conc A {} = {}"
  by (auto simp: conc_def)

lemma conc_assoc: "conc (conc A B) C = conc A (conc B C)"
proof -
  have "w \<in> conc (conc A B) C \<Longrightarrow> w \<in> conc A (conc B C)" for w
    by (elim concE) (metis append_assoc concI)
  moreover have "w \<in> conc A (conc B C) \<Longrightarrow> w \<in> conc (conc A B) C" for w
    by (elim concE) (metis append_assoc concI)
  ultimately show ?thesis by blast
qed

lemma conc_Un: "conc (A \<union> B) C = conc A C \<union> conc B C" "conc A (B \<union> C) = conc A B \<union> conc A C"
  by (auto simp: conc_def)

lemma conc_UN:
  "conc (\<Union>i\<in>I. A i) B = (\<Union>i\<in>I. conc (A i) B)" "conc B (\<Union>i\<in>I. A i) = (\<Union>i\<in>I. conc B (A i))"
  by (auto simp: conc_def)

lemma lpow_add: "lpow A (m + n) = conc (lpow A m) (lpow A n)"
  by (induction m) (simp_all add: conc_assoc)

lemma lpow_Suc_right: "lpow A (Suc n) = conc (lpow A n) A"
  using lpow_add[of A n 1] by simp

lemma lstar_Nil [simp, intro]: "[] \<in> lstar A"
  by (force simp: lstar_def intro: exI[of _ 0])

lemma lstar_step [intro]: "u \<in> A \<Longrightarrow> v \<in> lstar A \<Longrightarrow> u @ v \<in> lstar A"
  unfolding lstar_def by (fastforce intro: exI[of _ "Suc _"])

lemma lstar_induct [consumes 1, case_names Nil step]:
  assumes "w \<in> lstar A" "P []" "\<And>u v. u \<in> A \<Longrightarrow> v \<in> lstar A \<Longrightarrow> P v \<Longrightarrow> P (u @ v)"
  shows "P w"
proof -
  from assms(1) obtain n where "w \<in> lpow A n" by (auto simp: lstar_def)
  then show ?thesis
  proof (induction n arbitrary: w)
    case 0
    then show ?case using assms(2) by simp
  next
    case (Suc n)
    then obtain u v where "w = u @ v" "u \<in> A" "v \<in> lpow A n" by auto
    then show ?case using Suc.IH assms(3) by (auto simp: lstar_def)
  qed
qed

lemma lstar_append: "u \<in> lstar A \<Longrightarrow> v \<in> lstar A \<Longrightarrow> u @ v \<in> lstar A"
  by (induction rule: lstar_induct) auto

lemma lpow_length: "(\<And>u. u \<in> A \<Longrightarrow> length u = k) \<Longrightarrow> w \<in> lpow A n \<Longrightarrow> length w = n * k"
  by (induction n arbitrary: w) auto

text \<open>
  What a tree matches. The zero-width kinds (a null pointer, an anchor left inside a
  pattern, the trailing-context marker) match the empty string, as the compiler treats
  them; an upper repeat bound below the lower one counts as the lower one.
\<close>

primrec lang :: "node \<Rightarrow> lang" where
  "lang Null = {[]}"
| "lang Empty = {[]}"
| "lang (Class s) = {[b] |b. bs_test s (ub b)}"
| "lang (Concat a b) = conc (lang a) (lang b)"
| "lang (Alt a b) = lang a \<union> lang b"
| "lang (Star a) = lstar (lang a)"
| "lang (Plus a) = conc (lang a) (lstar (lang a))"
| "lang (Question a) = {[]} \<union> lang a"
| "lang (Repeat a lo hi) =
     (if hi = kInf then conc (lpow (lang a) (unat lo)) (lstar (lang a))
      else (\<Union>k\<in>{unat lo..max (unat lo) (unat hi)}. lpow (lang a) k))"
| "lang AnchorBOL = {[]}"
| "lang AnchorEOL = {[]}"
| "lang TrailBoundary = {[]}"

text \<open>
  The strings after which the \<open>r/s\<close> boundary marker of a tree has been reached: the head
  \<open>r\<close> of a trailing-context pattern.
\<close>

primrec head_lang :: "node \<Rightarrow> lang" where
  "head_lang Null = {}"
| "head_lang Empty = {}"
| "head_lang (Class s) = {}"
| "head_lang (Concat a b) = head_lang a \<union> conc (lang a) (head_lang b)"
| "head_lang (Alt a b) = head_lang a \<union> head_lang b"
| "head_lang (Star a) = conc (lstar (lang a)) (head_lang a)"
| "head_lang (Plus a) = conc (lstar (lang a)) (head_lang a)"
| "head_lang (Question a) = head_lang a"
| "head_lang (Repeat a lo hi) =
     (if hi = kInf then conc (lstar (lang a)) (head_lang a)
      else (\<Union>k\<in>{..<max (unat lo) (unat hi)}. conc (lpow (lang a) k) (head_lang a)))"
| "head_lang AnchorBOL = {}"
| "head_lang AnchorEOL = {}"
| "head_lang TrailBoundary = {[]}"

primrec has_boundary :: "node \<Rightarrow> bool" where
  "has_boundary Null \<longleftrightarrow> False"
| "has_boundary Empty \<longleftrightarrow> False"
| "has_boundary (Class s) \<longleftrightarrow> False"
| "has_boundary (Concat a b) \<longleftrightarrow> has_boundary a \<or> has_boundary b"
| "has_boundary (Alt a b) \<longleftrightarrow> has_boundary a \<or> has_boundary b"
| "has_boundary (Star a) \<longleftrightarrow> has_boundary a"
| "has_boundary (Plus a) \<longleftrightarrow> has_boundary a"
| "has_boundary (Question a) \<longleftrightarrow> has_boundary a"
| "has_boundary (Repeat a lo hi) \<longleftrightarrow> has_boundary a"
| "has_boundary AnchorBOL \<longleftrightarrow> False"
| "has_boundary AnchorEOL \<longleftrightarrow> False"
| "has_boundary TrailBoundary \<longleftrightarrow> True"

lemma head_lang_no_boundary [simp]: "\<not> has_boundary n \<Longrightarrow> head_lang n = {}"
  by (induction n) auto

text \<open>
  A class with no member matches nothing; the compiler gives it an edge the automaton
  reads as an epsilon edge. Trees without such a class are \<open>proper\<close>.
\<close>

primrec proper :: "node \<Rightarrow> bool" where
  "proper Null \<longleftrightarrow> True"
| "proper Empty \<longleftrightarrow> True"
| "proper (Class s) \<longleftrightarrow> \<not> bs_empty s"
| "proper (Concat a b) \<longleftrightarrow> proper a \<and> proper b"
| "proper (Alt a b) \<longleftrightarrow> proper a \<and> proper b"
| "proper (Star a) \<longleftrightarrow> proper a"
| "proper (Plus a) \<longleftrightarrow> proper a"
| "proper (Question a) \<longleftrightarrow> proper a"
| "proper (Repeat a lo hi) \<longleftrightarrow> proper a"
| "proper AnchorBOL \<longleftrightarrow> True"
| "proper AnchorEOL \<longleftrightarrow> True"
| "proper TrailBoundary \<longleftrightarrow> True"

section \<open>The length of a tree\<close>

text \<open>
  \<open>int\<close> arithmetic of the code: 32 bits, two's complement. (An overflow of \<open>la + lb\<close>
  or \<open>la * lo\<close> is undefined in C++; the model gives the wrapped value.) The cast of a
  repeat count to \<open>int\<close> is \<open>sint\<close>.
\<close>

definition i32 :: "int \<Rightarrow> int" where
  "i32 x = (x + 2 ^ 31) mod 2 ^ 32 - 2 ^ 31"

lemma i32_id: "- (2 ^ 31) \<le> x \<Longrightarrow> x < 2 ^ 31 \<Longrightarrow> i32 x = x"
  by (simp add: i32_def)

primrec fixed_length :: "node \<Rightarrow> int" where
  "fixed_length Null = 0"
| "fixed_length Empty = 0"
| "fixed_length (Class s) = 1"
| "fixed_length (Concat a b) =
     (let la = fixed_length a
      in if la < 0 then -1
         else let lb = fixed_length b in if lb < 0 then -1 else i32 (la + lb))"
| "fixed_length (Alt a b) =
     (let la = fixed_length a; lb = fixed_length b
      in if la < 0 \<or> lb < 0 \<or> la \<noteq> lb then -1 else la)"
| "fixed_length (Star a) = -1"
| "fixed_length (Plus a) = -1"
| "fixed_length (Question a) = -1"
| "fixed_length (Repeat a lo hi) =
     (if lo = hi \<and> hi \<noteq> kInf
      then let la = fixed_length a in if la < 0 then -1 else i32 (la * sint lo)
      else -1)"
| "fixed_length AnchorBOL = 0"
| "fixed_length AnchorEOL = 0"
| "fixed_length TrailBoundary = 0"

text \<open>The same function on unbounded numbers, and a bound on everything it computes.\<close>

primrec tree_length :: "node \<Rightarrow> nat option" where
  "tree_length Null = Some 0"
| "tree_length Empty = Some 0"
| "tree_length (Class s) = Some 1"
| "tree_length (Concat a b) =
     (case tree_length a of None \<Rightarrow> None
      | Some i \<Rightarrow> (case tree_length b of None \<Rightarrow> None | Some j \<Rightarrow> Some (i + j)))"
| "tree_length (Alt a b) = (if tree_length a = tree_length b then tree_length a else None)"
| "tree_length (Star a) = None"
| "tree_length (Plus a) = None"
| "tree_length (Question a) = None"
| "tree_length (Repeat a lo hi) =
     (if lo = hi \<and> hi \<noteq> kInf then map_option (\<lambda>k. k * unat lo) (tree_length a) else None)"
| "tree_length AnchorBOL = Some 0"
| "tree_length AnchorEOL = Some 0"
| "tree_length TrailBoundary = Some 0"

primrec length_bound :: "node \<Rightarrow> nat" where
  "length_bound Null = 0"
| "length_bound Empty = 0"
| "length_bound (Class s) = 1"
| "length_bound (Concat a b) = length_bound a + length_bound b"
| "length_bound (Alt a b) = max (length_bound a) (length_bound b)"
| "length_bound (Star a) = 0"
| "length_bound (Plus a) = 0"
| "length_bound (Question a) = 0"
| "length_bound (Repeat a lo hi) =
     (if lo = hi then max (length_bound a) (length_bound a * unat lo) else 0)"
| "length_bound AnchorBOL = 0"
| "length_bound AnchorEOL = 0"
| "length_bound TrailBoundary = 0"

lemma tree_length_bound: "tree_length n = Some k \<Longrightarrow> k \<le> length_bound n"
proof (induction n arbitrary: k)
  case (Alt a b)
  then show ?case by (auto split: if_splits intro: le_max_iff_disj[THEN iffD2])
next
  case (Repeat a lo hi)
  then show ?case by (auto split: if_splits intro!: max.coboundedI2)
qed (fastforce split: option.splits if_splits)+

lemma sint_small:
  assumes "unat (x :: u32) < 2 ^ 31"
  shows "sint x = int (unat x)"
proof -
  have "int (unat x) < int (2 ^ 31)" using assms by (simp only: of_nat_less_iff)
  then have ub: "int (unat x) < 2 ^ 31" by simp
  have lb: "- (2 ^ 31) \<le> int (unat x)" by (rule order_trans[of _ 0]) simp_all
  have "signed_take_bit 31 (int (unat x)) = int (unat x)"
    by (rule signed_take_bit_int_eq_self[OF lb ub])
  then show ?thesis by (simp add: sint_uint)
qed

lemma tree_length_sound: "tree_length n = Some k \<Longrightarrow> w \<in> lang n \<Longrightarrow> length w = k"
proof (induction n arbitrary: k w)
  case (Concat a b)
  from Concat.prems(1) obtain i j where "tree_length a = Some i" "tree_length b = Some j" "k = i + j"
    by (auto split: option.splits)
  moreover from Concat.prems(2) obtain u v where "w = u @ v" "u \<in> lang a" "v \<in> lang b" by auto
  ultimately show ?case using Concat.IH by simp
next
  case (Repeat a lo hi)
  from Repeat.prems(1) obtain i where i: "tree_length a = Some i" "k = i * unat lo" "lo = hi" "hi \<noteq> kInf"
    by (auto split: if_splits)
  with Repeat.prems(2) have "w \<in> lpow (lang a) (unat lo)" by simp
  from lpow_length[OF _ this, of i] Repeat.IH i show ?case by (simp add: mult.commute)
qed (auto split: if_splits)

lemma fixed_length_refines:
  "length_bound n < 2 ^ 31 \<Longrightarrow>
   fixed_length n = (case tree_length n of None \<Rightarrow> -1 | Some k \<Rightarrow> int k)"
proof (induction n)
  case (Concat a b)
  have "tree_length a = Some i \<Longrightarrow> tree_length b = Some j \<Longrightarrow> i32 (int i + int j) = int i + int j" for i j
    using Concat.prems tree_length_bound[of a i] tree_length_bound[of b j] by (intro i32_id) auto
  with Concat show ?case by (auto simp: Let_def split: option.splits)
next
  case (Alt a b)
  then show ?case by (auto simp: Let_def split: option.splits)
next
  case (Repeat a lo hi)
  show ?case
  proof (cases "lo = hi \<and> hi \<noteq> kInf")
    case True
    with Repeat.prems have small: "length_bound a < 2 ^ 31" "length_bound a * unat lo < 2 ^ 31"
      by auto
    have mul: "i32 (int i * sint lo) = int (i * unat lo)" if "tree_length a = Some i" for i
    proof (cases "i = 0")
      case False
      with tree_length_bound[OF that] have "unat lo \<le> length_bound a * unat lo" by simp
      with small(2) have "sint lo = int (unat lo)" by (intro sint_small) linarith
      moreover have "i * unat lo < 2 ^ 31"
        using tree_length_bound[OF that] small(2) by (meson le_less_trans mult_le_mono1)
      then have "int (i * unat lo) < int (2 ^ 31)" by (simp only: of_nat_less_iff)
      then have ub: "int (i * unat lo) < 2 ^ 31" by simp
      have lb: "- (2 ^ 31) \<le> int (i * unat lo)" by (rule order_trans[of _ 0]) simp_all
      note i32_id[OF lb ub]
      ultimately show ?thesis by simp
    qed (simp add: i32_id)
    show ?thesis
      using Repeat.IH small(1) mul True by (auto simp: Let_def split: option.splits)
  qed auto
qed (simp_all add: Let_def)

section \<open>Anchors\<close>

definition peek_is_eol_anchor :: "node \<Rightarrow> bool" where
  "peek_is_eol_anchor n =
     (case n of AnchorEOL \<Rightarrow> True | Concat a b \<Rightarrow> b = AnchorEOL | _ \<Rightarrow> False)"

definition strip_eol_anchor :: "node \<Rightarrow> node" where
  "strip_eol_anchor n =
     (case n of AnchorEOL \<Rightarrow> Null
      | Concat a b \<Rightarrow> (if b = AnchorEOL then a else n)
      | _ \<Rightarrow> n)"

text \<open>
  \<open>unwrap_anchors\<close> of the NFA builder: the tree without its outer anchors, and the two
  flags. The first step looks at the root, the second at what the first one left.
\<close>

definition unwrap_bol :: "node \<Rightarrow> node \<times> bool" where
  "unwrap_bol n = (case n of Concat a b \<Rightarrow> if a = AnchorBOL then (b, True) else (n, False) | _ \<Rightarrow> (n, False))"

definition unwrap_eol :: "node \<Rightarrow> node \<times> bool" where
  "unwrap_eol n = (case n of Concat a b \<Rightarrow> if b = AnchorEOL then (a, True) else (n, False) | _ \<Rightarrow> (n, False))"

definition unwrap_anchors :: "node \<Rightarrow> node \<times> bool \<times> bool" where
  "unwrap_anchors root =
     (let (n, bol) = unwrap_bol root; (m, eol) = unwrap_eol n in (m, bol, eol))"

lemma lang_strip_eol [simp]: "lang (strip_eol_anchor n) = lang n"
  by (cases n) (auto simp: strip_eol_anchor_def)

lemma lang_unwrap_bol: "lang (fst (unwrap_bol n)) = lang n"
  by (cases n) (auto simp: unwrap_bol_def)

lemma lang_unwrap_eol: "lang (fst (unwrap_eol n)) = lang n"
  by (cases n) (auto simp: unwrap_eol_def)

lemma lang_unwrap_anchors: "unwrap_anchors n = (m, bol, eol) \<Longrightarrow> lang m = lang n"
  using lang_unwrap_bol[of n] lang_unwrap_eol
  by (auto simp: unwrap_anchors_def split: prod.splits) (metis fst_conv)+

lemma head_lang_unwrap_anchors: "unwrap_anchors n = (m, bol, eol) \<Longrightarrow> head_lang m = head_lang n"
proof -
  have b: "head_lang (fst (unwrap_bol n)) = head_lang n" for n
    by (cases n) (auto simp: unwrap_bol_def)
  have e: "head_lang (fst (unwrap_eol n)) = head_lang n" for n
    by (cases n) (auto simp: unwrap_eol_def)
  show "unwrap_anchors n = (m, bol, eol) \<Longrightarrow> head_lang m = head_lang n"
    using b[of n] e by (auto simp: unwrap_anchors_def split: prod.splits) (metis fst_conv)+
qed

lemma proper_unwrap_anchors: "unwrap_anchors n = (m, bol, eol) \<Longrightarrow> proper n \<Longrightarrow> proper m"
proof -
  have b: "proper n \<Longrightarrow> proper (fst (unwrap_bol n))" for n
    by (cases n) (auto simp: unwrap_bol_def)
  have e: "proper n \<Longrightarrow> proper (fst (unwrap_eol n))" for n
    by (cases n) (auto simp: unwrap_eol_def)
  show "unwrap_anchors n = (m, bol, eol) \<Longrightarrow> proper n \<Longrightarrow> proper m"
    using b[of n] e by (auto simp: unwrap_anchors_def split: prod.splits) (metis fst_conv)+
qed

section \<open>Properties\<close>

text \<open>A length computed by \<open>fixed_length\<close> is the length of every string the tree
matches, as long as the sizes involved stay below 2^31 (\<open>length_bound\<close>).\<close>

theorem fixed_length_sound:
  assumes "length_bound n < 2 ^ 31" "w \<in> lang n" "fixed_length n \<noteq> -1"
  shows "fixed_length n = int (length w)"
  using fixed_length_refines[OF assms(1)] tree_length_sound[OF _ assms(2)] assms(3)
  by (cases "tree_length n") auto

lemma fixed_length_sound_witness:
  "fixed_length (Concat (Class (bs_add bs_clear 97)) (Class (bs_add bs_clear 97))) = 2"
proof -
  have "bs_test (bs_add bs_clear 97) (ub 97)" by (simp add: bs_test_add)
  then have "[97] @ [97] \<in> lang (Concat (Class (bs_add bs_clear 97)) (Class (bs_add bs_clear 97)))"
    unfolding lang.simps by (intro concI) blast+
  from fixed_length_sound[OF _ this] show ?thesis by (simp add: i32_def)
qed

text \<open>Beyond that bound the \<open>int\<close> product of \<open>fixed_length\<close> wraps around: for
\<open>(x{65536}){65536}\<close>, whose strings have 2^32 bytes, it returns 0 (signed overflow, undefined
in C++).\<close>

theorem fixed_length_wraps:
  "fixed_length (Repeat (Repeat (Class s) 65536 65536) 65536 65536) = 0 \<and>
   tree_length (Repeat (Repeat (Class s) 65536 65536) 65536 65536) = Some (2 ^ 32)"
  by (simp add: kInf_def i32_def Let_def)

end
