(* ===== verification/Diag.thy ===== *)
theory Diag
  imports Lex_Prelude
begin

text \<open>
  Characters and diagnostics: the C-locale character tests of \<open>ctype.h\<close> the generator uses,
  decimal formatting, and the \<open>Diagnostics\<close> object of \<open>src/src/diag.cpp\<close>, which counts
  errors and warnings and formats one line per message. The write to the standard error
  stream is the platform's; the model keeps the formatted lines in a log.
\<close>

section \<open>Characters\<close>

text \<open>The value of a \<open>char\<close> after the cast to \<open>unsigned char\<close>.\<close>

abbreviation uc :: "char \<Rightarrow> nat" where
  "uc c \<equiv> of_char c"

abbreviation NUL :: char where
  "NUL \<equiv> CHR 0x00"

definition isdigit :: "char \<Rightarrow> bool" where
  "isdigit c \<longleftrightarrow> 48 \<le> uc c \<and> uc c \<le> 57"

definition isupper :: "char \<Rightarrow> bool" where
  "isupper c \<longleftrightarrow> 65 \<le> uc c \<and> uc c \<le> 90"

definition islower :: "char \<Rightarrow> bool" where
  "islower c \<longleftrightarrow> 97 \<le> uc c \<and> uc c \<le> 122"

definition isalpha :: "char \<Rightarrow> bool" where
  "isalpha c \<longleftrightarrow> isupper c \<or> islower c"

definition isalnum :: "char \<Rightarrow> bool" where
  "isalnum c \<longleftrightarrow> isalpha c \<or> isdigit c"

definition isxdigit :: "char \<Rightarrow> bool" where
  "isxdigit c \<longleftrightarrow> isdigit c \<or> (65 \<le> uc c \<and> uc c \<le> 70) \<or> (97 \<le> uc c \<and> uc c \<le> 102)"

definition isspace :: "char \<Rightarrow> bool" where
  "isspace c \<longleftrightarrow> uc c = 32 \<or> (9 \<le> uc c \<and> uc c \<le> 13)"

lemmas ctype_defs = isdigit_def isupper_def islower_def isalpha_def isalnum_def isxdigit_def isspace_def

section \<open>Decimal numbers\<close>

definition digit_char :: "nat \<Rightarrow> char" where
  "digit_char d = char_of (48 + d)"

fun dec :: "nat \<Rightarrow> string" where
  "dec n = (if n < 10 then [digit_char n] else dec (n div 10) @ [digit_char (n mod 10)])"

declare dec.simps [simp del]

definition dec_int :: "int \<Rightarrow> string" where
  "dec_int i = (if i < 0 then CHR ''-'' # dec (nat (- i)) else dec (nat i))"

lemma uc_digit_char [simp]: "d < 10 \<Longrightarrow> uc (digit_char d) = 48 + d"
  by (simp add: digit_char_def)

lemma isdigit_digit_char [simp]: "d < 10 \<Longrightarrow> isdigit (digit_char d)"
  by (simp add: isdigit_def)

lemma dec_digits: "\<forall>c\<in>set (dec n). isdigit c"
  by (induction n rule: dec.induct) (subst dec.simps, auto)

lemma dec_nonempty [simp]: "dec n \<noteq> []"
  by (subst dec.simps) simp

text \<open>Reading the digits back gives the number.\<close>

definition digit_value :: "char \<Rightarrow> nat" where
  "digit_value c = uc c - 48"

definition number :: "nat \<Rightarrow> string \<Rightarrow> nat" where
  "number = foldl (\<lambda>v c. v * 10 + digit_value c)"

lemma number_append: "number v (xs @ ys) = number (number v xs) ys"
  by (simp add: number_def)

lemma number_dec: "number 0 (dec n) = n"
proof (induction n rule: dec.induct)
  case (1 n)
  show ?case
  proof (cases "n < 10")
    case True
    then show ?thesis by (subst dec.simps) (simp add: number_def digit_value_def)
  next
    case False
    with 1 show ?thesis
      by (subst dec.simps) (simp only: number_append if_False, simp add: number_def digit_value_def)
  qed
qed

section \<open>Diagnostics\<close>

record source_loc =
  sl_file :: string
  sl_line :: nat
  sl_col :: nat

record diagnostics =
  dg_errors :: nat
  dg_warnings :: nat
  dg_log :: "string list"

text \<open>
  \<open>snprintf\<close> into 1024 bytes: at most 1023 characters are kept; \<open>%s\<close> stops at a NUL.
\<close>

definition c_str :: "string \<Rightarrow> string" where
  "c_str s = takeWhile (\<lambda>c. c \<noteq> NUL) s"

definition emit :: "string \<Rightarrow> source_loc \<Rightarrow> string \<Rightarrow> string" where
  "emit level loc msg =
     take 1023
       (if sl_file loc \<noteq> [] then
          c_str (sl_file loc) @ '':'' @ dec (sl_line loc) @ '':'' @ dec (sl_col loc) @ '': '' @ level @ '': '' @
          c_str msg @ [CHR 0x0A]
        else ''lex: '' @ level @ '': '' @ c_str msg @ [CHR 0x0A])"

definition diag_error :: "source_loc \<Rightarrow> string \<Rightarrow> diagnostics \<Rightarrow> diagnostics" where
  "diag_error loc msg d =
     d\<lparr>dg_errors := dg_errors d + 1, dg_log := dg_log d @ [emit ''error'' loc msg]\<rparr>"

definition diag_warn :: "source_loc \<Rightarrow> string \<Rightarrow> diagnostics \<Rightarrow> diagnostics" where
  "diag_warn loc msg d =
     d\<lparr>dg_warnings := dg_warnings d + 1, dg_log := dg_log d @ [emit ''warning'' loc msg]\<rparr>"

definition diag_ok :: "diagnostics \<Rightarrow> bool" where
  "diag_ok d \<longleftrightarrow> dg_errors d = 0"

definition no_diag :: diagnostics where
  "no_diag = \<lparr>dg_errors = 0, dg_warnings = 0, dg_log = []\<rparr>"

lemma diag_simps [simp]:
  "dg_errors (diag_error loc msg d) = Suc (dg_errors d)" "dg_errors (diag_warn loc msg d) = dg_errors d"
  "dg_warnings (diag_error loc msg d) = dg_warnings d" "dg_warnings (diag_warn loc msg d) = Suc (dg_warnings d)"
  "\<not> diag_ok (diag_error loc msg d)"
  by (simp_all add: diag_error_def diag_warn_def diag_ok_def)

end
