(* ===== verification/Regex_Lex.thy ===== *)
theory Regex_Lex
  imports Regex_Ast Diag
begin

text \<open>
  The part of \<open>class Parser\<close> of \<open>src/src/regex.cpp\<close> that is not recursive: the cursor,
  the byte-set helpers, escapes, POSIX classes, character classes, quoted strings and
  repeat counts. \<open>penv\<close> holds the members that stay fixed (\<open>src_\<close>, \<open>macros_\<close>, \<open>ci_\<close>,
  \<open>loc_\<close>, \<open>expanding_\<close>), \<open>pst\<close> those that change (\<open>pos_\<close> and the diagnostics).
\<close>

section \<open>State and cursor\<close>

record penv =
  pe_src :: string
  pe_macros :: "string \<Rightarrow> string option"
  pe_ci :: bool
  pe_loc :: source_loc
  pe_expanding :: "string set"

record pst =
  ps_pos :: nat
  ps_diag :: diagnostics

definition at_end :: "penv \<Rightarrow> pst \<Rightarrow> bool" where
  "at_end E st \<longleftrightarrow> ps_pos st \<ge> length (pe_src E)"

definition peek :: "penv \<Rightarrow> pst \<Rightarrow> nat \<Rightarrow> char" where
  "peek E st k = (if ps_pos st + k < length (pe_src E) then pe_src E ! (ps_pos st + k) else NUL)"

definition advance :: "penv \<Rightarrow> pst \<Rightarrow> char \<times> pst" where
  "advance E st =
     (if ps_pos st < length (pe_src E) then (pe_src E ! ps_pos st, st\<lparr>ps_pos := ps_pos st + 1\<rparr>)
      else (NUL, st))"

text \<open>\<open>advance()\<close> called for its effect.\<close>

abbreviation skip :: "penv \<Rightarrow> pst \<Rightarrow> pst" where
  "skip E st \<equiv> snd (advance E st)"

definition report :: "penv \<Rightarrow> string \<Rightarrow> pst \<Rightarrow> pst" where
  "report E msg st = st\<lparr>ps_diag := diag_error (pe_loc E) msg (ps_diag st)\<rparr>"

lemma skip_pos: "ps_pos (skip E st) = (if at_end E st then ps_pos st else ps_pos st + 1)"
  by (simp add: advance_def at_end_def)

lemma peek_not_NUL: "peek E st 0 \<noteq> NUL \<Longrightarrow> \<not> at_end E st"
  by (auto simp: peek_def at_end_def)

section \<open>Filling byte sets\<close>

definition add_byte_ci :: "byte_set \<Rightarrow> nat \<Rightarrow> bool \<Rightarrow> byte_set" where
  "add_byte_ci s b ci =
     (let s = bs_add s b
      in if ci \<and> b < 128 then
           (let s = (if 97 \<le> b \<and> b \<le> 122 then bs_add s (b - 97 + 65) else s)
            in if 65 \<le> b \<and> b \<le> 90 then bs_add s (b - 65 + 97) else s)
         else s)"

definition add_range_ci :: "byte_set \<Rightarrow> nat \<Rightarrow> nat \<Rightarrow> bool \<Rightarrow> byte_set" where
  "add_range_ci s lo hi ci =
     (let (lo, hi) = (if lo > hi then (hi, lo) else (lo, hi))
      in fold (\<lambda>b s. add_byte_ci s b ci) [lo..<hi + 1] s)"

definition lit_node :: "nat \<Rightarrow> bool \<Rightarrow> node" where
  "lit_node b ci = Class (add_byte_ci bs_clear b ci)"

definition any_byte_except_nl :: node where
  "any_byte_except_nl = Class (fold (\<lambda>b s. if b \<noteq> 10 then bs_add s b else s) [0..<256] bs_clear)"

definition concat_node :: "node \<Rightarrow> node \<Rightarrow> node" where
  "concat_node a b = (if a = Null then b else if b = Null then a else Concat a b)"

section \<open>Escapes\<close>

text \<open>The two digit loops of \<open>read_escape_byte\<close>; \<open>n\<close> is the number of digits still allowed.\<close>

primrec octal_loop :: "nat \<Rightarrow> penv \<Rightarrow> nat \<Rightarrow> pst \<Rightarrow> nat \<times> pst" where
  "octal_loop 0 E v st = (v, st)"
| "octal_loop (Suc n) E v st =
     (let c = peek E st 0
      in if isdigit c \<and> 48 \<le> uc c \<and> uc c \<le> 55
         then (let (c, st) = advance E st in octal_loop n E (v * 8 + (uc c - 48)) st)
         else (v, st))"

definition hex_value :: "char \<Rightarrow> nat" where
  "hex_value h = (if uc h \<le> 57 then uc h - 48 else (uc h OR 0x20) - 97 + 10)"

primrec hex_loop :: "nat \<Rightarrow> penv \<Rightarrow> nat \<Rightarrow> pst \<Rightarrow> nat \<times> pst" where
  "hex_loop 0 E v st = (v, st)"
| "hex_loop (Suc n) E v st =
     (if isxdigit (peek E st 0)
      then (let (h, st) = advance E st in hex_loop n E (v * 16 + hex_value h) st)
      else (v, st))"

text \<open>The single-character escapes; the others stand for themselves.\<close>

definition simple_escape :: "char \<Rightarrow> nat option" where
  "simple_escape c =
     (if c = CHR ''n'' then Some 10 else if c = CHR ''t'' then Some 9 else if c = CHR ''r'' then Some 13
      else if c = CHR ''f'' then Some 12 else if c = CHR ''v'' then Some 11 else if c = CHR ''a'' then Some 7
      else if c = CHR ''b'' then Some 8 else if c = CHR 0x5C then Some 92 else if c = CHR 0x27 then Some 39
      else if c = CHR 0x22 then Some 34 else if c = CHR ''/'' then Some 47 else None)"

definition read_escape_byte :: "penv \<Rightarrow> pst \<Rightarrow> nat \<times> pst" where
  "read_escape_byte E st =
     (let st = skip E st; c = peek E st 0
      in if c = NUL then (0, st)
         else case simple_escape c of
           Some v \<Rightarrow> (v, skip E st)
         | None \<Rightarrow>
             if 48 \<le> uc c \<and> uc c \<le> 55 then (let (v, st) = octal_loop 3 E 0 st in (v mod 256, st))
             else if c = CHR ''x'' then (let (v, st) = hex_loop 2 E 0 (skip E st) in (v mod 256, st))
             else (uc c, skip E st))"

definition read_class_byte :: "penv \<Rightarrow> pst \<Rightarrow> nat \<times> pst" where
  "read_class_byte E st =
     (if peek E st 0 = CHR 0x5C then read_escape_byte E st
      else let (c, st) = advance E st in (uc c, st))"

text \<open>Every reader moves forward, and never past the end.\<close>

definition moves :: "penv \<Rightarrow> pst \<Rightarrow> pst \<Rightarrow> bool" where
  "moves E a b \<longleftrightarrow> ps_pos a \<le> ps_pos b \<and> (ps_pos a \<le> length (pe_src E) \<longrightarrow> ps_pos b \<le> length (pe_src E))"

lemma moves_refl [simp]: "moves E a a"
  by (simp add: moves_def)

lemma moves_trans [trans]: "moves E a b \<Longrightarrow> moves E b c \<Longrightarrow> moves E a c"
  by (auto simp: moves_def)

lemma moves_skip [simp]: "moves E a (skip E a)"
  by (auto simp: moves_def skip_pos at_end_def)

lemma moves_advance: "advance E a = (c, b) \<Longrightarrow> moves E a b"
  using moves_skip[of E a] by simp

lemma moves_report [simp]: "moves E a (report E msg b) = moves E a b" "ps_pos (report E msg b) = ps_pos b"
  by (simp_all add: moves_def report_def)

lemma octal_moves: "octal_loop n E v a = (w, b) \<Longrightarrow> moves E a b"
  by (induction n arbitrary: v a)
    (auto simp: Let_def split: if_splits prod.splits dest: moves_advance intro: moves_trans)

lemma hex_moves: "hex_loop n E v a = (w, b) \<Longrightarrow> moves E a b"
  by (induction n arbitrary: v a)
    (auto simp: Let_def split: if_splits prod.splits dest: moves_advance intro: moves_trans)

lemma escape_moves: "read_escape_byte E a = (w, b) \<Longrightarrow> moves E (skip E a) b"
  by (auto simp: read_escape_byte_def Let_def split: if_splits prod.splits option.splits
      dest!: octal_moves hex_moves intro: moves_trans[OF moves_skip])

lemma class_byte_moves: "read_class_byte E a = (w, b) \<Longrightarrow> moves E (skip E a) b"
  by (auto simp: read_class_byte_def split: if_splits prod.splits dest: escape_moves)

lemma moves_skip_less: "moves E (skip E a) b \<Longrightarrow> \<not> at_end E a \<Longrightarrow> ps_pos a < ps_pos b"
  by (simp add: moves_def skip_pos)

lemma moves_from_skip: "moves E (skip E a) b \<Longrightarrow> moves E a b"
  using moves_trans[OF moves_skip] .


lemma moves_back [simp]: "moves E a (b\<lparr>ps_pos := ps_pos a\<rparr>)"
  by (simp add: moves_def)

lemma not_at_end_ctype:
  "isdigit (peek E st 0) \<Longrightarrow> \<not> at_end E st" "isalpha (peek E st 0) \<Longrightarrow> \<not> at_end E st"
  by (rule peek_not_NUL; auto simp: ctype_defs)+

text \<open>The measure of the loops: what is left of the text.\<close>

lemma advance_shrinks:
  "(c, b) = advance E a \<Longrightarrow> \<not> at_end E a \<Longrightarrow>
   length (pe_src E) - ps_pos b < length (pe_src E) - ps_pos a"
  by (simp add: advance_def at_end_def)

lemma class_byte_shrinks:
  "(c, b) = read_class_byte E a \<Longrightarrow> \<not> at_end E a \<Longrightarrow>
   length (pe_src E) - ps_pos b < length (pe_src E) - ps_pos a"
  using moves_skip_less[OF class_byte_moves[OF sym]] by (fastforce simp: at_end_def)

section \<open>Quoted strings\<close>

function quoted_loop :: "penv \<Rightarrow> node \<Rightarrow> pst \<Rightarrow> node \<times> pst" where
  "quoted_loop E acc st =
     (if \<not> at_end E st \<and> peek E st 0 \<noteq> CHR 0x22
      then (let (b, st) = read_class_byte E st
            in quoted_loop E (concat_node acc (lit_node b (pe_ci E))) st)
      else (acc, st))"
  by pat_completeness auto
termination
  by (relation "measure (\<lambda>(E, acc, st). length (pe_src E) - ps_pos st)")
    (use class_byte_shrinks in auto)

declare quoted_loop.simps [simp del]

definition parse_quoted :: "penv \<Rightarrow> pst \<Rightarrow> node \<times> pst" where
  "parse_quoted E st =
     (let (acc, st) = quoted_loop E Null (skip E st)
      in if peek E st 0 \<noteq> CHR 0x22
         then (if acc = Null then Empty else acc, report E ''unterminated quoted string in regex'' st)
         else (if acc = Null then Empty else acc, skip E st))"

definition parse_escape_atom :: "penv \<Rightarrow> pst \<Rightarrow> node \<times> pst" where
  "parse_escape_atom E st = (let (b, st) = read_escape_byte E st in (lit_node b (pe_ci E), st))"

lemma quoted_loop_moves: "quoted_loop E acc a = (n, b) \<Longrightarrow> moves E a b"
proof (induction E acc a rule: quoted_loop.induct)
  case (1 E acc a)
  show ?case
  proof (cases "\<not> at_end E a \<and> peek E a 0 \<noteq> CHR 0x22")
    case True
    obtain c a' where c: "read_class_byte E a = (c, a')" by fastforce
    with 1 True have "moves E a' b" by (simp add: quoted_loop.simps[of E acc a])
    then show ?thesis using class_byte_moves[OF c] by (blast intro: moves_from_skip moves_trans)
  qed (use 1 in \<open>auto simp: quoted_loop.simps[of E acc a]\<close>)
qed

lemma quoted_moves: "parse_quoted E a = (n, b) \<Longrightarrow> moves E (skip E a) b"
  by (auto simp: parse_quoted_def Let_def split: prod.splits if_splits
      dest!: quoted_loop_moves intro: moves_trans[OF _ moves_skip])

lemma escape_atom_moves: "parse_escape_atom E a = (n, b) \<Longrightarrow> moves E (skip E a) b"
  by (auto simp: parse_escape_atom_def split: prod.splits dest: escape_moves)

section \<open>Repeat counts\<close>

text \<open>The digits of a repeat count, accumulated in 32 bits.\<close>

function digit_loop :: "penv \<Rightarrow> u32 \<Rightarrow> pst \<Rightarrow> u32 \<times> pst" where
  "digit_loop E v st =
     (if isdigit (peek E st 0)
      then (let (c, st) = advance E st in digit_loop E (v * 10 + of_nat (uc c - 48)) st)
      else (v, st))"
  by pat_completeness auto
termination
  by (relation "measure (\<lambda>(E, v, st). length (pe_src E) - ps_pos st)")
    (use advance_shrinks not_at_end_ctype in auto)

declare digit_loop.simps [simp del]

definition repeat_upper :: "penv \<Rightarrow> u32 \<Rightarrow> pst \<Rightarrow> u32 \<times> pst" where
  "repeat_upper E lo st =
     (if peek E st 0 = CHR '',''
      then (let st = skip E st in if isdigit (peek E st 0) then digit_loop E 0 st else (kInf, st))
      else (lo, st))"

definition parse_repeat :: "penv \<Rightarrow> node \<Rightarrow> pst \<Rightarrow> node \<times> pst" where
  "parse_repeat E p st =
     (let save = ps_pos st; st = skip E st; any_digit = isdigit (peek E st 0);
          (lo, st) = digit_loop E 0 st
      in if \<not> any_digit then (p, st\<lparr>ps_pos := save\<rparr>)
         else let (hi, st) = repeat_upper E lo st
              in if peek E st 0 \<noteq> CHR ''}'' then (p, st\<lparr>ps_pos := save\<rparr>) else (Repeat p lo hi, skip E st))"

lemma digit_loop_moves: "digit_loop E v a = (w, b) \<Longrightarrow> moves E a b"
proof (induction E v a rule: digit_loop.induct)
  case (1 E v a)
  obtain c a' where c: "advance E a = (c, a')" by fastforce
  with 1 show ?case
    by (auto simp: digit_loop.simps[of E v a] split: if_splits dest: moves_advance intro: moves_trans)
qed

lemma repeat_upper_moves: "repeat_upper E lo a = (hi, b) \<Longrightarrow> moves E a b"
  by (auto simp: repeat_upper_def Let_def split: if_splits dest: digit_loop_moves intro: moves_from_skip)

lemma repeat_moves:
  assumes "parse_repeat E p a = (n, b)"
  shows "moves E a b"
proof -
  obtain lo c where c: "digit_loop E 0 (skip E a) = (lo, c)" by fastforce
  obtain hi d where d: "repeat_upper E lo c = (hi, d)" by fastforce
  have ac: "moves E a c" using digit_loop_moves[OF c] by (rule moves_from_skip)
  have ad: "moves E a d" using ac repeat_upper_moves[OF d] by (rule moves_trans)
  then have ae: "moves E a (skip E d)" by (rule moves_trans) simp
  from assms have "b = c\<lparr>ps_pos := ps_pos a\<rparr> \<or> b = d\<lparr>ps_pos := ps_pos a\<rparr> \<or> b = skip E d"
    by (simp add: parse_repeat_def Let_def c d split: if_splits)
  with ae show ?thesis by auto
qed

section \<open>Macro names\<close>

function name_loop :: "penv \<Rightarrow> string \<Rightarrow> pst \<Rightarrow> string \<times> pst" where
  "name_loop E name st =
     (if \<not> at_end E st \<and> (isalnum (peek E st 0) \<or> peek E st 0 = CHR ''_'' \<or> peek E st 0 = CHR ''-'')
      then (let (c, st) = advance E st in name_loop E (name @ [c]) st)
      else (name, st))"
  by pat_completeness auto
termination
  by (relation "measure (\<lambda>(E, name, st). length (pe_src E) - ps_pos st)")
    (use advance_shrinks in auto)

declare name_loop.simps [simp del]

lemma name_loop_moves: "name_loop E name a = (w, b) \<Longrightarrow> moves E a b"
proof (induction E name a rule: name_loop.induct)
  case (1 E name a)
  obtain c a' where c: "advance E a = (c, a')" by fastforce
  with 1 show ?case
    by (auto simp: name_loop.simps[of E name a] split: if_splits dest: moves_advance intro: moves_trans)
qed

section \<open>What is left of the text\<close>

text \<open>
  To reason about the parser on a known text: \<open>rest\<close> is the text from the cursor on, and
  \<open>fwd k\<close> moves the cursor by \<open>k\<close>.
\<close>

definition rest :: "penv \<Rightarrow> pst \<Rightarrow> string" where
  "rest E st = drop (ps_pos st) (pe_src E)"

definition fwd :: "nat \<Rightarrow> pst \<Rightarrow> pst" where
  "fwd k st = st\<lparr>ps_pos := ps_pos st + k\<rparr>"

lemma rest_fwd: "rest E (fwd k st) = drop k (rest E st)"
  by (simp add: rest_def fwd_def add.commute)

lemma fwd_fwd: "fwd j (fwd k st) = fwd (k + j) st"
  by (simp add: fwd_def)

lemma fwd_simps [simp]: "fwd 0 st = st" "ps_pos (fwd k st) = ps_pos st + k" "ps_diag (fwd k st) = ps_diag st"
  by (simp_all add: fwd_def)

lemma at_end_rest: "at_end E st \<longleftrightarrow> rest E st = []"
  by (simp add: at_end_def rest_def)

lemma peek_rest: "peek E st k = (if k < length (rest E st) then rest E st ! k else NUL)"
  by (simp add: peek_def rest_def less_diff_conv add.commute)

lemma advance_rest: "advance E st = (if rest E st = [] then (NUL, st) else (hd (rest E st), fwd 1 st))"
  by (simp add: advance_def rest_def fwd_def hd_drop_conv_nth)

lemmas at_text = rest_fwd at_end_rest peek_rest advance_rest fwd_fwd

text \<open>A byte written as \<open>\xHH\<close>.\<close>

definition hex_char :: "nat \<Rightarrow> char" where
  "hex_char d = char_of (if d < 10 then 48 + d else 87 + d)"

definition byte_text :: "nat \<Rightarrow> string" where
  "byte_text b = [CHR 0x5C, CHR ''x'', hex_char (b div 16), hex_char (b mod 16)]"

lemma hex_char_cases: "d < 16 \<Longrightarrow> isxdigit (hex_char d) \<and> hex_value (hex_char d) = d"
proof -
  assume "d < 16"
  then have "d \<in> {0,1,2,3,4,5,6,7,8,9,10,11,12,13,14,15}" by (simp add: numeral_eq_Suc less_Suc_eq)
  then show ?thesis by (auto simp: hex_char_def hex_value_def ctype_defs)
qed

lemma length_byte_text [simp]: "length (byte_text b) = 4"
  by (simp add: byte_text_def)

lemma byte_text_hd [simp]: "byte_text b \<noteq> []" "hd (byte_text b) = CHR 0x5C" "byte_text b ! 0 = CHR 0x5C"
  by (simp_all add: byte_text_def)

lemma hex_loop_text:
  assumes "rest E st = hex_char d # hex_char e # ys" "d < 16" "e < 16"
  shows "hex_loop 2 E 0 st = (d * 16 + e, fwd 2 st)"
proof -
  have "hex_loop (Suc (Suc 0)) E 0 st = (d * 16 + e, fwd 2 st)"
    using assms hex_char_cases by (simp add: at_text)
  then show ?thesis by (simp add: numeral_2_eq_2)
qed

lemma escape_text:
  assumes "rest E st = byte_text b @ ys" "b < 256"
  shows "read_escape_byte E st = (b, fwd 4 st)"
proof -
  have d: "b div 16 < 16" "b mod 16 < 16" using assms(2) by auto
  have r: "rest E st = CHR 0x5C # CHR ''x'' # hex_char (b div 16) # hex_char (b mod 16) # ys"
    using assms(1) by (simp add: byte_text_def)
  have "hex_loop 2 E 0 (fwd 2 st) = (b div 16 * 16 + b mod 16, fwd 2 (fwd 2 st))"
    by (rule hex_loop_text[OF _ d]) (simp add: r at_text)
  then show ?thesis
    using assms(2) by (simp add: read_escape_byte_def simple_escape_def r at_text Let_def numeral_2_eq_2)
qed

lemma class_byte_text:
  assumes "rest E st = byte_text b @ ys" "b < 256"
  shows "read_class_byte E st = (b, fwd 4 st)"
  using escape_text[OF assms] assms(1) by (simp add: read_class_byte_def peek_rest nth_append)

end
