(* ===== verification/Regex_Class.thy ===== *)
theory Regex_Class
  imports Regex_Lex
begin

text \<open>
  Character classes of \<open>src/src/regex.cpp\<close>: \<open>try_posix_class\<close> and \<open>parse_class\<close>, with
  the facts a reader of patterns relies on: \<open>[^...]\<close> is the complement of \<open>[...]\<close>,
  every POSIX name denotes its set, and with \<open>ci\<close> a class is closed under the exchange of
  upper and lower case.
\<close>

section \<open>POSIX classes\<close>

function posix_name :: "penv \<Rightarrow> string \<Rightarrow> pst \<Rightarrow> string \<times> pst" where
  "posix_name E name st =
     (if \<not> at_end E st \<and> peek E st 0 \<noteq> CHR '':'' \<and> peek E st 0 \<noteq> CHR '']'' \<and> length name < 16 \<and>
         isalpha (peek E st 0)
      then (let (c, st) = advance E st in posix_name E (name @ [c]) st)
      else (name, st))"
  by pat_completeness auto
termination
  by (relation "measure (\<lambda>(E, name, st). length (pe_src E) - ps_pos st)")
    (use advance_shrinks in auto)

declare posix_name.simps [simp del]

definition add_span :: "nat \<Rightarrow> nat \<Rightarrow> byte_set \<Rightarrow> byte_set" where
  "add_span lo hi s = fold (\<lambda>b s. bs_add s b) [lo..<hi + 1] s"

definition posix_set :: "string \<Rightarrow> bool \<Rightarrow> byte_set \<Rightarrow> byte_set option" where
  "posix_set name ci s =
     (if name = ''alpha'' then Some (add_span 97 122 (add_span 65 90 s))
      else if name = ''upper'' then Some (let s = add_span 65 90 s in if ci then add_span 97 122 s else s)
      else if name = ''lower'' then Some (let s = add_span 97 122 s in if ci then add_span 65 90 s else s)
      else if name = ''digit'' then Some (add_span 48 57 s)
      else if name = ''xdigit'' then Some (add_span 97 102 (add_span 65 70 (add_span 48 57 s)))
      else if name = ''alnum'' then Some (add_span 48 57 (add_span 97 122 (add_span 65 90 s)))
      else if name = ''space'' then Some (fold (\<lambda>b s. bs_add s b) [32, 9, 10, 11, 12, 13] s)
      else if name = ''blank'' then Some (bs_add (bs_add s 32) 9)
      else if name = ''cntrl'' then Some (bs_add (add_span 0 31 s) 127)
      else if name = ''print'' then Some (add_span 32 126 s)
      else if name = ''graph'' then Some (add_span 33 126 s)
      else if name = ''punct'' then
        Some (fold (\<lambda>b s. if \<not> isalnum (char_of b) then bs_add s b else s) [33..<127] s)
      else None)"

definition try_posix_class :: "penv \<Rightarrow> byte_set \<Rightarrow> pst \<Rightarrow> bool \<times> byte_set \<times> pst" where
  "try_posix_class E out st =
     (let save = ps_pos st; (name, st) = posix_name E [] (skip E (skip E st))
      in if peek E st 0 \<noteq> CHR '':'' \<or> peek E st 1 \<noteq> CHR '']'' then (False, out, st\<lparr>ps_pos := save\<rparr>)
         else let st = skip E (skip E st)
              in case posix_set name (pe_ci E) out of
                   Some s \<Rightarrow> (True, s, st)
                 | None \<Rightarrow>
                     (False, out,
                      st\<lparr>ps_pos := save,
                         ps_diag := diag_warn (pe_loc E)
                           (''unrecognised POSIX class `[:'' @ name @
                            '':]`; treating as literal characters'') (ps_diag st)\<rparr>))"

lemma posix_name_moves: "posix_name E name a = (w, b) \<Longrightarrow> moves E a b"
proof (induction E name a rule: posix_name.induct)
  case (1 E name a)
  obtain c a' where c: "advance E a = (c, a')" by fastforce
  with 1 show ?case
    by (auto simp: posix_name.simps[of E name a] split: if_splits dest: moves_advance intro: moves_trans)
qed

lemma posix_moves:
  assumes "try_posix_class E s a = (ok, s', b)"
  shows "if ok then moves E (skip E a) b else ps_pos b = ps_pos a"
proof -
  obtain name c where c: "posix_name E [] (skip E (skip E a)) = (name, c)" by fastforce
  have "moves E (skip E a) c" using posix_name_moves[OF c] by (rule moves_from_skip)
  also have "moves E c (skip E (skip E c))" by (rule moves_trans[OF moves_skip moves_skip])
  finally have "moves E (skip E a) (skip E (skip E c))" .
  with assms show ?thesis
    by (cases "posix_set name (pe_ci E) s") (auto simp: try_posix_class_def c Let_def split: if_splits)
qed

lemma posix_forward: "try_posix_class E s a = (ok, s', b) \<Longrightarrow> moves E a b"
  using posix_moves[of E s a ok s' b] by (cases ok) (auto dest: moves_from_skip, simp add: moves_def)

section \<open>Classes\<close>

lemma try_posix_shrinks:
  "(ok, s', b) = (if P then try_posix_class E s a else (False, s, a)) \<Longrightarrow> \<not> at_end E a \<Longrightarrow>
   if ok then length (pe_src E) - ps_pos b < length (pe_src E) - ps_pos a else ps_pos b = ps_pos a"
  using posix_moves[of E s a ok s' b] moves_skip_less[of E a b]
  by (fastforce simp: at_end_def split: if_splits)

lemma at_end_pos: "ps_pos b = ps_pos a \<Longrightarrow> at_end E b = at_end E a"
  by (simp add: at_end_def)

lemma skip_class_byte_shrinks:
  "(c, b) = read_class_byte E (skip E a) \<Longrightarrow> length (pe_src E) - ps_pos b \<le> length (pe_src E) - ps_pos a"
  using moves_from_skip[OF moves_from_skip[OF class_byte_moves[OF sym]]] by (fastforce simp: moves_def)

function class_loop :: "penv \<Rightarrow> bool \<Rightarrow> byte_set \<Rightarrow> pst \<Rightarrow> byte_set \<times> pst" where
  "class_loop E first s st =
     (if \<not> at_end E st \<and> (first \<or> peek E st 0 \<noteq> CHR '']'')
      then (let (ok, s, st) =
              (if peek E st 0 = CHR ''['' \<and> peek E st 1 = CHR '':'' then try_posix_class E s st
               else (False, s, st))
            in if ok then class_loop E False s st
               else let (a, st) = read_class_byte E st
                    in if peek E st 0 = CHR ''-'' \<and> peek E st 1 \<noteq> CHR '']'' \<and> peek E st 1 \<noteq> NUL
                       then (let (b, st) = read_class_byte E (skip E st)
                             in class_loop E False (add_range_ci s a b (pe_ci E)) st)
                       else class_loop E False (add_byte_ci s a (pe_ci E)) st)
      else (s, st))"
  by pat_completeness auto

termination
proof (relation "measure (\<lambda>(E, first, s, st). length (pe_src E) - ps_pos st)", goal_cases)
  case 1
  then show ?case by simp
next
  case (2 E first s st x ok y s' st')
  then show ?case using try_posix_shrinks[of ok s' st' _ E s st] by auto
next
  case (3 E first s st x ok y s' st' z a st'' w b st3)
  then show ?case
    using try_posix_shrinks[of ok s' st' _ E s st] class_byte_shrinks[of a st'' E st']
      skip_class_byte_shrinks[of b st3 E st''] at_end_pos[of st' st E]
    by auto
next
  case (4 E first s st x ok y s' st' z a st'')
  then show ?case
    using try_posix_shrinks[of ok s' st' _ E s st] class_byte_shrinks[of a st'' E st'] at_end_pos[of st' st E]
    by auto
qed

declare class_loop.simps [simp del]

definition complement_set :: "byte_set \<Rightarrow> byte_set" where
  "complement_set s = fold (\<lambda>b t. if \<not> bs_test s b then bs_add t b else t) [0..<256] bs_clear"

definition parse_class :: "penv \<Rightarrow> pst \<Rightarrow> node \<times> pst" where
  "parse_class E st =
     (let st = skip E st;
          (neg, st) = (if peek E st 0 = CHR ''^'' then (True, skip E st) else (False, st));
          (s, st) = class_loop E True bs_clear st
      in if peek E st 0 \<noteq> CHR '']'' then (Class s, report E ''unterminated character class'' st)
         else (Class (if neg then complement_set s else s), skip E st))"

section \<open>The members of a class\<close>

definition swap_case :: "nat \<Rightarrow> nat" where
  "swap_case b = (if 97 \<le> b \<and> b \<le> 122 then b - 32 else if 65 \<le> b \<and> b \<le> 90 then b + 32 else b)"

definition same_letter :: "bool \<Rightarrow> nat \<Rightarrow> nat \<Rightarrow> bool" where
  "same_letter ci a c \<longleftrightarrow> c = a \<or> ci \<and> c = swap_case a"

lemma swap_case_swap [simp]: "swap_case (swap_case b) = b"
  by (auto simp: swap_case_def)

lemma swap_case_less [simp]: "b < 256 \<Longrightarrow> swap_case b < 256"
  by (auto simp: swap_case_def)

lemma test_add_byte_ci:
  "b < 256 \<Longrightarrow> c < 256 \<Longrightarrow> bs_test (add_byte_ci s b ci) c \<longleftrightarrow> same_letter ci b c \<or> bs_test s c"
  by (auto simp: add_byte_ci_def Let_def byteset_simps same_letter_def swap_case_def)

lemma test_fold_ci:
  "\<forall>b\<in>set bs. b < 256 \<Longrightarrow> c < 256 \<Longrightarrow>
   bs_test (fold (\<lambda>b s. add_byte_ci s b ci) bs s) c \<longleftrightarrow> (\<exists>b\<in>set bs. same_letter ci b c) \<or> bs_test s c"
  by (induction bs arbitrary: s) (auto simp: test_add_byte_ci)

lemma test_add_range_ci:
  assumes "a < 256" "b < 256" "c < 256"
  shows "bs_test (add_range_ci s a b ci) c \<longleftrightarrow>
    (\<exists>x\<in>{min a b..max a b}. same_letter ci x c) \<or> bs_test s c"
  using assms by (auto simp: add_range_ci_def test_fold_ci min_def max_def simp del: upt_Suc)

lemma test_add_span:
  "hi < 256 \<Longrightarrow> c < 256 \<Longrightarrow> bs_test (add_span lo hi s) c \<longleftrightarrow> lo \<le> c \<and> c \<le> hi \<or> bs_test s c"
  by (auto simp: add_span_def bset.test_fold_add simp del: upt_Suc)

lemma test_complement: "c < 256 \<Longrightarrow> bs_test (complement_set s) c \<longleftrightarrow> \<not> bs_test s c"
  unfolding complement_set_def by (rule bset.test_fold_filter)

text \<open>What the POSIX names stand for, by the tests of \<open>ctype.h\<close>.\<close>

definition posix_names :: "string list" where
  "posix_names = [''alpha'', ''upper'', ''lower'', ''digit'', ''xdigit'', ''alnum'', ''space'', ''blank'',
     ''cntrl'', ''print'', ''graph'', ''punct'']"

definition posix_member :: "string \<Rightarrow> bool \<Rightarrow> nat \<Rightarrow> bool" where
  "posix_member name ci b \<longleftrightarrow>
     (let c = char_of b in
      if name = ''alpha'' then isalpha c
      else if name = ''upper'' then isupper c \<or> ci \<and> islower c
      else if name = ''lower'' then islower c \<or> ci \<and> isupper c
      else if name = ''digit'' then isdigit c
      else if name = ''xdigit'' then isxdigit c
      else if name = ''alnum'' then isalnum c
      else if name = ''space'' then isspace c
      else if name = ''blank'' then b = 32 \<or> b = 9
      else if name = ''cntrl'' then b < 32 \<or> b = 127
      else if name = ''print'' then 32 \<le> b \<and> b < 127
      else if name = ''graph'' then 32 < b \<and> b < 127
      else name = ''punct'' \<and> 32 < b \<and> b < 127 \<and> \<not> isalnum c)"

lemma posix_names_cases:
  "name \<in> set posix_names \<longleftrightarrow>
     name = ''alpha'' \<or> name = ''upper'' \<or> name = ''lower'' \<or> name = ''digit'' \<or> name = ''xdigit'' \<or>
     name = ''alnum'' \<or> name = ''space'' \<or> name = ''blank'' \<or> name = ''cntrl'' \<or> name = ''print'' \<or>
     name = ''graph'' \<or> name = ''punct''"
  by (simp add: posix_names_def)

lemma posix_set_names: "posix_set name ci s = Some t \<Longrightarrow> name \<in> set posix_names"
  unfolding posix_names_cases by (rule ccontr) (simp add: posix_set_def del: upt_rec_numeral)

lemma posix_names_set: "name \<in> set posix_names \<Longrightarrow> \<exists>t. posix_set name ci s = Some t"
  unfolding posix_names_cases by (elim disjE) (simp_all add: posix_set_def del: upt_rec_numeral)

lemma test_posix_set:
  assumes "posix_set name ci s = Some t" "c < 256"
  shows "bs_test t c \<longleftrightarrow> posix_member name ci c \<or> bs_test s c"
proof -
  have uc: "uc (char_of c) = c" using assms(2) by simp
  note [simp] = test_add_span bset.test_fold_add bset.test_fold_if byteset_simps
  show ?thesis
    using posix_set_names[OF assms(1)] assms unfolding posix_names_cases
    by (cases ci; elim disjE) (auto simp: posix_set_def posix_member_def ctype_defs uc Let_def simp del: upt_rec_numeral)
qed

section \<open>Written classes\<close>

text \<open>
  The forms an item of a class takes, how it is written and what it stands for. Bytes are
  written as \<open>\xHH\<close>, so that none is a metacharacter.
\<close>

datatype class_item = Single nat | Range nat nat | Posix string

fun item_ok :: "class_item \<Rightarrow> bool" where
  "item_ok (Single a) \<longleftrightarrow> a < 256"
| "item_ok (Range a b) \<longleftrightarrow> a < 256 \<and> b < 256"
| "item_ok (Posix name) \<longleftrightarrow> name \<in> set posix_names"

fun item_text :: "class_item \<Rightarrow> string" where
  "item_text (Single a) = byte_text a"
| "item_text (Range a b) = byte_text a @ CHR ''-'' # byte_text b"
| "item_text (Posix name) = ''[:'' @ name @ '':]''"

fun item_has :: "bool \<Rightarrow> class_item \<Rightarrow> nat \<Rightarrow> bool" where
  "item_has ci (Single a) c \<longleftrightarrow> same_letter ci a c"
| "item_has ci (Range a b) c \<longleftrightarrow> (\<exists>x\<in>{min a b..max a b}. same_letter ci x c)"
| "item_has ci (Posix name) c \<longleftrightarrow> posix_member name ci c"

definition class_text :: "bool \<Rightarrow> class_item list \<Rightarrow> string" where
  "class_text neg items =
     CHR ''['' # (if neg then ''^'' else []) @ concat (map item_text items) @ '']''"

lemma posix_name_text:
  "rest E st = n @ CHR '':'' # ys \<Longrightarrow> \<forall>c\<in>set n. isalpha c \<Longrightarrow> length pre + length n < 16 \<Longrightarrow>
   posix_name E pre st = (pre @ n, fwd (length n) st)"
proof (induction n arbitrary: pre st)
  case Nil
  then show ?case by (simp add: posix_name.simps[of E pre st] at_text)
next
  case (Cons c n)
  have "c \<noteq> CHR '':''" "c \<noteq> CHR '']''" using Cons.prems(2) by (auto simp: ctype_defs)
  moreover have "posix_name E (pre @ [c]) (fwd 1 st) = ((pre @ [c]) @ n, fwd (length n) (fwd 1 st))"
    using Cons.prems by (intro Cons.IH) (simp_all add: at_text)
  ultimately show ?case
    using Cons.prems by (simp add: posix_name.simps[of E pre st] at_text)
qed

lemma posix_names_short: "name \<in> set posix_names \<Longrightarrow> (\<forall>c\<in>set name. isalpha c) \<and> length name < 16"
  unfolding posix_names_cases by (elim disjE) (simp_all add: ctype_defs)

lemma try_posix_text:
  assumes "rest E st = item_text (Posix name) @ ys" "name \<in> set posix_names"
  obtains t where "posix_set name (pe_ci E) s = Some t"
    "try_posix_class E s st = (True, t, fwd (length (item_text (Posix name))) st)"
proof -
  obtain t where t: "posix_set name (pe_ci E) s = Some t" using posix_names_set[OF assms(2)] by blast
  have r: "rest E (fwd 2 st) = name @ CHR '':'' # CHR '']'' # ys" using assms(1) by (simp add: rest_fwd)
  have n: "posix_name E [] (fwd 2 st) = (name, fwd (2 + length name) st)"
    using posix_name_text[OF r, of "[]"] posix_names_short[OF assms(2)] by (simp add: fwd_fwd)
  have k: "skip E (skip E st) = fwd 2 st" using assms(1) by (simp add: at_text numeral_2_eq_2)
  show ?thesis
    using assms(1) t n k by (intro that[OF t]) (simp add: try_posix_class_def at_text nth_append numeral_2_eq_2)
qed

text \<open>One turn of the loop of \<open>parse_class\<close> reads one item.\<close>

lemma class_loop_item:
  assumes r: "rest E st = item_text it @ z # zs" and ok: "item_ok it" and z: "z \<noteq> CHR ''-''"
  obtains t where "class_loop E first s st = class_loop E False t (fwd (length (item_text it)) st)"
    "\<And>c. c < 256 \<Longrightarrow> bs_test t c \<longleftrightarrow> item_has (pe_ci E) it c \<or> bs_test s c"
proof (cases it)
  case (Single a)
  have b: "read_class_byte E st = (a, fwd 4 st)"
    using r ok Single by (intro class_byte_text) auto
  show ?thesis
    by (rule that[of "add_byte_ci s a (pe_ci E)"])
      (use r ok Single z in \<open>simp_all add: class_loop.simps[of E first s st] b at_text nth_append test_add_byte_ci\<close>)
next
  case (Range a b)
  have a: "read_class_byte E st = (a, fwd 4 st)"
    using r ok Range by (intro class_byte_text) auto
  have "read_class_byte E (fwd 5 st) = (b, fwd 4 (fwd 5 st))"
    by (rule class_byte_text) (use r ok Range in \<open>simp_all add: rest_fwd byte_text_def\<close>)
  moreover have "rest E (fwd 4 st) = CHR ''-'' # byte_text b @ z # zs"
    using r Range by (simp add: rest_fwd)
  ultimately have e: "class_loop E first s st = class_loop E False (add_range_ci s a b (pe_ci E)) (fwd 9 st)"
    using r Range by (simp add: class_loop.simps[of E first s st] a at_end_rest peek_rest advance_rest
        fwd_fwd nth_append byte_text_def)
  show ?thesis
    by (rule that[of "add_range_ci s a b (pe_ci E)"]) (use e ok Range in \<open>simp_all add: test_add_range_ci\<close>)
next
  case (Posix name)
  obtain t where t: "posix_set name (pe_ci E) s = Some t"
    and p: "try_posix_class E s st = (True, t, fwd (length (item_text (Posix name))) st)"
    using try_posix_text[of E st name "z # zs" s] r ok Posix by auto
  show ?thesis
    by (rule that[of t])
      (use r Posix p test_posix_set[OF t] in \<open>simp_all add: class_loop.simps[of E first s st] at_text\<close>)
qed

lemma item_text_start: "item_ok it \<Longrightarrow> \<exists>c cs. item_text it = c # cs \<and> c \<noteq> CHR ''-'' \<and> c \<noteq> CHR '']'' \<and> c \<noteq> CHR ''^''"
  by (cases it) (auto simp: byte_text_def)

lemma class_loop_items:
  "rest E st = concat (map item_text items) @ CHR '']'' # ys \<Longrightarrow> \<forall>it\<in>set items. item_ok it \<Longrightarrow>
   (first \<longrightarrow> items \<noteq> []) \<Longrightarrow>
   \<exists>t. class_loop E first s st = (t, fwd (length (concat (map item_text items))) st) \<and>
       (\<forall>c<256. bs_test t c \<longleftrightarrow> (\<exists>it\<in>set items. item_has (pe_ci E) it c) \<or> bs_test s c)"
proof (induction items arbitrary: first s st)
  case Nil
  then show ?case by (intro exI[of _ s]) (simp add: class_loop.simps[of E False s st] at_text)
next
  case (Cons it items)
  define tl where "tl = concat (map item_text items) @ CHR '']'' # ys"
  have "\<exists>z zs. tl = z # zs \<and> z \<noteq> CHR ''-''"
    using Cons.prems(2) item_text_start by (cases items) (fastforce simp: tl_def)+
  then obtain z zs where z: "tl = z # zs" "z \<noteq> CHR ''-''" by blast
  have r: "rest E st = item_text it @ z # zs" using Cons.prems(1) by (simp add: z(1)[symmetric] tl_def)
  obtain t where t: "class_loop E first s st = class_loop E False t (fwd (length (item_text it)) st)"
    "\<And>c. c < 256 \<Longrightarrow> bs_test t c \<longleftrightarrow> item_has (pe_ci E) it c \<or> bs_test s c"
    using class_loop_item[OF r _ z(2)] Cons.prems(2) by auto
  have r': "rest E (fwd (length (item_text it)) st) = concat (map item_text items) @ CHR '']'' # ys"
    using r by (simp add: rest_fwd z(1)[symmetric] tl_def)
  obtain u where u: "class_loop E False t (fwd (length (item_text it)) st) =
      (u, fwd (length (concat (map item_text items))) (fwd (length (item_text it)) st))"
    "\<forall>c<256. bs_test u c \<longleftrightarrow> (\<exists>it\<in>set items. item_has (pe_ci E) it c) \<or> bs_test t c"
    using Cons.IH[OF r', of False t] Cons.prems(2) by auto
  show ?case
    using t u by (intro exI[of _ u]) (auto simp: fwd_fwd)
qed

lemma length_class_text:
  "length (class_text neg items) = (if neg then 3 else 2) + length (concat (map item_text items))"
  by (simp add: class_text_def)

section \<open>Cursor and case\<close>

definition case_closed :: "byte_set \<Rightarrow> bool" where
  "case_closed s \<longleftrightarrow> (\<forall>b<256. bs_test s (swap_case b) = bs_test s b)"

lemma swap_range: "b < 256 \<Longrightarrow> 97 \<le> b \<and> b \<le> 122 \<or> 65 \<le> b \<and> b \<le> 90 \<or> swap_case b = b"
  by (auto simp: swap_case_def)

lemma same_letter_swap: "same_letter True a (swap_case c) = same_letter True a c"
  unfolding same_letter_def by (metis swap_case_swap)

lemma octal_value: "octal_loop n E v a = (w, b) \<Longrightarrow> w mod 256 < 256"
  by simp

lemma escape_byte_less: "read_escape_byte E a = (w, b) \<Longrightarrow> w < 256"
  by (auto simp: read_escape_byte_def simple_escape_def Let_def split: if_splits prod.splits)

lemma class_byte_less: "read_class_byte E a = (w, b) \<Longrightarrow> w < 256"
  by (auto simp: read_class_byte_def split: if_splits prod.splits dest: escape_byte_less)

lemma case_closed_clear: "case_closed bs_clear"
  by (simp add: case_closed_def bs_test_clear)

lemma case_closed_byte: "a < 256 \<Longrightarrow> case_closed s \<Longrightarrow> case_closed (add_byte_ci s a True)"
  by (simp add: case_closed_def test_add_byte_ci same_letter_swap)

lemma case_closed_range: "a < 256 \<Longrightarrow> b < 256 \<Longrightarrow> case_closed s \<Longrightarrow> case_closed (add_range_ci s a b True)"
  by (simp add: case_closed_def test_add_range_ci same_letter_swap)

lemma case_closed_complement: "case_closed s \<Longrightarrow> case_closed (complement_set s)"
  by (simp add: case_closed_def test_complement)

lemma uc_swap: "c < 256 \<Longrightarrow> uc (char_of (swap_case c)) = swap_case c"
  by simp

lemma swap_ctype:
  assumes "c < 256"
  shows "isupper (char_of (swap_case c)) = islower (char_of c)" "islower (char_of (swap_case c)) = isupper (char_of c)"
    "isdigit (char_of (swap_case c)) = isdigit (char_of c)" "isxdigit (char_of (swap_case c)) = isxdigit (char_of c)"
    "isspace (char_of (swap_case c)) = isspace (char_of c)"
    "isalpha (char_of (swap_case c)) = isalpha (char_of c)" "isalnum (char_of (swap_case c)) = isalnum (char_of c)"
  using assms by (auto simp: ctype_defs swap_case_def)

lemma swap_bounds:
  "swap_case c = 32 \<longleftrightarrow> c = 32" "swap_case c = 9 \<longleftrightarrow> c = 9" "swap_case c = 127 \<longleftrightarrow> c = 127"
  "swap_case c < 32 \<longleftrightarrow> c < 32" "32 < swap_case c \<longleftrightarrow> 32 < c" "32 \<le> swap_case c \<longleftrightarrow> 32 \<le> c"
  "swap_case c < 127 \<longleftrightarrow> c < 127"
  by (auto simp: swap_case_def)

lemma posix_member_swap: "c < 256 \<Longrightarrow> posix_member name True (swap_case c) = posix_member name True c"
  unfolding posix_member_def Let_def by (simp only: swap_ctype swap_bounds simp_thms disj_commute)

lemma case_closed_posix: "posix_set name True s = Some t \<Longrightarrow> case_closed s \<Longrightarrow> case_closed t"
  by (simp add: case_closed_def test_posix_set posix_member_swap)

lemma try_posix_case:
  "try_posix_class E s a = (ok, t, b) \<Longrightarrow> pe_ci E \<Longrightarrow> case_closed s \<Longrightarrow> case_closed t"
  by (auto simp: try_posix_class_def Let_def split: prod.splits if_splits option.splits dest: case_closed_posix)

lemma class_loop_inv:
  "class_loop E first s a = (t, b) \<Longrightarrow> moves E a b \<and> (pe_ci E \<longrightarrow> case_closed s \<longrightarrow> case_closed t)"
proof (induction E first s a rule: class_loop.induct)
  case (1 E first s a)
  show ?case
  proof (cases "\<not> at_end E a \<and> (first \<or> peek E a 0 \<noteq> CHR '']'')")
    case go: True
    obtain ok s1 a1 where p: "(if peek E a 0 = CHR ''['' \<and> peek E a 1 = CHR '':'' then try_posix_class E s a
        else (False, s, a)) = (ok, s1, a1)" by (metis prod_cases3)
    have a1: "moves E a a1"
      using p posix_forward[of E s a ok s1 a1] by (auto split: if_splits)
    have s1: "pe_ci E \<Longrightarrow> case_closed s \<Longrightarrow> case_closed s1" using p try_posix_case by (auto split: if_splits)
    obtain x a2 where x: "read_class_byte E a1 = (x, a2)" by fastforce
    obtain y a3 where y: "read_class_byte E (skip E a2) = (y, a3)" by fastforce
    have a2: "moves E a1 a2" using class_byte_moves[OF x] by (rule moves_from_skip)
    have a3: "moves E a2 a3" by (rule moves_from_skip[OF moves_from_skip[OF class_byte_moves[OF y]]])
    note less = class_byte_less[OF x] class_byte_less[OF y]
    note step = class_loop.simps[of E first s a] and IH = 1(1-3)[OF go p[symmetric] refl refl]
    consider (posix) ok | (range) "\<not> ok" "peek E a2 0 = CHR ''-'' \<and> peek E a2 1 \<noteq> CHR '']'' \<and> peek E a2 1 \<noteq> NUL"
      | (byte) "\<not> ok" "\<not> (peek E a2 0 = CHR ''-'' \<and> peek E a2 1 \<noteq> CHR '']'' \<and> peek E a2 1 \<noteq> NUL)" by blast
    then show ?thesis
    proof cases
      case posix
      then have "class_loop E False s1 a1 = (t, b)" using 1(4) go p by (simp add: step)
      from IH(1)[OF posix this] a1 s1 show ?thesis by (blast intro: moves_trans)
    next
      case range
      then have "class_loop E False (add_range_ci s1 x y (pe_ci E)) a3 = (t, b)"
        using 1(4) go p x y by (simp add: step)
      from IH(2)[OF range(1) refl x[symmetric] range(2) refl y[symmetric] this] a1 a2 a3 s1 less show ?thesis
        by (auto intro: moves_trans case_closed_range)
    next
      case byte
      then have "class_loop E False (add_byte_ci s1 x (pe_ci E)) a2 = (t, b)"
        using 1(4) go p x by (simp add: step split: if_splits)
      from IH(3)[OF byte(1) refl x[symmetric] byte(2) this] a1 a2 s1 less show ?thesis
        by (auto intro: moves_trans case_closed_byte)
    qed
  next
    case False
    then show ?thesis using 1(4) by (auto simp: class_loop.simps[of E first s a])
  qed
qed

lemma parse_class_inv:
  assumes "parse_class E a = (n, b)"
  obtains s where "n = Class s" "moves E (skip E a) b" "pe_ci E \<Longrightarrow> case_closed s"
proof -
  let ?c = "if peek E (skip E a) 0 = CHR ''^'' then skip E (skip E a) else skip E a"
  obtain s d where d: "class_loop E True bs_clear ?c = (s, d)" by fastforce
  have "moves E (skip E a) ?c" by simp
  also have "moves E ?c d" using class_loop_inv[OF d] by blast
  finally have m: "moves E (skip E a) d" .
  then have m': "moves E (skip E a) (skip E d)" by (rule moves_trans) simp
  have c: "pe_ci E \<Longrightarrow> case_closed s" using class_loop_inv[OF d] case_closed_clear by blast
  show ?thesis
    using assms d m m' c case_closed_complement
    by (auto simp: parse_class_def Let_def split: if_splits intro: that)
qed

section \<open>Properties\<close>

text \<open>C11. A character class means what is written: for every sequence of bytes, ranges (in
either order of their bounds) and POSIX names, \<open>parse_class\<close> consumes exactly the class
and its set has the bytes some item stands for, with \<open>[^...]\<close> the others, and with the
case-insensitive flag each letter in both cases.\<close>

theorem parse_class_members:
  assumes r: "rest E st = class_text neg items @ ys"
    and ok: "\<forall>it\<in>set items. item_ok it" "items \<noteq> []"
  shows "\<exists>s. parse_class E st = (Class s, fwd (length (class_text neg items)) st) \<and>
    (\<forall>c<256. bs_test s c \<longleftrightarrow> neg \<noteq> (\<exists>it\<in>set items. item_has (pe_ci E) it c))"
proof -
  let ?k = "if neg then 2 else 1"
  obtain it its where it: "items = it # its" using ok(2) by (cases items) auto
  obtain c cs where c: "item_text it = c # cs" "c \<noteq> CHR ''^''" using item_text_start ok(1) it by force
  have r': "rest E (fwd ?k st) = concat (map item_text items) @ CHR '']'' # ys"
    using r by (simp add: rest_fwd class_text_def)
  obtain t where t: "class_loop E True bs_clear (fwd ?k st) =
      (t, fwd (length (concat (map item_text items))) (fwd ?k st))"
    "\<forall>c<256. bs_test t c \<longleftrightarrow> (\<exists>it\<in>set items. item_has (pe_ci E) it c)"
    using class_loop_items[OF r' ok(1), of True bs_clear] ok(2) by (auto simp: bs_test_clear)
  let ?e = "fwd (?k + length (concat (map item_text items))) st"
  have e: "rest E ?e = CHR '']'' # ys" using r' by (simp only: fwd_fwd[symmetric] rest_fwd[of _ _ "fwd ?k st"]) simp
  have p: "parse_class E st = (Class (if neg then complement_set t else t), skip E ?e)"
    using r c it t(1) e
    by (cases neg) (simp_all add: parse_class_def class_text_def advance_rest peek_rest rest_fwd fwd_fwd numeral_2_eq_2)
  have "skip E ?e = fwd (length (class_text neg items)) st"
    using e by (simp add: advance_rest length_class_text fwd_fwd)
  with p t(2) show ?thesis
    by (intro exI[of _ "if neg then complement_set t else t"]) (auto simp: test_complement)
qed

lemma parse_class_members_witness:
  fixes E st
  defines "E \<equiv> \<lparr>pe_src = class_text True [Posix ''digit''], pe_macros = (\<lambda>_. None), pe_ci = False,
    pe_loc = \<lparr>sl_file = [], sl_line = 0, sl_col = 0\<rparr>, pe_expanding = {}\<rparr>"
    and "st \<equiv> \<lparr>ps_pos = 0, ps_diag = no_diag\<rparr>"
  shows "\<exists>s st'. parse_class E st = (Class s, st') \<and> bs_test s 65 \<and> \<not> bs_test s 48"
proof -
  have "rest E st = class_text True [Posix ''digit''] @ []" by (simp add: rest_def E_def st_def)
  from parse_class_members[OF this] obtain s
    where s: "parse_class E st = (Class s, fwd (length (class_text True [Posix ''digit''])) st)"
      "\<forall>c<256. bs_test s c \<longleftrightarrow> \<not> posix_member ''digit'' (pe_ci E) c"
    by (auto simp: posix_names_def)
  moreover have "posix_member ''digit'' (pe_ci E) 48" "\<not> posix_member ''digit'' (pe_ci E) 65"
    by (simp_all add: posix_member_def isdigit_def)
  ultimately show ?thesis by (intro exI[of _ s] exI conjI) (assumption | simp)+
qed

end
