(* ===== verification/Regex_Parser.thy ===== *)
theory Regex_Parser
  imports Regex_Class "HOL-Library.Monad_Syntax"
begin

text \<open>
  The recursive part of \<open>class Parser\<close> of \<open>src/src/regex.cpp\<close> and \<open>parse_pattern\<close>.
  The C++ functions call each other without a bound the type of a pattern would give, since a
  macro is parsed by a parser of its own on the text of the macro; the model counts calls
  with fuel, and \<open>None\<close> is only that the fuel ran out. \<open>parser_fuel\<close> is enough for every
  pattern over finitely many macros. A null tree is \<open>Null\<close>.
\<close>

section \<open>The parser\<close>

definition is_concat_terminator :: "char \<Rightarrow> bool" where
  "is_concat_terminator c \<longleftrightarrow> c = NUL \<or> c = CHR ''|'' \<or> c = CHR '')'' \<or> c = CHR ''$''"

definition postfix_op :: "penv \<Rightarrow> node \<Rightarrow> pst \<Rightarrow> node \<times> pst" where
  "postfix_op E p st =
     (let c = peek E st 0
      in if c = CHR ''*'' then (Star p, skip E st)
         else if c = CHR ''+'' then (Plus p, skip E st)
         else if c = CHR ''?'' then (Question p, skip E st)
         else if c = CHR ''{'' then
           (if isdigit (peek E st 1) then parse_repeat E p st else (p, st))
         else (p, st))"

definition or_empty :: "node \<Rightarrow> node" where
  "or_empty n = (if n = Null then Empty else n)"

text \<open>The end of a group, after its inner tree has been read.\<close>

definition close_group :: "penv \<Rightarrow> node \<Rightarrow> pst \<Rightarrow> node \<times> pst" where
  "close_group E inner st =
     (if peek E st 0 \<noteq> CHR '')''
      then (Null, report E (''unmatched '' @ [CHR 0x27, CHR ''('', CHR 0x27] @ '' in regex'') st)
      else (or_empty inner, skip E st))"

text \<open>The primaries that need no further parsing.\<close>

definition parse_atom :: "penv \<Rightarrow> pst \<Rightarrow> node \<times> pst" where
  "parse_atom E st =
     (let c = peek E st 0
      in if c = CHR ''['' then parse_class E st
         else if c = CHR 0x22 then parse_quoted E st
         else if c = CHR ''.'' then (any_byte_except_nl, skip E st)
         else if c = CHR 0x5C then parse_escape_atom E st
         else if c = CHR '')'' \<or> c = CHR ''|'' \<or> c = CHR ''$'' then (Null, st)
         else if c = NUL then (Null, st)
         else (lit_node (uc c) (pe_ci E), skip E st))"

text \<open>
  The start of \<open>parse_macro\<close>: a tree when there is nothing to expand (a literal brace or an
  error), otherwise the name, the text of the macro and the cursor behind the closing brace.
\<close>

definition open_macro :: "penv \<Rightarrow> pst \<Rightarrow> (node \<times> pst) + (string \<times> string \<times> pst)" where
  "open_macro E st =
     (let save = ps_pos st; (name, st) = name_loop E [] (skip E st)
      in if name = [] \<or> peek E st 0 \<noteq> CHR ''}''
         then Inl (lit_node (uc (CHR ''{'')) (pe_ci E), skip E (st\<lparr>ps_pos := save\<rparr>))
         else let st = skip E st
              in if name \<in> pe_expanding E
                 then Inl (Empty, report E (''recursive macro expansion: {'' @ name @ ''}'') st)
                 else case pe_macros E name of
                   None \<Rightarrow> Inl (Empty, report E (''undefined macro: {'' @ name @ ''}'') st)
                 | Some expansion \<Rightarrow> Inr (name, expansion, st))"

text \<open>The members of the parser that reads the text of a macro.\<close>

definition sub_env :: "penv \<Rightarrow> string \<Rightarrow> string \<Rightarrow> penv" where
  "sub_env E name expansion = E\<lparr>pe_src := expansion, pe_expanding := insert name (pe_expanding E)\<rparr>"

definition sub_start :: "pst \<Rightarrow> pst" where
  "sub_start st = st\<lparr>ps_pos := 0\<rparr>"

definition sub_end :: "pst \<Rightarrow> pst \<Rightarrow> pst" where
  "sub_end st sub = st\<lparr>ps_diag := ps_diag sub\<rparr>"

function (sequential) parse_alt :: "nat \<Rightarrow> penv \<Rightarrow> pst \<Rightarrow> (node \<times> pst) option"
  and alt_loop :: "nat \<Rightarrow> penv \<Rightarrow> node \<Rightarrow> pst \<Rightarrow> (node \<times> pst) option"
  and parse_concat :: "nat \<Rightarrow> penv \<Rightarrow> pst \<Rightarrow> (node \<times> pst) option"
  and concat_loop :: "nat \<Rightarrow> penv \<Rightarrow> node \<Rightarrow> pst \<Rightarrow> (node \<times> pst) option"
  and parse_postfix :: "nat \<Rightarrow> penv \<Rightarrow> pst \<Rightarrow> (node \<times> pst) option"
  and parse_primary :: "nat \<Rightarrow> penv \<Rightarrow> pst \<Rightarrow> (node \<times> pst) option"
  and parse_macro :: "nat \<Rightarrow> penv \<Rightarrow> pst \<Rightarrow> (node \<times> pst) option"
where
  "parse_alt 0 E st = None"
| "parse_alt (Suc f) E st = do { (l, st) \<leftarrow> parse_concat f E st; alt_loop f E l st }"
| "alt_loop 0 E l st = None"
| "alt_loop (Suc f) E l st =
     (if peek E st 0 = CHR ''|''
      then do { (r, st) \<leftarrow> parse_concat f E (skip E st); alt_loop f E (Alt l r) st }
      else Some (l, st))"
| "parse_concat 0 E st = None"
| "parse_concat (Suc f) E st = do { (acc, st) \<leftarrow> concat_loop f E Null st; Some (or_empty acc, st) }"
| "concat_loop 0 E acc st = None"
| "concat_loop (Suc f) E acc st =
     (if \<not> at_end E st \<and> \<not> is_concat_terminator (peek E st 0)
      then do {
        (p, st) \<leftarrow> parse_postfix f E st;
        if p = Null then Some (acc, st) else concat_loop f E (concat_node acc p) st }
      else Some (acc, st))"
| "parse_postfix 0 E st = None"
| "parse_postfix (Suc f) E st = do {
     (p, st) \<leftarrow> parse_primary f E st;
     Some (if p = Null then (Null, st) else postfix_op E p st) }"
| "parse_primary 0 E st = None"
| "parse_primary (Suc f) E st =
     (if peek E st 0 = CHR ''(''
      then do { (inner, st) \<leftarrow> parse_alt f E (skip E st); Some (close_group E inner st) }
      else if peek E st 0 = CHR ''{'' then parse_macro f E st
      else Some (parse_atom E st))"
| "parse_macro 0 E st = None"
| "parse_macro (Suc f) E st =
     (case open_macro E st of
        Inl r \<Rightarrow> Some r
      | Inr (name, expansion, st) \<Rightarrow> do {
          (inner, sub) \<leftarrow> parse_alt f (sub_env E name expansion) (sub_start st);
          Some (or_empty inner, sub_end st sub) })"

  by pat_completeness auto
termination
  by (relation "measure (case_sum (case_sum fst (case_sum fst fst)) (case_sum (case_sum fst fst) (case_sum fst fst)))")
    simp_all

declare parse_alt.simps [simp del] alt_loop.simps [simp del] parse_concat.simps [simp del]
  concat_loop.simps [simp del] parse_postfix.simps [simp del] parse_primary.simps [simp del]
  parse_macro.simps [simp del]

lemmas parser_simps = parse_alt.simps alt_loop.simps parse_concat.simps concat_loop.simps
  parse_postfix.simps parse_primary.simps parse_macro.simps

section \<open>What the parser returns\<close>

text \<open>
  A tree the parser returns for a part of a pattern has no null pointer, no anchor and no
  boundary marker in it: those are added at the root only, where the builder looks for them.
  With \<open>ci\<close>, all its classes are closed under the exchange of case.
\<close>

primrec plain :: "node \<Rightarrow> bool" where
  "plain Null \<longleftrightarrow> False"
| "plain Empty \<longleftrightarrow> True"
| "plain (Class s) \<longleftrightarrow> True"
| "plain (Concat a b) \<longleftrightarrow> plain a \<and> plain b"
| "plain (Alt a b) \<longleftrightarrow> plain a \<and> plain b"
| "plain (Star a) \<longleftrightarrow> plain a"
| "plain (Plus a) \<longleftrightarrow> plain a"
| "plain (Question a) \<longleftrightarrow> plain a"
| "plain (Repeat a lo hi) \<longleftrightarrow> plain a"
| "plain AnchorBOL \<longleftrightarrow> False"
| "plain AnchorEOL \<longleftrightarrow> False"
| "plain TrailBoundary \<longleftrightarrow> False"

primrec cased :: "node \<Rightarrow> bool" where
  "cased Null \<longleftrightarrow> True"
| "cased Empty \<longleftrightarrow> True"
| "cased (Class s) \<longleftrightarrow> case_closed s"
| "cased (Concat a b) \<longleftrightarrow> cased a \<and> cased b"
| "cased (Alt a b) \<longleftrightarrow> cased a \<and> cased b"
| "cased (Star a) \<longleftrightarrow> cased a"
| "cased (Plus a) \<longleftrightarrow> cased a"
| "cased (Question a) \<longleftrightarrow> cased a"
| "cased (Repeat a lo hi) \<longleftrightarrow> cased a"
| "cased AnchorBOL \<longleftrightarrow> True"
| "cased AnchorEOL \<longleftrightarrow> True"
| "cased TrailBoundary \<longleftrightarrow> True"

definition well :: "bool \<Rightarrow> node \<Rightarrow> bool" where
  "well ci n \<longleftrightarrow> plain n \<and> (ci \<longrightarrow> cased n)"

lemma well_simps [simp]:
  "\<not> well ci Null" "well ci Empty" "well ci (Alt a b) \<longleftrightarrow> well ci a \<and> well ci b"
  "well ci (Concat a b) \<longleftrightarrow> well ci a \<and> well ci b" "well ci (Star a) \<longleftrightarrow> well ci a"
  "well ci (Plus a) \<longleftrightarrow> well ci a" "well ci (Question a) \<longleftrightarrow> well ci a"
  "well ci (Repeat a lo hi) \<longleftrightarrow> well ci a" "well ci (Class s) \<longleftrightarrow> (ci \<longrightarrow> case_closed s)"
  by (auto simp: well_def)

lemma well_or_empty: "n = Null \<or> well ci n \<Longrightarrow> well ci (or_empty n)"
  by (auto simp: or_empty_def)

lemma well_concat_node: "a = Null \<or> well ci a \<Longrightarrow> well ci b \<Longrightarrow> well ci (concat_node a b)"
  by (auto simp: concat_node_def)

lemma well_lit: "b < 256 \<Longrightarrow> well ci (lit_node b ci)"
  using case_closed_byte[OF _ case_closed_clear] by (cases ci) (simp_all add: lit_node_def)

lemma well_any: "well ci any_byte_except_nl"
proof -
  have "case_closed (fold (\<lambda>b s. if b \<noteq> 10 then bs_add s b else s) [0..<256] bs_clear)"
    by (auto simp: case_closed_def bset.test_fold_filter swap_case_def)
  then show ?thesis by (simp only: any_byte_except_nl_def well_simps simp_thms)
qed

text \<open>The results of the functions that do not recurse.\<close>

lemma quoted_loop_well:
  "quoted_loop E acc a = (n, b) \<Longrightarrow> acc = Null \<or> well (pe_ci E) acc \<Longrightarrow> n = Null \<or> well (pe_ci E) n"
proof (induction E acc a rule: quoted_loop.induct)
  case (1 E acc a)
  show ?case
  proof (cases "\<not> at_end E a \<and> peek E a 0 \<noteq> CHR 0x22")
    case True
    obtain c a' where c: "read_class_byte E a = (c, a')" by fastforce
    have "well (pe_ci E) (concat_node acc (lit_node c (pe_ci E)))"
      using 1(3) well_lit[OF class_byte_less[OF c]] by (rule well_concat_node)
    with 1(1)[OF True c[symmetric] refl] 1(2) True c show ?thesis
      by (simp add: quoted_loop.simps[of E acc a])
  qed (use 1 in \<open>auto simp: quoted_loop.simps[of E acc a]\<close>)
qed

lemma parse_quoted_well: "parse_quoted E a = (n, b) \<Longrightarrow> well (pe_ci E) n"
  using well_or_empty[OF quoted_loop_well]
  by (auto simp: parse_quoted_def or_empty_def[symmetric] Let_def split: prod.splits if_splits)

lemma parse_repeat_well: "parse_repeat E p a = (n, b) \<Longrightarrow> well ci p \<Longrightarrow> well ci n"
  by (auto simp: parse_repeat_def Let_def split: prod.splits if_splits)

text \<open>
  \<open>reads E a r\<close>: the result \<open>r\<close> is null, or a well-formed tree read from at least one
  character; \<open>stays\<close> is the same without progress and without a null result.
\<close>

definition reads :: "penv \<Rightarrow> pst \<Rightarrow> node \<times> pst \<Rightarrow> bool" where
  "reads E a r \<longleftrightarrow> moves E a (snd r) \<and>
     (fst r = Null \<or> well (pe_ci E) (fst r) \<and> \<not> at_end E a \<and> moves E (skip E a) (snd r))"

definition stays :: "penv \<Rightarrow> pst \<Rightarrow> node \<times> pst \<Rightarrow> bool" where
  "stays E a r \<longleftrightarrow> well (pe_ci E) (fst r) \<and> moves E a (snd r)"

lemma readsI:
  "well (pe_ci E) n \<Longrightarrow> \<not> at_end E a \<Longrightarrow> moves E (skip E a) b \<Longrightarrow> reads E a (n, b)"
  by (auto simp: reads_def dest: moves_from_skip)

lemma reads_Null [simp]: "reads E a (Null, b) \<longleftrightarrow> moves E a b"
  by (auto simp: reads_def)

lemma reads_less: "reads E a (n, b) \<Longrightarrow> n \<noteq> Null \<Longrightarrow> ps_pos a < ps_pos b"
  by (auto simp: reads_def dest: moves_skip_less)

lemma postfix_op_reads: "reads E a (p, b) \<Longrightarrow> p \<noteq> Null \<Longrightarrow> reads E a (postfix_op E p b)"
proof -
  assume r: "reads E a (p, b)" and p: "p \<noteq> Null"
  obtain n c where c: "parse_repeat E p b = (n, c)" by fastforce
  from r p have b: "well (pe_ci E) p" "\<not> at_end E a" "moves E (skip E a) b" by (simp_all add: reads_def)
  have s: "moves E (skip E a) (skip E b)" using b(3) by (rule moves_trans) simp
  have "moves E (skip E a) c" using b(3) repeat_moves[OF c] by (rule moves_trans)
  with b s parse_repeat_well[OF c] show ?thesis
    by (auto simp: postfix_op_def Let_def c intro!: readsI)
qed

lemma parse_atom_reads:
  assumes "peek E a 0 \<noteq> CHR ''(''" "peek E a 0 \<noteq> CHR ''{''"
  shows "reads E a (parse_atom E a)"
proof -
  obtain n1 b1 where c: "parse_class E a = (n1, b1)" by fastforce
  obtain n2 b2 where q: "parse_quoted E a = (n2, b2)" by fastforce
  obtain v b3 where e: "read_escape_byte E a = (v, b3)" by fastforce
  have ne: "peek E a 0 \<noteq> NUL \<Longrightarrow> \<not> at_end E a" by (rule peek_not_NUL)
  have c': "peek E a 0 \<noteq> NUL \<Longrightarrow> reads E a (n1, b1)"
    using parse_class_inv[OF c] ne by (metis readsI well_simps(9))
  have q': "peek E a 0 \<noteq> NUL \<Longrightarrow> reads E a (n2, b2)"
    using parse_quoted_well[OF q] quoted_moves[OF q] ne by (blast intro: readsI)
  have e': "peek E a 0 \<noteq> NUL \<Longrightarrow> reads E a (lit_node v (pe_ci E), b3)"
    using well_lit[OF escape_byte_less[OF e]] escape_moves[OF e] ne by (blast intro: readsI)
  have l: "well (pe_ci E) (lit_node (uc (peek E a 0)) (pe_ci E))" by (rule well_lit) simp
  show ?thesis
    unfolding parse_atom_def Let_def c q
    using c' q' e' l ne well_any by (auto simp: parse_escape_atom_def e intro!: readsI)
qed

lemma open_macro_reads:
  assumes "peek E a 0 = CHR ''{''"
  shows "case open_macro E a of Inl r \<Rightarrow> reads E a r
     | Inr (name, expansion, b) \<Rightarrow>
         \<not> at_end E a \<and> moves E (skip E a) b \<and> name \<notin> pe_expanding E \<and> pe_macros E name = Some expansion"
proof -
  obtain name c where c: "name_loop E [] (skip E a) = (name, c)" by fastforce
  have ne: "\<not> at_end E a" using assms by (intro peek_not_NUL) simp
  have m: "moves E (skip E a) (skip E c)"
    using name_loop_moves[OF c] by (rule moves_trans) simp
  have b: "skip E (c\<lparr>ps_pos := ps_pos a\<rparr>) = (skip E a)\<lparr>ps_diag := ps_diag c\<rparr>"
    by (simp add: advance_def)
  have m2: "moves E (skip E a) ((skip E a)\<lparr>ps_diag := ps_diag c\<rparr>)" by (simp add: moves_def)
  have l: "well (pe_ci E) (lit_node (uc (CHR ''{'')) (pe_ci E))" by (rule well_lit) simp
  show ?thesis
    using ne m m2 l
    by (auto simp: open_macro_def Let_def c b split: option.splits intro!: readsI)
qed

lemma close_group_reads:
  assumes "\<not> at_end E a" "stays E (skip E a) (n, b)"
  shows "reads E a (close_group E n b)"
proof -
  have m: "moves E (skip E a) b" and w: "well (pe_ci E) n" using assms(2) by (simp_all add: stays_def)
  have m2: "moves E (skip E a) (skip E b)" using m by (rule moves_trans) simp
  have w2: "well (pe_ci E) (or_empty n)" using w by (intro well_or_empty) simp
  show ?thesis
    using assms(1) m m2 w2 by (auto simp: close_group_def intro!: readsI dest: moves_from_skip)
qed

lemma sub_env_simps [simp]:
  "pe_ci (sub_env E name s) = pe_ci E" "pe_src (sub_env E name s) = s" "pe_macros (sub_env E name s) = pe_macros E"
  "pe_expanding (sub_env E name s) = insert name (pe_expanding E)" "ps_pos (sub_start st) = 0"
  "ps_pos (sub_end st sub) = ps_pos st"
  by (simp_all add: sub_env_def sub_start_def sub_end_def)

text \<open>The parser keeps these invariants, whatever the fuel.\<close>

definition parser_ok :: "nat \<Rightarrow> bool" where
  "parser_ok f \<longleftrightarrow> (\<forall>E a r.
     (parse_alt f E a = Some r \<longrightarrow> stays E a r) \<and>
     (\<forall>l. alt_loop f E l a = Some r \<longrightarrow> well (pe_ci E) l \<longrightarrow> stays E a r) \<and>
     (parse_concat f E a = Some r \<longrightarrow> stays E a r) \<and>
     (\<forall>acc. concat_loop f E acc a = Some r \<longrightarrow> acc = Null \<or> well (pe_ci E) acc \<longrightarrow>
        (fst r = Null \<or> well (pe_ci E) (fst r)) \<and> moves E a (snd r)) \<and>
     (parse_postfix f E a = Some r \<longrightarrow> reads E a r) \<and>
     (parse_primary f E a = Some r \<longrightarrow> reads E a r) \<and>
     (peek E a 0 = CHR ''{'' \<longrightarrow> parse_macro f E a = Some r \<longrightarrow> reads E a r))"

lemma parser_okD:
  assumes "parser_ok f"
  shows "parse_alt f E a = Some r \<Longrightarrow> stays E a r"
    "alt_loop f E l a = Some r \<Longrightarrow> well (pe_ci E) l \<Longrightarrow> stays E a r"
    "parse_concat f E a = Some r \<Longrightarrow> stays E a r"
    "concat_loop f E acc a = Some r \<Longrightarrow> acc = Null \<or> well (pe_ci E) acc \<Longrightarrow>
       (fst r = Null \<or> well (pe_ci E) (fst r)) \<and> moves E a (snd r)"
    "parse_postfix f E a = Some r \<Longrightarrow> reads E a r"
    "parse_primary f E a = Some r \<Longrightarrow> reads E a r"
    "peek E a 0 = CHR ''{'' \<Longrightarrow> parse_macro f E a = Some r \<Longrightarrow> reads E a r"
  using assms unfolding parser_ok_def by blast+

lemma alt_step:
  assumes ok: "parser_ok f" and r: "parse_alt (Suc f) E a = Some r"
  shows "stays E a r"
proof -
  from r obtain l b where l: "parse_concat f E a = Some (l, b)" "alt_loop f E l b = Some r"
    by (auto simp: parser_simps bind_eq_Some_conv)
  from parser_okD(3)[OF ok l(1)] have s: "stays E a (l, b)" .
  with parser_okD(2)[OF ok l(2)] have "stays E b r" by (simp add: stays_def)
  with s show ?thesis by (auto simp: stays_def intro: moves_trans)
qed

lemma alt_loop_step:
  assumes ok: "parser_ok f" and r: "alt_loop (Suc f) E l a = Some r" and l: "well (pe_ci E) l"
  shows "stays E a r"
proof (cases "peek E a 0 = CHR ''|''")
  case True
  with r obtain n b where n: "parse_concat f E (skip E a) = Some (n, b)" "alt_loop f E (Alt l n) b = Some r"
    by (auto simp: parser_simps bind_eq_Some_conv)
  from parser_okD(3)[OF ok n(1)] have s: "stays E (skip E a) (n, b)" .
  then have "well (pe_ci E) (Alt l n)" using l by (simp add: stays_def)
  with parser_okD(2)[OF ok n(2)] have "stays E b r" by blast
  with s show ?thesis by (auto simp: stays_def intro: moves_trans moves_from_skip)
qed (use r l in \<open>auto simp: parser_simps stays_def\<close>)

lemma concat_step:
  assumes ok: "parser_ok f" and r: "parse_concat (Suc f) E a = Some r"
  shows "stays E a r"
proof -
  from r obtain acc b where b: "concat_loop f E Null a = Some (acc, b)" "r = (or_empty acc, b)"
    by (auto simp: parser_simps bind_eq_Some_conv)
  with parser_okD(4)[OF ok b(1)] show ?thesis by (auto simp: stays_def intro: well_or_empty)
qed

lemma concat_loop_step:
  assumes ok: "parser_ok f" and r: "concat_loop (Suc f) E acc a = Some r"
    and acc: "acc = Null \<or> well (pe_ci E) acc"
  shows "(fst r = Null \<or> well (pe_ci E) (fst r)) \<and> moves E a (snd r)"
proof (cases "\<not> at_end E a \<and> \<not> is_concat_terminator (peek E a 0)")
  case True
  with r obtain p b where p: "parse_postfix f E a = Some (p, b)"
    and more: "(if p = Null then Some (acc, b) else concat_loop f E (concat_node acc p) b) = Some r"
    by (auto simp: parser_simps bind_eq_Some_conv)
  from parser_okD(5)[OF ok p] have rd: "reads E a (p, b)" .
  show ?thesis
  proof (cases "p = Null")
    case True
    then show ?thesis using more rd acc by (auto simp: reads_def)
  next
    case False
    then have "well (pe_ci E) (concat_node acc p)" using rd acc by (simp add: reads_def well_concat_node)
    then have "(fst r = Null \<or> well (pe_ci E) (fst r)) \<and> moves E b (snd r)"
      using parser_okD(4)[OF ok, of E "concat_node acc p" b r] more False by simp
    with rd show ?thesis by (auto simp: reads_def intro: moves_trans)
  qed
qed (use r acc in \<open>auto simp: parser_simps\<close>)

lemma postfix_step:
  assumes ok: "parser_ok f" and r: "parse_postfix (Suc f) E a = Some r"
  shows "reads E a r"
proof -
  from r obtain p b where p: "parse_primary f E a = Some (p, b)"
    "r = (if p = Null then (Null, b) else postfix_op E p b)"
    by (auto simp: parser_simps bind_eq_Some_conv)
  from parser_okD(6)[OF ok p(1)] p(2) show ?thesis by (auto intro: postfix_op_reads)
qed

lemma macro_step:
  assumes ok: "parser_ok f" and c: "peek E a 0 = CHR ''{''" and r: "parse_macro (Suc f) E a = Some r"
  shows "reads E a r"
proof (cases "open_macro E a")
  case (Inl q)
  then show ?thesis using open_macro_reads[OF c] r by (simp add: parser_simps)
next
  case (Inr q)
  obtain name s b where q: "q = (name, s, b)" by (cases q)
  with r Inr obtain n sub
    where n: "parse_alt f (sub_env E name s) (sub_start b) = Some (n, sub)" "r = (or_empty n, sub_end b sub)"
    by (auto simp: parser_simps bind_eq_Some_conv)
  from parser_okD(1)[OF ok n(1)] have "well (pe_ci E) n" by (simp add: stays_def)
  moreover have "\<not> at_end E a \<and> moves E (skip E a) (sub_end b sub)"
    using open_macro_reads[OF c] Inr q by (simp add: moves_def)
  ultimately show ?thesis using n(2) by (auto intro!: readsI well_or_empty)
qed

lemma primary_step:
  assumes ok: "parser_ok f" and r: "parse_primary (Suc f) E a = Some r"
  shows "reads E a r"
proof -
  consider (group) "peek E a 0 = CHR ''(''" | (mac) "peek E a 0 = CHR ''{''"
    | (atom) "peek E a 0 \<noteq> CHR ''(''" "peek E a 0 \<noteq> CHR ''{''" by blast
  then show ?thesis
  proof cases
    case group
    with r obtain n b where n: "parse_alt f E (skip E a) = Some (n, b)" "r = close_group E n b"
      by (auto simp: parser_simps bind_eq_Some_conv)
    have "\<not> at_end E a" using group by (intro peek_not_NUL) simp
    from close_group_reads[OF this parser_okD(1)[OF ok n(1)]] n(2) show ?thesis by simp
  next
    case mac
    then show ?thesis using r parser_okD(7)[OF ok mac] by (simp add: parser_simps)
  next
    case atom
    then show ?thesis using r parse_atom_reads[OF atom] by (auto simp: parser_simps)
  qed
qed

lemma parser_ok: "parser_ok f"
proof (induction f)
  case 0
  then show ?case by (simp add: parser_ok_def parser_simps)
next
  case (Suc f)
  note one = alt_step[OF Suc] concat_step[OF Suc] postfix_step[OF Suc] primary_step[OF Suc]
    and two = alt_loop_step[OF Suc] macro_step[OF Suc]
      conjunct1[OF concat_loop_step[OF Suc]] conjunct2[OF concat_loop_step[OF Suc]]
  show ?case
    unfolding parser_ok_def
    by (intro allI conjI impI) (erule one | erule (1) two)+
qed

lemmas parser_inv = parser_okD[OF parser_ok]

section \<open>Fuel\<close>

text \<open>
  A chain of calls on one text has at most six links between two characters it consumes,
  and a macro that is being expanded is not opened again: with \<open>B\<close> a bound on the
  length of the macro texts, \<open>calls\<close> bounds the depth of the calls from the cursor \<open>a\<close>.
\<close>

definition unopened :: "penv \<Rightarrow> nat" where
  "unopened E = card (dom (pe_macros E) - pe_expanding E)"

definition left_over :: "penv \<Rightarrow> pst \<Rightarrow> nat" where
  "left_over E a = length (pe_src E) - ps_pos a"

definition calls :: "nat \<Rightarrow> penv \<Rightarrow> pst \<Rightarrow> nat" where
  "calls B E a = (6 * B + 7) * unopened E + 6 * left_over E a"

definition macros_bounded :: "nat \<Rightarrow> (string \<Rightarrow> string option) \<Rightarrow> bool" where
  "macros_bounded B macros \<longleftrightarrow> finite (dom macros) \<and> (\<forall>name s. macros name = Some s \<longrightarrow> length s \<le> B)"

definition enough :: "nat \<Rightarrow> nat \<Rightarrow> bool" where
  "enough B f \<longleftrightarrow> (\<forall>E a. macros_bounded B (pe_macros E) \<longrightarrow>
     (calls B E a + 6 \<le> f \<longrightarrow> parse_alt f E a \<noteq> None) \<and>
     (\<forall>l. calls B E a + 1 \<le> f \<longrightarrow> well (pe_ci E) l \<longrightarrow> alt_loop f E l a \<noteq> None) \<and>
     (calls B E a + 5 \<le> f \<longrightarrow> parse_concat f E a \<noteq> None) \<and>
     (\<forall>acc. calls B E a + 4 \<le> f \<longrightarrow> concat_loop f E acc a \<noteq> None) \<and>
     (calls B E a + 3 \<le> f \<longrightarrow> parse_postfix f E a \<noteq> None) \<and>
     (calls B E a + 2 \<le> f \<longrightarrow> parse_primary f E a \<noteq> None) \<and>
     (peek E a 0 = CHR ''{'' \<longrightarrow> calls B E a + 1 \<le> f \<longrightarrow> parse_macro f E a \<noteq> None))"

lemma enoughD:
  assumes "enough B f" "macros_bounded B (pe_macros E)"
  shows "calls B E a + 6 \<le> f \<Longrightarrow> parse_alt f E a \<noteq> None"
    "calls B E a + 1 \<le> f \<Longrightarrow> well (pe_ci E) l \<Longrightarrow> alt_loop f E l a \<noteq> None"
    "calls B E a + 5 \<le> f \<Longrightarrow> parse_concat f E a \<noteq> None"
    "calls B E a + 4 \<le> f \<Longrightarrow> concat_loop f E acc a \<noteq> None"
    "calls B E a + 3 \<le> f \<Longrightarrow> parse_postfix f E a \<noteq> None"
    "calls B E a + 2 \<le> f \<Longrightarrow> parse_primary f E a \<noteq> None"
    "peek E a 0 = CHR ''{'' \<Longrightarrow> calls B E a + 1 \<le> f \<Longrightarrow> parse_macro f E a \<noteq> None"
  using assms unfolding enough_def by blast+

lemma calls_moves: "moves E a b \<Longrightarrow> calls B E b \<le> calls B E a"
  by (auto simp: calls_def left_over_def moves_def)

lemma calls_skip: "\<not> at_end E a \<Longrightarrow> calls B E (skip E a) + 6 = calls B E a"
  by (auto simp: calls_def left_over_def skip_pos at_end_def)

lemma calls_forward: "\<not> at_end E a \<Longrightarrow> moves E (skip E a) b \<Longrightarrow> calls B E b + 6 \<le> calls B E a"
  using calls_moves[of E "skip E a" b B] calls_skip[of E a B] by simp

lemma calls_reads: "reads E a (p, b) \<Longrightarrow> p \<noteq> Null \<Longrightarrow> calls B E b + 6 \<le> calls B E a"
  by (auto simp: reads_def intro: calls_forward)

lemma unopened_sub:
  assumes "macros_bounded B (pe_macros E)" "name \<notin> pe_expanding E" "pe_macros E name = Some s"
  shows "unopened E = Suc (unopened (sub_env E name s))"
proof -
  let ?S = "dom (pe_macros E) - pe_expanding E"
  have "name \<in> ?S" "finite ?S" using assms by (auto simp: macros_bounded_def)
  then have "card ?S = Suc (card (?S - {name}))" by (metis card.remove)
  moreover have "?S - {name} = dom (pe_macros E) - insert name (pe_expanding E)" by blast
  ultimately show ?thesis by (simp add: unopened_def)
qed

lemma calls_macro:
  assumes "macros_bounded B (pe_macros E)" "name \<notin> pe_expanding E" "pe_macros E name = Some s"
  shows "calls B (sub_env E name s) (sub_start b) + 6 < calls B E a + 1"
proof -
  have "length s \<le> B" using assms(1,3) by (auto simp: macros_bounded_def)
  then show ?thesis by (simp add: calls_def left_over_def unopened_sub[OF assms])
qed

lemma bind_not_None: "(x \<bind> g) \<noteq> None \<longleftrightarrow> (\<exists>y. x = Some y \<and> g y \<noteq> None)"
  by (cases x) auto

lemma enough_all: "enough B f"
proof (induction f)
  case 0
  then show ?case by (simp add: enough_def)
next
  case (Suc f)
  show ?case
    unfolding enough_def
  proof (intro allI impI conjI)
    fix E :: penv and a :: pst
    assume m: "macros_bounded B (pe_macros E)"
    note IH = enoughD[OF Suc m]
    show "parse_alt (Suc f) E a \<noteq> None" if f: "calls B E a + 6 \<le> Suc f"
    proof -
      obtain l b where b: "parse_concat f E a = Some (l, b)" using IH(3)[of a] f by auto
      with parser_inv(3)[OF b] calls_moves[of E a b B] f show ?thesis
        using IH(2)[of b l] by (auto simp: parser_simps stays_def)
    qed
    show "alt_loop (Suc f) E l a \<noteq> None" if f: "calls B E a + 1 \<le> Suc f" "well (pe_ci E) l" for l
    proof (cases "peek E a 0 = CHR ''|''")
      case True
      have ne: "\<not> at_end E a" using True by (intro peek_not_NUL) simp
      obtain n b where b: "parse_concat f E (skip E a) = Some (n, b)"
        using IH(3)[of "skip E a"] f calls_skip[OF ne, of B] by auto
      with parser_inv(3)[OF b] calls_forward[OF ne, of b B] f show ?thesis
        using True IH(2)[of b "Alt l n"] by (auto simp: parser_simps stays_def)
    qed (simp add: parser_simps)
    show "parse_concat (Suc f) E a \<noteq> None" if f: "calls B E a + 5 \<le> Suc f"
      using IH(4)[of a Null] f by (auto simp: parser_simps)
    show "concat_loop (Suc f) E acc a \<noteq> None" if f: "calls B E a + 4 \<le> Suc f" for acc
    proof (cases "\<not> at_end E a \<and> \<not> is_concat_terminator (peek E a 0)")
      case True
      obtain p b where b: "parse_postfix f E a = Some (p, b)" using IH(5)[of a] f by auto
      with parser_inv(5)[OF b] calls_reads[of E a p b B] f show ?thesis
        using True IH(4)[of b "concat_node acc p"] by (auto simp: parser_simps)
    qed (auto simp: parser_simps)
    show "parse_postfix (Suc f) E a \<noteq> None" if f: "calls B E a + 3 \<le> Suc f"
      using IH(6)[of a] f by (auto simp: parser_simps)
    show "parse_primary (Suc f) E a \<noteq> None" if f: "calls B E a + 2 \<le> Suc f"
    proof (cases "peek E a 0 = CHR ''(''")
      case True
      then have "\<not> at_end E a" by (intro peek_not_NUL) simp
      from IH(1)[of "skip E a"] f calls_skip[OF this, of B] True show ?thesis by (auto simp: parser_simps)
    qed (use IH(7)[of a] f in \<open>auto simp: parser_simps\<close>)
    show "parse_macro (Suc f) E a \<noteq> None" if c: "peek E a 0 = CHR ''{''" and f: "calls B E a + 1 \<le> Suc f"
    proof (cases "open_macro E a")
      case (Inr q)
      obtain name s b where q: "q = (name, s, b)" by (cases q)
      with open_macro_reads[OF c] Inr have o: "name \<notin> pe_expanding E" "pe_macros E name = Some s" by auto
      have "macros_bounded B (pe_macros (sub_env E name s))" using m by simp
      from enoughD(1)[OF Suc this, of "sub_start b"] calls_macro[OF m o, of b a] f Inr q show ?thesis
        by (auto simp: parser_simps)
    qed (simp add: parser_simps)
  qed
qed

text \<open>More fuel does not change a result.\<close>

definition extends :: "nat \<Rightarrow> nat \<Rightarrow> bool" where
  "extends f g \<longleftrightarrow> (\<forall>E a r.
     (parse_alt f E a = Some r \<longrightarrow> parse_alt g E a = Some r) \<and>
     (\<forall>l. alt_loop f E l a = Some r \<longrightarrow> alt_loop g E l a = Some r) \<and>
     (parse_concat f E a = Some r \<longrightarrow> parse_concat g E a = Some r) \<and>
     (\<forall>acc. concat_loop f E acc a = Some r \<longrightarrow> concat_loop g E acc a = Some r) \<and>
     (parse_postfix f E a = Some r \<longrightarrow> parse_postfix g E a = Some r) \<and>
     (parse_primary f E a = Some r \<longrightarrow> parse_primary g E a = Some r) \<and>
     (parse_macro f E a = Some r \<longrightarrow> parse_macro g E a = Some r))"

lemma extendsD:
  assumes "extends f g"
  shows "parse_alt f E a = Some r \<Longrightarrow> parse_alt g E a = Some r"
    "alt_loop f E l a = Some r \<Longrightarrow> alt_loop g E l a = Some r"
    "parse_concat f E a = Some r \<Longrightarrow> parse_concat g E a = Some r"
    "concat_loop f E acc a = Some r \<Longrightarrow> concat_loop g E acc a = Some r"
    "parse_postfix f E a = Some r \<Longrightarrow> parse_postfix g E a = Some r"
    "parse_primary f E a = Some r \<Longrightarrow> parse_primary g E a = Some r"
    "parse_macro f E a = Some r \<Longrightarrow> parse_macro g E a = Some r"
  using assms unfolding extends_def by blast+

lemma bind_mono:
  "(x \<bind> g) = Some r \<Longrightarrow> (\<And>y. x = Some y \<Longrightarrow> x' = Some y) \<Longrightarrow>
   (\<And>y. g y = Some r \<Longrightarrow> h y = Some r) \<Longrightarrow> (x' \<bind> h) = Some r"
  by (auto simp: bind_eq_Some_conv)

lemma extends_Suc:
  assumes e: "extends f g"
  shows "extends (Suc f) (Suc g)"
  unfolding extends_def
proof (intro allI conjI impI)
  fix E a r
  note D = extendsD[OF e]
  show "parse_alt (Suc g) E a = Some r" if "parse_alt (Suc f) E a = Some r"
    using that unfolding parser_simps by (elim bind_mono) (auto intro: D)
  show "alt_loop (Suc g) E l a = Some r" if "alt_loop (Suc f) E l a = Some r" for l
    using that unfolding parser_simps
    by (auto split: if_splits elim!: bind_mono intro: D)
  show "parse_concat (Suc g) E a = Some r" if "parse_concat (Suc f) E a = Some r"
    using that unfolding parser_simps by (elim bind_mono) (auto intro: D)
  show "concat_loop (Suc g) E acc a = Some r" if "concat_loop (Suc f) E acc a = Some r" for acc
    using that unfolding parser_simps
    by (auto split: if_splits elim!: bind_mono intro: D)
  show "parse_postfix (Suc g) E a = Some r" if "parse_postfix (Suc f) E a = Some r"
    using that unfolding parser_simps by (elim bind_mono) (auto intro: D)
  show "parse_primary (Suc g) E a = Some r" if "parse_primary (Suc f) E a = Some r"
    using that unfolding parser_simps
    by (auto split: if_splits elim!: bind_mono intro: D)
  show "parse_macro (Suc g) E a = Some r" if "parse_macro (Suc f) E a = Some r"
    using that unfolding parser_simps
    by (auto split: sum.splits prod.splits elim!: bind_mono intro: D)
qed

lemma extends_mono: "f \<le> g \<Longrightarrow> extends f g"
proof (induction f arbitrary: g)
  case 0
  then show ?case by (simp add: extends_def parser_simps)
next
  case (Suc f)
  then obtain h where "g = Suc h" "f \<le> h" by (cases g) auto
  with Suc.IH show ?case by (simp add: extends_Suc)
qed

section \<open>Whole patterns\<close>

text \<open>The optional \<open>^\<close>, and what follows the pattern: the optional \<open>$\<close> and nothing else.\<close>

definition top_start :: "penv \<Rightarrow> pst \<Rightarrow> bool \<times> pst" where
  "top_start E st = (if peek E st 0 = CHR ''^'' then (True, skip E st) else (False, st))"

definition top_end :: "penv \<Rightarrow> bool \<Rightarrow> node \<Rightarrow> pst \<Rightarrow> node \<times> pst" where
  "top_end E bol body st =
     (let (eol, st) = (if peek E st 0 = CHR ''$'' then (True, skip E st) else (False, st))
      in if \<not> at_end E st
         then (Null, report E (''unexpected character in regex: '' @ [CHR 0x27, peek E st 0, CHR 0x27]) st)
         else let body = (if eol then concat_node body AnchorEOL else body);
                  body = (if bol then concat_node AnchorBOL body else body)
              in (body, st))"

definition parse_top :: "nat \<Rightarrow> penv \<Rightarrow> pst \<Rightarrow> (node \<times> pst) option" where
  "parse_top f E st = do {
     (body, st') \<leftarrow> parse_alt f E (snd (top_start E st));
     Some (top_end E (fst (top_start E st)) body st') }"

type_synonym resolver = "string \<Rightarrow> string option"

definition parser_env :: "string \<Rightarrow> resolver \<Rightarrow> bool \<Rightarrow> source_loc \<Rightarrow> penv" where
  "parser_env src macros ci loc =
     \<lparr>pe_src = src, pe_macros = macros, pe_ci = ci, pe_loc = loc, pe_expanding = {}\<rparr>"

definition parser_start :: "diagnostics \<Rightarrow> pst" where
  "parser_start diag = \<lparr>ps_pos = 0, ps_diag = diag\<rparr>"

definition parse_regex ::
    "nat \<Rightarrow> string \<Rightarrow> resolver \<Rightarrow> bool \<Rightarrow> diagnostics \<Rightarrow> source_loc \<Rightarrow> (node \<times> diagnostics) option" where
  "parse_regex f src macros ci diag loc = do {
     (tree, st) \<leftarrow> parse_top f (parser_env src macros ci loc) (parser_start diag);
     Some (tree, ps_diag st) }"

text \<open>
  The position of the \<open>/\<close> of a trailing context: \<open>i\<close> is the index of the first character
  of the list, an escape skips two.
\<close>

fun slash_scan :: "nat \<Rightarrow> bool \<Rightarrow> bool \<Rightarrow> nat \<Rightarrow> string \<Rightarrow> int" where
  "slash_scan depth in_class in_quoted i [] = -1"
| "slash_scan depth in_class in_quoted i (c # cs) =
     (if in_class then
        (if c = CHR 0x5C \<and> cs \<noteq> [] then slash_scan depth True in_quoted (i + 2) (tl cs)
         else slash_scan depth (c \<noteq> CHR '']'') in_quoted (i + 1) cs)
      else if in_quoted then
        (if c = CHR 0x5C \<and> cs \<noteq> [] then slash_scan depth in_class True (i + 2) (tl cs)
         else slash_scan depth in_class (c \<noteq> CHR 0x22) (i + 1) cs)
      else if c = CHR 0x5C \<and> cs \<noteq> [] then slash_scan depth in_class in_quoted (i + 2) (tl cs)
      else if c = CHR ''['' then slash_scan depth True in_quoted (i + 1) cs
      else if c = CHR 0x22 then slash_scan depth in_class True (i + 1) cs
      else if c = CHR ''('' then slash_scan (depth + 1) in_class in_quoted (i + 1) cs
      else if c = CHR '')'' then slash_scan (depth - 1) in_class in_quoted (i + 1) cs
      else if c = CHR ''/'' \<and> depth = 0 then int i
      else slash_scan depth in_class in_quoted (i + 1) cs)"

definition find_top_level_slash :: "string \<Rightarrow> int" where
  "find_top_level_slash src = slash_scan 0 False False 0 src"

record parsed_pattern =
  pp_tree :: node
  pp_trail_len :: int
  pp_eol_anchored :: bool

definition no_pattern :: parsed_pattern where
  "no_pattern = \<lparr>pp_tree = Null, pp_trail_len = 0, pp_eol_anchored = False\<rparr>"

definition newline_class :: node where
  "newline_class = Class (bs_add bs_clear 10)"

text \<open>The head of \<open>r/s\<close> without its anchor.\<close>

definition lift_bol :: "node \<Rightarrow> node \<times> bool" where
  "lift_bol r = (case r of Concat a b \<Rightarrow> if a = AnchorBOL then (b, True) else (r, False) | _ \<Rightarrow> (r, False))"

text \<open>The tree of \<open>r/s\<close> when the length of \<open>s\<close> is known, and when it is not.\<close>

definition fixed_trail :: "node \<Rightarrow> node \<Rightarrow> bool \<Rightarrow> bool \<Rightarrow> node" where
  "fixed_trail r s_body s_had_eol head_bol =
     (let tree = Concat r (if s_body \<noteq> Null then s_body else Empty);
          tree = (if s_had_eol then Concat tree newline_class else tree)
      in if head_bol then Concat AnchorBOL tree else tree)"

definition variable_trail :: "node \<Rightarrow> node \<Rightarrow> bool \<Rightarrow> bool \<Rightarrow> node" where
  "variable_trail r s_body s_had_eol head_bol =
     (let inner = Concat TrailBoundary (if s_body \<noteq> Null then s_body else Empty);
          inner = (if s_had_eol then Concat inner newline_class else inner);
          tree = Concat r inner
      in if head_bol then Concat AnchorBOL tree else tree)"

definition join_trail ::
    "node \<Rightarrow> node \<Rightarrow> diagnostics \<Rightarrow> source_loc \<Rightarrow> parsed_pattern \<times> diagnostics" where
  "join_trail r s diag loc =
     (if r = Null \<or> s = Null then (no_pattern, diag)
      else
        let (r, head_bol) = lift_bol r;
            s_had_eol = peek_is_eol_anchor s;
            s_body = strip_eol_anchor s
        in if peek_is_eol_anchor r
           then (no_pattern, diag_error loc ''`$` is not permitted on the head of `r/s`'' diag)
           else let len = fixed_length s_body
           in if len \<ge> 0
              then (\<lparr>pp_tree = fixed_trail r s_body s_had_eol head_bol,
                     pp_trail_len = i32 (len + (if s_had_eol then 1 else 0)), pp_eol_anchored = False\<rparr>, diag)
              else (\<lparr>pp_tree = variable_trail r s_body s_had_eol head_bol,
                     pp_trail_len = -1, pp_eol_anchored = False\<rparr>,
                    if fixed_length r < 0
                    then diag_warn loc ''dangerous trailing context (r and s both variable-length)'' diag
                    else diag))"

definition parse_pattern ::
    "nat \<Rightarrow> string \<Rightarrow> resolver \<Rightarrow> bool \<Rightarrow> diagnostics \<Rightarrow> source_loc \<Rightarrow>
     (parsed_pattern \<times> diagnostics) option" where
  "parse_pattern f src macros ci diag loc =
     (let slash = find_top_level_slash src
      in if slash < 0
         then do {
           (tree, diag) \<leftarrow> parse_regex f src macros ci diag loc;
           Some (\<lparr>pp_tree = tree, pp_trail_len = 0,
             pp_eol_anchored = (tree \<noteq> Null \<and> peek_is_eol_anchor tree)\<rparr>, diag) }
         else do {
           (r, diag) \<leftarrow> parse_regex f (take (nat slash) src) macros ci diag loc;
           (s, diag) \<leftarrow> parse_regex f (drop (nat slash + 1) src) macros ci diag loc;
           Some (join_trail r s diag loc) })"

end
