(* ===== verification/Regex_Patterns.thy ===== *)
theory Regex_Patterns
  imports Regex_Parser
begin

text \<open>
  What \<open>parse_regex\<close> and \<open>parse_pattern\<close> of \<open>src/src/regex.cpp\<close> return: they always
  return, the anchors of the tree are where the NFA builder looks for them, the tree of a
  case-insensitive pattern matches without regard to case, and the tree and the trail
  length of \<open>r/s\<close> let the scanner find where \<open>r\<close> ends.
\<close>

definition no_loc :: source_loc where
  "no_loc = \<lparr>sl_file = [], sl_line = 0, sl_col = 0\<rparr>"

section \<open>Termination\<close>

definition parser_fuel :: "nat \<Rightarrow> resolver \<Rightarrow> string \<Rightarrow> nat" where
  "parser_fuel B macros src = (6 * B + 7) * card (dom macros) + 6 * length src + 6"

lemma parser_env_simps [simp]:
  "pe_src (parser_env src macros ci loc) = src" "pe_macros (parser_env src macros ci loc) = macros"
  "pe_ci (parser_env src macros ci loc) = ci" "pe_expanding (parser_env src macros ci loc) = {}"
  "ps_pos (parser_start diag) = 0" "ps_diag (parser_start diag) = diag"
  by (simp_all add: parser_env_def parser_start_def)

lemma parse_alt_total:
  assumes "macros_bounded B macros" "parser_fuel B macros src \<le> f"
  shows "parse_alt f (parser_env src macros ci loc) st \<noteq> None"
proof -
  let ?E = "parser_env src macros ci loc"
  have "calls B ?E st + 6 \<le> parser_fuel B macros src"
    by (simp add: calls_def left_over_def unopened_def parser_fuel_def)
  from this assms(2) have "calls B ?E st + 6 \<le> f" by (rule order_trans)
  with assms(1) show ?thesis by (intro enoughD(1)[OF enough_all]) simp_all
qed

lemma parse_top_mono:
  "parse_top f E st = Some r \<Longrightarrow> f \<le> g \<Longrightarrow> parse_top g E st = Some r"
  unfolding parse_top_def by (auto simp: bind_eq_Some_conv dest: extendsD(1)[OF extends_mono])

lemma parse_regex_mono:
  "parse_regex f src macros ci diag loc = Some r \<Longrightarrow> f \<le> g \<Longrightarrow> parse_regex g src macros ci diag loc = Some r"
  unfolding parse_regex_def by (auto simp: bind_eq_Some_conv dest: parse_top_mono)

lemma parse_regex_total:
  assumes "macros_bounded B macros" "parser_fuel B macros src \<le> f"
  shows "parse_regex f src macros ci diag loc \<noteq> None"
proof -
  let ?E = "parser_env src macros ci loc"
  obtain body st where "parse_alt f ?E (snd (top_start ?E (parser_start diag))) = Some (body, st)"
    using parse_alt_total[OF assms] by (metis option.exhaust surj_pair)
  then show ?thesis by (simp add: parse_regex_def parse_top_def split: prod.splits)
qed

lemma parse_pattern_mono:
  "parse_pattern f src macros ci diag loc = Some r \<Longrightarrow> f \<le> g \<Longrightarrow> parse_pattern g src macros ci diag loc = Some r"
proof (cases "find_top_level_slash src < 0")
  case False
  assume "parse_pattern f src macros ci diag loc = Some r" and le: "f \<le> g"
  with False obtain a d b e where
    "parse_regex f (take (nat (find_top_level_slash src)) src) macros ci diag loc = Some (a, d)"
    "parse_regex f (drop (nat (find_top_level_slash src) + 1) src) macros ci d loc = Some (b, e)"
    "r = join_trail a b e loc"
    by (auto simp: parse_pattern_def Let_def bind_eq_Some_conv)
  with parse_regex_mono[OF _ le] False show ?thesis by (simp add: parse_pattern_def)
qed (auto simp: parse_pattern_def Let_def bind_eq_Some_conv dest: parse_regex_mono)

section \<open>The shape of the tree\<close>

definition anchored :: "bool \<Rightarrow> node \<Rightarrow> bool \<Rightarrow> node" where
  "anchored bol body eol =
     (let t = (if eol then Concat body AnchorEOL else body) in if bol then Concat AnchorBOL t else t)"

lemma plain_not [simp]: "\<not> plain Null" "\<not> plain AnchorBOL" "\<not> plain AnchorEOL"
  by simp_all

lemma anchored_unwrap: "plain body \<Longrightarrow> unwrap_anchors (anchored bol body eol) = (body, bol, eol)"
  by (cases body) (auto simp: anchored_def unwrap_anchors_def unwrap_bol_def unwrap_eol_def Let_def)

lemma top_end_shape:
  assumes "top_end E bol body c = (t, b)" "well (pe_ci E) body"
  shows "(t = Null \<and> dg_errors (ps_diag b) > 0) \<or> (\<exists>eol. t = anchored bol body eol)"
proof -
  have "body \<noteq> Null" using assms(2) by auto
  with assms(1) show ?thesis
    by (cases "peek E c 0 = CHR ''$''")
      (auto simp: top_end_def Let_def concat_node_def anchored_def report_def split: if_splits)
qed

lemma anchored_not_Null: "plain body \<Longrightarrow> anchored bol body eol \<noteq> Null"
  by (auto simp: anchored_def Let_def)

lemma parse_top_shape:
  assumes "parse_top f E a = Some (t, b)"
  shows "(t = Null \<and> dg_errors (ps_diag b) > 0) \<or>
    (\<exists>body eol. well (pe_ci E) body \<and> t = anchored (peek E a 0 = CHR ''^'') body eol)"
proof -
  from assms obtain body c where c: "parse_alt f E (snd (top_start E a)) = Some (body, c)"
    and t: "top_end E (fst (top_start E a)) body c = (t, b)"
    by (auto simp: parse_top_def bind_eq_Some_conv)
  have w: "well (pe_ci E) body" using parser_inv(1)[OF c] by (simp add: stays_def)
  have "fst (top_start E a) = (peek E a 0 = CHR ''^'')" by (simp add: top_start_def)
  with top_end_shape[OF t w] w show ?thesis by auto
qed

lemma parse_regex_shape:
  assumes "parse_regex f src macros ci diag loc = Some (t, d)"
  shows "(t = Null \<and> dg_errors d > 0) \<or>
    (\<exists>body eol. well ci body \<and> t = anchored (take 1 src = ''^'') body eol)"
proof -
  from assms obtain b where b: "parse_top f (parser_env src macros ci loc) (parser_start diag) = Some (t, b)"
    "d = ps_diag b" by (auto simp: parse_regex_def bind_eq_Some_conv)
  have "peek (parser_env src macros ci loc) (parser_start diag) 0 = CHR ''^'' \<longleftrightarrow> take 1 src = ''^''"
    by (cases src) (auto simp: peek_def)
  with parse_top_shape[OF b(1)] b(2) show ?thesis by simp
qed

section \<open>Case\<close>

definition swap_byte :: "byte \<Rightarrow> byte" where
  "swap_byte b = of_nat (swap_case (ub b))"

lemma ub_swap_byte [simp]: "ub (swap_byte b) = swap_case (ub b)"
  by (simp add: swap_byte_def)

lemma conc_map:
  assumes "\<And>w. w \<in> A \<Longrightarrow> map f w \<in> A'" "\<And>w. w \<in> B \<Longrightarrow> map f w \<in> B'" "w \<in> conc A B"
  shows "map f w \<in> conc A' B'"
  using assms(3) by (elim concE) (simp add: assms(1,2) concI)

lemma lpow_map: "(\<And>w. w \<in> A \<Longrightarrow> map f w \<in> A) \<Longrightarrow> w \<in> lpow A n \<Longrightarrow> map f w \<in> lpow A n"
proof (induction n arbitrary: w)
  case (Suc n)
  from Suc.prems(2) have "w \<in> conc A (lpow A n)" by simp
  then have "map f w \<in> conc A (lpow A n)" by (rule conc_map[rotated 2]) (use Suc in blast)+
  then show ?case by simp
qed simp

lemma lstar_map: "(\<And>w. w \<in> A \<Longrightarrow> map f w \<in> A) \<Longrightarrow> w \<in> lstar A \<Longrightarrow> map f w \<in> lstar A"
  unfolding lstar_def using lpow_map[of A f w] by blast

lemma cased_lang: "cased n \<Longrightarrow> w \<in> lang n \<Longrightarrow> map swap_byte w \<in> lang n"
proof (induction n arbitrary: w)
  case (Class s)
  then show ?case by (auto simp: case_closed_def)
next
  case (Concat a b)
  then show ?case by (auto intro: conc_map[of "lang a" _ "lang a" "lang b" "lang b"])
next
  case (Star a)
  then show ?case by (auto intro: lstar_map)
next
  case (Plus a)
  then show ?case
    by (auto intro: conc_map[of "lang a" _ "lang a" "lstar (lang a)" "lstar (lang a)"] lstar_map)
next
  case (Repeat a lo hi)
  have a: "w \<in> lang a \<Longrightarrow> map swap_byte w \<in> lang a" for w using Repeat by simp
  show ?case
  proof (cases "hi = kInf")
    case True
    with Repeat.prems(2) have "w \<in> conc (lpow (lang a) (unat lo)) (lstar (lang a))" by simp
    then have "map swap_byte w \<in> conc (lpow (lang a) (unat lo)) (lstar (lang a))"
      by (rule conc_map[rotated 2]) (auto intro: lpow_map lstar_map a)
    with True show ?thesis by simp
  next
    case False
    with Repeat.prems(2) obtain k where "k \<in> {unat lo..max (unat lo) (unat hi)}" "w \<in> lpow (lang a) k" by auto
    with lpow_map[OF a this(2)] False show ?thesis by auto
  qed
qed auto

lemma anchored_simps [simp]:
  "cased (anchored bol n eol) = cased n" "lang (anchored bol n eol) = lang n" "anchored bol n eol \<noteq> Null \<or> n = Null"
  by (auto simp: anchored_def Let_def)

section \<open>Trailing context\<close>

lemma plain_no_boundary: "plain n \<Longrightarrow> \<not> has_boundary n"
  by (induction n) auto

lemma has_boundary_anchored [simp]: "has_boundary (anchored bol n eol) = has_boundary n"
  by (auto simp: anchored_def Let_def)

lemma has_boundary_strip: "\<not> has_boundary n \<Longrightarrow> \<not> has_boundary (strip_eol_anchor n)"
  by (cases n) (auto simp: strip_eol_anchor_def)

lemma lift_bol_lang:
  "lift_bol r = (r', b) \<Longrightarrow> lang r' = lang r \<and> (\<not> has_boundary r \<longrightarrow> \<not> has_boundary r')"
  by (cases r) (auto simp: lift_bol_def split: if_splits)

text \<open>What has to follow the match of the head: the tail, and the newline of \<open>$\<close>.\<close>

definition trail_lang :: "node \<Rightarrow> lang" where
  "trail_lang s = conc (lang s) (if peek_is_eol_anchor s then {[10]} else {[]})"

lemma lang_newline [simp]: "lang newline_class = {[10]}"
proof -
  have "bs_test (bs_add bs_clear 10) (ub b) \<longleftrightarrow> b = 10" for b :: byte
    using ub_inj[of b 10] by (simp add: byteset_simps)
  then show ?thesis by (auto simp: newline_class_def)
qed

lemma lang_trees:
  "lang (fixed_trail r (strip_eol_anchor s) (peek_is_eol_anchor s) bol) = conc (lang r) (trail_lang s)"
  "lang (variable_trail r (strip_eol_anchor s) (peek_is_eol_anchor s) bol) = conc (lang r) (trail_lang s)"
proof -
  have n: "lang (if strip_eol_anchor s \<noteq> Null then strip_eol_anchor s else Empty) = lang s"
    by (metis lang.simps(1,2) lang_strip_eol)
  show "lang (fixed_trail r (strip_eol_anchor s) (peek_is_eol_anchor s) bol) = conc (lang r) (trail_lang s)"
    by (simp add: fixed_trail_def Let_def n trail_lang_def conc_assoc del: lang_strip_eol)
  show "lang (variable_trail r (strip_eol_anchor s) (peek_is_eol_anchor s) bol) = conc (lang r) (trail_lang s)"
    by (simp add: variable_trail_def Let_def n trail_lang_def conc_assoc del: lang_strip_eol)
qed

lemma head_lang_variable:
  assumes "\<not> has_boundary r" "\<not> has_boundary s"
  shows "head_lang (variable_trail r s e bol) = lang r"
  using assms by (auto simp: variable_trail_def Let_def newline_class_def)

lemma trail_word:
  assumes "fixed_length (strip_eol_anchor s) \<ge> 0" "length_bound (strip_eol_anchor s) < 2 ^ 31 - 1"
  obtains n where "i32 (fixed_length (strip_eol_anchor s) + (if peek_is_eol_anchor s then 1 else 0)) = int n"
    "\<And>v. v \<in> trail_lang s \<Longrightarrow> length v = n"
proof -
  have "length_bound (strip_eol_anchor s) < 2 ^ 31" using assms(2) by simp
  from fixed_length_refines[OF this] assms(1) obtain k
    where k: "tree_length (strip_eol_anchor s) = Some k" "fixed_length (strip_eol_anchor s) = int k"
    by (cases "tree_length (strip_eol_anchor s)") auto
  from tree_length_bound[OF k(1)] assms(2) have "k < 2 ^ 31 - 1" by simp
  then show ?thesis
    using k tree_length_sound[OF k(1)]
    by (intro that[of "k + (if peek_is_eol_anchor s then 1 else 0)"])
      (auto simp: i32_id trail_lang_def split: if_splits)
qed

lemma join_trail_split:
  assumes j: "join_trail r s d loc = (p, d')" and nn: "pp_tree p \<noteq> Null" "r \<noteq> Null" "s \<noteq> Null"
    and nb: "\<not> has_boundary r" "\<not> has_boundary s"
    and size: "length_bound (strip_eol_anchor s) < 2 ^ 31 - 1"
  shows "lang (pp_tree p) = conc (lang r) (trail_lang s) \<and>
    (if pp_trail_len p = -1 then head_lang (pp_tree p) = lang r
     else \<forall>w\<in>lang (pp_tree p). \<exists>n. pp_trail_len p = int n \<and> n \<le> length w \<and>
       take (length w - n) w \<in> lang r \<and> drop (length w - n) w \<in> trail_lang s)"
proof -
  obtain r' bol where l: "lift_bol r = (r', bol)" by fastforce
  note lr = lift_bol_lang[OF l]
  have neol: "\<not> peek_is_eol_anchor r'"
    using j nn by (auto simp: join_trail_def l no_pattern_def split: if_splits)
  show ?thesis
  proof (cases "fixed_length (strip_eol_anchor s) \<ge> 0")
    case True
    from j nn neol True have p: "pp_tree p = fixed_trail r' (strip_eol_anchor s) (peek_is_eol_anchor s) bol"
      "pp_trail_len p = i32 (fixed_length (strip_eol_anchor s) + (if peek_is_eol_anchor s then 1 else 0))"
      by (auto simp: join_trail_def l Let_def)
    have lp: "lang (pp_tree p) = conc (lang r) (trail_lang s)" using p(1) lr by (simp add: lang_trees)
    moreover obtain n where n: "pp_trail_len p = int n" "\<And>v. v \<in> trail_lang s \<Longrightarrow> length v = n"
      using trail_word[OF True size] p(2) by metis
    moreover have "\<exists>n. pp_trail_len p = int n \<and> n \<le> length w \<and>
       take (length w - n) w \<in> lang r \<and> drop (length w - n) w \<in> trail_lang s" if w: "w \<in> lang (pp_tree p)" for w
    proof -
      from w lp obtain u v where v: "w = u @ v" "u \<in> lang r" "v \<in> trail_lang s" by auto
      with n show ?thesis by (intro exI[of _ n]) auto
    qed
    ultimately show ?thesis by simp
  next
    case False
    from j nn neol False have p: "pp_tree p = variable_trail r' (strip_eol_anchor s) (peek_is_eol_anchor s) bol"
      "pp_trail_len p = -1"
      by (auto simp: join_trail_def l Let_def split: if_splits)
    with lr nb show ?thesis by (simp add: lang_trees head_lang_variable has_boundary_strip)
  qed
qed

lemma parse_regex_plain:
  assumes "parse_regex f src macros ci d loc = Some (t, d')"
  shows "\<not> has_boundary t"
  using parse_regex_shape[OF assms] plain_no_boundary by (auto simp: well_def)

section \<open>Properties\<close>

text \<open>C12. \<open>parse_pattern\<close> returns on every text, whatever the macros are: with the depth
of calls bounded by \<open>parser_fuel\<close> (which counts every macro once, since a macro that is
being expanded is not opened again), the result is reached, and more fuel does not change it.\<close>

theorem parse_pattern_total:
  assumes "macros_bounded B macros"
  shows "\<exists>r. \<forall>f\<ge>parser_fuel B macros src. parse_pattern f src macros ci diag loc = Some r"
proof -
  let ?f = "parser_fuel B macros src" and ?k = "nat (find_top_level_slash src)"
  have le: "parser_fuel B macros (take n src) \<le> ?f" "parser_fuel B macros (drop n src) \<le> ?f" for n
    by (simp_all add: parser_fuel_def)
  have total: "\<exists>t e. parse_regex ?f x macros ci d loc = Some (t, e)"
    if "parser_fuel B macros x \<le> ?f" for x d
    using parse_regex_total[OF assms that] by (metis option.exhaust surj_pair)
  have "\<exists>r. parse_pattern ?f src macros ci diag loc = Some r"
  proof (cases "find_top_level_slash src < 0")
    case True
    then show ?thesis using total[OF order_refl, of diag] by (auto simp: parse_pattern_def Let_def)
  next
    case False
    obtain r d where r: "parse_regex ?f (take ?k src) macros ci diag loc = Some (r, d)"
      using total[OF le(1)] by blast
    obtain s e where "parse_regex ?f (drop (?k + 1) src) macros ci d loc = Some (s, e)"
      using total[OF le(2)] by blast
    with r False show ?thesis by (simp add: parse_pattern_def Let_def)
  qed
  then show ?thesis using parse_pattern_mono by blast
qed

lemma parse_pattern_total_witness:
  "\<exists>r. \<forall>f\<ge>49. parse_pattern f ''{a}'' [''a'' \<mapsto> ''{a}''] False no_diag no_loc = Some r"
proof -
  have "macros_bounded 3 [''a'' \<mapsto> ''{a}'']" by (auto simp: macros_bounded_def split: if_splits)
  moreover have "parser_fuel 3 [''a'' \<mapsto> ''{a}''] ''{a}'' \<le> 49" by (simp add: parser_fuel_def)
  ultimately show ?thesis
    using parse_pattern_total[of 3 "[''a'' \<mapsto> ''{a}'']" "''{a}''" False no_diag] by (simp add: parser_fuel_def)
qed

text \<open>C13. The tree of a regex is null only after an error has been reported. Otherwise its
anchors are at the root, where the NFA builder unwraps them, the body under them has no
null pointer, anchor or boundary marker, and it is anchored at the beginning of a line
exactly if the text starts with \<open>^\<close>.\<close>

theorem parse_regex_anchors:
  assumes "parse_regex f src macros ci diag loc = Some (tree, diag')"
  shows "if tree = Null then \<not> diag_ok diag'
    else \<exists>body bol eol. unwrap_anchors tree = (body, bol, eol) \<and> plain body \<and> (bol \<longleftrightarrow> take 1 src = ''^'')"
proof (cases "tree = Null")
  case True
  with parse_regex_shape[OF assms] anchored_not_Null have "dg_errors diag' > 0"
    unfolding well_def by metis
  with True show ?thesis by (simp add: diag_ok_def)
next
  case False
  with parse_regex_shape[OF assms] obtain body eol
    where "plain body" "tree = anchored (take 1 src = ''^'') body eol" by (auto simp: well_def)
  with False anchored_unwrap show ?thesis by auto
qed

lemma parse_regex_anchors_witness:
  "\<exists>tree d. parse_regex 30 ''^a$'' (\<lambda>_. None) False no_diag no_loc = Some (tree, d) \<and> tree \<noteq> Null \<and>
     fst (snd (unwrap_anchors tree))"
proof -
  have "parse_regex 30 ''^a$'' (\<lambda>_. None) False no_diag no_loc =
      Some (Concat AnchorBOL (Concat (Class (ByteSet 0 0x200000000 0 0)) AnchorEOL), no_diag)"
    by code_simp
  with parse_regex_anchors[OF this] show ?thesis by auto
qed

text \<open>C14. With the case-insensitive flag, a regex matches a string exactly if it matches the
string with the case of its letters exchanged, through ranges, negated and POSIX classes,
escapes and macros.\<close>

theorem case_insensitive_regex:
  assumes "parse_regex f src macros True diag loc = Some (tree, diag')"
  shows "map swap_byte w \<in> lang tree \<longleftrightarrow> w \<in> lang tree"
proof -
  have c: "cased tree" using parse_regex_shape[OF assms] by (auto simp: well_def)
  have "map swap_byte (map swap_byte w) = w"
  proof -
    have "swap_byte (swap_byte b) = b" for b
      using swap_case_swap[of "ub b"] ub_inj[of "swap_byte (swap_byte b)" b] by simp
    then show ?thesis by (simp add: map_idI)
  qed
  with cased_lang[OF c, of w] cased_lang[OF c, of "map swap_byte w"] show ?thesis by auto
qed

lemma case_insensitive_regex_witness:
  "\<exists>tree d. parse_regex 30 ''[ab]'' (\<lambda>_. None) True no_diag no_loc = Some (tree, d) \<and> [65] \<in> lang tree"
proof -
  let ?s = "ByteSet 0 0x600000006 0 0"
  have p: "parse_regex 30 ''[ab]'' (\<lambda>_. None) True no_diag no_loc = Some (Class ?s, no_diag)" by code_simp
  have "bs_test ?s 97" by code_simp
  then have "[97] \<in> lang (Class ?s)" by simp
  moreover have "map swap_byte [65] = [97]" by (simp add: swap_byte_def swap_case_def)
  ultimately have "[65] \<in> lang (Class ?s)" using case_insensitive_regex[OF p, of "[65]"] by simp
  with p show ?thesis by blast
qed

text \<open>C10. Trailing context: the tree of \<open>r/s\<close> matches what \<open>r\<close> matches followed by what
\<open>s\<close> matches (and a newline for \<open>s$\<close>). With a trail length, taking that many bytes off the
end of a match leaves a match of \<open>r\<close> and gives back a match of the tail; without one, the
boundary marker is reached exactly after the matches of \<open>r\<close>.\<close>

theorem trailing_context_exact:
  assumes slash: "find_top_level_slash src = int k"
    and r: "parse_regex f (take k src) macros ci d loc = Some (r, d1)" "r \<noteq> Null"
    and s: "parse_regex f (drop (k + 1) src) macros ci d1 loc = Some (s, d2)" "s \<noteq> Null"
    and p: "parse_pattern f src macros ci d loc = Some (p, d3)" "pp_tree p \<noteq> Null"
    and size: "length_bound (strip_eol_anchor s) < 2 ^ 31 - 1"
  shows "lang (pp_tree p) = conc (lang r) (trail_lang s) \<and>
    (if pp_trail_len p = -1 then head_lang (pp_tree p) = lang r
     else \<forall>w\<in>lang (pp_tree p). \<exists>n. pp_trail_len p = int n \<and> n \<le> length w \<and>
       take (length w - n) w \<in> lang r \<and> drop (length w - n) w \<in> trail_lang s)"
proof -
  have "join_trail r s d2 loc = (p, d3)"
    using p(1) slash r(1) s(1) by (simp add: parse_pattern_def Let_def)
  from join_trail_split[OF this p(2) r(2) s(2) parse_regex_plain[OF r(1)] parse_regex_plain[OF s(1)] size]
  show ?thesis .
qed

lemma trailing_context_exact_witness:
  "\<exists>p d. parse_pattern 30 ''a/b*'' (\<lambda>_. None) False no_diag no_loc = Some (p, d) \<and>
     head_lang (pp_tree p) = {[97]}"
proof -
  let ?a = "Class (ByteSet 0 0x200000000 0 0)" and ?b = "Star (Class (ByteSet 0 0x400000000 0 0))"
  let ?p = "\<lparr>pp_tree = Concat ?a (Concat TrailBoundary ?b), pp_trail_len = -1, pp_eol_anchored = False\<rparr>"
  have 1: "find_top_level_slash ''a/b*'' = int 1" by code_simp
  have 2: "parse_regex 30 (take 1 ''a/b*'') (\<lambda>_. None) False no_diag no_loc = Some (?a, no_diag)" by code_simp
  have 3: "parse_regex 30 (drop (1 + 1) ''a/b*'') (\<lambda>_. None) False no_diag no_loc = Some (?b, no_diag)"
    by code_simp
  have 4: "parse_pattern 30 ''a/b*'' (\<lambda>_. None) False no_diag no_loc = Some (?p, no_diag)" by code_simp
  have "bs_test (ByteSet 0 0x200000000 0 0) (ub b) \<longleftrightarrow> b = 97" for b
  proof -
    have "ByteSet 0 0x200000000 0 0 = bs_add bs_clear 97" by code_simp
    then show ?thesis using ub_inj[of b 97] by (simp add: byteset_simps)
  qed
  then have l: "lang ?a = {[97]}" by auto
  have "head_lang (pp_tree ?p) = lang ?a"
    using trailing_context_exact[OF 1 2 _ 3 _ 4] by (simp add: strip_eol_anchor_def)
  with 4 l show ?thesis by auto
qed

end
