(* ===== verification/Regex_Text.thy ===== *)
theory Regex_Text
  imports Regex_Patterns
begin

text \<open>
  Writing a tree as a pattern and reading it back: \<open>print\<close> writes a tree with every
  operator in parentheses and every byte as \<open>\xHH\<close> in a class, and the parser of
  \<open>src/src/regex.cpp\<close> returns the tree it was written from. So each tree the parser can
  build is the tree of a pattern, and the grammar the parser accepts gives every operator
  the operands that are written.
\<close>

section \<open>Writing\<close>

definition class_items :: "byte_set \<Rightarrow> class_item list" where
  "class_items s = map Single (filter (bs_test s) [0..<256])"

definition print_class :: "byte_set \<Rightarrow> string" where
  "print_class s = (if bs_empty s then class_text True [Range 0 255] else class_text False (class_items s))"

primrec print :: "node \<Rightarrow> string" where
  "print Null = []"
| "print Empty = ''()''"
| "print (Class s) = print_class s"
| "print (Concat a b) = ''('' @ print a @ print b @ '')''"
| "print (Alt a b) = ''('' @ print a @ ''|'' @ print b @ '')''"
| "print (Star a) = ''('' @ print a @ ''*)''"
| "print (Plus a) = ''('' @ print a @ ''+)''"
| "print (Question a) = ''('' @ print a @ ''?)''"
| "print (Repeat a lo hi) = ''('' @ print a @ ''{'' @ dec (unat lo) @ '','' @ dec (unat hi) @ ''})''"
| "print AnchorBOL = []"
| "print AnchorEOL = []"
| "print TrailBoundary = []"

definition print_top :: "bool \<Rightarrow> node \<Rightarrow> bool \<Rightarrow> string" where
  "print_top bol n eol = (if bol then ''^'' else []) @ print n @ (if eol then ''$'' else [])"

section \<open>Reading classes and numbers\<close>

lemma print_class_read:
  assumes "rest E st = print_class s @ ys" "\<not> pe_ci E"
  shows "parse_class E st = (Class s, fwd (length (print_class s)) st)"
proof -
  define neg where "neg = bs_empty s"
  define items where "items = (if neg then [Range 0 255] else class_items s)"
  have text_eq: "print_class s = class_text neg items" by (simp add: print_class_def neg_def items_def)
  have ne: "items \<noteq> []" "\<forall>it\<in>set items. item_ok it"
    by (auto simp: items_def class_items_def neg_def filter_empty_conv bs_empty_iff)
  have "rest E st = class_text neg items @ ys" using assms(1) text_eq by simp
  from parse_class_members[OF this ne(2,1)] obtain t
    where t: "parse_class E st = (Class t, fwd (length (class_text neg items)) st)"
      "\<forall>c<256. bs_test t c \<longleftrightarrow> neg \<noteq> (\<exists>it\<in>set items. item_has (pe_ci E) it c)" by blast
  have "t = s"
  proof (rule byte_set_eqI)
    fix c :: nat assume c: "c < 256"
    show "bs_test t c = bs_test s c"
    proof (cases neg)
      case True
      then have "\<exists>it\<in>set items. item_has (pe_ci E) it c" using c by (auto simp: items_def same_letter_def)
      with True t(2) c show ?thesis by (auto simp: neg_def bs_empty_iff)
    next
      case False
      then have "(\<exists>it\<in>set items. item_has (pe_ci E) it c) \<longleftrightarrow> bs_test s c"
        using c assms(2) by (auto simp: items_def class_items_def same_letter_def)
      with False t(2) c show ?thesis by auto
    qed
  qed
  with t(1) text_eq show ?thesis by simp
qed

lemma rest_append: "rest E st = xs @ ys \<Longrightarrow> rest E (fwd (length xs) st) = ys"
  by (simp add: rest_fwd)

lemma peek_at: "rest E st = xs @ ys \<Longrightarrow> xs \<noteq> [] \<Longrightarrow> peek E st 0 = hd xs"
  by (simp add: peek_rest hd_append hd_conv_nth nth_append)

lemma digit_loop_text:
  "rest E st = ds @ ys \<Longrightarrow> \<forall>c\<in>set ds. isdigit c \<Longrightarrow> ys \<noteq> [] \<Longrightarrow> \<not> isdigit (hd ys) \<Longrightarrow>
   digit_loop E (of_nat v) st = (of_nat (number v ds), fwd (length ds) st)"
proof (induction ds arbitrary: v st)
  case Nil
  then show ?case by (simp add: digit_loop.simps[of E _ st] at_text number_def hd_conv_nth)
next
  case (Cons d ds)
  have r: "rest E (fwd 1 st) = ds @ ys" using Cons.prems(1) by (simp add: rest_fwd)
  have v: "(of_nat v :: u32) * 10 + of_nat (uc d - 48) = of_nat (v * 10 + digit_value d)"
    by (simp add: digit_value_def)
  have "digit_loop E (of_nat v) st = digit_loop E (of_nat v * 10 + of_nat (uc d - 48)) (fwd 1 st)"
    using Cons.prems by (simp add: digit_loop.simps[of E _ st] peek_rest advance_rest)
  also have "\<dots> = digit_loop E (of_nat (v * 10 + digit_value d)) (fwd 1 st)" by (simp only: v)
  also have "\<dots> = (of_nat (number (v * 10 + digit_value d) ds), fwd (length ds) (fwd 1 st))"
    using Cons.prems by (intro Cons.IH[OF r]) auto
  finally show ?case by (simp add: number_def fwd_fwd)
qed

lemma dec_read:
  assumes "rest E st = dec n @ ys" "ys \<noteq> []" "\<not> isdigit (hd ys)"
  shows "digit_loop E 0 st = (of_nat n, fwd (length (dec n)) st)"
  using digit_loop_text[OF assms(1) dec_digits assms(2,3), of 0] by (simp add: number_dec)

lemma dec_hd: "isdigit (hd (dec n))"
  using dec_digits[of n] dec_nonempty[of n] hd_in_set by blast

lemma repeat_read:
  assumes r: "rest E st = CHR ''{'' # dec m @ CHR '','' # dec n @ CHR ''}'' # ys"
  shows "parse_repeat E p st =
    (Repeat p (of_nat m) (of_nat n), fwd (3 + length (dec m) + length (dec n)) st)"
proof -
  define a where "a = fwd 1 st"
  define b where "b = fwd (length (dec m)) a"
  define c where "c = fwd 1 b"
  define d where "d = fwd (length (dec n)) c"
  have ra: "rest E a = dec m @ CHR '','' # dec n @ CHR ''}'' # ys"
    using r by (simp add: rest_fwd a_def)
  have rb: "rest E b = CHR '','' # dec n @ CHR ''}'' # ys" unfolding b_def by (rule rest_append[OF ra])
  have rc: "rest E c = dec n @ CHR ''}'' # ys" using rb by (simp add: rest_fwd c_def)
  have rd: "rest E d = CHR ''}'' # ys" unfolding d_def by (rule rest_append[OF rc])
  have lo: "digit_loop E 0 a = (of_nat m, b)" using dec_read[OF ra] by (simp add: b_def ctype_defs)
  have hi: "digit_loop E 0 c = (of_nat n, d)" using dec_read[OF rc] by (simp add: d_def ctype_defs)
  have da: "isdigit (peek E a 0)" unfolding peek_at[OF ra dec_nonempty] by (rule dec_hd)
  have dc: "isdigit (peek E c 0)" unfolding peek_at[OF rc dec_nonempty] by (rule dec_hd)
  have up: "repeat_upper E (of_nat m) b = (of_nat n, d)"
    using dc hi by (simp add: repeat_upper_def peek_rest advance_rest rb c_def)
  have "skip E st = a" using r by (simp add: advance_rest a_def)
  moreover have "skip E d = fwd (3 + length (dec m) + length (dec n)) st"
    using rd by (simp add: advance_rest a_def b_def c_def d_def fwd_fwd eval_nat_numeral)
  ultimately show ?thesis using da lo up rd by (simp add: parse_repeat_def Let_def peek_rest)
qed

section \<open>Big steps\<close>

text \<open>The parser with enough fuel, as rules that compose.\<close>

definition gives :: "(nat \<Rightarrow> 'a option) \<Rightarrow> 'a \<Rightarrow> bool" where
  "gives p r \<longleftrightarrow> (\<exists>f. p f = Some r)"

lemma gives_group:
  assumes "gives (\<lambda>f. parse_alt f E (skip E st)) (n, a)" "peek E st 0 = CHR ''(''" "peek E a 0 = CHR '')''"
    "n \<noteq> Null"
  shows "gives (\<lambda>f. parse_primary f E st) (n, skip E a)"
proof -
  obtain f where "parse_alt f E (skip E st) = Some (n, a)" using assms(1) by (auto simp: gives_def)
  then have "parse_primary (Suc f) E st = Some (n, skip E a)"
    using assms(2-4) by (simp add: parser_simps close_group_def or_empty_def)
  then show ?thesis unfolding gives_def ..
qed

lemma gives_postfix:
  assumes "gives (\<lambda>f. parse_primary f E st) (p, a)" "p \<noteq> Null"
  shows "gives (\<lambda>f. parse_postfix f E st) (postfix_op E p a)"
proof -
  obtain f where "parse_primary f E st = Some (p, a)" using assms(1) by (auto simp: gives_def)
  then have "parse_postfix (Suc f) E st = Some (postfix_op E p a)" using assms(2) by (simp add: parser_simps)
  then show ?thesis unfolding gives_def ..
qed

lemma gives_concat_end:
  "is_concat_terminator (peek E st 0) \<Longrightarrow> gives (\<lambda>f. concat_loop f E acc st) (acc, st)"
  unfolding gives_def by (rule exI[of _ 1]) (simp add: parser_simps)

lemma gives_concat_more:
  assumes "gives (\<lambda>f. parse_postfix f E st) (p, a)" "p \<noteq> Null" "\<not> is_concat_terminator (peek E st 0)"
    "gives (\<lambda>f. concat_loop f E (concat_node acc p) a) r"
  shows "gives (\<lambda>f. concat_loop f E acc st) r"
proof -
  obtain f g where "parse_postfix f E st = Some (p, a)" "concat_loop g E (concat_node acc p) a = Some r"
    using assms(1,4) by (auto simp: gives_def)
  then have "parse_postfix (max f g) E st = Some (p, a)" "concat_loop (max f g) E (concat_node acc p) a = Some r"
    using extendsD(5)[OF extends_mono] extendsD(4)[OF extends_mono] by (meson max.cobounded1 max.cobounded2)+
  moreover have "\<not> at_end E st" using assms(3) by (intro peek_not_NUL) (auto simp: is_concat_terminator_def)
  ultimately have "concat_loop (Suc (max f g)) E acc st = Some r" using assms(2,3) by (simp add: parser_simps)
  then show ?thesis unfolding gives_def ..
qed

lemma gives_concat:
  assumes "gives (\<lambda>f. concat_loop f E Null st) (n, a)" "n \<noteq> Null"
  shows "gives (\<lambda>f. parse_concat f E st) (n, a)"
proof -
  obtain f where "concat_loop f E Null st = Some (n, a)" using assms(1) by (auto simp: gives_def)
  then have "parse_concat (Suc f) E st = Some (n, a)" using assms(2) by (simp add: parser_simps or_empty_def)
  then show ?thesis unfolding gives_def ..
qed

lemma gives_loop_end: "peek E st 0 \<noteq> CHR ''|'' \<Longrightarrow> gives (\<lambda>f. alt_loop f E l st) (l, st)"
  unfolding gives_def by (rule exI[of _ 1]) (simp add: parser_simps)

lemma gives_loop_more:
  assumes "gives (\<lambda>f. parse_concat f E (skip E st)) (r, a)" "peek E st 0 = CHR ''|''"
    "gives (\<lambda>f. alt_loop f E (Alt l r) a) q"
  shows "gives (\<lambda>f. alt_loop f E l st) q"
proof -
  obtain f g where "parse_concat f E (skip E st) = Some (r, a)" "alt_loop g E (Alt l r) a = Some q"
    using assms(1,3) by (auto simp: gives_def)
  then have "parse_concat (max f g) E (skip E st) = Some (r, a)" "alt_loop (max f g) E (Alt l r) a = Some q"
    using extendsD(3)[OF extends_mono] extendsD(2)[OF extends_mono] by (meson max.cobounded1 max.cobounded2)+
  then have "alt_loop (Suc (max f g)) E l st = Some q" using assms(2) by (simp add: parser_simps)
  then show ?thesis unfolding gives_def ..
qed

lemma gives_alt:
  assumes "gives (\<lambda>f. parse_concat f E st) (l, a)" "gives (\<lambda>f. alt_loop f E l a) r"
  shows "gives (\<lambda>f. parse_alt f E st) r"
proof -
  obtain f g where "parse_concat f E st = Some (l, a)" "alt_loop g E l a = Some r"
    using assms by (auto simp: gives_def)
  then have "parse_concat (max f g) E st = Some (l, a)" "alt_loop (max f g) E l a = Some r"
    using extendsD(3)[OF extends_mono] extendsD(2)[OF extends_mono] by (meson max.cobounded1 max.cobounded2)+
  then have "parse_alt (Suc (max f g)) E st = Some r" by (simp add: parser_simps)
  then show ?thesis unfolding gives_def ..
qed

section \<open>Reading a tree back\<close>

lemma print_start: "plain n \<Longrightarrow> \<exists>c cs. print n = c # cs \<and> (c = CHR ''('' \<or> c = CHR ''['')"
  by (cases n) (auto simp: print_class_def class_text_def)

lemma print_peek:
  assumes "plain n" "rest E st = print n @ ys"
  shows "\<not> is_concat_terminator (peek E st 0)" "peek E st 0 = CHR ''('' \<or> peek E st 0 = CHR ''[''"
  using print_start[OF assms(1)] assms(2) by (auto simp: peek_rest is_concat_terminator_def)

lemma plain_ne: "plain n \<Longrightarrow> n \<noteq> Null"
  by auto

text \<open>An operand that no postfix operator follows.\<close>

lemma read_operand:
  assumes "gives (\<lambda>f. parse_primary f E st) (n, a)" "plain n"
    "peek E a 0 \<notin> {CHR ''*'', CHR ''+'', CHR ''?'', CHR ''{''}"
  shows "gives (\<lambda>f. parse_postfix f E st) (n, a)"
  using gives_postfix[OF assms(1) plain_ne[OF assms(2)]] assms(3) by (simp add: postfix_op_def Let_def)

text \<open>A branch of an alternative that is one operand.\<close>

lemma read_branch:
  assumes "gives (\<lambda>f. parse_postfix f E st) (p, a)" "p \<noteq> Null" "\<not> is_concat_terminator (peek E st 0)"
    "is_concat_terminator (peek E a 0)"
  shows "gives (\<lambda>f. parse_concat f E st) (p, a)"
  using assms by (intro gives_concat gives_concat_more[OF assms(1)]) (auto simp: concat_node_def intro: gives_concat_end)

lemma read_group:
  assumes "gives (\<lambda>f. parse_concat f E (fwd 1 st)) (p, a)" "p \<noteq> Null"
    "rest E st = CHR ''('' # xs" "rest E a = CHR '')'' # ys"
  shows "gives (\<lambda>f. parse_primary f E st) (p, fwd 1 a)"
proof -
  have "gives (\<lambda>f. parse_alt f E (fwd 1 st)) (p, a)"
    using assms(4) by (intro gives_alt[OF assms(1)] gives_loop_end) (simp add: peek_rest)
  then have "gives (\<lambda>f. parse_primary f E st) (p, skip E a)"
    using assms by (intro gives_group) (simp_all add: peek_rest advance_rest)
  then show ?thesis using assms(4) by (simp add: advance_rest)
qed

text \<open>A group that holds one operand and a postfix operator.\<close>

lemma read_postfix_group:
  assumes r: "rest E st = CHR ''('' # print a @ ops @ CHR '')'' # ys" and a: "plain a"
    and p: "gives (\<lambda>f. parse_primary f E (fwd 1 st)) (a, fwd (length (print a)) (fwd 1 st))"
    and op: "\<And>b. rest E b = ops @ CHR '')'' # ys \<Longrightarrow> postfix_op E a b = (n, fwd (length ops) b)" and n: "n \<noteq> Null"
  shows "gives (\<lambda>f. parse_primary f E st) (n, fwd (2 + length (print a) + length ops) st)"
proof -
  define c where "c = fwd 1 st"
  define b where "b = fwd (length (print a)) c"
  define d where "d = fwd (length ops) b"
  have rc: "rest E c = print a @ ops @ CHR '')'' # ys" using r by (simp add: c_def rest_fwd)
  have rb: "rest E b = ops @ CHR '')'' # ys" unfolding b_def by (rule rest_append[OF rc])
  have rd: "rest E d = CHR '')'' # ys" unfolding d_def by (rule rest_append[OF rb])
  have "gives (\<lambda>f. parse_postfix f E c) (n, d)"
    using gives_postfix[OF p plain_ne[OF a]] op[OF rb] by (simp add: c_def b_def d_def)
  then have "gives (\<lambda>f. parse_concat f E c) (n, d)"
    by (rule read_branch[OF _ n print_peek(1)[OF a rc]]) (simp add: peek_rest rd is_concat_terminator_def)
  then have "gives (\<lambda>f. parse_primary f E st) (n, fwd 1 d)"
    unfolding c_def by (rule read_group[OF _ n r rd])
  then show ?thesis by (simp add: c_def b_def d_def fwd_fwd add.commute)
qed

lemma read_concat_group:
  assumes r: "rest E st = CHR ''('' # print a @ print b @ CHR '')'' # ys" and pl: "plain a" "plain b"
    and pa: "gives (\<lambda>f. parse_primary f E (fwd 1 st)) (a, fwd (length (print a)) (fwd 1 st))"
    and pb: "gives (\<lambda>f. parse_primary f E (fwd (length (print a)) (fwd 1 st)))
      (b, fwd (length (print b)) (fwd (length (print a)) (fwd 1 st)))"
  shows "gives (\<lambda>f. parse_primary f E st) (Concat a b, fwd (2 + length (print a) + length (print b)) st)"
proof -
  define c where "c = fwd 1 st"
  define d where "d = fwd (length (print a)) c"
  define e where "e = fwd (length (print b)) d"
  have rc: "rest E c = print a @ print b @ CHR '')'' # ys" using r by (simp add: c_def rest_fwd)
  have rd: "rest E d = print b @ CHR '')'' # ys" unfolding d_def by (rule rest_append[OF rc])
  have re: "rest E e = CHR '')'' # ys" unfolding e_def by (rule rest_append[OF rd])
  have oa: "gives (\<lambda>f. parse_postfix f E c) (a, d)"
    using read_operand[OF pa pl(1)] print_peek(2)[OF pl(2) rd] by (auto simp: c_def d_def)
  have ob: "gives (\<lambda>f. parse_postfix f E d) (b, e)"
    using read_operand[OF pb pl(2)] re by (simp add: c_def d_def e_def peek_rest)
  have te: "is_concat_terminator (peek E e 0)" by (simp add: peek_rest re is_concat_terminator_def)
  have "gives (\<lambda>f. concat_loop f E Null c) (Concat a b, e)"
    using plain_ne[OF pl(1)] plain_ne[OF pl(2)]
    by (intro gives_concat_more[OF oa _ print_peek(1)[OF pl(1) rc]] gives_concat_more[OF ob _ print_peek(1)[OF pl(2) rd]])
      (simp_all add: concat_node_def gives_concat_end te)
  then have "gives (\<lambda>f. parse_concat f E c) (Concat a b, e)" by (rule gives_concat) simp
  then have "gives (\<lambda>f. parse_primary f E st) (Concat a b, fwd 1 e)"
    unfolding c_def by (rule read_group[OF _ _ r re]) simp
  then show ?thesis by (simp add: c_def d_def e_def fwd_fwd add.commute)
qed

lemma read_alt_group:
  assumes r: "rest E st = CHR ''('' # print a @ CHR ''|'' # print b @ CHR '')'' # ys" and pl: "plain a" "plain b"
    and pa: "gives (\<lambda>f. parse_primary f E (fwd 1 st)) (a, fwd (length (print a)) (fwd 1 st))"
    and pb: "gives (\<lambda>f. parse_primary f E (fwd 1 (fwd (length (print a)) (fwd 1 st))))
      (b, fwd (length (print b)) (fwd 1 (fwd (length (print a)) (fwd 1 st))))"
  shows "gives (\<lambda>f. parse_primary f E st) (Alt a b, fwd (3 + length (print a) + length (print b)) st)"
proof -
  define c where "c = fwd 1 st"
  define d where "d = fwd (length (print a)) c"
  define e where "e = fwd 1 d"
  define g where "g = fwd (length (print b)) e"
  have rc: "rest E c = print a @ CHR ''|'' # print b @ CHR '')'' # ys" using r by (simp add: c_def rest_fwd)
  have rd: "rest E d = CHR ''|'' # print b @ CHR '')'' # ys" unfolding d_def by (rule rest_append[OF rc])
  have re: "rest E e = print b @ CHR '')'' # ys" using rd by (simp add: e_def rest_fwd)
  have rg: "rest E g = CHR '')'' # ys" unfolding g_def by (rule rest_append[OF re])
  have t: "is_concat_terminator (peek E d 0)" "is_concat_terminator (peek E g 0)"
    by (simp_all add: peek_rest rd rg is_concat_terminator_def)
  have "gives (\<lambda>f. parse_postfix f E c) (a, d)"
    using read_operand[OF pa pl(1)] rd by (simp add: c_def d_def peek_rest)
  then have ca: "gives (\<lambda>f. parse_concat f E c) (a, d)"
    by (rule read_branch[OF _ plain_ne[OF pl(1)] print_peek(1)[OF pl(1) rc] t(1)])
  have "gives (\<lambda>f. parse_postfix f E e) (b, g)"
    using read_operand[OF pb pl(2)] rg by (simp add: c_def d_def e_def g_def peek_rest)
  then have cb: "gives (\<lambda>f. parse_concat f E e) (b, g)"
    by (rule read_branch[OF _ plain_ne[OF pl(2)] print_peek(1)[OF pl(2) re] t(2)])
  have le: "gives (\<lambda>f. alt_loop f E (Alt a b) g) (Alt a b, g)"
    by (rule gives_loop_end) (simp add: peek_rest rg)
  have "skip E d = e" "peek E d 0 = CHR ''|''" using rd by (simp_all add: advance_rest peek_rest e_def)
  with cb have "gives (\<lambda>f. alt_loop f E a d) (Alt a b, g)" by (intro gives_loop_more[OF _ _ le]) simp_all
  with ca have "gives (\<lambda>f. parse_alt f E c) (Alt a b, g)" by (rule gives_alt)
  then have "gives (\<lambda>f. parse_primary f E st) (Alt a b, skip E g)"
    using r rg by (intro gives_group) (simp_all add: advance_rest peek_rest c_def)
  then show ?thesis
    using rg by (simp add: advance_rest c_def d_def e_def g_def fwd_fwd eval_nat_numeral)
qed

lemma print_read:
  "plain n \<Longrightarrow> \<not> pe_ci E \<Longrightarrow> rest E st = print n @ ys \<Longrightarrow>
   gives (\<lambda>f. parse_primary f E st) (n, fwd (length (print n)) st)"
proof (induction n arbitrary: st ys)
  case Empty
  have "gives (\<lambda>f. concat_loop f E Null (fwd 1 st)) (Null, fwd 1 st)"
    using Empty by (intro gives_concat_end) (simp add: rest_fwd peek_rest is_concat_terminator_def)
  then obtain f where "concat_loop f E Null (fwd 1 st) = Some (Null, fwd 1 st)" by (auto simp: gives_def)
  then have "parse_concat (Suc f) E (fwd 1 st) = Some (Empty, fwd 1 st)"
    by (simp add: parser_simps or_empty_def)
  then have "gives (\<lambda>f. parse_concat f E (fwd 1 st)) (Empty, fwd 1 st)" unfolding gives_def ..
  then have "gives (\<lambda>f. parse_primary f E st) (Empty, fwd 1 (fwd 1 st))"
    by (rule read_group) (use Empty in \<open>simp_all add: rest_fwd\<close>)
  then show ?case by (simp add: fwd_fwd eval_nat_numeral)
next
  case (Class s)
  have "print_class s \<noteq> []" "hd (print_class s) = CHR ''[''" by (simp_all add: print_class_def class_text_def)
  then have "peek E st 0 = CHR ''[''" using Class.prems(3) peek_at by simp
  then have "parse_primary (Suc 0) E st = Some (parse_class E st)" by (simp add: parser_simps parse_atom_def)
  also have "parse_class E st = (Class s, fwd (length (print_class s)) st)"
    using Class.prems by (intro print_class_read) simp_all
  finally show ?case unfolding gives_def by auto
next
  case (Concat a b)
  have "rest E st = CHR ''('' # print a @ print b @ CHR '')'' # ys" using Concat.prems by simp
  moreover from this have "rest E (fwd 1 st) = print a @ print b @ CHR '')'' # ys" by (simp add: rest_fwd)
  moreover from rest_append[OF this]
  have "rest E (fwd (length (print a)) (fwd 1 st)) = print b @ CHR '')'' # ys" .
  ultimately show ?case
    using read_concat_group[of E st a b ys] Concat by (simp add: eval_nat_numeral)
next
  case (Alt a b)
  have r: "rest E st = CHR ''('' # print a @ CHR ''|'' # print b @ CHR '')'' # ys" using Alt.prems by simp
  then have ra: "rest E (fwd 1 st) = print a @ CHR ''|'' # print b @ CHR '')'' # ys" by (simp add: rest_fwd)
  from rest_append[OF this]
  have "rest E (fwd 1 (fwd (length (print a)) (fwd 1 st))) = print b @ CHR '')'' # ys"
    by (subst rest_fwd) simp
  with r ra show ?case
    using read_alt_group[of E st a b ys] Alt by (simp add: eval_nat_numeral)
next
  case (Star a)
  have "gives (\<lambda>f. parse_primary f E st) (Star a, fwd (2 + length (print a) + length ''*'') st)"
    by (rule read_postfix_group[where ys = ys])
      (use Star in \<open>simp_all add: rest_fwd postfix_op_def peek_rest advance_rest\<close>)
  then show ?case by (simp add: eval_nat_numeral)
next
  case (Plus a)
  have "gives (\<lambda>f. parse_primary f E st) (Plus a, fwd (2 + length (print a) + length ''+'') st)"
    by (rule read_postfix_group[where ys = ys])
      (use Plus in \<open>simp_all add: rest_fwd postfix_op_def peek_rest advance_rest\<close>)
  then show ?case by (simp add: eval_nat_numeral)
next
  case (Question a)
  have "gives (\<lambda>f. parse_primary f E st) (Question a, fwd (2 + length (print a) + length ''?'') st)"
    by (rule read_postfix_group[where ys = ys])
      (use Question in \<open>simp_all add: rest_fwd postfix_op_def peek_rest advance_rest\<close>)
  then show ?case by (simp add: eval_nat_numeral)
next
  case (Repeat a lo hi)
  let ?ops = "CHR ''{'' # dec (unat lo) @ CHR '','' # dec (unat hi) @ ''}''"
  have op: "postfix_op E a b = (Repeat a lo hi, fwd (length ?ops) b)" if b: "rest E b = ?ops @ CHR '')'' # ys" for b
  proof -
    have "rest E (fwd 1 b) = dec (unat lo) @ CHR '','' # dec (unat hi) @ CHR ''}'' # CHR '')'' # ys"
      using b by (simp add: rest_fwd)
    from peek_at[OF this dec_nonempty] dec_hd[of "unat lo"] have "isdigit (peek E b 1)"
      by (simp add: peek_rest rest_fwd split: if_splits)
    with b repeat_read[of E b "unat lo" "unat hi" "CHR '')'' # ys" a] show ?thesis
      by (simp add: postfix_op_def peek_rest Let_def eval_nat_numeral)
  qed
  have "gives (\<lambda>f. parse_primary f E st) (Repeat a lo hi, fwd (2 + length (print a) + length ?ops) st)"
    by (rule read_postfix_group[where ys = ys, OF _ _ _ op]) (use Repeat in \<open>simp_all add: rest_fwd\<close>)
  then show ?case by (simp add: eval_nat_numeral)
qed simp_all

section \<open>Whole patterns\<close>

lemma print_top_read:
  assumes "plain n"
  shows "gives (\<lambda>f. parse_regex f (print_top bol n eol) macros False diag loc) (anchored bol n eol, diag)"
proof -
  define E where "E = parser_env (print_top bol n eol) macros False loc"
  define a where "a = parser_start diag"
  define b where "b = snd (top_start E a)"
  define tl where "tl = (if eol then ''$'' else [])"
  have ci: "\<not> pe_ci E" by (simp add: E_def)
  have ra: "rest E a = (if bol then ''^'' else []) @ print n @ tl"
    by (simp add: rest_def E_def a_def print_top_def tl_def)
  obtain c cs where c: "print n = c # cs" "c = CHR ''('' \<or> c = CHR ''[''" using print_start[OF assms] by blast
  have ts: "fst (top_start E a) = bol" "rest E b = print n @ tl"
    using ra c by (auto simp: top_start_def peek_rest advance_rest rest_fwd b_def)
  define d where "d = fwd (length (print n)) b"
  have rd: "rest E d = tl" unfolding d_def by (rule rest_append[OF ts(2)])
  have op: "gives (\<lambda>f. parse_postfix f E b) (n, d)"
    using read_operand[OF print_read[OF assms ci ts(2)] assms] rd by (simp add: d_def peek_rest tl_def)
  have "is_concat_terminator (peek E d 0)" by (simp add: peek_rest rd tl_def is_concat_terminator_def)
  from read_branch[OF op plain_ne[OF assms] print_peek(1)[OF assms ts(2)] this]
  have "gives (\<lambda>f. parse_alt f E b) (n, d)"
    by (rule gives_alt) (rule gives_loop_end, simp add: peek_rest rd tl_def)
  then obtain f where f: "parse_alt f E b = Some (n, d)" by (auto simp: gives_def)
  have e: "top_end E bol n d = (anchored bol n eol, if eol then fwd 1 d else d)"
    using plain_ne[OF assms]
    by (auto simp: top_end_def peek_rest advance_rest rd tl_def at_end_rest rest_fwd concat_node_def anchored_def Let_def)
  have "ps_diag (if eol then fwd 1 d else d) = diag"
    by (simp add: d_def b_def top_start_def advance_rest a_def)
  with f ts(1) e show ?thesis
    unfolding gives_def parse_regex_def E_def[symmetric] a_def[symmetric]
    by (intro exI[of _ f]) (simp add: parse_top_def b_def[symmetric])
qed

lemma gives_fuel:
  assumes "gives (\<lambda>f. parse_regex f src macros ci diag loc) r" "macros_bounded B macros"
    "parser_fuel B macros src \<le> f"
  shows "parse_regex f src macros ci diag loc = Some r"
proof -
  obtain g where g: "parse_regex g src macros ci diag loc = Some r" using assms(1) by (auto simp: gives_def)
  obtain q where q: "parse_regex f src macros ci diag loc = Some q" using parse_regex_total[OF assms(2,3)] by (metis option.exhaust)
  from parse_regex_mono[OF g, of "max f g"] parse_regex_mono[OF q, of "max f g"] q show ?thesis by simp
qed

text \<open>The scan for the slash of a trailing context passes over a printed tree.\<close>

lemma hex_char_scan: "d < 16 \<Longrightarrow> hex_char d \<notin> {CHR '']'', CHR 0x5C}"
  using hex_char_cases[of d] by (auto simp: ctype_defs)

lemma slash_scan_byte:
  assumes "b < 256"
  shows "slash_scan k True q i (byte_text b @ ys) = slash_scan k True q (i + 4) ys"
proof -
  have "b div 16 < 16" "b mod 16 < 16" using assms by auto
  with hex_char_scan have "slash_scan k True q i (byte_text b @ ys) = slash_scan k True q (Suc (Suc (Suc (Suc i)))) ys"
    by (simp add: byte_text_def)
  moreover have "Suc (Suc (Suc (Suc i))) = i + 4" by simp
  ultimately show ?thesis by simp
qed

lemma slash_scan_items:
  "\<forall>it\<in>set items. item_ok it \<and> (\<forall>n. it \<noteq> Posix n) \<Longrightarrow>
   slash_scan k True q i (concat (map item_text items) @ CHR '']'' # ys) =
   slash_scan k False q (i + length (concat (map item_text items)) + 1) ys"
proof (induction items arbitrary: i)
  case (Cons it items)
  show ?case
  proof (cases it)
    case (Single a)
    then show ?thesis
      using Cons slash_scan_byte[of a k q i "concat (map item_text items) @ CHR '']'' # ys"]
      by (simp add: algebra_simps)
  next
    case (Range a b)
    then show ?thesis
      using Cons slash_scan_byte[of a k q i "CHR ''-'' # byte_text b @ concat (map item_text items) @ CHR '']'' # ys"]
        slash_scan_byte[of b k q "i + 5" "concat (map item_text items) @ CHR '']'' # ys"]
      by (simp add: algebra_simps eval_nat_numeral)
  qed (use Cons in auto)
qed simp

lemma slash_scan_class:
  "slash_scan k False False i (print_class s @ ys) = slash_scan k False False (i + length (print_class s)) ys"
proof -
  have s: "slash_scan k True False j (concat (map item_text items) @ CHR '']'' # ys) =
      slash_scan k False False (j + length (concat (map item_text items)) + 1) ys"
    if "items = class_items s \<or> items = [Range 0 255]" for items j
    using that by (intro slash_scan_items) (auto simp: class_items_def)
  show ?thesis
    using s[of "class_items s"] s[of "[Range 0 255]"]
    by (auto simp: print_class_def class_text_def algebra_simps)
qed

lemma digit_not_special: "isdigit c \<Longrightarrow> c \<notin> {CHR 0x5C, CHR ''['', CHR 0x22, CHR ''('', CHR '')'', CHR ''/''}"
  by (auto simp: isdigit_def)

lemma slash_scan_digits:
  "\<forall>c\<in>set ds. isdigit c \<Longrightarrow> slash_scan k False False i (ds @ ys) = slash_scan k False False (i + length ds) ys"
  by (induction ds arbitrary: i) (use digit_not_special in auto)

lemma slash_scan_print:
  "plain n \<Longrightarrow> slash_scan k False False i (print n @ ys) = slash_scan k False False (i + length (print n)) ys"
proof (induction n arbitrary: k i ys)
  case (Repeat a lo hi)
  then show ?case by (simp add: slash_scan_digits[OF dec_digits] algebra_simps)
next
  case (Class s)
  then show ?case by (simp add: slash_scan_class)
next
  case (Concat a b)
  then show ?case by (simp add: add_ac)
next
  case (Alt a b)
  then show ?case by (simp add: add_ac)
qed (simp_all)

lemma no_slash:
  assumes "plain n"
  shows "find_top_level_slash (print_top bol n eol) = -1"
  using slash_scan_print[OF assms, of 0 _ "if eol then ''$'' else []"]
  by (cases bol; cases eol) (simp_all add: find_top_level_slash_def print_top_def)

lemma slash_between:
  assumes "plain n"
  shows "find_top_level_slash (print_top bol n False @ CHR ''/'' # ys) = int (length (print_top bol n False))"
  using slash_scan_print[OF assms, of 0 _ "CHR ''/'' # ys"]
  by (cases bol) (simp_all add: find_top_level_slash_def print_top_def)

lemma print_parse_text:
  assumes n: "plain n" and m: "macros_bounded B macros" and f: "parser_fuel B macros (print_top bol n eol) \<le> f"
  shows "parse_pattern f (print_top bol n eol) macros False diag loc =
      Some (\<lparr>pp_tree = anchored bol n eol, pp_trail_len = 0,
        pp_eol_anchored = peek_is_eol_anchor (anchored bol n eol)\<rparr>, diag)"
proof -
  have "parse_regex f (print_top bol n eol) macros False diag loc = Some (anchored bol n eol, diag)"
    by (rule gives_fuel[OF print_top_read[OF n] m f])
  then show ?thesis
    using anchored_not_Null[OF n] by (simp add: parse_pattern_def no_slash[OF n])
qed

section \<open>Properties\<close>

text \<open>C8. Writing a tree and reading the text back gives the tree: every tree made of the
operators of the language is the tree of the pattern \<open>print_top\<close> writes for it, with its
anchors, without a diagnostic, and a trailing context between two written patterns is split
exactly at its slash.\<close>

theorem print_parse_roundtrip:
  assumes n: "plain n" and s: "plain s" and m: "macros_bounded B macros"
    and f: "parser_fuel B macros (print_top bol n eol) \<le> f"
      "parser_fuel B macros (print_top bol n False @ CHR ''/'' # print_top False s eol) \<le> f"
  shows "parse_pattern f (print_top bol n eol) macros False diag loc =
      Some (\<lparr>pp_tree = anchored bol n eol, pp_trail_len = 0,
        pp_eol_anchored = peek_is_eol_anchor (anchored bol n eol)\<rparr>, diag) \<and>
    parse_pattern f (print_top bol n False @ CHR ''/'' # print_top False s eol) macros False diag loc =
      Some (join_trail (anchored bol n False) (anchored False s eol) diag loc)"
proof
  show "parse_pattern f (print_top bol n eol) macros False diag loc =
      Some (\<lparr>pp_tree = anchored bol n eol, pp_trail_len = 0,
        pp_eol_anchored = peek_is_eol_anchor (anchored bol n eol)\<rparr>, diag)"
    by (rule print_parse_text[OF n m f(1)])
  have le: "parser_fuel B macros (print_top bol n False) \<le> f" "parser_fuel B macros (print_top False s eol) \<le> f"
    using f(2) by (simp_all add: parser_fuel_def)
  have "parse_regex f (print_top bol n False) macros False diag loc = Some (anchored bol n False, diag)"
    by (rule gives_fuel[OF print_top_read[OF n] m le(1)])
  moreover have "parse_regex f (print_top False s eol) macros False diag loc = Some (anchored False s eol, diag)"
    by (rule gives_fuel[OF print_top_read[OF s] m le(2)])
  ultimately show "parse_pattern f (print_top bol n False @ CHR ''/'' # print_top False s eol) macros False diag loc =
      Some (join_trail (anchored bol n False) (anchored False s eol) diag loc)"
    by (simp add: parse_pattern_def slash_between[OF n] Let_def)
qed

lemma print_parse_roundtrip_witness:
  "parse_pattern 1000 ''^(()*)$'' (\<lambda>_. None) False no_diag no_loc =
     Some (\<lparr>pp_tree = Concat AnchorBOL (Concat (Star Empty) AnchorEOL), pp_trail_len = 0,
       pp_eol_anchored = False\<rparr>, no_diag)"
proof -
  have "macros_bounded 0 (\<lambda>_. None)" by (simp add: macros_bounded_def)
  from print_parse_roundtrip[OF _ _ this, of "Star Empty" Empty True True 1000 no_diag no_loc]
  show ?thesis
    by (simp add: print_top_def parser_fuel_def anchored_def peek_is_eol_anchor_def)
qed

text \<open>The scan for the slash of a trailing context does not read classes the way the
parser does: in \<open>[]/]\<close>, a class of the two characters \<open>]\<close> and \<open>/\<close> for \<open>parse_regex\<close>, it
takes the slash inside the class for the operator, and the pattern is rejected.\<close>

theorem slash_in_class_splits:
  "parse_regex 30 ''[]/]'' (\<lambda>_. None) False no_diag no_loc =
     Some (Class (bs_add (bs_add bs_clear 93) 47), no_diag) \<and>
   find_top_level_slash ''[]/]'' = 2 \<and>
   (\<exists>p d. parse_pattern 30 ''[]/]'' (\<lambda>_. None) False no_diag no_loc = Some (p, d) \<and> \<not> diag_ok d)"
proof (intro conjI)
  show "parse_regex 30 ''[]/]'' (\<lambda>_. None) False no_diag no_loc =
     Some (Class (bs_add (bs_add bs_clear 93) 47), no_diag)" by code_simp
  show "find_top_level_slash ''[]/]'' = 2" by code_simp
  have "(case parse_pattern 30 ''[]/]'' (\<lambda>_. None) False no_diag no_loc of
      None \<Rightarrow> False | Some (p, d) \<Rightarrow> \<not> diag_ok d)" by code_simp
  then show "\<exists>p d. parse_pattern 30 ''[]/]'' (\<lambda>_. None) False no_diag no_loc = Some (p, d) \<and> \<not> diag_ok d"
    by (auto split: option.splits)
qed

text \<open>The counts of \<open>{m,n}\<close> are read in 32 bits: they are the written numbers modulo
2^32, so that \<open>x{4294967297}\<close> is taken for \<open>x{1}\<close> without a diagnostic.\<close>

theorem repeat_counts:
  assumes "rest E st = CHR ''{'' # dec m @ CHR '','' # dec n @ CHR ''}'' # ys"
  shows "\<exists>lo hi. parse_repeat E p st = (Repeat p lo hi, fwd (3 + length (dec m) + length (dec n)) st) \<and>
    unat lo = m mod 2 ^ 32 \<and> unat hi = n mod 2 ^ 32"
  using repeat_read[OF assms] by (simp add: unat_of_nat)

lemma repeat_counts_witness:
  "\<exists>lo hi st. parse_repeat (parser_env (CHR ''{'' # dec 4294967297 @ CHR '','' # dec 4294967298 @ ''}'')
       (\<lambda>_. None) False no_loc) Empty (parser_start no_diag) = (Repeat Empty lo hi, st) \<and>
     unat lo = 1 \<and> unat hi = 2"
proof -
  let ?E = "parser_env (CHR ''{'' # dec 4294967297 @ CHR '','' # dec 4294967298 @ ''}'') (\<lambda>_. None) False no_loc"
  have "rest ?E (parser_start no_diag) =
      CHR ''{'' # dec 4294967297 @ CHR '','' # dec 4294967298 @ CHR ''}'' # []" by (simp add: rest_def)
  from repeat_counts[OF this, of Empty] show ?thesis by auto
qed

end
