(* ===== verification/Nfa.thy ===== *)
theory Nfa
  imports Regex_Ast
begin

text \<open>
  The NFA of \<open>src/src/nfa.hpp\<close> and its construction in \<open>nfa.cpp\<close>: the records, the
  two primitive writes (a fresh state, an edge), the compiler from trees to fragments, and
  the operations that add rules to the automaton. State ids are indices into the vector of
  states and are \<open>nat\<close>; a field that holds -1 for "none" is an \<open>int\<close>.
\<close>

section \<open>The automaton\<close>

record nfa_edge =
  e_target :: nat
  e_on :: byte_set

record nfa_state =
  st_out :: "nfa_edge list"
  st_accept_rule :: int
  st_is_boundary :: bool

record cond_start =
  cs_normal :: nat
  cs_bol :: nat

record nfa =
  nfa_states :: "nfa_state list"
  nfa_cond_starts :: "cond_start list"
  nfa_cond_names :: "string list"
  nfa_cond_excl :: "nat list"
  nfa_rule_bol :: "nat list"
  nfa_rule_eol :: "nat list"
  nfa_rule_trail :: "int list"
  nfa_eof_rules :: "nat list list"
  nfa_rule_boundary_states :: "nat list list"

record frag =
  f_s :: nat
  f_e :: nat

record rule_sites =
  rs_conds :: "nat list"
  rs_any_state :: bool

text \<open>The default-constructed state, and an NFA with every vector empty.\<close>

definition fresh_state :: nfa_state where
  "fresh_state = \<lparr>st_out = [], st_accept_rule = -1, st_is_boundary = False\<rparr>"

definition empty_nfa :: nfa where
  "empty_nfa = \<lparr>nfa_states = [], nfa_cond_starts = [], nfa_cond_names = [], nfa_cond_excl = [],
     nfa_rule_bol = [], nfa_rule_eol = [], nfa_rule_trail = [], nfa_eof_rules = [],
     nfa_rule_boundary_states = []\<rparr>"

definition new_state :: "nfa \<Rightarrow> nfa \<times> nat" where
  "new_state nfa =
     (nfa\<lparr>nfa_states := nfa_states nfa @ [fresh_state]\<rparr>, length (nfa_states nfa))"

definition add_edge :: "nfa_state list \<Rightarrow> nat \<Rightarrow> nfa_edge \<Rightarrow> nfa_state list" where
  "add_edge S from e = S[from := (S ! from)\<lparr>st_out := st_out (S ! from) @ [e]\<rparr>]"

definition add_eps :: "nfa \<Rightarrow> nat \<Rightarrow> nat \<Rightarrow> nfa" where
  "add_eps nfa from to =
     nfa\<lparr>nfa_states := add_edge (nfa_states nfa) from \<lparr>e_target = to, e_on = bs_clear\<rparr>\<rparr>"

definition add_class :: "nfa \<Rightarrow> nat \<Rightarrow> nat \<Rightarrow> byte_set \<Rightarrow> nfa" where
  "add_class nfa from to on =
     nfa\<lparr>nfa_states := add_edge (nfa_states nfa) from \<lparr>e_target = to, e_on = on\<rparr>\<rparr>"

section \<open>From trees to fragments\<close>

text \<open>
  The code's \<open>compile_*\<close> functions call \<open>compile\<close> on the children of the node; here they
  take the compiled children as functions from automata to an automaton and a fragment.
\<close>

type_synonym compiler = "nfa \<Rightarrow> nfa \<times> frag"

definition compile_class :: "byte_set \<Rightarrow> compiler" where
  "compile_class on nfa =
     (let (nfa, s) = new_state nfa; (nfa, e) = new_state nfa
      in (add_class nfa s e on, \<lparr>f_s = s, f_e = e\<rparr>))"

definition compile_concat :: "compiler \<Rightarrow> compiler \<Rightarrow> compiler" where
  "compile_concat ca cb nfa =
     (let (nfa, a) = ca nfa; (nfa, b) = cb nfa
      in (add_eps nfa (f_e a) (f_s b), \<lparr>f_s = f_s a, f_e = f_e b\<rparr>))"

definition compile_alt :: "compiler \<Rightarrow> compiler \<Rightarrow> compiler" where
  "compile_alt ca cb nfa =
     (let (nfa, a) = ca nfa; (nfa, b) = cb nfa;
          (nfa, s) = new_state nfa; (nfa, e) = new_state nfa;
          nfa = add_eps nfa s (f_s a); nfa = add_eps nfa s (f_s b);
          nfa = add_eps nfa (f_e a) e; nfa = add_eps nfa (f_e b) e
      in (nfa, \<lparr>f_s = s, f_e = e\<rparr>))"

definition compile_star :: "compiler \<Rightarrow> compiler" where
  "compile_star ca nfa =
     (let (nfa, a) = ca nfa; (nfa, s) = new_state nfa; (nfa, e) = new_state nfa;
          nfa = add_eps nfa s (f_s a); nfa = add_eps nfa s e;
          nfa = add_eps nfa (f_e a) (f_s a); nfa = add_eps nfa (f_e a) e
      in (nfa, \<lparr>f_s = s, f_e = e\<rparr>))"

definition compile_plus :: "compiler \<Rightarrow> compiler" where
  "compile_plus ca nfa =
     (let (nfa, a) = ca nfa; (nfa, s) = new_state nfa; (nfa, e) = new_state nfa;
          nfa = add_eps nfa s (f_s a);
          nfa = add_eps nfa (f_e a) (f_s a); nfa = add_eps nfa (f_e a) e
      in (nfa, \<lparr>f_s = s, f_e = e\<rparr>))"

definition compile_question :: "compiler \<Rightarrow> compiler" where
  "compile_question ca nfa =
     (let (nfa, a) = ca nfa; (nfa, s) = new_state nfa; (nfa, e) = new_state nfa;
          nfa = add_eps nfa s (f_s a); nfa = add_eps nfa s e;
          nfa = add_eps nfa (f_e a) e
      in (nfa, \<lparr>f_s = s, f_e = e\<rparr>))"

definition compile_empty :: compiler where
  "compile_empty nfa =
     (let (nfa, s) = new_state nfa; (nfa, e) = new_state nfa
      in (add_eps nfa s e, \<lparr>f_s = s, f_e = e\<rparr>))"

text \<open>
  \<open>compile_repeat\<close> keeps the chain built so far in \<open>head\<close>; the sentinel
  \<open>{-1, -1}\<close> is \<open>None\<close>. \<open>append_frag\<close> is its lambda \<open>append\<close>, \<open>append_copies\<close>
  one of its two counting loops.
\<close>

definition append_frag :: "nfa \<times> frag option \<Rightarrow> compiler \<Rightarrow> nfa \<times> frag option" where
  "append_frag st c =
     (case st of (nfa, head) \<Rightarrow>
        let (nfa, f) = c nfa
        in case head of
             None \<Rightarrow> (nfa, Some f)
           | Some h \<Rightarrow> (add_eps nfa (f_e h) (f_s f), Some \<lparr>f_s = f_s h, f_e = f_e f\<rparr>))"

primrec append_copies :: "nat \<Rightarrow> compiler \<Rightarrow> nfa \<times> frag option \<Rightarrow> nfa \<times> frag option" where
  "append_copies 0 c st = st"
| "append_copies (Suc k) c st = append_copies k c (append_frag st c)"

definition compile_repeat :: "compiler \<Rightarrow> u32 \<Rightarrow> u32 \<Rightarrow> compiler" where
  "compile_repeat ca lo hi nfa =
     (let st = append_copies (unat lo) ca (nfa, None);
          st = (if hi = kInf then append_frag st (compile_star ca)
                else append_copies (if lo \<le> hi then unat (hi - lo) else 0) (compile_question ca) st)
      in case st of (nfa, head) \<Rightarrow>
           (case head of None \<Rightarrow> compile_empty nfa | Some h \<Rightarrow> (nfa, h)))"

definition compile_boundary :: compiler where
  "compile_boundary nfa =
     (let (nfa, s) = new_state nfa; (nfa, e) = new_state nfa;
          S = nfa_states nfa;
          nfa = nfa\<lparr>nfa_states := S[e := (S ! e)\<lparr>st_is_boundary := True\<rparr>]\<rparr>
      in (add_eps nfa s e, \<lparr>f_s = s, f_e = e\<rparr>))"

primrec compile :: "node \<Rightarrow> compiler" where
  "compile Null = compile_empty"
| "compile Empty = compile_empty"
| "compile (Class cls) = compile_class cls"
| "compile (Concat a b) = compile_concat (compile a) (compile b)"
| "compile (Alt a b) = compile_alt (compile a) (compile b)"
| "compile (Star a) = compile_star (compile a)"
| "compile (Plus a) = compile_plus (compile a)"
| "compile (Question a) = compile_question (compile a)"
| "compile (Repeat a lo hi) = compile_repeat (compile a) lo hi"
| "compile AnchorBOL = compile_empty"
| "compile AnchorEOL = compile_empty"
| "compile TrailBoundary = compile_boundary"

section \<open>Adding rules\<close>

text \<open>
  The conditions a rule belongs to, in the order the code links them: all of them, INITIAL
  and the inclusive ones, or the ones listed. The same choice is made for the patterns
  (\<open>connect_to_conds\<close>) and for the end-of-file rules (\<open>add_eof_rule\<close>).
\<close>

definition linked_conds :: "nfa \<Rightarrow> rule_sites \<Rightarrow> nat list" where
  "linked_conds nfa sites =
     (let n = length (nfa_cond_starts nfa)
      in if rs_any_state sites then [0..<n]
         else if rs_conds sites = [] then filter (\<lambda>i. i = 0 \<or> nfa_cond_excl nfa ! i = 0) [0..<n]
         else rs_conds sites)"

definition link_cond :: "nat \<Rightarrow> bool \<Rightarrow> nat \<Rightarrow> nfa \<Rightarrow> nfa" where
  "link_cond entry only_bol cond_id nfa =
     (let cs = nfa_cond_starts nfa ! cond_id;
          nfa = add_eps nfa (cs_bol cs) entry
      in if only_bol then nfa else add_eps nfa (cs_normal cs) entry)"

definition connect_to_conds :: "nfa \<Rightarrow> nat \<Rightarrow> bool \<Rightarrow> rule_sites \<Rightarrow> nfa" where
  "connect_to_conds nfa entry only_bol sites =
     fold (link_cond entry only_bol) (linked_conds nfa sites) nfa"

primrec init_conds :: "nat \<Rightarrow> nfa \<Rightarrow> nfa" where
  "init_conds 0 nfa = nfa"
| "init_conds (Suc k) nfa =
     (let (nfa, n) = new_state nfa; (nfa, b) = new_state nfa
      in init_conds k
           (nfa\<lparr>nfa_cond_starts := nfa_cond_starts nfa @ [\<lparr>cs_normal = n, cs_bol = b\<rparr>]\<rparr>))"

definition init_nfa :: "nfa \<Rightarrow> string list \<Rightarrow> nat list \<Rightarrow> nfa" where
  "init_nfa nfa names excl =
     init_conds (length names)
       (nfa\<lparr>nfa_states := [], nfa_cond_names := names, nfa_cond_excl := excl,
          nfa_cond_starts := [], nfa_eof_rules := replicate (length names) []\<rparr>)"

text \<open>The \<open>while\<close> loop of \<open>add_rule_to_nfa\<close> that makes room for the new rule id.\<close>

definition grow_rules :: "nfa \<Rightarrow> nat \<Rightarrow> nfa" where
  "grow_rules nfa rule_id =
     (let k = Suc rule_id - length (nfa_rule_bol nfa)
      in nfa\<lparr>nfa_rule_bol := nfa_rule_bol nfa @ replicate k 0,
             nfa_rule_eol := nfa_rule_eol nfa @ replicate k 0,
             nfa_rule_trail := nfa_rule_trail nfa @ replicate k 0,
             nfa_rule_boundary_states := nfa_rule_boundary_states nfa @ replicate k []\<rparr>)"

definition add_rule_to_nfa :: "nfa \<Rightarrow> node \<Rightarrow> nat \<Rightarrow> rule_sites \<Rightarrow> int \<Rightarrow> nfa" where
  "add_rule_to_nfa nfa root rule_id sites trail_len =
     (let (body, bol, eol) = unwrap_anchors root;
          pre = length (nfa_states nfa);
          (nfa, f) = compile body nfa;
          S = nfa_states nfa;
          nfa = nfa\<lparr>nfa_states := S[f_e f := (S ! f_e f)\<lparr>st_accept_rule := int rule_id\<rparr>]\<rparr>;
          nfa = grow_rules nfa rule_id;
          nfa = nfa\<lparr>nfa_rule_bol := (nfa_rule_bol nfa)[rule_id := if bol then 1 else 0],
                    nfa_rule_eol := (nfa_rule_eol nfa)[rule_id := if eol then 1 else 0],
                    nfa_rule_trail := (nfa_rule_trail nfa)[rule_id := trail_len]\<rparr>;
          post = length (nfa_states nfa);
          marks = filter (\<lambda>i. st_is_boundary (nfa_states nfa ! i)) [pre..<post];
          B = nfa_rule_boundary_states nfa;
          nfa = nfa\<lparr>nfa_rule_boundary_states := B[rule_id := B ! rule_id @ marks]\<rparr>
      in connect_to_conds nfa (f_s f) bol sites)"

definition add_eof_rule :: "nfa \<Rightarrow> nat \<Rightarrow> rule_sites \<Rightarrow> nfa" where
  "add_eof_rule nfa rule_id sites =
     fold (\<lambda>c nfa. nfa\<lparr>nfa_eof_rules := (nfa_eof_rules nfa)[c := nfa_eof_rules nfa ! c @ [rule_id]]\<rparr>)
       (linked_conds nfa sites) nfa"

end
