(* ===== verification/Paths.thy ===== *)
theory Paths
  imports Regex_Ast
begin

text \<open>
  Paths of a labelled step relation \<open>E p l x\<close> (from state \<open>p\<close> to \<open>x\<close> reading the
  bytes \<open>l\<close>, none for an epsilon step), and how the paths of an automaton follow from
  those of a part of it that is left through one exit state only. The NFA compiler glues
  its fragments in exactly this way.
\<close>

type_synonym step_rel = "nat \<Rightarrow> byte list \<Rightarrow> nat \<Rightarrow> bool"

inductive path :: "step_rel \<Rightarrow> nat \<Rightarrow> byte list \<Rightarrow> nat \<Rightarrow> bool" for E where
  path_refl [simp, intro]: "path E p [] p"
| path_step: "E p l x \<Longrightarrow> path E x v q \<Longrightarrow> path E p (l @ v) q"

inductive_cases path_cases: "path E p w q"

lemma path_eps: "E p [] x \<Longrightarrow> path E x w q \<Longrightarrow> path E p w q"
  using path_step[of E p "[]"] by simp

lemma path_one: "E p l x \<Longrightarrow> path E p l x"
  using path_step[OF _ path_refl] by simp

lemma path_append: "path E p u x \<Longrightarrow> path E x v q \<Longrightarrow> path E p (u @ v) q"
  by (induction rule: path.induct) (auto intro: path_step)

lemma path_stuck: "path E p w q \<Longrightarrow> (\<And>l x. \<not> E p l x) \<Longrightarrow> w = [] \<and> q = p"
  by (auto elim: path_cases)

lemma path_first:
  assumes "path E p w q" "p \<noteq> q"
  obtains l x v where "w = l @ v" "E p l x" "path E x v q"
  using assms by (auto elim: path_cases)

definition closed_in :: "step_rel \<Rightarrow> nat set \<Rightarrow> bool" where
  "closed_in E R \<longleftrightarrow> (\<forall>p\<in>R. \<forall>l x. E p l x \<longrightarrow> x \<in> R)"

lemma closed_inD: "closed_in E R \<Longrightarrow> E p l x \<Longrightarrow> p \<in> R \<Longrightarrow> x \<in> R"
  by (auto simp: closed_in_def)

lemma path_closed: "path E p w q \<Longrightarrow> closed_in E R \<Longrightarrow> p \<in> R \<Longrightarrow> q \<in> R"
  by (induction rule: path.induct) (auto dest: closed_inD)

lemma path_sub:
  assumes "path E p w q" "closed_in E R" "p \<in> R"
    and "\<And>p l x. p \<in> R \<Longrightarrow> E p l x \<Longrightarrow> E' p l x"
  shows "path E' p w q"
  using assms
proof (induction rule: path.induct)
  case (path_step p l x v q)
  then show ?case by (meson closed_inD path.path_step)
qed simp

lemma path_cong:
  assumes "closed_in E R" "p \<in> R" "\<And>p l x. p \<in> R \<Longrightarrow> E p l x = E' p l x"
  shows "path E p w q = path E' p w q"
proof -
  have "closed_in E' R" using assms(1,3) by (auto simp: closed_in_def)
  then show ?thesis using assms path_sub[of E p w q R E'] path_sub[of E' p w q R E] by blast
qed

text \<open>
  A part \<open>R\<close> of \<open>E'\<close> that behaves like \<open>E\<close> except at its exit state \<open>e\<close>, which has
  no step in \<open>E\<close>: a path of \<open>E'\<close> from inside either is a path of \<open>E\<close> or passes the exit.
\<close>

definition part_of :: "step_rel \<Rightarrow> step_rel \<Rightarrow> nat set \<Rightarrow> nat \<Rightarrow> bool" where
  "part_of E E' R e \<longleftrightarrow>
     closed_in E R \<and> e \<in> R \<and> (\<forall>l x. \<not> E e l x) \<and>
     (\<forall>p\<in>R. p \<noteq> e \<longrightarrow> (\<forall>l x. E' p l x = E p l x))"

lemma part_path: "part_of E E' R e \<Longrightarrow> p \<in> R \<Longrightarrow> path E p w q \<Longrightarrow> path E' p w q"
  by (erule path_sub[where R = R]) (auto simp: part_of_def)

lemma part_exit:
  assumes "path E' p w q" "part_of E E' R e" "p \<in> R"
  shows "path E p w q \<and> q \<in> R \<or>
    (\<exists>u l x v. w = u @ l @ v \<and> path E p u e \<and> E' e l x \<and> path E' x v q)"
  using assms
proof (induction rule: path.induct)
  case (path_refl p)
  then show ?case by auto
next
  case (path_step p l x v q)
  show ?case
  proof (cases "p = e")
    case True
    with path_step.hyps have "path E p [] e \<and> E' e l x \<and> path E' x v q" by simp
    then show ?thesis by (metis append_Nil)
  next
    case False
    with path_step.prems path_step.hyps have st: "E p l x" "x \<in> R"
      by (auto simp: part_of_def dest: closed_inD)
    from path_step.IH[OF path_step.prems(1) st(2)] show ?thesis
    proof
      assume "path E x v q \<and> q \<in> R"
      with st show ?thesis by (blast intro: path.path_step)
    next
      assume "\<exists>u l' y v'. v = u @ l' @ v' \<and> path E x u e \<and> E' e l' y \<and> path E' y v' q"
      then obtain u l' y v' where *: "v = u @ l' @ v'" "path E x u e" "E' e l' y" "path E' y v' q"
        by blast
      from path.path_step[OF st(1) *(2)] have "path E p (l @ u) e" .
      with * show ?thesis by (metis append_assoc)
    qed
  qed
qed

text \<open>The exit leads back to the start, silently, or out: repetition.\<close>

lemma part_loop:
  assumes "path E' p w q" "part_of E E' R e" "p \<in> R"
    and ret: "\<And>l x. E' e l x \<Longrightarrow> l = [] \<and> (x = s \<or> x \<notin> R)"
    and leave: "\<And>l x v r. E' e l x \<Longrightarrow> x \<notin> R \<Longrightarrow> path E' x v r \<Longrightarrow> r \<notin> R"
    and "s \<in> R"
  shows "(q \<in> R \<and> (path E p w q \<or>
        (\<exists>u z v. w = u @ z @ v \<and> path E p u e \<and> z \<in> lstar {w. path E s w e} \<and> path E s v q))) \<or>
    (q \<notin> R \<and> (\<exists>u z x v. w = u @ z @ v \<and> path E p u e \<and> z \<in> lstar {w. path E s w e} \<and>
        x \<notin> R \<and> E' e [] x \<and> path E' x v q))"
  using assms(1,3)
proof (induction rule: path.induct)
  case (path_refl p)
  then show ?case by auto
next
  case (path_step p l x v q)
  let ?L = "{w. path E s w e}"
  show ?case
  proof (cases "p = e")
    case True
    with ret path_step.hyps(1) have l: "l = []" by blast
    show ?thesis
    proof (cases "x \<in> R")
      case True
      with ret path_step.hyps(1) \<open>p = e\<close> have [simp]: "x = s" by blast
      from path_step.IH[OF True] show ?thesis
      proof (elim disjE conjE exE)
        assume "q \<in> R" "path E x v q"
        then show ?thesis using l \<open>p = e\<close> by (metis append_Nil lstar_Nil path_refl \<open>x = s\<close>)
      next
        fix u z v' assume *: "q \<in> R" "v = u @ z @ v'" "path E x u e" "z \<in> lstar ?L" "path E s v' q"
        then have "u @ z \<in> lstar ?L" by auto
        with * l \<open>p = e\<close> show ?thesis by (metis append_Nil append_assoc path_refl)
      next
        fix u z y v' assume *: "q \<notin> R" "v = u @ z @ v'" "path E x u e" "z \<in> lstar ?L"
          "y \<notin> R" "E' e [] y" "path E' y v' q"
        then have "u @ z \<in> lstar ?L" by auto
        with * l \<open>p = e\<close> show ?thesis by (metis append_Nil append_assoc path_refl)
      qed
    next
      case False
      with leave path_step.hyps \<open>p = e\<close> have "q \<notin> R" by blast
      with False path_step.hyps l \<open>p = e\<close> show ?thesis
        by (metis append_Nil lstar_Nil path_refl)
    qed
  next
    case False
    with assms(2) path_step.prems path_step.hyps have st: "E p l x" "x \<in> R"
      by (auto simp: part_of_def dest: closed_inD)
    have pre: "path E p (l @ u) r" if "path E x u r" for u r
      using path.path_step[OF st(1) that] .
    from path_step.IH[OF st(2)] show ?thesis
    proof (elim disjE conjE exE)
      assume "q \<in> R" "path E x v q"
      then show ?thesis using pre by blast
    next
      fix u z v' assume *: "q \<in> R" "v = u @ z @ v'" "path E x u e" "z \<in> lstar ?L" "path E s v' q"
      with pre[OF *(3)] show ?thesis by (metis append_assoc)
    next
      fix u z y v' assume *: "q \<notin> R" "v = u @ z @ v'" "path E x u e" "z \<in> lstar ?L"
        "y \<notin> R" "E' e [] y" "path E' y v' q"
      with pre[OF *(3)] show ?thesis by (metis append_assoc)
    qed
  qed
qed

lemma loop_path:
  assumes "part_of E E' R e" "s \<in> R" "E' e [] s" "z \<in> lstar {w. path E s w e}"
  shows "path E' e z e"
  using assms(4)
proof (induction rule: lstar_induct)
  case Nil
  then show ?case by simp
next
  case (step u v)
  then have "path E' s u e" using part_path[OF assms(1,2)] by blast
  with step.IH assms(3) show ?case by (meson path_append path_eps)
qed

section \<open>The shapes the compiler builds\<close>

text \<open>
  One part followed by another (\<open>seq\<close>), a part wrapped in an entry and an exit that may
  skip it or repeat it (\<open>wrap\<close>: star, plus, question), and a choice of two (\<open>alt\<close>).
  \<open>plang E p q\<close> is the language between two states.
\<close>

definition plang :: "step_rel \<Rightarrow> nat \<Rightarrow> nat \<Rightarrow> lang" where
  "plang E p q = {w. path E p w q}"

lemma plang_iff [simp]: "w \<in> plang E p q \<longleftrightarrow> path E p w q"
  by (simp add: plang_def)

lemma seq_paths:
  assumes a: "part_of E E' Ra ae" and p: "p \<in> Ra"
    and b: "closed_in E Rb" "\<And>p l x. p \<in> Rb \<Longrightarrow> E' p l x = E p l x" "bs \<in> Rb"
    and link: "\<And>l x. E' ae l x \<longleftrightarrow> l = [] \<and> x = bs" and dis: "Ra \<inter> Rb = {}"
  shows "q \<in> Ra \<Longrightarrow> plang E' p q = plang E p q"
    and "q \<in> Rb \<Longrightarrow> plang E' p q = conc (plang E p ae) (plang E bs q)"
proof -
  have inb: "path E' bs v q = path E bs v q" for v q
    using path_cong[of E Rb bs E'] b by metis
  have inb': "path E bs v q \<Longrightarrow> q \<in> Rb" for v q
    using path_closed b by blast
  note ex = part_exit[OF _ a p, unfolded link]
  show "q \<in> Ra \<Longrightarrow> plang E' p q = plang E p q"
  proof (intro set_eqI iffI)
    fix w assume q: "q \<in> Ra" and "w \<in> plang E' p q"
    then consider "path E p w q" | v where "path E' bs v q" using ex by auto
    then show "w \<in> plang E p q"
    proof cases
      case 2
      then have "q \<in> Rb" using inb inb' by blast
      with q dis show ?thesis by blast
    qed simp
  qed (use part_path[OF a p] in auto)
  show "q \<in> Rb \<Longrightarrow> plang E' p q = conc (plang E p ae) (plang E bs q)"
  proof (intro set_eqI iffI)
    fix w assume q: "q \<in> Rb" and "w \<in> plang E' p q"
    then have "path E' p w q" by simp
    from ex[OF this] q dis obtain u l v x
      where "w = u @ l @ v" "path E p u ae" "l = [] \<and> x = bs" "path E' x v q" by blast
    then have "w = u @ v" "path E p u ae" "path E' bs v q" by simp_all
    then show "w \<in> conc (plang E p ae) (plang E bs q)" using inb by auto
  next
    fix w assume "w \<in> conc (plang E p ae) (plang E bs q)"
    then obtain u v where w: "w = u @ v" "path E p u ae" "path E bs v q" by auto
    then have "path E' p u ae" "path E' ae v q"
      using part_path[OF a p] inb link path_eps[of E' ae bs v q] by auto
    with w show "w \<in> plang E' p q" by (auto intro: path_append)
  qed
qed

text \<open>
  From inside a part whose exit leads to the stuck state \<open>e\<close> and, with \<open>rep\<close>, back to
  the start.
\<close>

definition rep_lang :: "bool \<Rightarrow> lang \<Rightarrow> lang" where
  "rep_lang rep A = (if rep then lstar A else {[]})"

lemma rep_lang_Nil [simp]: "[] \<in> rep_lang rep A"
  by (simp add: rep_lang_def)

lemma part_exit_to:
  assumes p: "path E' as w q" and part: "part_of E E' R ae" and "as \<in> R" "e \<notin> R"
    and Ea: "\<And>l x. E' ae l x \<longleftrightarrow> l = [] \<and> (x = e \<or> rep \<and> x = as)"
    and Ee: "\<And>l x. \<not> E' e l x"
  shows "q \<in> R \<and> w \<in> conc (rep_lang rep (plang E as ae)) (plang E as q) \<or>
    q = e \<and> w \<in> conc (plang E as ae) (rep_lang rep (plang E as ae))"
proof (cases rep)
  case True
  have stuck: "path E' e v r \<Longrightarrow> v = [] \<and> r = e" for v r
    using path_stuck Ee by metis
  have "(q \<in> R \<and> (path E as w q \<or>
        (\<exists>u z v. w = u @ z @ v \<and> path E as u ae \<and> z \<in> lstar {w. path E as w ae} \<and> path E as v q))) \<or>
      (q \<notin> R \<and> (\<exists>u z x v. w = u @ z @ v \<and> path E as u ae \<and> z \<in> lstar {w. path E as w ae} \<and>
        x \<notin> R \<and> E' ae [] x \<and> path E' x v q))"
    by (rule part_loop[OF p part \<open>as \<in> R\<close> _ _ \<open>as \<in> R\<close>]) (use Ea stuck assms in auto)
  then show ?thesis
  proof (elim disjE conjE exE)
    assume "q \<in> R" "path E as w q"
    then show ?thesis using concI[of "[]" "rep_lang rep (plang E as ae)" w "plang E as q"] by simp
  next
    fix u z v assume *: "q \<in> R" "w = u @ z @ v" "path E as u ae"
      "z \<in> lstar {w. path E as w ae}" "path E as v q"
    then have "u @ z \<in> rep_lang rep (plang E as ae)" using True by (auto simp: rep_lang_def plang_def)
    with * show ?thesis using concI[of "u @ z" _ v "plang E as q"] by simp
  next
    fix u z x v assume *: "q \<notin> R" "w = u @ z @ v" "path E as u ae"
      "z \<in> lstar {w. path E as w ae}" "x \<notin> R" "E' ae [] x" "path E' x v q"
    then have "x = e" using Ea \<open>as \<in> R\<close> by auto
    with * stuck have "v = [] \<and> q = e" by blast
    moreover have "u \<in> plang E as ae" "z \<in> rep_lang rep (plang E as ae)"
      using * True by (auto simp: rep_lang_def plang_def)
    ultimately show ?thesis using * concI[of u _ z] by simp
  qed
next
  case False
  from part_exit[OF p part \<open>as \<in> R\<close>] show ?thesis
    using False Ea path_stuck[of E' e] Ee by (fastforce simp: rep_lang_def)
qed

lemma part_reps_path:
  assumes "part_of E E' R ae" "as \<in> R" "rep \<Longrightarrow> E' ae [] as"
    and "z \<in> rep_lang rep (plang E as ae)" "path E' as v q"
  shows "path E' as (z @ v) q"
proof (cases rep)
  case True
  with assms(4) have "z \<in> lstar (plang E as ae)" by (simp add: rep_lang_def)
  then show ?thesis
  proof (induction rule: lstar_induct)
    case (step u y)
    then have "path E' as u ae" using part_path[OF assms(1,2)] by simp
    with step.IH assms(3) True show ?case by (simp add: path_append path_eps)
  qed (use assms(5) in simp)
qed (use assms(4,5) in \<open>simp add: rep_lang_def\<close>)

lemma part_exit_from:
  assumes part: "part_of E E' R ae" and "as \<in> R"
    and Ea: "\<And>l x. E' ae l x \<longleftrightarrow> l = [] \<and> (x = e \<or> rep \<and> x = as)"
  shows "w \<in> conc (rep_lang rep (plang E as ae)) (plang E as q) \<Longrightarrow> path E' as w q"
    and "w \<in> conc (plang E as ae) (rep_lang rep (plang E as ae)) \<Longrightarrow> path E' as w e"
proof -
  have rp: "rep \<Longrightarrow> E' ae [] as" using Ea by simp
  show "w \<in> conc (rep_lang rep (plang E as ae)) (plang E as q) \<Longrightarrow> path E' as w q"
    using part_reps_path[OF part \<open>as \<in> R\<close> rp] part_path[OF part \<open>as \<in> R\<close>] by auto
  assume "w \<in> conc (plang E as ae) (rep_lang rep (plang E as ae))"
  then obtain u z where w: "w = u @ z" "path E as u ae" "z \<in> rep_lang rep (plang E as ae)" by auto
  have "path E' ae z ae"
    using w(3) loop_path[OF part \<open>as \<in> R\<close>] rp by (auto simp: rep_lang_def plang_def split: if_splits)
  moreover have "path E' ae [] e" using Ea by (intro path_one) simp
  moreover have "path E' as u ae" using part_path[OF part \<open>as \<in> R\<close>] w(2) .
  ultimately show "path E' as w e" by (metis w(1) path_append append_Nil2)
qed

lemma wrap_paths:
  assumes part: "part_of E E' R ae" and "as \<in> R" "s \<notin> R" "e \<notin> R" "s \<noteq> e"
    and Es: "\<And>l x. E' s l x \<longleftrightarrow> l = [] \<and> (x = as \<or> skip \<and> x = e)"
    and Ea: "\<And>l x. E' ae l x \<longleftrightarrow> l = [] \<and> (x = e \<or> rep \<and> x = as)"
    and Ee: "\<And>l x. \<not> E' e l x"
  shows "plang E' s e =
      (if skip then {[]} else {}) \<union> conc (plang E as ae) (rep_lang rep (plang E as ae))"
    and "m \<in> R \<Longrightarrow> plang E' s m = conc (rep_lang rep (plang E as ae)) (plang E as m)"
proof -
  have inner: "path E' as w q \<longleftrightarrow>
      (q \<in> R \<and> w \<in> conc (rep_lang rep (plang E as ae)) (plang E as q)) \<or>
      (q = e \<and> w \<in> conc (plang E as ae) (rep_lang rep (plang E as ae)))" for w q
    using part_exit_to[OF _ part \<open>as \<in> R\<close> \<open>e \<notin> R\<close> Ea Ee] part_exit_from[OF part \<open>as \<in> R\<close> Ea]
    by blast
  have stuck: "path E' e v r \<Longrightarrow> v = [] \<and> r = e" for v r
    using path_stuck Ee by metis
  have from_s: "path E' s w q \<longleftrightarrow> q = s \<and> w = [] \<or> path E' as w q \<or> skip \<and> q = e \<and> w = []"
    (is "_ \<longleftrightarrow> ?rhs w q") for w q
  proof
    assume "path E' s w q"
    then show "?rhs w q" by (cases rule: path.cases) (use Es stuck in auto)
  next
    assume "?rhs w q"
    moreover have "path E' s v q" if "path E' as v q" for v using that Es by (blast intro: path_eps)
    moreover have "path E' s [] e" if skip using that Es by (blast intro: path_one)
    ultimately show "path E' s w q" by auto
  qed
  show "plang E' s e =
      (if skip then {[]} else {}) \<union> conc (plang E as ae) (rep_lang rep (plang E as ae))"
    using assms(2-5) by (auto simp: from_s inner)
  show "m \<in> R \<Longrightarrow> plang E' s m = conc (rep_lang rep (plang E as ae)) (plang E as m)"
    using assms(2-5) by (auto simp: from_s inner)
qed

lemma once_iff:
  assumes "part_of E E' R ae" "as \<in> R" "e \<notin> R"
    and "\<And>l x. E' ae l x \<longleftrightarrow> l = [] \<and> x = e" "\<And>l x. \<not> E' e l x"
  shows "path E' as w q \<longleftrightarrow> (q \<in> R \<and> path E as w q) \<or> (q = e \<and> path E as w ae)"
proof
  assume "path E' as w q"
  from part_exit_to[OF this assms(1-3), where rep = False] assms(4,5)
  show "(q \<in> R \<and> path E as w q) \<or> (q = e \<and> path E as w ae)" by (simp add: rep_lang_def)
next
  assume "(q \<in> R \<and> path E as w q) \<or> (q = e \<and> path E as w ae)"
  moreover note part_exit_from[OF assms(1,2), where rep = False and e = e]
  ultimately show "path E' as w q" using assms(4) by (auto simp: rep_lang_def)
qed

lemma alt_paths:
  assumes a: "part_of E E' Ra ae" "as \<in> Ra" and b: "part_of E E' Rb be" "bs \<in> Rb"
    and out: "e \<notin> Ra" "e \<notin> Rb" "s \<notin> Ra" "s \<notin> Rb" "s \<noteq> e" and dis: "Ra \<inter> Rb = {}"
    and Es: "\<And>l x. E' s l x \<longleftrightarrow> l = [] \<and> (x = as \<or> x = bs)"
    and Ea: "\<And>l x. E' ae l x \<longleftrightarrow> l = [] \<and> x = e"
    and Eb: "\<And>l x. E' be l x \<longleftrightarrow> l = [] \<and> x = e"
    and Ee: "\<And>l x. \<not> E' e l x"
  shows "plang E' s e = plang E as ae \<union> plang E bs be"
    and "m \<in> Ra \<Longrightarrow> plang E' s m = plang E as m"
    and "m \<in> Rb \<Longrightarrow> plang E' s m = plang E bs m"
proof -
  have A: "path E' as w q \<longleftrightarrow> (q \<in> Ra \<and> path E as w q) \<or> (q = e \<and> path E as w ae)" for w q
    by (rule once_iff[OF a out(1) Ea Ee])
  have B: "path E' bs w q \<longleftrightarrow> (q \<in> Rb \<and> path E bs w q) \<or> (q = e \<and> path E bs w be)" for w q
    by (rule once_iff[OF b out(2) Eb Ee])
  have S: "path E' s w q \<longleftrightarrow> q = s \<and> w = [] \<or> path E' as w q \<or> path E' bs w q" for w q
  proof
    assume "path E' s w q"
    then show "q = s \<and> w = [] \<or> path E' as w q \<or> path E' bs w q"
      by (cases rule: path.cases) (use Es in auto)
  next
    have "E' s [] as" "E' s [] bs" using Es by simp_all
    moreover assume "q = s \<and> w = [] \<or> path E' as w q \<or> path E' bs w q"
    ultimately show "path E' s w q" by (elim disjE conjE) (simp_all add: path_eps)
  qed
  show "plang E' s e = plang E as ae \<union> plang E bs be"
    using out by (auto simp: S A B)
  show "m \<in> Ra \<Longrightarrow> plang E' s m = plang E as m"
    using out dis by (auto simp: S A B)
  show "m \<in> Rb \<Longrightarrow> plang E' s m = plang E bs m"
    using out dis by (auto simp: S A B)
qed

text \<open>
  Entry states: states \<open>L\<close> no step leads to get silent steps to a state \<open>s\<close>, as the
  start states of the conditions do when a rule is linked.
\<close>

lemma entry_paths:
  assumes E': "\<And>p l x. E' p l x \<longleftrightarrow> E p l x \<or> (p \<in> L \<and> l = [] \<and> x = s)"
    and no: "\<And>p l x. E' p l x \<Longrightarrow> x \<notin> L"
  shows "path E' p w q \<longleftrightarrow> path E p w q \<or> (p \<in> L \<and> path E s w q)"
proof
  assume "path E' p w q"
  then show "path E p w q \<or> (p \<in> L \<and> path E s w q)"
  proof (induction rule: path.induct)
    case (path_step p l x v q)
    from no[OF path_step.hyps(1)] path_step.IH have "path E x v q" by blast
    with path_step.hyps(1) show ?case unfolding E' by (auto intro: path.path_step)
  qed simp
next
  have mono: "path E p w q \<Longrightarrow> path E' p w q" for p
    by (induction rule: path.induct) (auto intro: path.path_step simp: E')
  assume "path E p w q \<or> (p \<in> L \<and> path E s w q)"
  then show "path E' p w q"
    using mono path_eps[of E' p s w q] E' by blast
qed

end
