(* ===== verification/Thompson.thy ===== *)
theory Thompson
  imports Nfa Paths
begin

text \<open>
  The correctness of the regex compiler of \<open>nfa.cpp\<close>. The steps of an automaton are read
  off its vector of states (\<open>estep\<close>); \<open>frag_spec\<close> says what a fragment of freshly
  added states promises: it leaves the older states alone, is closed, is left through its
  exit only, accepts a given language and reaches the \<open>r/s\<close> boundary after given strings.
  Every \<open>compile_*\<close> function keeps that promise (\<open>implements\<close>), so \<open>compile\<close> does.
\<close>

section \<open>Steps of an automaton\<close>

definition outs :: "nfa_state list \<Rightarrow> nat \<Rightarrow> nfa_edge list" where
  "outs S p = (if p < length S then st_out (S ! p) else [])"

definition estep :: "nfa_state list \<Rightarrow> step_rel" where
  "estep S p l x \<longleftrightarrow> (\<exists>ed\<in>set (outs S p). e_target ed = x \<and>
     (if bs_empty (e_on ed) then l = [] else \<exists>b. l = [b] \<and> bs_test (e_on ed) (ub b)))"

definition acc_of :: "nfa_state list \<Rightarrow> nat \<Rightarrow> int" where
  "acc_of S p = (if p < length S then st_accept_rule (S ! p) else -1)"

definition bnd_of :: "nfa_state list \<Rightarrow> nat \<Rightarrow> bool" where
  "bnd_of S p \<longleftrightarrow> p < length S \<and> st_is_boundary (S ! p)"

lemma outs_beyond [simp]: "length S \<le> p \<Longrightarrow> outs S p = []"
  by (simp add: outs_def)

lemma estep_beyond [simp]: "length S \<le> p \<Longrightarrow> \<not> estep S p l x"
  by (simp add: estep_def)

lemma acc_beyond [simp]: "length S \<le> p \<Longrightarrow> acc_of S p = -1"
  by (simp add: acc_of_def)

lemma bnd_beyond [simp]: "length S \<le> p \<Longrightarrow> \<not> bnd_of S p"
  by (simp add: bnd_of_def)

lemma outs_fresh [simp]: "outs (S @ [fresh_state]) p = outs S p"
  by (auto simp: outs_def nth_append fresh_state_def)

lemma acc_fresh [simp]: "acc_of (S @ [fresh_state]) p = acc_of S p"
  by (auto simp: acc_of_def nth_append fresh_state_def)

lemma bnd_fresh [simp]: "bnd_of (S @ [fresh_state]) p = bnd_of S p"
  by (auto simp: bnd_of_def nth_append fresh_state_def)

lemma estep_fresh [simp]: "estep (S @ [fresh_state]) = estep S"
  by (intro ext) (simp add: estep_def)

text \<open>Most operations add two states, the entry and the exit of a fragment.\<close>

abbreviation grow2 :: "nfa_state list \<Rightarrow> nfa_state list" where
  "grow2 S \<equiv> S @ [fresh_state, fresh_state]"

lemma grow2_simps [simp]:
  "outs (grow2 S) = outs S" "acc_of (grow2 S) = acc_of S" "bnd_of (grow2 S) = bnd_of S"
  "estep (grow2 S) = estep S"
  using outs_fresh[of "S @ [fresh_state]"] acc_fresh[of "S @ [fresh_state]"]
    bnd_fresh[of "S @ [fresh_state]"] estep_fresh[of "S @ [fresh_state]"]
  by (simp_all add: fun_eq_iff)

lemma length_add_edge [simp]: "length (add_edge S p e) = length S"
  by (simp add: add_edge_def)

lemma outs_add_edge:
  "p < length S \<Longrightarrow> outs (add_edge S p e) q = (if q = p then outs S p @ [e] else outs S q)"
  by (auto simp: outs_def add_edge_def nth_list_update)

lemma acc_add_edge [simp]: "acc_of (add_edge S p e) = acc_of S"
  by (intro ext, cases "p < length S")
    (auto simp: acc_of_def add_edge_def nth_list_update list_update_beyond not_less)

lemma bnd_add_edge [simp]: "bnd_of (add_edge S p e) = bnd_of S"
  by (intro ext, cases "p < length S")
    (auto simp: bnd_of_def add_edge_def nth_list_update list_update_beyond not_less)

abbreviation eps_edge :: "nat \<Rightarrow> nfa_edge" where
  "eps_edge t \<equiv> \<lparr>e_target = t, e_on = bs_clear\<rparr>"

lemma estep_add_eps:
  "p < length S \<Longrightarrow>
   estep (add_edge S p (eps_edge t)) q l x \<longleftrightarrow> estep S q l x \<or> (q = p \<and> l = [] \<and> x = t)"
  by (auto simp: estep_def outs_add_edge bs_empty_eq)

lemma estep_add_class:
  "p < length S \<Longrightarrow> \<not> bs_empty on \<Longrightarrow>
   estep (add_edge S p \<lparr>e_target = t, e_on = on\<rparr>) q l x \<longleftrightarrow>
     estep S q l x \<or> (q = p \<and> x = t \<and> (\<exists>b. l = [b] \<and> bs_test on (ub b)))"
  by (auto simp: estep_def outs_add_edge)

section \<open>Extending a vector of states\<close>

definition extends :: "nfa_state list \<Rightarrow> nfa_state list \<Rightarrow> bool" where
  "extends S T \<longleftrightarrow> take (length S) T = S"

lemma extends_length: "extends S T \<Longrightarrow> length S \<le> length T"
  unfolding extends_def by (metis length_take min.cobounded1 min_def)

lemma extends_nth: "extends S T \<Longrightarrow> i < length S \<Longrightarrow> T ! i = S ! i"
  unfolding extends_def by (metis nth_take)

lemma extends_refl [simp, intro]: "extends S S"
  by (simp add: extends_def)

lemma extends_trans [trans]: "extends S T \<Longrightarrow> extends T U \<Longrightarrow> extends S U"
  unfolding extends_def by (metis extends_def extends_length min.absorb1 take_take)

lemma extends_append [simp, intro]: "extends S (S @ T)"
  by (simp add: extends_def)

lemma extends_add_edge: "extends S T \<Longrightarrow> length S \<le> p \<Longrightarrow> extends S (add_edge T p e)"
  by (simp add: extends_def add_edge_def)

lemma extends_outs: "extends S T \<Longrightarrow> p < length S \<Longrightarrow> outs T p = outs S p"
  using extends_length[of S T] by (simp add: outs_def extends_nth)

lemma extends_estep: "extends S T \<Longrightarrow> p < length S \<Longrightarrow> estep T p l x = estep S p l x"
  by (simp add: estep_def extends_outs)

lemma extends_acc: "extends S T \<Longrightarrow> p < length S \<Longrightarrow> acc_of T p = acc_of S p"
  using extends_length[of S T] by (simp add: acc_of_def extends_nth)

lemma extends_bnd: "extends S T \<Longrightarrow> p < length S \<Longrightarrow> bnd_of T p = bnd_of S p"
  using extends_length[of S T] by (simp add: bnd_of_def extends_nth)

section \<open>What a fragment promises\<close>

definition region :: "nfa_state list \<Rightarrow> nfa_state list \<Rightarrow> nat set" where
  "region S T = {length S..<length T}"

definition frag_spec ::
    "nfa_state list \<Rightarrow> nfa_state list \<Rightarrow> frag \<Rightarrow> lang \<Rightarrow> lang \<Rightarrow> bool" where
  "frag_spec S T f A B \<longleftrightarrow>
     extends S T \<and> f_s f \<in> region S T \<and> f_e f \<in> region S T \<and>
     closed_in (estep T) (region S T) \<and> (\<forall>l x. \<not> estep T (f_e f) l x) \<and>
     (\<forall>p\<in>region S T. acc_of T p = -1) \<and>
     plang (estep T) (f_s f) (f_e f) = A \<and>
     (\<Union>m\<in>{m \<in> region S T. bnd_of T m}. plang (estep T) (f_s f) m) = B"

definition implements :: "compiler \<Rightarrow> lang \<Rightarrow> lang \<Rightarrow> bool" where
  "implements c A B \<longleftrightarrow>
     (\<forall>nfa. \<exists>T f. c nfa = (nfa\<lparr>nfa_states := T\<rparr>, f) \<and> frag_spec (nfa_states nfa) T f A B)"

lemma implementsE:
  assumes "implements c A B"
  obtains T f where "c nfa = (nfa\<lparr>nfa_states := T\<rparr>, f)" "frag_spec (nfa_states nfa) T f A B"
  using assms unfolding implements_def by meson

lemma implements_cong: "implements c A B \<Longrightarrow> A = A' \<Longrightarrow> B = B' \<Longrightarrow> implements c A' B'"
  by simp

lemma frag_extends: "frag_spec S T f A B \<Longrightarrow> extends S T"
  by (simp add: frag_spec_def)

lemma frag_bounds:
  "frag_spec S T f A B \<Longrightarrow>
   length S \<le> f_s f \<and> f_s f < length T \<and> length S \<le> f_e f \<and> f_e f < length T \<and> length S \<le> length T"
  by (auto simp: frag_spec_def region_def)

lemma frag_lang: "frag_spec S T f A B \<Longrightarrow> plang (estep T) (f_s f) (f_e f) = A"
  by (simp add: frag_spec_def)

lemma frag_marks:
  "frag_spec S T f A B \<Longrightarrow>
   (\<Union>m\<in>{m \<in> region S T. bnd_of T m}. plang (estep T) (f_s f) m) = B"
  by (simp add: frag_spec_def)

lemma frag_exit_stuck: "frag_spec S T f A B \<Longrightarrow> \<not> estep T (f_e f) l x"
  by (simp add: frag_spec_def)

lemma frag_closed: "frag_spec S T f A B \<Longrightarrow> closed_in (estep T) (region S T)"
  by (simp add: frag_spec_def)

lemma frag_acc: "frag_spec S T f A B \<Longrightarrow> p \<in> region S T \<Longrightarrow> acc_of T p = -1"
  by (simp add: frag_spec_def)

section \<open>The constructions, on vectors of states\<close>

lemma acc_new: "(\<And>p. acc_of U p = acc_of S p) \<Longrightarrow> p \<in> region S T \<Longrightarrow> acc_of U p = -1"
  by (simp add: acc_of_def region_def)

lemma two_states:
  assumes ext: "extends S T" and len: "length T = length S + 2"
    and E: "\<And>p l x. estep T p l x \<longleftrightarrow> estep S p l x \<or> (p = length S \<and> x = Suc (length S) \<and> P l)"
    and acc: "\<And>p. acc_of T p = acc_of S p"
  shows "frag_spec S T \<lparr>f_s = length S, f_e = Suc (length S)\<rparr> {l. P l}
    (\<Union>m\<in>{m \<in> region S T. bnd_of T m}. plang (estep T) (length S) m)"
proof -
  have stuck: "\<not> estep T (Suc (length S)) l x" for l x
    by (simp add: E)
  have "path (estep T) (length S) w (Suc (length S)) \<longleftrightarrow> P w" for w
  proof
    assume "path (estep T) (length S) w (Suc (length S))"
    then obtain l x v where *: "w = l @ v" "estep T (length S) l x" "path (estep T) x v (Suc (length S))"
      by (rule path_first) simp
    then have "P l" "x = Suc (length S)" by (simp_all add: E)
    with * have "v = []" using path_stuck[of "estep T" "Suc (length S)" v] stuck by blast
    with * \<open>P l\<close> show "P w" by simp
  next
    assume "P w"
    then show "path (estep T) (length S) w (Suc (length S))" by (intro path_one) (simp add: E)
  qed
  then have "plang (estep T) (length S) (Suc (length S)) = {l. P l}" by (simp add: plang_def)
  moreover have "closed_in (estep T) (region S T)"
    by (auto simp: closed_in_def region_def E len)
  moreover have "acc_of T p = -1" if "p \<in> region S T" for p
    using acc that by (rule acc_new)
  ultimately show ?thesis
    using ext stuck len by (simp add: frag_spec_def region_def)
qed

lemma marks_none: "(\<And>m. m \<in> region S T \<Longrightarrow> \<not> bnd_of T m) \<Longrightarrow>
  (\<Union>m\<in>{m \<in> region S T. bnd_of T m}. f m) = {}"
  by auto

lemma empty_spec:
  "frag_spec S (add_edge (grow2 S) (length S) (eps_edge (Suc (length S))))
     \<lparr>f_s = length S, f_e = Suc (length S)\<rparr> {[]} {}" (is "frag_spec S ?T _ _ _")
proof -
  have "extends S ?T" by (intro extends_add_edge) auto
  moreover have "estep ?T p l x \<longleftrightarrow> estep S p l x \<or> (p = length S \<and> x = Suc (length S) \<and> l = [])" for p l x
    by (auto simp: estep_add_eps)
  ultimately have "frag_spec S ?T \<lparr>f_s = length S, f_e = Suc (length S)\<rparr> {l. l = []}
      (\<Union>m\<in>{m \<in> region S ?T. bnd_of ?T m}. plang (estep ?T) (length S) m)"
    by (intro two_states) simp_all
  then show ?thesis
    by (subst (asm) marks_none) (simp_all add: bnd_of_def region_def)
qed

lemma class_spec:
  assumes "\<not> bs_empty on"
  shows "frag_spec S (add_edge (grow2 S) (length S) \<lparr>e_target = Suc (length S), e_on = on\<rparr>)
     \<lparr>f_s = length S, f_e = Suc (length S)\<rparr> {[b] |b. bs_test on (ub b)} {}" (is "frag_spec S ?T _ _ _")
proof -
  have "extends S ?T" by (intro extends_add_edge) auto
  moreover have "estep ?T p l x \<longleftrightarrow>
      estep S p l x \<or> (p = length S \<and> x = Suc (length S) \<and> (\<exists>b. l = [b] \<and> bs_test on (ub b)))" for p l x
    using assms by (auto simp: estep_add_class)
  ultimately have "frag_spec S ?T \<lparr>f_s = length S, f_e = Suc (length S)\<rparr>
      {l. \<exists>b. l = [b] \<and> bs_test on (ub b)}
      (\<Union>m\<in>{m \<in> region S ?T. bnd_of ?T m}. plang (estep ?T) (length S) m)"
    by (intro two_states) simp_all
  then show ?thesis
    by (subst (asm) marks_none) (simp_all add: bnd_of_def region_def)
qed

text \<open>A fragment inside a longer vector, and the same with edges added at its exit.\<close>

lemma frag_later:
  assumes f: "frag_spec S T f A B" and U: "extends T U"
  shows "closed_in (estep U) (region S T)" "\<not> estep U (f_e f) l x"
    "p \<in> region S T \<Longrightarrow> plang (estep U) p q = plang (estep T) p q"
proof -
  have eq: "estep T p l x = estep U p l x" if "p \<in> region S T" for p l x
    using that extends_estep[OF U] by (simp add: region_def)
  show "closed_in (estep U) (region S T)"
    using frag_closed[OF f] eq by (auto simp: closed_in_def)
  show "\<not> estep U (f_e f) l x"
    using frag_exit_stuck[OF f] eq f by (auto simp: frag_spec_def)
  show "p \<in> region S T \<Longrightarrow> plang (estep U) p q = plang (estep T) p q"
    using path_cong[OF frag_closed[OF f] _ eq] by (simp add: plang_def)
qed

lemma frag_part:
  assumes "frag_spec S T f A B" "extends T U"
    and "\<And>p l x. p \<in> region S T \<Longrightarrow> p \<noteq> f_e f \<Longrightarrow> E p l x = estep U p l x"
  shows "part_of (estep U) E (region S T) (f_e f)"
  using assms frag_later[OF assms(1,2)] by (simp add: frag_spec_def part_of_def)

lemma region_split: "extends S T \<Longrightarrow> extends T U \<Longrightarrow> region S U = region S T \<union> region T U"
  using extends_length[of S T] extends_length[of T U] by (auto simp: region_def)

lemma region_disjoint: "region S T \<inter> region T U = {}"
  by (auto simp: region_def)

lemma region_add_edge [simp]: "region S (add_edge T p e) = region S T"
  by (simp add: region_def)

lemma UN_marks_Un: "(\<Union>m\<in>{m \<in> A \<union> B. P m}. f m) = (\<Union>m\<in>{m \<in> A. P m}. f m) \<union> (\<Union>m\<in>{m \<in> B. P m}. f m)"
  by blast

lemma later_marks:
  assumes f: "frag_spec S T f A B" and U: "extends T U"
    and "\<And>m. m \<in> region S T \<Longrightarrow> bnd_of V m = bnd_of U m"
    and "\<And>m. m \<in> region S T \<Longrightarrow> g m = conc C (plang (estep U) (f_s f) m)"
  shows "(\<Union>m\<in>{m \<in> region S T. bnd_of V m}. g m) = conc C B"
proof -
  have "f_s f \<in> region S T" using f by (simp add: frag_spec_def)
  then have "g m = conc C (plang (estep T) (f_s f) m)" "bnd_of V m = bnd_of T m" if "m \<in> region S T" for m
    using that assms(3,4) frag_later(3)[OF f U] extends_bnd[OF U, of m] by (auto simp: region_def)
  then have "(\<Union>m\<in>{m \<in> region S T. bnd_of V m}. g m)
      = (\<Union>m\<in>{m \<in> region S T. bnd_of T m}. conc C (plang (estep T) (f_s f) m))"
    by (intro SUP_cong) auto
  also have "\<dots> = conc C B" using frag_marks[OF f] by (simp only: flip: conc_UN)
  finally show ?thesis .
qed

lemma seq_spec:
  assumes f: "frag_spec S T f A B" and g: "frag_spec T U g C D"
  shows "frag_spec S (add_edge U (f_e f) (eps_edge (f_s g))) \<lparr>f_s = f_s f, f_e = f_e g\<rparr>
    (conc A C) (B \<union> conc A D)" (is "frag_spec S ?V _ _ _")
proof -
  note b = frag_bounds[OF f] frag_bounds[OF g]
  have U: "extends T U" using g by (rule frag_extends)
  have E: "estep ?V p l x \<longleftrightarrow> estep U p l x \<or> (p = f_e f \<and> l = [] \<and> x = f_s g)" for p l x
    using b by (simp add: estep_add_eps)
  have part: "part_of (estep U) (estep ?V) (region S T) (f_e f)"
    by (rule frag_part[OF f U]) (simp add: E)
  have mem: "f_s f \<in> region S T" "f_s g \<in> region T U" "f_e g \<in> region T U" "f_e f \<notin> region T U"
    using f g b by (auto simp: frag_spec_def region_def)
  have reg: "region S U = region S T \<union> region T U"
    by (rule region_split[OF frag_extends[OF f] U])
  have in_b: "p \<in> region T U \<Longrightarrow> estep ?V p l x = estep U p l x" for p l x
    using mem(4) by (auto simp: E)
  have link: "estep ?V (f_e f) l x \<longleftrightarrow> l = [] \<and> x = f_s g" for l x
    using frag_later(2)[OF f U] by (auto simp: E)
  note seq = seq_paths[OF part mem(1) frag_closed[OF g] _ mem(2) _ region_disjoint]
  have path_a: "plang (estep ?V) (f_s f) m = plang (estep U) (f_s f) m" if "m \<in> region S T" for m
    by (rule seq(1)) (use that in \<open>simp_all add: in_b link\<close>)
  have path_b: "plang (estep ?V) (f_s f) m = conc (plang (estep U) (f_s f) (f_e f)) (plang (estep U) (f_s g) m)"
    if "m \<in> region T U" for m
    by (rule seq(2)) (use that in \<open>simp_all add: in_b link\<close>)
  have L: "plang (estep U) (f_s f) (f_e f) = A"
    using frag_later(3)[OF f U mem(1)] frag_lang[OF f] by simp
  have "plang (estep ?V) (f_s f) (f_e g) = conc A C"
    using path_b[OF mem(3)] L frag_lang[OF g] by simp
  moreover have "(\<Union>m\<in>{m \<in> region S ?V. bnd_of ?V m}. plang (estep ?V) (f_s f) m) = B \<union> conc A D"
  proof -
    have "(\<Union>m\<in>{m \<in> region S T. bnd_of ?V m}. plang (estep ?V) (f_s f) m) = conc {[]} B"
      by (rule later_marks[OF f U]) (simp_all add: path_a)
    moreover have "(\<Union>m\<in>{m \<in> region T U. bnd_of ?V m}. plang (estep ?V) (f_s f) m) = conc A D"
      by (rule later_marks[OF g extends_refl]) (simp_all add: path_b L)
    ultimately show ?thesis unfolding region_add_edge reg UN_marks_Un by simp
  qed
  moreover have "closed_in (estep ?V) (region S ?V)"
    using frag_later(1)[OF f U] frag_closed[OF g] mem by (auto simp: closed_in_def reg E)
  moreover have "acc_of ?V p = -1" if "p \<in> region S ?V" for p
    using that frag_acc[OF f, of p] frag_acc[OF g, of p] extends_acc[OF U, of p]
    by (cases "p < length T") (auto simp: region_def)
  moreover have "\<not> estep ?V (f_e g) l x" for l x
    using frag_exit_stuck[OF g] mem by (auto simp: E)
  moreover have "extends S ?V"
    using extends_trans[OF frag_extends[OF f] U] b by (intro extends_add_edge) auto
  ultimately show ?thesis
    using mem by (simp add: frag_spec_def reg)
qed

text \<open>
  An entry and an exit around a fragment, with the three shapes the code uses: the exit of
  the body leads to the new exit and, for a repetition, back to its start; the entry leads to
  the body and, when the body can be skipped, to the exit.
\<close>

lemma wrap_spec:
  assumes f: "frag_spec S T f A B"
    and ext: "extends S V" and len: "length V = length T + 2"
    and E: "\<And>p l x. estep V p l x \<longleftrightarrow> estep T p l x \<or>
        (p = length T \<and> l = [] \<and> (x = f_s f \<or> skip \<and> x = Suc (length T))) \<or>
        (p = f_e f \<and> l = [] \<and> (x = Suc (length T) \<or> rep \<and> x = f_s f))"
    and marks: "\<And>p. acc_of V p = acc_of T p" "\<And>p. bnd_of V p = bnd_of T p"
  shows "frag_spec S V \<lparr>f_s = length T, f_e = Suc (length T)\<rparr>
    ((if skip then {[]} else {}) \<union> conc A (rep_lang rep A)) (conc (rep_lang rep A) B)"
proof -
  note b = frag_bounds[OF f]
  let ?R = "region S T" and ?s = "length T" and ?e = "Suc (length T)"
  have part: "part_of (estep T) (estep V) ?R (f_e f)"
    by (rule frag_part[OF f extends_refl]) (auto simp: E region_def)
  have mem: "f_s f \<in> ?R" "f_e f \<in> ?R" "?s \<notin> ?R" "?e \<notin> ?R"
    using f by (auto simp: frag_spec_def region_def)
  have Es: "estep V ?s l x \<longleftrightarrow> l = [] \<and> (x = f_s f \<or> skip \<and> x = ?e)" for l x
    using b by (auto simp: E)
  have Ea: "estep V (f_e f) l x \<longleftrightarrow> l = [] \<and> (x = ?e \<or> rep \<and> x = f_s f)" for l x
    using b frag_exit_stuck[OF f] by (auto simp: E)
  have Ee: "\<not> estep V ?e l x" for l x
    using b by (auto simp: E)
  note wrap = wrap_paths[OF part mem(1,3,4) _ Es Ea Ee, unfolded frag_lang[OF f]]
  have reg: "region S V = insert ?s (insert ?e ?R)"
    using b len by (auto simp: region_def)
  have "(\<Union>m\<in>{m \<in> region S V. bnd_of V m}. plang (estep V) ?s m)
      = (\<Union>m\<in>{m \<in> ?R. bnd_of V m}. plang (estep V) ?s m)"
    by (rule arg_cong[where f = "\<lambda>X. \<Union>m\<in>X. plang (estep V) ?s m"]) (auto simp: reg marks)
  also have "\<dots> = conc (rep_lang rep A) B"
    by (rule later_marks[OF f extends_refl]) (simp_all add: marks wrap(2))
  finally have M: "(\<Union>m\<in>{m \<in> region S V. bnd_of V m}. plang (estep V) ?s m) = conc (rep_lang rep A) B" .
  have "closed_in (estep V) (region S V)"
    using frag_closed[OF f] mem by (auto simp: closed_in_def reg E)
  moreover have "acc_of V p = -1" if "p \<in> region S V" for p
    using that frag_acc[OF f] by (auto simp: reg marks)
  ultimately show ?thesis
    using ext Ee M wrap(1)
    by (simp add: frag_spec_def reg)
qed

lemma alt_spec:
  assumes f: "frag_spec S T f A B" and g: "frag_spec T U g C D"
    and ext: "extends S V" and len: "length V = length U + 2"
    and E: "\<And>p l x. estep V p l x \<longleftrightarrow> estep U p l x \<or>
        (p = length U \<and> l = [] \<and> (x = f_s f \<or> x = f_s g)) \<or>
        ((p = f_e f \<or> p = f_e g) \<and> l = [] \<and> x = Suc (length U))"
    and marks: "\<And>p. acc_of V p = acc_of U p" "\<And>p. bnd_of V p = bnd_of U p"
  shows "frag_spec S V \<lparr>f_s = length U, f_e = Suc (length U)\<rparr> (A \<union> C) (B \<union> D)"
proof -
  note b = frag_bounds[OF f] frag_bounds[OF g]
  let ?Rf = "region S T" and ?Rg = "region T U" and ?s = "length U" and ?e = "Suc (length U)"
  have U: "extends T U" using g by (rule frag_extends)
  have mem: "f_s f \<in> ?Rf" "f_e f \<in> ?Rf" "f_s g \<in> ?Rg" "f_e g \<in> ?Rg"
    using f g by (auto simp: frag_spec_def)
  have out: "?e \<notin> ?Rf" "?e \<notin> ?Rg" "?s \<notin> ?Rf" "?s \<notin> ?Rg" "f_e f \<notin> ?Rg" "f_e g \<notin> ?Rf"
    using b by (auto simp: region_def)
  have pf: "part_of (estep U) (estep V) ?Rf (f_e f)"
    by (rule frag_part[OF f U]) (use out in \<open>auto simp: E\<close>)
  have pg: "part_of (estep U) (estep V) ?Rg (f_e g)"
    by (rule frag_part[OF g extends_refl]) (use out in \<open>auto simp: E\<close>)
  have Es: "estep V ?s l x \<longleftrightarrow> l = [] \<and> (x = f_s f \<or> x = f_s g)" for l x
    using b by (auto simp: E)
  have Ef: "estep V (f_e f) l x \<longleftrightarrow> l = [] \<and> x = ?e" for l x
    using b frag_later(2)[OF f U] by (auto simp: E)
  have Eg: "estep V (f_e g) l x \<longleftrightarrow> l = [] \<and> x = ?e" for l x
    using b frag_exit_stuck[OF g] by (auto simp: E)
  have Ee: "\<not> estep V ?e l x" for l x
    using b by (auto simp: E)
  note alt = alt_paths[OF pf mem(1) pg mem(3) out(1-4) _ region_disjoint Es Ef Eg Ee]
  have L: "plang (estep U) (f_s f) (f_e f) = A"
    using frag_later(3)[OF f U mem(1)] frag_lang[OF f] by simp
  have reg: "region S V = insert ?s (insert ?e (?Rf \<union> ?Rg))"
    using b len by (auto simp: region_def)
  have "(\<Union>m\<in>{m \<in> region S V. bnd_of V m}. plang (estep V) ?s m)
      = (\<Union>m\<in>{m \<in> ?Rf \<union> ?Rg. bnd_of V m}. plang (estep V) ?s m)"
    by (rule arg_cong[where f = "\<lambda>X. \<Union>m\<in>X. plang (estep V) ?s m"]) (auto simp: reg marks)
  also have "\<dots> = conc {[]} B \<union> conc {[]} D"
    unfolding UN_marks_Un
    by (rule arg_cong2[where f = "(\<union>)"];
        rule later_marks[OF f U] later_marks[OF g extends_refl]) (simp_all add: marks alt(2,3))
  finally have M: "(\<Union>m\<in>{m \<in> region S V. bnd_of V m}. plang (estep V) ?s m) = B \<union> D" by simp
  have "closed_in (estep V) (region S V)"
    using frag_later(1)[OF f U] frag_closed[OF g] mem by (auto simp: closed_in_def reg E)
  moreover have "acc_of V p = -1" if "p \<in> region S V" for p
    using that frag_acc[OF f, of p] frag_acc[OF g, of p] extends_acc[OF U, of p] b
    by (cases "p < length T"; cases "p < length U") (auto simp: reg marks region_def)
  ultimately show ?thesis
    using ext Ee M alt(1) L frag_lang[OF g]
    by (simp add: frag_spec_def reg)
qed

section \<open>The compile functions\<close>

lemma new_state_simps [simp]:
  "fst (new_state nfa) = nfa\<lparr>nfa_states := nfa_states nfa @ [fresh_state]\<rparr>"
  "snd (new_state nfa) = length (nfa_states nfa)"
  by (simp_all add: new_state_def)

lemma implementsI:
  assumes "\<And>nfa. c nfa = (nfa\<lparr>nfa_states := F (nfa_states nfa)\<rparr>, g (nfa_states nfa))"
    and "\<And>S. frag_spec S (F S) (g S) A B"
  shows "implements c A B"
  using assms by (auto simp: implements_def)

lemma nfa_states_cong: "S = T \<Longrightarrow> nfa\<lparr>nfa_states := S\<rparr> = nfa\<lparr>nfa_states := T\<rparr>"
  by simp

lemma implements_empty: "implements compile_empty {[]} {}"
  by (rule implementsI[OF _ empty_spec])
    (simp add: compile_empty_def new_state_def add_eps_def)

lemma implements_class:
  "\<not> bs_empty on \<Longrightarrow> implements (compile_class on) {[b] |b. bs_test on (ub b)} {}"
  by (rule implementsI[OF _ class_spec])
    (simp_all add: compile_class_def new_state_def add_class_def)

lemma implements_concat:
  assumes "implements ca A B" "implements cb C D"
  shows "implements (compile_concat ca cb) (conc A C) (B \<union> conc A D)"
  unfolding implements_def
proof
  fix nfa
  obtain T f where a: "ca nfa = (nfa\<lparr>nfa_states := T\<rparr>, f)" "frag_spec (nfa_states nfa) T f A B"
    using assms(1) by (rule implementsE)
  obtain U g where b: "cb (nfa\<lparr>nfa_states := T\<rparr>) = (nfa\<lparr>nfa_states := U\<rparr>, g)" "frag_spec T U g C D"
    using implementsE[OF assms(2), of "nfa\<lparr>nfa_states := T\<rparr>"] by auto
  have "compile_concat ca cb nfa =
      (nfa\<lparr>nfa_states := add_edge U (f_e f) (eps_edge (f_s g))\<rparr>, \<lparr>f_s = f_s f, f_e = f_e g\<rparr>)"
    by (simp add: compile_concat_def a b add_eps_def)
  then show "\<exists>T f. compile_concat ca cb nfa = (nfa\<lparr>nfa_states := T\<rparr>, f) \<and>
      frag_spec (nfa_states nfa) T f (conc A C) (B \<union> conc A D)"
    using seq_spec[OF a(2) b(2)] by blast
qed

text \<open>The three wrappers differ in the edges they add; \<open>wrapper\<close> says which ones.\<close>

definition wrapper :: "bool \<Rightarrow> bool \<Rightarrow> (nfa_state list \<Rightarrow> frag \<Rightarrow> nfa_state list) \<Rightarrow> bool" where
  "wrapper skip rep F \<longleftrightarrow> (\<forall>S T f. extends S T \<longrightarrow> length S \<le> f_e f \<longrightarrow> f_e f < length T \<longrightarrow>
     extends S (F T f) \<and> length (F T f) = length T + 2 \<and>
     acc_of (F T f) = acc_of T \<and> bnd_of (F T f) = bnd_of T \<and>
     (\<forall>p l x. estep (F T f) p l x \<longleftrightarrow> estep T p l x \<or>
       (p = length T \<and> l = [] \<and> (x = f_s f \<or> skip \<and> x = Suc (length T))) \<or>
       (p = f_e f \<and> l = [] \<and> (x = Suc (length T) \<or> rep \<and> x = f_s f))))"

lemma implements_wrap:
  assumes "implements ca A B" and F: "wrapper skip rep F"
    and c: "\<And>nfa T f. ca nfa = (nfa\<lparr>nfa_states := T\<rparr>, f) \<Longrightarrow>
        c nfa = (nfa\<lparr>nfa_states := F T f\<rparr>, \<lparr>f_s = length T, f_e = Suc (length T)\<rparr>)"
  shows "implements c ((if skip then {[]} else {}) \<union> conc A (rep_lang rep A)) (conc (rep_lang rep A) B)"
  unfolding implements_def
proof
  fix nfa
  obtain T f where a: "ca nfa = (nfa\<lparr>nfa_states := T\<rparr>, f)" "frag_spec (nfa_states nfa) T f A B"
    using assms(1) by (rule implementsE)
  have "frag_spec (nfa_states nfa) (F T f) \<lparr>f_s = length T, f_e = Suc (length T)\<rparr>
      ((if skip then {[]} else {}) \<union> conc A (rep_lang rep A)) (conc (rep_lang rep A) B)"
    by (rule wrap_spec[OF a(2)])
      (use F frag_extends[OF a(2)] frag_bounds[OF a(2)] in \<open>simp_all add: wrapper_def\<close>)
  with c[OF a(1)] show "\<exists>T f. c nfa = (nfa\<lparr>nfa_states := T\<rparr>, f) \<and> frag_spec (nfa_states nfa) T f
      ((if skip then {[]} else {}) \<union> conc A (rep_lang rep A)) (conc (rep_lang rep A) B)" by blast
qed

lemma extends_grow2: "extends S T \<Longrightarrow> extends S (grow2 T)"
  by (rule extends_trans) auto

lemmas wrapper_simps = wrapper_def estep_add_eps extends_add_edge extends_grow2

lemma lstar_unfold: "insert [] (conc A (lstar A)) = lstar A"
proof -
  have "w \<in> insert [] (conc A (lstar A))" if "w \<in> lstar A" for w
    using that by (induction rule: lstar_induct) auto
  then show ?thesis by auto
qed

lemma implements_star:
  assumes "implements ca A B"
  shows "implements (compile_star ca) (lstar A) (conc (lstar A) B)"
proof -
  let ?F = "\<lambda>T f. add_edge (add_edge (add_edge (add_edge (grow2 T) (length T) (eps_edge (f_s f)))
    (length T) (eps_edge (Suc (length T)))) (f_e f) (eps_edge (f_s f))) (f_e f) (eps_edge (Suc (length T)))"
  have "wrapper True True ?F"
    by (auto simp: wrapper_simps dest: extends_length)
  from implements_wrap[OF assms this, of "compile_star ca"] show ?thesis
    by (simp add: compile_star_def new_state_def add_eps_def rep_lang_def lstar_unfold)
qed

lemma implements_plus:
  assumes "implements ca A B"
  shows "implements (compile_plus ca) (conc A (lstar A)) (conc (lstar A) B)"
proof -
  let ?F = "\<lambda>T f. add_edge (add_edge (add_edge (grow2 T) (length T) (eps_edge (f_s f)))
    (f_e f) (eps_edge (f_s f))) (f_e f) (eps_edge (Suc (length T)))"
  have "wrapper False True ?F"
    by (auto simp: wrapper_simps dest: extends_length)
  from implements_wrap[OF assms this, of "compile_plus ca"] show ?thesis
    by (simp add: compile_plus_def new_state_def add_eps_def rep_lang_def)
qed

lemma implements_question:
  assumes "implements ca A B"
  shows "implements (compile_question ca) ({[]} \<union> A) B"
proof -
  let ?F = "\<lambda>T f. add_edge (add_edge (add_edge (grow2 T) (length T) (eps_edge (f_s f)))
    (length T) (eps_edge (Suc (length T)))) (f_e f) (eps_edge (Suc (length T)))"
  have "wrapper True False ?F"
    by (auto simp: wrapper_simps dest: extends_length)
  from implements_wrap[OF assms this, of "compile_question ca"] show ?thesis
    by (simp add: compile_question_def new_state_def add_eps_def rep_lang_def)
qed

lemma implements_alt:
  assumes "implements ca A B" "implements cb C D"
  shows "implements (compile_alt ca cb) (A \<union> C) (B \<union> D)"
  unfolding implements_def
proof
  fix nfa
  obtain T f where a: "ca nfa = (nfa\<lparr>nfa_states := T\<rparr>, f)" "frag_spec (nfa_states nfa) T f A B"
    using assms(1) by (rule implementsE)
  obtain U g where b: "cb (nfa\<lparr>nfa_states := T\<rparr>) = (nfa\<lparr>nfa_states := U\<rparr>, g)" "frag_spec T U g C D"
    using implementsE[OF assms(2), of "nfa\<lparr>nfa_states := T\<rparr>"] by auto
  let ?S = "nfa_states nfa"
  let ?V = "add_edge (add_edge (add_edge (add_edge (grow2 U) (length U) (eps_edge (f_s f)))
    (length U) (eps_edge (f_s g))) (f_e f) (eps_edge (Suc (length U)))) (f_e g) (eps_edge (Suc (length U)))"
  note bounds = frag_bounds[OF a(2)] frag_bounds[OF b(2)]
  have "extends ?S ?V"
    using extends_trans[OF frag_extends[OF a(2)] frag_extends[OF b(2)]] bounds
    by (auto intro!: extends_add_edge extends_grow2)
  then have "frag_spec ?S ?V \<lparr>f_s = length U, f_e = Suc (length U)\<rparr> (A \<union> C) (B \<union> D)"
    by (rule alt_spec[OF a(2) b(2)]) (use bounds in \<open>auto simp: estep_add_eps\<close>)
  moreover have "compile_alt ca cb nfa =
      (nfa\<lparr>nfa_states := ?V\<rparr>, \<lparr>f_s = length U, f_e = Suc (length U)\<rparr>)"
    by (simp add: compile_alt_def a b new_state_def add_eps_def)
  ultimately show "\<exists>T f. compile_alt ca cb nfa = (nfa\<lparr>nfa_states := T\<rparr>, f) \<and>
      frag_spec ?S T f (A \<union> C) (B \<union> D)" by blast
qed

definition set_boundary :: "nfa_state list \<Rightarrow> nat \<Rightarrow> nfa_state list" where
  "set_boundary S p = S[p := (S ! p)\<lparr>st_is_boundary := True\<rparr>]"

lemma length_set_boundary [simp]: "length (set_boundary S p) = length S"
  by (simp add: set_boundary_def)

lemma nth_set_boundary:
  "q < length S \<Longrightarrow>
   set_boundary S p ! q = (if q = p then (S ! q)\<lparr>st_is_boundary := True\<rparr> else S ! q)"
  by (simp add: set_boundary_def nth_list_update)

lemma outs_set_boundary [simp]: "outs (set_boundary S p) = outs S"
  by (simp add: outs_def nth_set_boundary fun_eq_iff)

lemma set_boundary_simps [simp]:
  "acc_of (set_boundary S p) = acc_of S" "estep (set_boundary S p) = estep S"
  by (simp_all add: acc_of_def estep_def nth_set_boundary fun_eq_iff)

lemma bnd_set_boundary [simp]:
  "p < length S \<Longrightarrow> bnd_of (set_boundary S p) q \<longleftrightarrow> q = p \<or> bnd_of S q"
  by (auto simp: bnd_of_def nth_set_boundary)

lemma implements_boundary: "implements compile_boundary {[]} {[]}"
proof (rule implementsI)
  let ?F = "\<lambda>S. add_edge (set_boundary (grow2 S) (Suc (length S))) (length S) (eps_edge (Suc (length S)))"
  show "compile_boundary nfa = (nfa\<lparr>nfa_states := ?F (nfa_states nfa)\<rparr>,
      \<lparr>f_s = length (nfa_states nfa), f_e = Suc (length (nfa_states nfa))\<rparr>)" for nfa
    by (simp add: compile_boundary_def new_state_def add_eps_def set_boundary_def nth_append list_update_append)
  fix S
  have "extends S (?F S)" by (intro extends_add_edge) (simp_all add: extends_def set_boundary_def)
  moreover have step: "estep (?F S) p l x \<longleftrightarrow>
      estep S p l x \<or> (p = length S \<and> x = Suc (length S) \<and> l = [])" for p l x
    by (auto simp: estep_add_eps)
  ultimately have "frag_spec S (?F S) \<lparr>f_s = length S, f_e = Suc (length S)\<rparr> {l. l = []}
      (\<Union>m\<in>{m \<in> region S (?F S). bnd_of (?F S) m}. plang (estep (?F S)) (length S) m)"
    by (intro two_states) simp_all
  moreover have "{m \<in> region S (?F S). bnd_of (?F S) m} = {Suc (length S)}"
    by (auto simp: region_def)
  moreover have "plang (estep (?F S)) (length S) (Suc (length S)) = {[]}"
    using frag_lang[OF calculation(1)] by simp
  ultimately show "frag_spec S (?F S) \<lparr>f_s = length S, f_e = Suc (length S)\<rparr> {[]} {[]}" by simp
qed

text \<open>The chain of copies a repeat builds, from no fragment at all.\<close>

definition chain_spec :: "nfa_state list \<Rightarrow> nfa \<Rightarrow> nfa \<times> frag option \<Rightarrow> lang \<Rightarrow> lang \<Rightarrow> bool" where
  "chain_spec S nfa0 st A B \<longleftrightarrow>
     (\<exists>T. fst st = nfa0\<lparr>nfa_states := T\<rparr> \<and>
       (case snd st of None \<Rightarrow> T = S \<and> A = {[]} \<and> B = {} | Some h \<Rightarrow> frag_spec S T h A B))"

lemma chain_append:
  assumes st: "chain_spec S nfa0 st A B" and c: "implements c C D"
  shows "chain_spec S nfa0 (append_frag st c) (conc A C) (B \<union> conc A D)"
proof -
  obtain T h where st_eq: "st = (nfa0\<lparr>nfa_states := T\<rparr>, h)"
    and h: "case h of None \<Rightarrow> T = S \<and> A = {[]} \<and> B = {} | Some h \<Rightarrow> frag_spec S T h A B"
    using st by (cases st) (auto simp: chain_spec_def)
  obtain U g where g: "c (nfa0\<lparr>nfa_states := T\<rparr>) = (nfa0\<lparr>nfa_states := U\<rparr>, g)" "frag_spec T U g C D"
    using implementsE[OF c, of "nfa0\<lparr>nfa_states := T\<rparr>"] by auto
  show ?thesis
  proof (cases h)
    case None
    with h g st_eq show ?thesis
      unfolding chain_spec_def by (intro exI[of _ U]) (simp add: append_frag_def)
  next
    case (Some f)
    with h have "frag_spec S T f A B" by simp
    from seq_spec[OF this g(2)] show ?thesis
      unfolding chain_spec_def
      by (intro exI[of _ "add_edge U (f_e f) (eps_edge (f_s g))"])
        (simp add: append_frag_def st_eq Some g(1) add_eps_def)
  qed
qed

lemma chain_copies:
  assumes "implements c C D"
  shows "chain_spec S nfa0 st A B \<Longrightarrow>
    chain_spec S nfa0 (append_copies k c st) (conc A (lpow C k))
      (B \<union> conc A (\<Union>i<k. conc (lpow C i) D))"
proof (induction k arbitrary: st A B)
  case 0
  then show ?case by simp
next
  case (Suc k)
  have "conc (conc A C) (\<Union>i<k. conc (lpow C i) D) = conc A (\<Union>i<k. conc (lpow C (Suc i)) D)"
    by (simp add: conc_UN conc_assoc)
  moreover have "(\<Union>i<Suc k. conc (lpow C i) D) = D \<union> (\<Union>i<k. conc (lpow C (Suc i)) D)"
    unfolding lessThan_Suc_eq_insert_0 by (simp add: image_image)
  ultimately show ?case
    using Suc.IH[OF chain_append[OF Suc.prems assms]] by (simp add: conc_assoc conc_Un Un_assoc)
qed

lemma chain_finish:
  assumes "chain_spec (nfa_states nfa) nfa st A B"
  shows "\<exists>T f. (case st of (nfa, head) \<Rightarrow>
      case head of None \<Rightarrow> compile_empty nfa | Some h \<Rightarrow> (nfa, h)) = (nfa\<lparr>nfa_states := T\<rparr>, f) \<and>
    frag_spec (nfa_states nfa) T f A B"
proof -
  obtain T h where st_eq: "st = (nfa\<lparr>nfa_states := T\<rparr>, h)"
    and h: "case h of None \<Rightarrow> T = nfa_states nfa \<and> A = {[]} \<and> B = {}
            | Some h \<Rightarrow> frag_spec (nfa_states nfa) T h A B"
    using assms by (cases st) (auto simp: chain_spec_def)
  show ?thesis
  proof (cases h)
    case None
    with h st_eq have "st = (nfa, None)" "A = {[]}" "B = {}" by simp_all
    then show ?thesis using implementsE[OF implements_empty, of nfa] by simp metis
  next
    case (Some f)
    with h st_eq show ?thesis by auto
  qed
qed

lemma lstar_split: "(\<Union>i<n. lpow A i) \<union> conc (lpow A n) (lstar A) = lstar A"
proof -
  have "range ((+) n) = {n..}" by (auto simp: image_iff le_iff_add)
  then have "(\<Union>i. lpow A (n + i)) = (\<Union>k\<in>{n..}. lpow A k)"
    by (metis image_image)
  then have "conc (lpow A n) (lstar A) = (\<Union>k\<in>{n..}. lpow A k)"
    by (simp only: lstar_def conc_UN flip: lpow_add)
  then have "(\<Union>i<n. lpow A i) \<union> conc (lpow A n) (lstar A) = (\<Union>k\<in>{..<n} \<union> {n..}. lpow A k)"
    by (simp only: UN_Un)
  also have "{..<n} \<union> {n..} = UNIV" by auto
  finally show ?thesis by (simp only: lstar_def)
qed

lemma lpow_opt: "lpow ({[]} \<union> A) n = (\<Union>i\<le>n. lpow A i)"
proof (induction n)
  case (Suc n)
  have "{..Suc n} = {..n} \<union> Suc ` {..n}" by (auto simp: le_Suc_eq)
  then have "(\<Union>i\<le>Suc n. lpow A i) = (\<Union>i\<le>n. lpow A i) \<union> (\<Union>i\<le>n. lpow A (Suc i))"
    by (simp only: UN_Un image_image)
  also have "\<dots> = conc ({[]} \<union> A) (\<Union>i\<le>n. lpow A i)"
    by (simp only: conc_Un conc_eps conc_UN lpow.simps) blast
  finally show ?case using Suc by (simp only: lpow.simps)
qed simp

lemma repeat_lang:
  "conc (lpow A lo) (lpow ({[]} \<union> A) n) = (\<Union>k\<in>{lo..lo + n}. lpow A k)"
proof -
  have "conc (lpow A lo) (lpow ({[]} \<union> A) n) = (\<Union>i\<le>n. lpow A (lo + i))"
    by (simp only: lpow_opt conc_UN lpow_add)
  also have "\<dots> = (\<Union>k\<in>(+) lo ` {..n}. lpow A k)" by (simp add: image_image)
  also have "(+) lo ` {..n} = {lo..lo + n}"
    using image_add_atLeastAtMost[of lo 0 n] by (simp add: atLeast0AtMost add.commute)
  finally show ?thesis .
qed

lemma repeat_marks:
  "(\<Union>i<lo. conc (lpow A i) B) \<union> conc (lpow A lo) (\<Union>i<n. conc (lpow ({[]} \<union> A) i) B)
    = (\<Union>k<lo + n. conc (lpow A k) B)"
proof -
  have "(\<Union>i<n. conc (lpow ({[]} \<union> A) i) B) = (\<Union>i<n. \<Union>t\<le>i. conc (lpow A t) B)"
    by (simp only: lpow_opt conc_UN)
  also have "\<dots> = (\<Union>t<n. conc (lpow A t) B)" by force
  finally have "conc (lpow A lo) (\<Union>i<n. conc (lpow ({[]} \<union> A) i) B)
      = (\<Union>t<n. conc (lpow A (lo + t)) B)"
    by (simp only: conc_UN lpow_add conc_assoc)
  also have "\<dots> = (\<Union>k\<in>(+) lo ` {..<n}. conc (lpow A k) B)" by (simp add: image_image)
  also have "(+) lo ` {..<n} = {lo..<lo + n}"
    using image_add_atLeastLessThan[of lo 0 n] by (simp add: atLeast0LessThan add.commute)
  finally have "(\<Union>i<lo. conc (lpow A i) B) \<union> conc (lpow A lo) (\<Union>i<n. conc (lpow ({[]} \<union> A) i) B)
      = (\<Union>k\<in>{..<lo} \<union> {lo..<lo + n}. conc (lpow A k) B)" by blast
  also have "{..<lo} \<union> {lo..<lo + n} = {..<lo + n}" by auto
  finally show ?thesis .
qed

lemma max_repeat: "(if lo \<le> hi then unat (hi - lo) else 0) + unat lo = max (unat lo) (unat hi)"
  for lo hi :: u32
  by (auto simp: unat_sub word_le_nat_alt max_def)

lemma implements_repeat:
  assumes a: "implements ca A B"
  shows "implements (compile_repeat ca lo hi)
    (if hi = kInf then conc (lpow A (unat lo)) (lstar A)
     else (\<Union>k\<in>{unat lo..max (unat lo) (unat hi)}. lpow A k))
    (if hi = kInf then conc (lstar A) B
     else (\<Union>k\<in>{..<max (unat lo) (unat hi)}. conc (lpow A k) B))"
  unfolding implements_def
proof
  fix nfa :: nfa
  let ?S = "nfa_states nfa" and ?opt = "if lo \<le> hi then unat (hi - lo) else 0"
  let ?copies = "append_copies (unat lo) ca (nfa, None)"
  have "chain_spec ?S nfa (nfa, None) {[]} {}" by (simp add: chain_spec_def)
  from chain_copies[OF a this, of "unat lo"]
  have copies: "chain_spec ?S nfa ?copies (lpow A (unat lo)) (\<Union>i<unat lo. conc (lpow A i) B)" by simp
  show "\<exists>T f. compile_repeat ca lo hi nfa = (nfa\<lparr>nfa_states := T\<rparr>, f) \<and> frag_spec ?S T f
      (if hi = kInf then conc (lpow A (unat lo)) (lstar A)
       else (\<Union>k\<in>{unat lo..max (unat lo) (unat hi)}. lpow A k))
      (if hi = kInf then conc (lstar A) B
       else (\<Union>k\<in>{..<max (unat lo) (unat hi)}. conc (lpow A k) B))"
  proof (cases "hi = kInf")
    case True
    have "(\<Union>i<unat lo. conc (lpow A i) B) \<union> conc (lpow A (unat lo)) (conc (lstar A) B)
        = conc ((\<Union>i<unat lo. lpow A i) \<union> conc (lpow A (unat lo)) (lstar A)) B"
      by (simp only: conc_UN conc_Un conc_assoc)
    also have "\<dots> = conc (lstar A) B" by (simp only: lstar_split)
    finally show ?thesis
      using chain_finish[OF chain_append[OF copies implements_star[OF a]]] True
      by (simp add: compile_repeat_def)
  next
    case False
    from chain_copies[OF implements_question[OF a] copies, of ?opt]
    have "chain_spec ?S nfa (append_copies ?opt (compile_question ca) ?copies)
        (\<Union>k\<in>{unat lo..max (unat lo) (unat hi)}. lpow A k)
        (\<Union>k\<in>{..<max (unat lo) (unat hi)}. conc (lpow A k) B)"
      by (simp only: repeat_lang repeat_marks add.commute[of "unat lo"] max_repeat)
    from chain_finish[OF this] False show ?thesis by (simp add: compile_repeat_def)
  qed
qed

theorem implements_compile: "proper n \<Longrightarrow> implements (compile n) (lang n) (head_lang n)"
proof (induction n)
  case (Alt a b)
  then show ?case using implements_alt by simp
next
  case (Plus a)
  then show ?case using implements_plus by simp
next
  case (Question a)
  then show ?case using implements_question by fastforce
qed (simp_all add: implements_empty implements_class implements_concat implements_star
    implements_repeat implements_boundary del: Un_insert_left)

section \<open>Properties\<close>

text \<open>C5. \<open>compile\<close> is correct: it only appends states, the new fragment leads from its
entry to its exit over exactly the strings of the tree, nothing leaves the exit, and the
boundary markers are reached over exactly the strings of the head of an \<open>r/s\<close> pattern.\<close>

theorem compile_correct:
  assumes "proper n" "compile n nfa = (nfa', f)"
  shows "extends (nfa_states nfa) (nfa_states nfa') \<and>
    (\<forall>w. path (estep (nfa_states nfa')) (f_s f) w (f_e f) \<longleftrightarrow> w \<in> lang n) \<and>
    (\<forall>l x. \<not> estep (nfa_states nfa') (f_e f) l x) \<and>
    (\<forall>w. (\<exists>m\<ge>length (nfa_states nfa). bnd_of (nfa_states nfa') m \<and>
       path (estep (nfa_states nfa')) (f_s f) w m) \<longleftrightarrow> w \<in> head_lang n)"
proof -
  obtain T where T: "nfa' = nfa\<lparr>nfa_states := T\<rparr>" "frag_spec (nfa_states nfa) T f (lang n) (head_lang n)"
    using implements_compile[OF assms(1)] assms(2) unfolding implements_def by (metis Pair_inject)
  have "(\<exists>m\<ge>length (nfa_states nfa). bnd_of T m \<and> path (estep T) (f_s f) w m) \<longleftrightarrow> w \<in> head_lang n" for w
    using frag_marks[OF T(2)] by (auto simp: region_def bnd_of_def simp flip: plang_iff)
  moreover have "path (estep T) (f_s f) w (f_e f) \<longleftrightarrow> w \<in> lang n" for w
    using frag_lang[OF T(2)] by (simp flip: plang_iff)
  ultimately show ?thesis
    using frag_extends[OF T(2)] frag_exit_stuck[OF T(2)] by (simp add: T(1))
qed

lemma compile_correct_witness:
  "let (nfa, f) = compile (Star (Class (bs_add bs_clear 97))) empty_nfa
   in path (estep (nfa_states nfa)) (f_s f) [] (f_e f)"
proof -
  obtain nfa f where c: "compile (Star (Class (bs_add bs_clear 97))) empty_nfa = (nfa, f)" by fastforce
  have "proper (Star (Class (bs_add bs_clear 97)))"
    using bs_test_add[of 97 97 bs_clear] by (force simp: bs_empty_iff)
  from compile_correct[OF this c] have "path (estep (nfa_states nfa)) (f_s f) [] (f_e f)" by simp
  then show ?thesis by (simp add: c del: compile.simps)
qed

text \<open>A class with no member (such as a negated class over all bytes) matches nothing, but
the edge the compiler makes for it has the representation of an epsilon edge, so the fragment
matches the empty string.\<close>

theorem empty_class_matches_empty:
  "let (nfa', f) = compile (Class bs_clear) nfa
   in path (estep (nfa_states nfa')) (f_s f) [] (f_e f) \<and> lang (Class bs_clear) = {}"
proof -
  let ?S = "grow2 (nfa_states nfa)" and ?s = "length (nfa_states nfa)"
  have "estep (add_edge ?S ?s (eps_edge (Suc ?s))) ?s [] (Suc ?s)" by (simp add: estep_add_eps)
  then show ?thesis
    by (simp add: compile_class_def add_class_def new_state_def bs_test_clear path_one)
qed

end
