(* ===== verification/Nfa_Rules.thy ===== *)
theory Nfa_Rules
  imports Thompson
begin

text \<open>
  What \<open>init_nfa\<close>, \<open>add_rule_to_nfa\<close> and \<open>add_eof_rule\<close> of \<open>nfa.cpp\<close> promise
  about the whole automaton: its well-formedness (\<open>nfa_ok\<close>), the rules a start state
  accepts after a string (\<open>accepts\<close>), and the rules whose \<open>r/s\<close> boundary it has reached
  (\<open>marked\<close>).
\<close>

section \<open>Well-formed automata and what they accept\<close>

definition starts :: "nfa \<Rightarrow> nat" where
  "starts nfa = 2 * length (nfa_cond_starts nfa)"

definition graph_ok :: "nat \<Rightarrow> nfa_state list \<Rightarrow> bool" where
  "graph_ok m S \<longleftrightarrow> m \<le> length S \<and>
     (\<forall>p l x. estep S p l x \<longrightarrow> m \<le> x \<and> x < length S \<and> (p < m \<longrightarrow> l = [])) \<and>
     (\<forall>p<m. acc_of S p = -1 \<and> \<not> bnd_of S p)"

definition nfa_ok :: "nfa \<Rightarrow> bool" where
  "nfa_ok nfa \<longleftrightarrow> graph_ok (starts nfa) (nfa_states nfa) \<and>
     nfa_cond_starts nfa = map (\<lambda>i. \<lparr>cs_normal = 2 * i, cs_bol = 2 * i + 1\<rparr>)
       [0..<length (nfa_cond_names nfa)] \<and>
     length (nfa_cond_excl nfa) = length (nfa_cond_names nfa) \<and>
     length (nfa_eof_rules nfa) = length (nfa_cond_names nfa) \<and>
     length (nfa_rule_eol nfa) = length (nfa_rule_bol nfa) \<and>
     length (nfa_rule_trail nfa) = length (nfa_rule_bol nfa) \<and>
     length (nfa_rule_boundary_states nfa) = length (nfa_rule_bol nfa) \<and>
     (\<forall>p. - 1 \<le> acc_of (nfa_states nfa) p \<and>
        acc_of (nfa_states nfa) p < int (length (nfa_rule_bol nfa))) \<and>
     (\<forall>ms\<in>set (nfa_rule_boundary_states nfa). \<forall>q\<in>set ms.
        starts nfa \<le> q \<and> q < length (nfa_states nfa))"

definition accepts :: "nfa \<Rightarrow> nat \<Rightarrow> byte list \<Rightarrow> nat \<Rightarrow> bool" where
  "accepts nfa p w r \<longleftrightarrow>
     (\<exists>q. path (estep (nfa_states nfa)) p w q \<and> acc_of (nfa_states nfa) q = int r)"

definition marked :: "nfa \<Rightarrow> nat \<Rightarrow> byte list \<Rightarrow> nat \<Rightarrow> bool" where
  "marked nfa p w r \<longleftrightarrow> r < length (nfa_rule_boundary_states nfa) \<and>
     (\<exists>q\<in>set (nfa_rule_boundary_states nfa ! r). path (estep (nfa_states nfa)) p w q)"

text \<open>The start state of a condition, at the beginning of a line or not.\<close>

definition start_of :: "nfa \<Rightarrow> nat \<Rightarrow> bool \<Rightarrow> nat" where
  "start_of nfa c at_bol =
     (if at_bol then cs_bol (nfa_cond_starts nfa ! c) else cs_normal (nfa_cond_starts nfa ! c))"

lemma nfa_ok_conds: "nfa_ok nfa \<Longrightarrow> length (nfa_cond_starts nfa) = length (nfa_cond_names nfa)"
  by (auto simp: nfa_ok_def)

lemma start_of_ok:
  "nfa_ok nfa \<Longrightarrow> c < length (nfa_cond_names nfa) \<Longrightarrow> start_of nfa c b = 2 * c + (if b then 1 else 0)"
  by (simp add: start_of_def nfa_ok_def)

lemma start_of_less:
  "nfa_ok nfa \<Longrightarrow> c < length (nfa_cond_names nfa) \<Longrightarrow> start_of nfa c b < starts nfa"
  by (simp add: start_of_ok starts_def nfa_ok_conds)

lemma graph_okD:
  "graph_ok m S \<Longrightarrow> estep S p l x \<Longrightarrow> m \<le> x"
  "graph_ok m S \<Longrightarrow> estep S p l x \<Longrightarrow> x < length S"
  "graph_ok m S \<Longrightarrow> estep S p l x \<Longrightarrow> p < m \<Longrightarrow> l = []"
  by (auto simp: graph_ok_def)

lemma nfa_ok_graph: "nfa_ok nfa \<Longrightarrow> graph_ok (starts nfa) (nfa_states nfa)"
  by (simp add: nfa_ok_def)

lemma nfa_ok_starts: "nfa_ok nfa \<Longrightarrow> starts nfa \<le> length (nfa_states nfa)"
  by (simp add: nfa_ok_def graph_ok_def)

section \<open>Linking a rule to its conditions\<close>

text \<open>The start states that get an edge to the entry of a rule.\<close>

definition linked_starts :: "nfa \<Rightarrow> bool \<Rightarrow> nat list \<Rightarrow> nat set" where
  "linked_starts nfa only_bol cs =
     {start_of nfa c b |c b. c \<in> set cs \<and> (only_bol \<longrightarrow> b)}"

lemma fold_link:
  assumes "\<And>c b. c \<in> set cs \<Longrightarrow> start_of nfa c b < length (nfa_states nfa)"
  shows "\<exists>V. fold (link_cond entry only_bol) cs nfa = nfa\<lparr>nfa_states := V\<rparr> \<and>
    length V = length (nfa_states nfa) \<and> acc_of V = acc_of (nfa_states nfa) \<and>
    bnd_of V = bnd_of (nfa_states nfa) \<and>
    (\<forall>p l x. estep V p l x \<longleftrightarrow> estep (nfa_states nfa) p l x \<or>
       (p \<in> linked_starts nfa only_bol cs \<and> l = [] \<and> x = entry))"
  using assms
proof (induction cs arbitrary: nfa)
  case Nil
  show ?case by (rule exI[of _ "nfa_states nfa"]) (simp add: linked_starts_def)
next
  case (Cons c cs)
  let ?S = "nfa_states nfa"
  have in_range: "start_of nfa c b < length ?S" for b
    using Cons.prems by simp
  note bol = in_range[of True, unfolded start_of_def] and norm = in_range[of False, unfolded start_of_def]
  define U where "U = nfa_states (link_cond entry only_bol c nfa)"
  have link: "link_cond entry only_bol c nfa = nfa\<lparr>nfa_states := U\<rparr>"
    by (simp add: U_def link_cond_def add_eps_def Let_def)
  have U: "length U = length ?S" "acc_of U = acc_of ?S" "bnd_of U = bnd_of ?S"
    by (simp_all add: U_def link_cond_def add_eps_def Let_def)
  have eU: "estep U p l x \<longleftrightarrow> estep ?S p l x \<or> (p \<in> linked_starts nfa only_bol [c] \<and> l = [] \<and> x = entry)"
    for p l x
    using bol norm
    by (auto simp: U_def link_cond_def add_eps_def Let_def estep_add_eps linked_starts_def start_of_def)
  have starts: "start_of (nfa\<lparr>nfa_states := U\<rparr>) = start_of nfa"
    by (intro ext) (simp add: start_of_def)
  have lst: "linked_starts (nfa\<lparr>nfa_states := U\<rparr>) only_bol cs = linked_starts nfa only_bol cs"
    by (simp add: linked_starts_def starts)
  have un: "linked_starts nfa only_bol (c # cs) = linked_starts nfa only_bol [c] \<union> linked_starts nfa only_bol cs"
    by (auto simp: linked_starts_def)
  from Cons.IH[of "nfa\<lparr>nfa_states := U\<rparr>"] Cons.prems U(1)
  obtain V where V: "fold (link_cond entry only_bol) cs (nfa\<lparr>nfa_states := U\<rparr>) = nfa\<lparr>nfa_states := V\<rparr>"
    "length V = length ?S" "acc_of V = acc_of ?S" "bnd_of V = bnd_of ?S"
    "\<And>p l x. estep V p l x \<longleftrightarrow> estep U p l x \<or> (p \<in> linked_starts nfa only_bol cs \<and> l = [] \<and> x = entry)"
    by (auto simp: starts lst U)
  show ?case
    by (rule exI[of _ V]) (use V eU un link in auto)
qed

section \<open>Adding a rule\<close>

text \<open>A per-rule vector after room was made for rule \<open>r\<close> and its entry written.\<close>

definition put_rule :: "'a list \<Rightarrow> 'a \<Rightarrow> nat \<Rightarrow> 'a \<Rightarrow> 'a list" where
  "put_rule xs d r v = (xs @ replicate (Suc r - length xs) d)[r := v]"

lemma length_put_rule [simp]: "length (put_rule xs d r v) = max (length xs) (Suc r)"
  by (simp add: put_rule_def max_def)

lemma nth_put_rule:
  "i < max (length xs) (Suc r) \<Longrightarrow>
   put_rule xs d r v ! i = (if i = r then v else if i < length xs then xs ! i else d)"
  by (auto simp: put_rule_def nth_list_update nth_append)

definition old_marks :: "nfa \<Rightarrow> nat \<Rightarrow> nat list" where
  "old_marks nfa r =
     (if r < length (nfa_rule_boundary_states nfa) then nfa_rule_boundary_states nfa ! r else [])"

lemma linked_conds_cong:
  "nfa_cond_starts a = nfa_cond_starts b \<Longrightarrow> nfa_cond_excl a = nfa_cond_excl b \<Longrightarrow>
   linked_conds a sites = linked_conds b sites"
  by (simp add: linked_conds_def Let_def)

lemma linked_conds_less:
  assumes "nfa_ok nfa" "\<And>c. c \<in> set (rs_conds sites) \<Longrightarrow> c < length (nfa_cond_names nfa)"
    and "c \<in> set (linked_conds nfa sites)"
  shows "c < length (nfa_cond_names nfa)"
  using assms by (auto simp: linked_conds_def Let_def nfa_ok_conds split: if_splits)

lemma compile_body:
  assumes "proper root" "unwrap_anchors root = (body, bol, eol)"
  obtains T f where "compile body nfa = (nfa\<lparr>nfa_states := T\<rparr>, f)"
    "frag_spec (nfa_states nfa) T f (lang root) (head_lang root)"
  using implements_compile[OF proper_unwrap_anchors[OF assms(2,1)]]
    lang_unwrap_anchors[OF assms(2)] head_lang_unwrap_anchors[OF assms(2)] that
  unfolding implements_def by metis

definition set_accept :: "nfa_state list \<Rightarrow> nat \<Rightarrow> nat \<Rightarrow> nfa_state list" where
  "set_accept S e r = S[e := (S ! e)\<lparr>st_accept_rule := int r\<rparr>]"

lemma nth_set_accept:
  "i < length S \<Longrightarrow>
   set_accept S e r ! i = (if i = e then (S ! e)\<lparr>st_accept_rule := int r\<rparr> else S ! i)"
  by (cases "e < length S") (auto simp: set_accept_def nth_list_update)

lemma set_accept_simps [simp]:
  "length (set_accept S e r) = length S" "outs (set_accept S e r) = outs S"
  "bnd_of (set_accept S e r) = bnd_of S"
  "e < length S \<Longrightarrow> acc_of (set_accept S e r) p = (if p = e then int r else acc_of S p)"
proof -
  show len: "length (set_accept S e r) = length S" by (simp add: set_accept_def)
  show "outs (set_accept S e r) = outs S" "bnd_of (set_accept S e r) = bnd_of S"
    by (intro ext; simp add: outs_def bnd_of_def nth_set_accept len cong: if_cong conj_cong)+
  show "e < length S \<Longrightarrow> acc_of (set_accept S e r) p = (if p = e then int r else acc_of S p)"
    by (simp add: acc_of_def nth_set_accept len)
qed

lemma estep_set_accept [simp]: "estep (set_accept S e r) = estep S"
  by (intro ext) (simp add: estep_def)

text \<open>The whole of \<open>add_rule_to_nfa\<close>: the new states, the linked start states, the vectors.\<close>

lemma add_rule_shape:
  assumes ok: "nfa_ok nfa" and "proper root" and un: "unwrap_anchors root = (body, bol, eol)"
    and conds: "\<And>c. c \<in> set (rs_conds sites) \<Longrightarrow> c < length (nfa_cond_names nfa)"
  obtains T f V where
    "frag_spec (nfa_states nfa) T f (lang root) (head_lang root)"
    "add_rule_to_nfa nfa root r sites t = nfa\<lparr>nfa_states := V,
       nfa_rule_bol := put_rule (nfa_rule_bol nfa) 0 r (if bol then 1 else 0),
       nfa_rule_eol := put_rule (nfa_rule_eol nfa) 0 r (if eol then 1 else 0),
       nfa_rule_trail := put_rule (nfa_rule_trail nfa) 0 r t,
       nfa_rule_boundary_states := put_rule (nfa_rule_boundary_states nfa) [] r
         (old_marks nfa r @ filter (bnd_of T) [length (nfa_states nfa)..<length T])\<rparr>"
    "length V = length T" "bnd_of V = bnd_of T"
    "\<And>p. acc_of V p = (if p = f_e f then int r else acc_of T p)"
    "\<And>p l x. estep V p l x \<longleftrightarrow> estep T p l x \<or>
       (p \<in> linked_starts nfa bol (linked_conds nfa sites) \<and> l = [] \<and> x = f_s f)"
proof -
  let ?S = "nfa_states nfa"
  obtain T f where comp: "compile body nfa = (nfa\<lparr>nfa_states := T\<rparr>, f)"
    and frag: "frag_spec ?S T f (lang root) (head_lang root)"
    using compile_body[OF \<open>proper root\<close> un] by metis
  have fe: "f_e f < length T" and grown_len: "length ?S \<le> length T"
    using frag_bounds[OF frag] extends_length[OF frag_extends[OF frag]] by auto
  let ?U = "set_accept T (f_e f) r"
  define mid where "mid = nfa\<lparr>nfa_states := ?U,
       nfa_rule_bol := put_rule (nfa_rule_bol nfa) 0 r (if bol then 1 else 0),
       nfa_rule_eol := put_rule (nfa_rule_eol nfa) 0 r (if eol then 1 else 0),
       nfa_rule_trail := put_rule (nfa_rule_trail nfa) 0 r t,
       nfa_rule_boundary_states := put_rule (nfa_rule_boundary_states nfa) [] r
         (old_marks nfa r @ filter (bnd_of T) [length ?S..<length T])\<rparr>"
  have bnd: "filter (\<lambda>i. st_is_boundary (?U ! i)) [length ?S..<length T]
      = filter (bnd_of T) [length ?S..<length T]"
    by (rule filter_cong) (auto simp: bnd_of_def nth_set_accept)
  have lens: "length (nfa_rule_eol nfa) = length (nfa_rule_bol nfa)"
    "length (nfa_rule_trail nfa) = length (nfa_rule_bol nfa)"
    "length (nfa_rule_boundary_states nfa) = length (nfa_rule_bol nfa)"
    using ok by (simp_all add: nfa_ok_def)
  have grown: "(nfa_rule_boundary_states nfa @ replicate (Suc r - length (nfa_rule_bol nfa)) []) ! r
      = old_marks nfa r"
    by (simp add: old_marks_def nth_append lens)
  have mid: "add_rule_to_nfa nfa root r sites t = connect_to_conds mid (f_s f) bol sites"
    by (simp add: add_rule_to_nfa_def un comp Let_def grow_rules_def mid_def put_rule_def lens grown
        bnd flip: set_accept_def)
  have lc: "linked_conds mid sites = linked_conds nfa sites"
    by (rule linked_conds_cong) (simp_all add: mid_def)
  have st: "start_of mid = start_of nfa" by (intro ext) (simp add: mid_def start_of_def)
  then have ls: "linked_starts mid bol = linked_starts nfa bol"
    by (intro ext) (simp add: linked_starts_def)
  have mid_states: "nfa_states mid = ?U" by (simp add: mid_def)
  have "start_of mid c b < length (nfa_states mid)" if "c \<in> set (linked_conds nfa sites)" for c b
    using start_of_less[OF ok linked_conds_less[OF ok conds that], of b] nfa_ok_starts[OF ok] grown_len
    by (simp add: st mid_states)
  from fold_link[of "linked_conds nfa sites" mid "f_s f" bol, OF this]
  obtain V where V: "fold (link_cond (f_s f) bol) (linked_conds nfa sites) mid = mid\<lparr>nfa_states := V\<rparr>"
    "length V = length ?U" "acc_of V = acc_of ?U" "bnd_of V = bnd_of ?U"
    "\<And>p l x. estep V p l x \<longleftrightarrow> estep ?U p l x \<or>
       (p \<in> linked_starts mid bol (linked_conds nfa sites) \<and> l = [] \<and> x = f_s f)"
    unfolding mid_states by metis
  show ?thesis
  proof (rule that[OF frag])
    show "add_rule_to_nfa nfa root r sites t = nfa\<lparr>nfa_states := V,
       nfa_rule_bol := put_rule (nfa_rule_bol nfa) 0 r (if bol then 1 else 0),
       nfa_rule_eol := put_rule (nfa_rule_eol nfa) 0 r (if eol then 1 else 0),
       nfa_rule_trail := put_rule (nfa_rule_trail nfa) 0 r t,
       nfa_rule_boundary_states := put_rule (nfa_rule_boundary_states nfa) [] r
         (old_marks nfa r @ filter (bnd_of T) [length ?S..<length T])\<rparr>"
      by (simp add: mid connect_to_conds_def lc V(1)) (simp add: mid_def)
    show "length V = length T" "bnd_of V = bnd_of T" using V(2,4) by simp_all
    show "acc_of V p = (if p = f_e f then int r else acc_of T p)" for p using V(3) fe by simp
    show "estep V p l x \<longleftrightarrow> estep T p l x \<or>
       (p \<in> linked_starts nfa bol (linked_conds nfa sites) \<and> l = [] \<and> x = f_s f)" for p l x
      using V(5) by (simp add: ls)
  qed
qed

text \<open>Where a path of the new automaton can go: through the old states, or into the new rule.\<close>

lemma new_paths:
  assumes ok: "graph_ok m S" and frag: "frag_spec S T f A B" and L: "L \<subseteq> {..<m}"
    and V: "\<And>p l x. estep V p l x \<longleftrightarrow> estep T p l x \<or> (p \<in> L \<and> l = [] \<and> x = f_s f)"
    and p: "p < m"
  shows "path (estep V) p w q \<longleftrightarrow>
    path (estep S) p w q \<and> q < length S \<or> p \<in> L \<and> path (estep T) (f_s f) w q \<and> q \<in> region S T"
proof -
  have m: "m \<le> length S" and ext: "extends S T" "f_s f \<in> region S T" "closed_in (estep T) (region S T)"
    using ok frag by (simp_all add: graph_ok_def frag_spec_def)
  have low: "closed_in (estep S) {..<length S}"
    using graph_okD(2)[OF ok] by (auto simp: closed_in_def)
  have agree: "estep S a l x = estep T a l x" if "a \<in> {..<length S}" for a l x
    using extends_estep[OF ext(1)] that by simp
  have old: "path (estep T) p w q \<longleftrightarrow> path (estep S) p w q"
    using path_cong[OF low _ agree] p m by simp
  have lowq: "path (estep S) p w q \<Longrightarrow> q < length S"
    using path_closed[OF _ low] p m by simp
  have newq: "path (estep T) (f_s f) w q \<Longrightarrow> q \<in> region S T"
    using path_closed ext(2,3) by metis
  have no: "x \<notin> L" if "estep V a l x" for a l x
  proof (cases "a < length S")
    case True
    then have "estep S a l x \<or> x = f_s f" using that agree V by auto
    then have "m \<le> x" using graph_okD(1)[OF ok, of a l x] ext(2) m by (auto simp: region_def)
    then show ?thesis using L by auto
  next
    case False
    then have "estep T a l x" "a \<in> region S T"
      using that V L m estep_beyond[of T a l x] by (auto simp: region_def not_le[symmetric])
    then have "x \<in> region S T" using closed_inD[OF ext(3)] by blast
    then show ?thesis using L m by (auto simp: region_def)
  qed
  have "path (estep V) p w q \<longleftrightarrow> path (estep T) p w q \<or> (p \<in> L \<and> path (estep T) (f_s f) w q)"
    by (rule entry_paths[OF V]) (fact no)
  then show ?thesis using old lowq newq by blast
qed

lemma linked_starts_less:
  assumes "nfa_ok nfa" "\<And>c. c \<in> set (rs_conds sites) \<Longrightarrow> c < length (nfa_cond_names nfa)"
  shows "linked_starts nfa bol (linked_conds nfa sites) \<subseteq> {..<starts nfa}"
  using start_of_less linked_conds_less[OF assms] assms(1) by (auto simp: linked_starts_def)

lemma start_ids:
  "2 * c + (if b then 1 else 0) = 2 * c' + (if b' then 1 else (0 :: nat)) \<longleftrightarrow> c = c' \<and> b = b'"
  by (cases b; cases b'; simp; arith)

lemma start_of_linked:
  assumes "nfa_ok nfa" "c < length (nfa_cond_names nfa)"
    and "\<And>c. c \<in> set cs \<Longrightarrow> c < length (nfa_cond_names nfa)"
  shows "start_of nfa c b \<in> linked_starts nfa bol cs \<longleftrightarrow> c \<in> set cs \<and> (bol \<longrightarrow> b)"
proof -
  have eq: "start_of nfa c b = start_of nfa c' b' \<longleftrightarrow> c = c' \<and> b = b'"
    if "c' < length (nfa_cond_names nfa)" for c' b'
    unfolding start_of_ok[OF assms(1,2), of b] start_of_ok[OF assms(1) that, of b']
    by (rule start_ids)
  show ?thesis
  proof
    assume "start_of nfa c b \<in> linked_starts nfa bol cs"
    then obtain c' b' where "start_of nfa c b = start_of nfa c' b'" "c' \<in> set cs" "bol \<longrightarrow> b'"
      by (auto simp: linked_starts_def)
    with eq[OF assms(3), of c' b'] show "c \<in> set cs \<and> (bol \<longrightarrow> b)" by simp
  qed (auto simp: linked_starts_def)
qed

text \<open>The conditions a rule is active in.\<close>

definition active_in :: "nfa \<Rightarrow> rule_sites \<Rightarrow> bool \<Rightarrow> nat \<Rightarrow> bool \<Rightarrow> bool" where
  "active_in nfa sites bol c at_bol \<longleftrightarrow> c \<in> set (linked_conds nfa sites) \<and> (bol \<longrightarrow> at_bol)"

lemma add_rule_accepts:
  assumes ok: "nfa_ok nfa" and good: "proper root" and un: "unwrap_anchors root = (body, bol, eol)"
    and conds: "\<And>c. c \<in> set (rs_conds sites) \<Longrightarrow> c < length (nfa_cond_names nfa)"
    and c: "c < length (nfa_cond_names nfa)"
  shows "accepts (add_rule_to_nfa nfa root r sites t) (start_of nfa c b) w k \<longleftrightarrow>
    accepts nfa (start_of nfa c b) w k \<or> (k = r \<and> active_in nfa sites bol c b \<and> w \<in> lang root)"
proof -
  let ?S = "nfa_states nfa" and ?L = "linked_starts nfa bol (linked_conds nfa sites)"
  obtain T f V where frag: "frag_spec ?S T f (lang root) (head_lang root)"
    and states: "nfa_states (add_rule_to_nfa nfa root r sites t) = V"
    and acc: "\<And>p. acc_of V p = (if p = f_e f then int r else acc_of T p)"
    and V: "\<And>p l x. estep V p l x \<longleftrightarrow> estep T p l x \<or> (p \<in> ?L \<and> l = [] \<and> x = f_s f)"
    by (rule add_rule_shape[OF ok good un conds, where r = r and t = t]) auto
  have fe: "f_e f \<in> region ?S T" and ext: "extends ?S T" using frag by (simp_all add: frag_spec_def)
  have old: "acc_of V q = acc_of ?S q" if "q < length ?S" for q
    using that acc fe extends_acc[OF ext] by (auto simp: region_def)
  have new: "acc_of V q = (if q = f_e f then int r else -1)" if "q \<in> region ?S T" for q
    using that acc frag_acc[OF frag] by simp
  have lan: "path (estep T) (f_s f) w (f_e f) \<longleftrightarrow> w \<in> lang root"
    using frag_lang[OF frag] by (simp flip: plang_iff)
  note paths = new_paths[OF nfa_ok_graph[OF ok] frag linked_starts_less[OF ok conds] V start_of_less[OF ok c]]
  have beyond: "acc_of ?S q = int k \<Longrightarrow> q < length ?S" for q
    using acc_beyond[of ?S q] by (cases "q < length ?S") auto
  have "(path (estep ?S) p w q \<and> q < length ?S) \<and> acc_of V q = int k \<longleftrightarrow>
      path (estep ?S) p w q \<and> acc_of ?S q = int k" for p q
    using old[of q] beyond[of q] by auto
  moreover have "(p \<in> ?L \<and> path (estep T) (f_s f) w q \<and> q \<in> region ?S T) \<and> acc_of V q = int k \<longleftrightarrow>
      p \<in> ?L \<and> path (estep T) (f_s f) w (f_e f) \<and> k = r \<and> q = f_e f" for p q
    using new[of q] fe by (auto split: if_splits)
  ultimately have "accepts (add_rule_to_nfa nfa root r sites t) (start_of nfa c b) w k \<longleftrightarrow>
    accepts nfa (start_of nfa c b) w k \<or>
    (start_of nfa c b \<in> ?L \<and> path (estep T) (f_s f) w (f_e f) \<and> k = r)"
    by (simp only: accepts_def states paths conj_disj_distribR ex_disj_distrib simp_thms ex_simps)
  then show ?thesis
    using start_of_linked[OF ok c linked_conds_less[OF ok conds]] lan by (auto simp: active_in_def)
qed

lemma add_rule_marked:
  assumes ok: "nfa_ok nfa" and good: "proper root" and un: "unwrap_anchors root = (body, bol, eol)"
    and conds: "\<And>c. c \<in> set (rs_conds sites) \<Longrightarrow> c < length (nfa_cond_names nfa)"
    and c: "c < length (nfa_cond_names nfa)"
  shows "marked (add_rule_to_nfa nfa root r sites t) (start_of nfa c b) w k \<longleftrightarrow>
    marked nfa (start_of nfa c b) w k \<or> (k = r \<and> active_in nfa sites bol c b \<and> w \<in> head_lang root)"
proof -
  let ?S = "nfa_states nfa" and ?L = "linked_starts nfa bol (linked_conds nfa sites)"
  let ?B = "nfa_rule_boundary_states nfa" and ?s = "start_of nfa c b"
  obtain T f V where frag: "frag_spec ?S T f (lang root) (head_lang root)"
    and states: "nfa_states (add_rule_to_nfa nfa root r sites t) = V"
    and marks: "nfa_rule_boundary_states (add_rule_to_nfa nfa root r sites t) =
      put_rule ?B [] r (old_marks nfa r @ filter (bnd_of T) [length ?S..<length T])"
    and V: "\<And>p l x. estep V p l x \<longleftrightarrow> estep T p l x \<or> (p \<in> ?L \<and> l = [] \<and> x = f_s f)"
    by (rule add_rule_shape[OF ok good un conds, where r = r and t = t]) auto
  note paths = new_paths[OF nfa_ok_graph[OF ok] frag linked_starts_less[OF ok conds] V start_of_less[OF ok c]]
  have old_in: "q < length ?S" if "k < length ?B" "q \<in> set (?B ! k)" for q
    using ok that by (auto simp: nfa_ok_def)
  have reg: "region ?S T = set [length ?S..<length T]" by (auto simp: region_def)
  have "(\<exists>m\<in>set (filter (bnd_of T) [length ?S..<length T]). path (estep T) (f_s f) w m) \<longleftrightarrow> w \<in> head_lang root"
    using frag_marks[OF frag] by (auto simp: reg simp flip: plang_iff)
  then have new: "(\<exists>m\<in>set (filter (bnd_of T) [length ?S..<length T]). path (estep V) ?s w m) \<longleftrightarrow>
      ?s \<in> ?L \<and> w \<in> head_lang root"
    by (auto simp: paths reg)
  have old: "(\<exists>m\<in>set (?B ! k). path (estep V) ?s w m) \<longleftrightarrow> (\<exists>m\<in>set (?B ! k). path (estep ?S) ?s w m)"
    if "k < length ?B"
    using old_in[OF that] by (fastforce simp: paths reg)
  have "marked (add_rule_to_nfa nfa root r sites t) ?s w k \<longleftrightarrow>
      marked nfa ?s w k \<or> (k = r \<and> ?s \<in> ?L \<and> w \<in> head_lang root)"
  proof (cases "k = r")
    case True
    then show ?thesis
      unfolding marked_def states marks using old new
      by (auto simp: nth_put_rule old_marks_def)
  next
    case False
    then show ?thesis
      unfolding marked_def states marks using old by (auto simp: nth_put_rule split: if_splits)
  qed
  then show ?thesis
    using start_of_linked[OF ok c linked_conds_less[OF ok conds]] by (auto simp: active_in_def)
qed

lemma add_rule_graph:
  assumes ok: "graph_ok m S" and frag: "frag_spec S T f A B" and L: "L \<subseteq> {..<m}"
    and V: "\<And>p l x. estep V p l x \<longleftrightarrow> estep T p l x \<or> (p \<in> L \<and> l = [] \<and> x = f_s f)"
    and len: "length V = length T" and bnd: "bnd_of V = bnd_of T"
    and acc: "\<And>p. acc_of V p = (if p = f_e f then int r else acc_of T p)"
  shows "graph_ok m V"
proof -
  have m: "m \<le> length S" and ext: "extends S T" and fin: "f_s f \<in> region S T" "f_e f \<in> region S T"
    and closed: "closed_in (estep T) (region S T)"
    using ok frag by (simp_all add: graph_ok_def frag_spec_def)
  have TS: "estep T p l x = estep S p l x" if "p < length S" for p l x
    using extends_estep[OF ext that] .
  have step: "m \<le> x \<and> x < length T \<and> (p < m \<longrightarrow> l = [])" if "estep T p l x" for p l x
  proof (cases "p < length S")
    case True
    with that TS have "estep S p l x" by simp
    from graph_okD[OF ok this] show ?thesis using extends_length[OF ext] by simp
  next
    case False
    with that have "p \<in> region S T" using estep_beyond[of T p l x] by (auto simp: region_def not_le[symmetric])
    from closed_inD[OF closed that this] show ?thesis using m False by (auto simp: region_def)
  qed
  have low: "acc_of V p = -1 \<and> \<not> bnd_of V p" if "p < m" for p
    using that m ok fin(2) extends_acc[OF ext, of p] extends_bnd[OF ext, of p]
    by (auto simp: acc bnd graph_ok_def region_def)
  have "m \<le> x \<and> x < length T \<and> (p < m \<longrightarrow> l = [])" if "estep V p l x" for p l x
    using that fin(1) m step[of p l x] unfolding V by (auto simp: region_def)
  then show ?thesis
    using low m extends_length[OF ext] by (simp add: graph_ok_def len)
qed

lemma add_rule_ok:
  assumes ok: "nfa_ok nfa" and good: "proper root"
    and conds: "\<And>c. c \<in> set (rs_conds sites) \<Longrightarrow> c < length (nfa_cond_names nfa)"
  shows "nfa_ok (add_rule_to_nfa nfa root r sites t)"
proof -
  let ?S = "nfa_states nfa" and ?B = "nfa_rule_boundary_states nfa"
  obtain body bol eol where un: "unwrap_anchors root = (body, bol, eol)" by (metis prod_cases3)
  let ?L = "linked_starts nfa bol (linked_conds nfa sites)"
  obtain T f V where frag: "frag_spec ?S T f (lang root) (head_lang root)"
    and new: "add_rule_to_nfa nfa root r sites t = nfa\<lparr>nfa_states := V,
       nfa_rule_bol := put_rule (nfa_rule_bol nfa) 0 r (if bol then 1 else 0),
       nfa_rule_eol := put_rule (nfa_rule_eol nfa) 0 r (if eol then 1 else 0),
       nfa_rule_trail := put_rule (nfa_rule_trail nfa) 0 r t,
       nfa_rule_boundary_states := put_rule ?B [] r
         (old_marks nfa r @ filter (bnd_of T) [length ?S..<length T])\<rparr>"
    and len: "length V = length T" and bnd: "bnd_of V = bnd_of T"
    and acc: "\<And>p. acc_of V p = (if p = f_e f then int r else acc_of T p)"
    and V: "\<And>p l x. estep V p l x \<longleftrightarrow> estep T p l x \<or> (p \<in> ?L \<and> l = [] \<and> x = f_s f)"
    by (rule add_rule_shape[OF ok good un conds, where r = r and t = t]) auto
  have graph: "graph_ok (starts nfa) V"
    by (rule add_rule_graph[OF nfa_ok_graph[OF ok] frag linked_starts_less[OF ok conds] V len bnd acc])
  have ext: "extends ?S T" using frag by (simp add: frag_spec_def)
  have lens: "length ?B = length (nfa_rule_bol nfa)" using ok by (simp add: nfa_ok_def)
  have range: "- 1 \<le> acc_of V p \<and> acc_of V p < int (max (length (nfa_rule_bol nfa)) (Suc r))" for p
  proof (cases "p < length ?S")
    case True
    have "- 1 \<le> acc_of ?S p \<and> acc_of ?S p < int (length (nfa_rule_bol nfa))"
      using ok by (simp add: nfa_ok_def)
    then show ?thesis using extends_acc[OF ext True] by (auto simp: acc)
  next
    case False
    then have "acc_of T p = -1"
      using frag_acc[OF frag, of p] acc_beyond[of T p]
      by (cases "p < length T") (auto simp: region_def)
    then show ?thesis by (auto simp: acc)
  qed
  have old_in: "starts nfa \<le> q \<and> q < length T" if "k < length ?B" "q \<in> set (?B ! k)" for q k
    using ok that extends_length[OF ext] by (force simp: nfa_ok_def)
  let ?B' = "put_rule ?B [] r (old_marks nfa r @ filter (bnd_of T) [length ?S..<length T])"
  have "starts nfa \<le> q \<and> q < length T" if "k < length ?B'" "q \<in> set (?B' ! k)" for q k
  proof (cases "k = r")
    case True
    with that have "q \<in> set (old_marks nfa r) \<or> length ?S \<le> q \<and> q < length T"
      by (auto simp: nth_put_rule)
    then show ?thesis using old_in[of r q] nfa_ok_starts[OF ok]
      by (auto simp: old_marks_def split: if_splits)
  next
    case False
    with that have "k < length ?B \<and> q \<in> set (?B ! k)"
      by (auto simp: nth_put_rule split: if_splits)
    then show ?thesis using old_in by blast
  qed
  then have marks: "\<forall>ms\<in>set ?B'. \<forall>q\<in>set ms. starts nfa \<le> q \<and> q < length T"
    by (metis in_set_conv_nth)
  let ?N = "add_rule_to_nfa nfa root r sites t"
  have vecs: "nfa_cond_starts nfa = map (\<lambda>i. \<lparr>cs_normal = 2 * i, cs_bol = 2 * i + 1\<rparr>)
      [0..<length (nfa_cond_names nfa)]"
    "length (nfa_cond_excl nfa) = length (nfa_cond_names nfa)"
    "length (nfa_eof_rules nfa) = length (nfa_cond_names nfa)"
    "length (nfa_rule_eol nfa) = length (nfa_rule_bol nfa)"
    "length (nfa_rule_trail nfa) = length (nfa_rule_bol nfa)"
    using ok unfolding nfa_ok_def by blast+
  have N: "nfa_states ?N = V" "starts ?N = starts nfa" "nfa_cond_names ?N = nfa_cond_names nfa"
    "nfa_cond_starts ?N = nfa_cond_starts nfa" "nfa_cond_excl ?N = nfa_cond_excl nfa"
    "nfa_eof_rules ?N = nfa_eof_rules nfa" "nfa_rule_boundary_states ?N = ?B'"
    by (simp_all add: new starts_def)
  have NL: "length (nfa_rule_bol ?N) = max (length (nfa_rule_bol nfa)) (Suc r)"
    "length (nfa_rule_eol ?N) = max (length (nfa_rule_bol nfa)) (Suc r)"
    "length (nfa_rule_trail ?N) = max (length (nfa_rule_bol nfa)) (Suc r)"
    "length ?B' = max (length (nfa_rule_bol nfa)) (Suc r)"
    by (simp_all add: new vecs lens)
  show ?thesis
    unfolding nfa_ok_def N NL len using graph vecs(1-3) range marks by blast
qed

text \<open>What adding a rule leaves alone.\<close>

definition same_conds :: "nfa \<Rightarrow> nfa \<Rightarrow> bool" where
  "same_conds a b \<longleftrightarrow> nfa_cond_starts a = nfa_cond_starts b \<and> nfa_cond_names a = nfa_cond_names b \<and>
     nfa_cond_excl a = nfa_cond_excl b"

lemma add_rule_frame:
  assumes ok: "nfa_ok nfa" and good: "proper root" and un: "unwrap_anchors root = (body, bol, eol)"
    and conds: "\<And>c. c \<in> set (rs_conds sites) \<Longrightarrow> c < length (nfa_cond_names nfa)"
  shows "same_conds (add_rule_to_nfa nfa root r sites t) nfa"
    "nfa_eof_rules (add_rule_to_nfa nfa root r sites t) = nfa_eof_rules nfa"
    "nfa_rule_bol (add_rule_to_nfa nfa root r sites t) = put_rule (nfa_rule_bol nfa) 0 r (if bol then 1 else 0)"
    "nfa_rule_eol (add_rule_to_nfa nfa root r sites t) = put_rule (nfa_rule_eol nfa) 0 r (if eol then 1 else 0)"
    "nfa_rule_trail (add_rule_to_nfa nfa root r sites t) = put_rule (nfa_rule_trail nfa) 0 r t"
proof -
  obtain V B where new: "add_rule_to_nfa nfa root r sites t = nfa\<lparr>nfa_states := V,
       nfa_rule_bol := put_rule (nfa_rule_bol nfa) 0 r (if bol then 1 else 0),
       nfa_rule_eol := put_rule (nfa_rule_eol nfa) 0 r (if eol then 1 else 0),
       nfa_rule_trail := put_rule (nfa_rule_trail nfa) 0 r t,
       nfa_rule_boundary_states := B\<rparr>"
    by (rule add_rule_shape[OF ok good un conds, where r = r and t = t])
  show "same_conds (add_rule_to_nfa nfa root r sites t) nfa"
    "nfa_eof_rules (add_rule_to_nfa nfa root r sites t) = nfa_eof_rules nfa"
    "nfa_rule_bol (add_rule_to_nfa nfa root r sites t) = put_rule (nfa_rule_bol nfa) 0 r (if bol then 1 else 0)"
    "nfa_rule_eol (add_rule_to_nfa nfa root r sites t) = put_rule (nfa_rule_eol nfa) 0 r (if eol then 1 else 0)"
    "nfa_rule_trail (add_rule_to_nfa nfa root r sites t) = put_rule (nfa_rule_trail nfa) 0 r t"
    by (simp_all add: new same_conds_def)
qed

section \<open>The empty automaton of the conditions\<close>

lemma init_conds_eq:
  "init_conds k nfa = nfa\<lparr>nfa_states := nfa_states nfa @ replicate (2 * k) fresh_state,
     nfa_cond_starts := nfa_cond_starts nfa @
       map (\<lambda>i. \<lparr>cs_normal = length (nfa_states nfa) + 2 * i, cs_bol = length (nfa_states nfa) + 2 * i + 1\<rparr>) [0..<k]\<rparr>"
proof (induction k arbitrary: nfa)
  case (Suc k)
  have "map g [0..<Suc k] = g 0 # map (\<lambda>i. g (Suc i)) [0..<k]" for g :: "nat \<Rightarrow> cond_start"
    by (simp only: upt_conv_Cons[OF zero_less_Suc] list.map map_Suc_upt[symmetric] map_map o_def)
  from this[of "\<lambda>i. \<lparr>cs_normal = length (nfa_states nfa) + 2 * i, cs_bol = length (nfa_states nfa) + 2 * i + 1\<rparr>"]
  show ?case by (simp add: Suc.IH new_state_def Let_def del: upt_Suc)
qed simp

lemma fresh_nth: "p < n \<Longrightarrow> replicate n fresh_state ! p = fresh_state"
  by simp

lemma init_graph: "outs (replicate n fresh_state) = (\<lambda>p. [])" "acc_of (replicate n fresh_state) = (\<lambda>p. -1)"
  "bnd_of (replicate n fresh_state) = (\<lambda>p. False)" "estep (replicate n fresh_state) = (\<lambda>p l x. False)"
  by (auto simp: fun_eq_iff outs_def acc_of_def bnd_of_def estep_def fresh_state_def)

lemma init_nfa_ok:
  assumes "length excl = length names" "nfa_rule_bol nfa = []" "nfa_rule_eol nfa = []"
    "nfa_rule_trail nfa = []" "nfa_rule_boundary_states nfa = []"
  shows "nfa_ok (init_nfa nfa names excl)"
  using assms by (simp add: nfa_ok_def init_nfa_def init_conds_eq graph_ok_def init_graph starts_def)

lemma init_nfa_accepts: "\<not> accepts (init_nfa nfa names excl) p w r"
  by (simp add: accepts_def init_nfa_def init_conds_eq init_graph)

lemma init_nfa_conds:
  "nfa_cond_names (init_nfa nfa names excl) = names"
  "nfa_cond_excl (init_nfa nfa names excl) = excl"
  by (simp_all add: init_nfa_def init_conds_eq)

section \<open>All the rules of a specification\<close>

text \<open>
  The loop of \<open>main.cpp\<close> over the patterns, which numbers them consecutively; a pattern
  comes with its conditions and its trailing length.
\<close>

type_synonym pattern_rule = "node \<times> rule_sites \<times> int"

primrec add_patterns :: "pattern_rule list \<Rightarrow> nat \<Rightarrow> nfa \<Rightarrow> nfa" where
  "add_patterns [] k nfa = nfa"
| "add_patterns (r # rs) k nfa =
     (case r of (root, sites, t) \<Rightarrow> add_patterns rs (Suc k) (add_rule_to_nfa nfa root k sites t))"

definition rule_ok :: "nat \<Rightarrow> pattern_rule \<Rightarrow> bool" where
  "rule_ok n r = (case r of (root, sites, t) \<Rightarrow> proper root \<and> list_all (\<lambda>c. c < n) (rs_conds sites))"

definition rule_active :: "nfa \<Rightarrow> pattern_rule \<Rightarrow> nat \<Rightarrow> bool \<Rightarrow> bool" where
  "rule_active nfa r c at_bol =
     (case r of (root, sites, t) \<Rightarrow> active_in nfa sites (fst (snd (unwrap_anchors root))) c at_bol)"

definition rule_lang :: "pattern_rule \<Rightarrow> lang" where
  "rule_lang r = lang (fst r)"

definition rule_head :: "pattern_rule \<Rightarrow> lang" where
  "rule_head r = head_lang (fst r)"

definition rule_is_eol :: "pattern_rule \<Rightarrow> bool" where
  "rule_is_eol r = snd (snd (unwrap_anchors (fst r)))"

lemma rule_active_cong: "same_conds a b \<Longrightarrow> rule_active a r c p = rule_active b r c p"
  using linked_conds_cong[of a b]
  by (auto simp: same_conds_def rule_active_def active_in_def split: prod.splits)

lemma start_of_cong: "same_conds a b \<Longrightarrow> start_of a = start_of b"
  by (auto simp: same_conds_def start_of_def fun_eq_iff)

text \<open>Rule number \<open>j\<close>, counted from \<open>k\<close>, is one of the list and satisfies \<open>P\<close>.\<close>

definition rule_at :: "nat \<Rightarrow> 'r list \<Rightarrow> ('r \<Rightarrow> bool) \<Rightarrow> nat \<Rightarrow> bool" where
  "rule_at k rs P j \<longleftrightarrow> k \<le> j \<and> j < k + length rs \<and> P (rs ! (j - k))"

lemma rule_at_simps [simp]: "\<not> rule_at k [] P j" "rule_at k [r] P j \<longleftrightarrow> j = k \<and> P r"
  by (auto simp: rule_at_def)

lemma rule_at_append: "rule_at k (xs @ ys) P j \<longleftrightarrow> rule_at k xs P j \<or> rule_at (k + length xs) ys P j"
  by (cases "j < k + length xs") (auto simp: rule_at_def nth_append)

text \<open>\<open>adds rs a b\<close>: the automaton \<open>b\<close> is \<open>a\<close> with the rules \<open>rs\<close>, numbered on.\<close>

definition adds :: "pattern_rule list \<Rightarrow> nfa \<Rightarrow> nfa \<Rightarrow> bool" where
  "adds rs a b \<longleftrightarrow> nfa_ok b \<and> same_conds b a \<and> nfa_eof_rules b = nfa_eof_rules a \<and>
     nfa_rule_eol b = nfa_rule_eol a @ map (\<lambda>r. if rule_is_eol r then 1 else 0) rs \<and>
     nfa_rule_trail b = nfa_rule_trail a @ map (\<lambda>r. snd (snd r)) rs \<and>
     length (nfa_rule_bol b) = length (nfa_rule_bol a) + length rs \<and>
     (\<forall>c p w j. c < length (nfa_cond_names a) \<longrightarrow>
        (accepts b (start_of a c p) w j \<longleftrightarrow> accepts a (start_of a c p) w j \<or>
          rule_at (length (nfa_rule_bol a)) rs (\<lambda>r. rule_active a r c p \<and> w \<in> rule_lang r) j) \<and>
        (marked b (start_of a c p) w j \<longleftrightarrow> marked a (start_of a c p) w j \<or>
          rule_at (length (nfa_rule_bol a)) rs (\<lambda>r. rule_active a r c p \<and> w \<in> rule_head r) j))"

lemma adds_Nil: "nfa_ok a \<Longrightarrow> adds [] a a"
  by (simp add: adds_def same_conds_def)

lemma put_rule_next: "put_rule xs d (length xs) v = xs @ [v]"
  by (simp add: put_rule_def)

lemma adds_one:
  assumes ok: "nfa_ok nfa" and r: "rule_ok (length (nfa_cond_names nfa)) (root, sites, t)"
  shows "adds [(root, sites, t)] nfa (add_rule_to_nfa nfa root (length (nfa_rule_bol nfa)) sites t)"
proof -
  obtain body bol eol where un: "unwrap_anchors root = (body, bol, eol)" by (metis prod_cases3)
  have good: "proper root" and conds: "\<And>c. c \<in> set (rs_conds sites) \<Longrightarrow> c < length (nfa_cond_names nfa)"
    using r by (simp_all add: rule_ok_def list_all_iff)
  have lens: "length (nfa_rule_eol nfa) = length (nfa_rule_bol nfa)"
    "length (nfa_rule_trail nfa) = length (nfa_rule_bol nfa)"
    using ok unfolding nfa_ok_def by blast+
  show ?thesis
    unfolding adds_def
    using add_rule_ok[OF ok good conds] add_rule_frame[OF ok good un conds]
      add_rule_accepts[OF ok good un conds] add_rule_marked[OF ok good un conds]
      put_rule_next[of "nfa_rule_eol nfa"] put_rule_next[of "nfa_rule_trail nfa"]
    by (simp add: un lens rule_is_eol_def rule_active_def rule_lang_def rule_head_def)
qed

lemma adds_append:
  assumes "adds rs a b" "adds ss b c"
  shows "adds (rs @ ss) a c"
proof -
  have st: "start_of b = start_of a" and act: "rule_active b r = rule_active a r" for r
    using assms(1) start_of_cong rule_active_cong[of b a] by (auto simp: adds_def fun_eq_iff)
  show ?thesis
    using assms unfolding adds_def
    by (simp add: st act same_conds_def rule_at_append)
qed

lemma adds_patterns:
  assumes "nfa_ok nfa" "list_all (rule_ok (length (nfa_cond_names nfa))) rs"
    and "k = length (nfa_rule_bol nfa)"
  shows "adds rs nfa (add_patterns rs k nfa)"
  using assms
proof (induction rs arbitrary: k nfa)
  case (Cons r rs)
  obtain root sites t where r: "r = (root, sites, t)" by (metis prod_cases3)
  let ?N = "add_rule_to_nfa nfa root k sites t"
  from Cons.prems have one: "adds [r] nfa ?N" by (simp add: r adds_one)
  then have "nfa_ok ?N" "length (nfa_cond_names ?N) = length (nfa_cond_names nfa)"
    "length (nfa_rule_bol ?N) = Suc k"
    using Cons.prems(3) by (simp_all add: adds_def same_conds_def)
  with Cons.IH[of ?N "Suc k"] Cons.prems have "adds rs ?N (add_patterns rs (Suc k) ?N)" by simp
  from adds_append[OF one this] show ?case by (simp add: r)
qed (simp add: adds_Nil)

section \<open>End-of-file rules\<close>

lemma fold_eof:
  assumes "\<And>d. d \<in> set cs \<Longrightarrow> d < length (nfa_eof_rules nfa)" "c < length (nfa_eof_rules nfa)"
  shows "nfa_eof_rules (fold (\<lambda>c nfa. nfa\<lparr>nfa_eof_rules := (nfa_eof_rules nfa)[c := nfa_eof_rules nfa ! c @ [r]]\<rparr>) cs nfa) ! c
    = nfa_eof_rules nfa ! c @ replicate (count_list cs c) r"
  using assms
proof (induction cs arbitrary: nfa)
  case (Cons d cs)
  let ?N = "nfa\<lparr>nfa_eof_rules := (nfa_eof_rules nfa)[d := nfa_eof_rules nfa ! d @ [r]]\<rparr>"
  have "nfa_eof_rules (fold (\<lambda>c nfa. nfa\<lparr>nfa_eof_rules := (nfa_eof_rules nfa)[c := nfa_eof_rules nfa ! c @ [r]]\<rparr>) cs ?N) ! c
    = nfa_eof_rules ?N ! c @ replicate (count_list cs c) r"
    by (rule Cons.IH) (use Cons.prems in auto)
  with Cons.prems show ?case by (cases "c = d") (auto simp: replicate_app_Cons_same)
qed simp

section \<open>Properties\<close>

text \<open>Adding a rule keeps the automaton well-formed: every edge stays in range, no edge
leads to a start state, start states have silent edges only, the per-rule vectors have one
entry per rule, and every accepting state names an existing rule.\<close>

theorem add_rule_keeps_ok:
  assumes "nfa_ok nfa" "proper root" "\<And>c. c \<in> set (rs_conds sites) \<Longrightarrow> c < length (nfa_cond_names nfa)"
  shows "nfa_ok (add_rule_to_nfa nfa root r sites t)"
  by (rule add_rule_ok[OF assms])

lemma add_rule_keeps_ok_witness:
  "nfa_ok (add_rule_to_nfa (init_nfa empty_nfa [''INITIAL''] [0]) (Class (bs_add bs_clear 97)) 0
     \<lparr>rs_conds = [0], rs_any_state = False\<rparr> 0)"
proof (rule add_rule_keeps_ok)
  show "nfa_ok (init_nfa empty_nfa [''INITIAL''] [0])" by (rule init_nfa_ok) (simp_all add: empty_nfa_def)
  show "proper (Class (bs_add bs_clear 97))" using bs_test_add[of 97 97 bs_clear] by (force simp: bs_empty_iff)
qed (simp add: init_nfa_conds)

text \<open>Adding a rule adds exactly its matches: from the start state of a condition, a rule
is accepted after a string if it was before, or it is the new rule, the rule is active in the
condition (at the beginning of a line only, if it is anchored) and its tree matches.\<close>

theorem add_rule_adds_matches:
  assumes "nfa_ok nfa" "proper root" "unwrap_anchors root = (body, bol, eol)"
    and "\<And>c. c \<in> set (rs_conds sites) \<Longrightarrow> c < length (nfa_cond_names nfa)" "c < length (nfa_cond_names nfa)"
  shows "accepts (add_rule_to_nfa nfa root r sites t) (start_of nfa c b) w k \<longleftrightarrow>
    accepts nfa (start_of nfa c b) w k \<or>
    (k = r \<and> c \<in> set (linked_conds nfa sites) \<and> (bol \<longrightarrow> b) \<and> w \<in> lang root)"
  using add_rule_accepts[OF assms] by (simp add: active_in_def)

lemma add_rule_adds_matches_witness:
  "accepts (add_rule_to_nfa (init_nfa empty_nfa [''INITIAL''] [0]) (Class (bs_add bs_clear 97)) 0
     \<lparr>rs_conds = [], rs_any_state = False\<rparr> 0) (start_of (init_nfa empty_nfa [''INITIAL''] [0]) 0 False) [97] 0"
proof -
  let ?N = "init_nfa empty_nfa [''INITIAL''] [0]" and ?s = "\<lparr>rs_conds = [], rs_any_state = False\<rparr> :: rule_sites"
  have ok: "nfa_ok ?N" by (rule init_nfa_ok) (simp_all add: empty_nfa_def)
  have a: "bs_test (bs_add bs_clear 97) (ub 97)" by (simp add: bs_test_add)
  then have "proper (Class (bs_add bs_clear 97))" by (auto simp: bs_empty_iff intro: exI[of _ "ub 97"])
  from add_rule_adds_matches[OF ok this, of _ False False ?s 0 0 0 False "[97]" 0]
  show ?thesis
    using a by (simp add: unwrap_anchors_def unwrap_bol_def unwrap_eol_def init_nfa_conds linked_conds_def
        init_nfa_def init_conds_eq empty_nfa_def)
qed

text \<open>The boundary states recorded for a rule are reached exactly after the head of its
\<open>r/s\<close> pattern, in the conditions the rule is active in.\<close>

theorem add_rule_adds_marks:
  assumes "nfa_ok nfa" "proper root" "unwrap_anchors root = (body, bol, eol)"
    and "\<And>c. c \<in> set (rs_conds sites) \<Longrightarrow> c < length (nfa_cond_names nfa)" "c < length (nfa_cond_names nfa)"
  shows "marked (add_rule_to_nfa nfa root r sites t) (start_of nfa c b) w k \<longleftrightarrow>
    marked nfa (start_of nfa c b) w k \<or>
    (k = r \<and> c \<in> set (linked_conds nfa sites) \<and> (bol \<longrightarrow> b) \<and> w \<in> head_lang root)"
  using add_rule_marked[OF assms] by (simp add: active_in_def)

lemma add_rule_adds_marks_witness:
  "marked (add_rule_to_nfa (init_nfa empty_nfa [''INITIAL''] [0]) (Concat TrailBoundary Empty) 0
     \<lparr>rs_conds = [], rs_any_state = True\<rparr> (-1)) (start_of (init_nfa empty_nfa [''INITIAL''] [0]) 0 False) [] 0"
proof -
  let ?N = "init_nfa empty_nfa [''INITIAL''] [0]" and ?s = "\<lparr>rs_conds = [], rs_any_state = True\<rparr> :: rule_sites"
  have ok: "nfa_ok ?N" by (rule init_nfa_ok) (simp_all add: empty_nfa_def)
  from add_rule_adds_marks[OF ok, of "Concat TrailBoundary Empty" _ False False ?s 0 0 "-1" False "[]" 0]
  show ?thesis
    by (simp add: unwrap_anchors_def unwrap_bol_def unwrap_eol_def init_nfa_conds linked_conds_def
        init_nfa_def init_conds_eq empty_nfa_def)
qed

text \<open>\<open>add_eof_rule\<close> appends the rule to the list of every condition it is linked to, once
for every time the condition is listed, and changes no other list.\<close>

theorem add_eof_rule_lists:
  assumes "\<And>d. d \<in> set (linked_conds nfa sites) \<Longrightarrow> d < length (nfa_eof_rules nfa)" "c < length (nfa_eof_rules nfa)"
  shows "nfa_eof_rules (add_eof_rule nfa r sites) ! c =
    nfa_eof_rules nfa ! c @ replicate (count_list (linked_conds nfa sites) c) r"
  unfolding add_eof_rule_def by (rule fold_eof[OF assms])

lemma add_eof_rule_lists_witness:
  "nfa_eof_rules (add_eof_rule (init_nfa empty_nfa [''INITIAL'', ''X''] [0, 1]) 7 \<lparr>rs_conds = [], rs_any_state = False\<rparr>) ! 0 = [7]"
proof -
  let ?N = "init_nfa empty_nfa [''INITIAL'', ''X''] [0, 1]" and ?s = "\<lparr>rs_conds = [], rs_any_state = False\<rparr> :: rule_sites"
  have l: "linked_conds ?N ?s = [0]" "nfa_eof_rules ?N = [[], []]"
    by (simp_all add: linked_conds_def init_nfa_def init_conds_eq empty_nfa_def numeral_2_eq_2)
  have "nfa_eof_rules (add_eof_rule ?N 7 ?s) ! 0 = nfa_eof_rules ?N ! 0 @ replicate (count_list (linked_conds ?N ?s) 0) 7"
    by (rule add_eof_rule_lists) (simp_all only: l, simp_all)
  then show ?thesis unfolding l by simp
qed

end
