(* ===== verification/Eclass.thy ===== *)
theory Eclass
  imports Nfa
begin

text \<open>
  The byte equivalence classes of \<open>src/src/eclass.cpp\<close>. An \<open>Eclasses\<close> value is the
  array of 256 class ids and the number of classes. \<open>compute_eclasses\<close> refines one class
  by the set of every edge of the automaton; the result is the coarsest partition whose
  classes no edge splits, and its ids are exactly the numbers below \<open>nclasses\<close>.
\<close>

section \<open>The code\<close>

record eclasses =
  ec_map :: "byte list"
  ec_n :: nat

definition identity_eclasses :: eclasses where
  "identity_eclasses = \<lparr>ec_map = map of_nat [0..<256], ec_n = 256\<rparr>"

text \<open>The inner loop over the bytes, which stops as soon as both halves are known non-empty.\<close>

fun class_scan :: "byte list \<Rightarrow> byte_set \<Rightarrow> byte \<Rightarrow> nat list \<Rightarrow> bool \<times> bool \<Rightarrow> bool \<times> bool" where
  "class_scan cls B c [] st = st"
| "class_scan cls B c (b # bs) (in_any, out_any) =
     (if cls ! b \<noteq> c then class_scan cls B c bs (in_any, out_any)
      else let in_any = (in_any \<or> bs_test B b); out_any = (out_any \<or> \<not> bs_test B b)
           in if in_any \<and> out_any then (in_any, out_any)
              else class_scan cls B c bs (in_any, out_any))"

text \<open>
  The loop over the classes, whose bound \<open>nclasses\<close> grows inside it. The second component
  of the result is \<open>None\<close> when the code returns because more than 256 classes were made.
\<close>

function split_classes ::
    "byte list \<Rightarrow> byte_set \<Rightarrow> nat \<Rightarrow> nat \<Rightarrow> int list \<Rightarrow> nat \<times> int list option" where
  "split_classes cls B c nclasses remap =
     (if c < nclasses then
        (let (in_any, out_any) = class_scan cls B (of_nat c) [0..<256] (False, False)
         in if in_any \<and> out_any then
              (if nclasses + 1 > 256 then (nclasses + 1, None)
               else split_classes cls B (c + 1) (nclasses + 1) (remap[c := int nclasses]))
            else split_classes cls B (c + 1) nclasses remap)
      else (nclasses, Some remap))"
  by pat_completeness auto
termination
  by (relation "measure (\<lambda>(cls, B, c, nclasses, remap). max 257 nclasses - c)") auto

declare split_classes.simps [simp del]

definition refine :: "byte list \<Rightarrow> nat \<Rightarrow> byte_set \<Rightarrow> byte list \<times> nat" where
  "refine cls nclasses B =
     (case split_classes cls B 0 nclasses (replicate nclasses (-1)) of
        (nclasses, None) \<Rightarrow> (cls, nclasses)
      | (nclasses, Some remap) \<Rightarrow>
          (map (\<lambda>b. let r = remap ! ub (cls ! b)
                    in if r \<ge> 0 \<and> bs_test B b then word_of_int r else cls ! b) [0..<256],
           nclasses))"

text \<open>The two loops over states and edges; the flag says that the code has returned.\<close>

primrec refine_edges :: "nfa_edge list \<Rightarrow> eclasses \<Rightarrow> eclasses \<times> bool" where
  "refine_edges [] ec = (ec, False)"
| "refine_edges (e # es) ec =
     (if bs_empty (e_on e) then refine_edges es ec
      else let (cls, n) = refine (ec_map ec) (ec_n ec) (e_on e);
               ec = \<lparr>ec_map = cls, ec_n = n\<rparr>
           in if n \<ge> 256 then (ec, True) else refine_edges es ec)"

primrec refine_states :: "nfa_state list \<Rightarrow> eclasses \<Rightarrow> eclasses" where
  "refine_states [] ec = ec"
| "refine_states (st # sts) ec =
     (let (ec, returned) = refine_edges (st_out st) ec
      in if returned then ec else refine_states sts ec)"

definition compute_eclasses :: "nfa \<Rightarrow> eclasses" where
  "compute_eclasses nfa =
     refine_states (nfa_states nfa) \<lparr>ec_map = replicate 256 0, ec_n = 1\<rparr>"

section \<open>Which classes are split\<close>

definition splits :: "byte list \<Rightarrow> byte_set \<Rightarrow> nat \<Rightarrow> bool" where
  "splits cls B c \<longleftrightarrow>
     (\<exists>b<256. ub (cls ! b) = c \<and> bs_test B b) \<and> (\<exists>b<256. ub (cls ! b) = c \<and> \<not> bs_test B b)"

lemma class_scan_spec:
  "\<not> (i \<and> u) \<Longrightarrow> (let (i', u') = class_scan cls B c bs (i, u) in i' \<and> u') \<longleftrightarrow>
     (i \<or> (\<exists>b\<in>set bs. cls ! b = c \<and> bs_test B b)) \<and> (u \<or> (\<exists>b\<in>set bs. cls ! b = c \<and> \<not> bs_test B b))"
  by (induction bs arbitrary: i u) (auto simp: Let_def)

lemma class_scan_splits:
  assumes "c < 256"
  shows "(case class_scan cls B (of_nat c) [0..<256] (False, False) of (i, u) \<Rightarrow> i \<and> u) \<longleftrightarrow> splits cls B c"
proof -
  have "cls ! b = of_nat c \<longleftrightarrow> ub (cls ! b) = c" for b
    using assms ub_inj[of "cls ! b" "of_nat c"] by simp
  then show ?thesis
    using class_scan_spec[of False False cls B "of_nat c" "[0..<256]"]
    by (auto simp: Let_def splits_def)
qed

definition rank :: "byte list \<Rightarrow> byte_set \<Rightarrow> nat \<Rightarrow> nat" where
  "rank cls B c = card {c'. c' < c \<and> splits cls B c'}"

lemma rank_0 [simp]: "rank cls B 0 = 0"
  by (simp add: rank_def)

lemma rank_Suc: "rank cls B (Suc c) = rank cls B c + (if splits cls B c then 1 else 0)"
proof -
  have "{c'. c' < Suc c \<and> splits cls B c'} =
      (if splits cls B c then insert c {c'. c' < c \<and> splits cls B c'} else {c'. c' < c \<and> splits cls B c'})"
    by (auto simp: less_Suc_eq)
  then show ?thesis by (simp add: rank_def)
qed

lemma rank_mono: "c \<le> d \<Longrightarrow> rank cls B c \<le> rank cls B d"
  unfolding rank_def by (rule card_mono) auto

lemma rank_less: "c < d \<Longrightarrow> splits cls B c \<Longrightarrow> rank cls B c < rank cls B d"
  using rank_mono[of "Suc c" d cls B] by (simp add: rank_Suc)

lemma rank_image: "rank cls B ` {c. c < n \<and> splits cls B c} = {..<rank cls B n}"
proof (rule card_subset_eq)
  have "inj_on (rank cls B) {c. c < n \<and> splits cls B c}"
    by (rule inj_onI) (metis (mono_tags, lifting) linorder_neqE_nat mem_Collect_eq nat_less_le rank_less)
  from card_image[OF this]
  show "card (rank cls B ` {c. c < n \<and> splits cls B c}) = card {..<rank cls B n}"
    by (simp add: rank_def[of cls B n])
qed (auto intro: rank_less)

text \<open>A table of classes: every id below \<open>n\<close> is used and no other.\<close>

definition ec_ok :: "byte list \<Rightarrow> nat \<Rightarrow> bool" where
  "ec_ok cls n \<longleftrightarrow> length cls = 256 \<and> (\<lambda>b. ub (cls ! b)) ` {..<256} = {..<n}"

lemma ec_ok_less: "ec_ok cls n \<Longrightarrow> b < 256 \<Longrightarrow> ub (cls ! b) < n"
  unfolding ec_ok_def by blast

lemma ec_ok_onto:
  assumes "ec_ok cls n" "c < n"
  obtains b where "b < 256" "ub (cls ! b) = c"
  using assms unfolding ec_ok_def by (metis (no_types, lifting) imageE lessThan_iff)

lemma splits_less: "ec_ok cls n \<Longrightarrow> splits cls B c \<Longrightarrow> c < n"
  by (auto simp: splits_def dest: ec_ok_less)

text \<open>There are no more classes than bytes, also after the split: the ids fit a byte.\<close>

lemma split_room:
  assumes "ec_ok cls n"
  shows "n + rank cls B n \<le> 256"
proof -
  let ?P = "(\<lambda>b. (ub (cls ! b), bs_test B b)) ` {..<256::nat}"
  let ?d = "\<lambda>c. \<exists>b<256. ub (cls ! b) = c \<and> bs_test B b"
  let ?Q = "(\<lambda>c. (c, ?d c)) ` {..<n}" and ?R = "(\<lambda>c. (c, False)) ` {c. c < n \<and> splits cls B c}"
  have "?Q \<subseteq> ?P"
  proof
    fix x assume "x \<in> ?Q"
    then obtain c where c: "x = (c, ?d c)" "c < n" by auto
    obtain b where "b < 256" "ub (cls ! b) = c" using ec_ok_onto[OF assms c(2)] .
    then show "x \<in> ?P" using c(1) by (cases "?d c") (auto simp: image_iff Bex_def)
  qed
  moreover have "?R \<subseteq> ?P" by (auto simp: splits_def image_iff Bex_def) (metis)
  moreover have "?Q \<inter> ?R = {}" by (auto simp: splits_def)
  moreover have "card ?Q = n" "card ?R = rank cls B n"
    by (simp_all add: card_image inj_on_def rank_def)
  ultimately have "n + rank cls B n = card (?Q \<union> ?R)" "?Q \<union> ?R \<subseteq> ?P"
    by (simp_all add: card_Un_disjoint)
  moreover have "card ?P \<le> 256" using card_image_le[of "{..<256::nat}"] by auto
  ultimately show ?thesis using card_mono[of ?P "?Q \<union> ?R"] by simp
qed

lemma split_step:
  assumes "c < 256"
  shows "split_classes cls B c k remap =
     (if c < k then
        if splits cls B c then
          (if k + 1 > 256 then (k + 1, None) else split_classes cls B (c + 1) (k + 1) (remap[c := int k]))
        else split_classes cls B (c + 1) k remap
      else (k, Some remap))"
  using class_scan_splits[OF assms, of cls B]
  by (subst split_classes.simps) (auto split: prod.splits simp: Let_def)

lemma split_tail:
  assumes "ec_ok cls n" "n \<le> c" "k \<le> 256"
  shows "split_classes cls B c k remap = (k, Some remap)"
  using assms(2,3)
proof (induction "k - c" arbitrary: c)
  case 0
  then show ?case by (subst split_classes.simps) simp
next
  case (Suc m)
  then have "\<not> splits cls B c" using splits_less[OF assms(1)] by (meson not_less)
  with Suc show ?case by (simp add: split_step)
qed

definition remap_at :: "byte list \<Rightarrow> byte_set \<Rightarrow> nat \<Rightarrow> nat \<Rightarrow> nat \<Rightarrow> int" where
  "remap_at cls B n c i = (if i < c \<and> splits cls B i then int (n + rank cls B i) else -1)"

lemma split_loop:
  assumes ok: "ec_ok cls n" and "c \<le> n"
  shows "split_classes cls B c (n + rank cls B c) (map (remap_at cls B n c) [0..<n])
    = (n + rank cls B n, Some (map (remap_at cls B n n) [0..<n]))"
  using assms(2)
proof (induction "n - c" arbitrary: c)
  case 0
  then show ?case using split_tail[OF ok _ split_room[OF ok], of n] by simp
next
  case (Suc m)
  have "Suc c \<le> n" using Suc.hyps(2) by simp
  then have small: "n + rank cls B (Suc c) \<le> 256"
    using split_room[OF ok, of B] rank_mono[of "Suc c" n cls B] by simp
  have upd: "(map (remap_at cls B n c) [0..<n])[c := int (n + rank cls B c)]
      = map (remap_at cls B n (Suc c)) [0..<n]" if "splits cls B c"
    using that Suc.hyps(2)
    by (intro nth_equalityI) (auto simp: nth_list_update remap_at_def less_Suc_eq)
  have keep: "map (remap_at cls B n c) [0..<n] = map (remap_at cls B n (Suc c)) [0..<n]" if "\<not> splits cls B c"
    using that by (auto simp: remap_at_def less_Suc_eq)
  have IH: "split_classes cls B (Suc c) (n + rank cls B (Suc c)) (map (remap_at cls B n (Suc c)) [0..<n])
    = (n + rank cls B n, Some (map (remap_at cls B n n) [0..<n]))"
    using Suc by simp
  have "c < 256" using small rank_mono[of c "Suc c" cls B] Suc.hyps(2) by simp
  note step = split_step[OF this, of cls B "n + rank cls B c" "map (remap_at cls B n c) [0..<n]"]
  show ?case
  proof (cases "splits cls B c")
    case True
    have "c < n + rank cls B c" using Suc.hyps(2) by simp
    then show ?thesis unfolding step using IH small True upd by (simp add: rank_Suc)
  next
    case False
    have "c < n + rank cls B c" using Suc.hyps(2) by simp
    then show ?thesis unfolding step unfolding keep[OF False]
      using IH small False by (simp add: rank_Suc)
  qed
qed

lemma refine_eq:
  assumes ok: "ec_ok cls n"
  shows "refine cls n B = (map (\<lambda>b. let c = ub (cls ! b) in
       if splits cls B c \<and> bs_test B b then of_nat (n + rank cls B c) else cls ! b) [0..<256], n + rank cls B n)"
proof -
  have "replicate n (-1) = map (remap_at cls B n 0) [0..<n]"
    by (intro nth_equalityI) (auto simp: remap_at_def)
  then have "split_classes cls B 0 n (replicate n (-1)) = (n + rank cls B n, Some (map (remap_at cls B n n) [0..<n]))"
    using split_loop[OF ok, of 0 B] by simp
  then show ?thesis
    using ec_ok_less[OF ok] by (auto simp: refine_def remap_at_def)
qed

lemma refine_byte:
  assumes ok: "ec_ok cls n" and "b < 256"
  shows "ub (fst (refine cls n B) ! b) =
    (if splits cls B (ub (cls ! b)) \<and> bs_test B b then n + rank cls B (ub (cls ! b)) else ub (cls ! b))"
proof -
  have "n + rank cls B (ub (cls ! b)) < 256" if "splits cls B (ub (cls ! b))"
    using split_room[OF ok, of B] rank_less[OF ec_ok_less[OF ok assms(2)] that] by simp
  then show ?thesis using assms(2) ub_of_nat[of "n + rank cls B (ub (cls ! b))"]
    by (auto simp: refine_eq[OF ok] Let_def simp del: of_nat_add)
qed

text \<open>The refinement separates exactly the bytes it has to.\<close>

definition same_class :: "byte list \<Rightarrow> nat \<Rightarrow> nat \<Rightarrow> bool" where
  "same_class cls a b \<longleftrightarrow> cls ! a = cls ! b"

lemma refine_same:
  assumes ok: "ec_ok cls n" and "a < 256" "b < 256"
  shows "same_class (fst (refine cls n B)) a b \<longleftrightarrow> same_class cls a b \<and> bs_test B a = bs_test B b"
proof -
  let ?c = "\<lambda>x. ub (cls ! x)"
  have eq: "same_class xs x y \<longleftrightarrow> ub (xs ! x) = ub (xs ! y)" for xs x y
    by (simp add: same_class_def ub_inj)
  have less: "?c a < n" "?c b < n" using ec_ok_less[OF ok] assms(2,3) by blast+
  have inj: "rank cls B (?c a) = rank cls B (?c b) \<longleftrightarrow> ?c a = ?c b"
    if "splits cls B (?c a)" "splits cls B (?c b)"
    using that rank_less[of "?c a" "?c b" cls B] rank_less[of "?c b" "?c a" cls B]
    by (cases "?c a" "?c b" rule: linorder_cases) auto
  have no_split: "bs_test B a = bs_test B b" if "?c a = ?c b" "\<not> splits cls B (?c a)"
    using that assms(2,3) unfolding splits_def by metis
  show ?thesis
    unfolding eq refine_byte[OF ok assms(2)] refine_byte[OF ok assms(3)]
    using less inj no_split by (auto split: if_splits)
qed

lemma refine_ok:
  assumes ok: "ec_ok cls n"
  shows "ec_ok (fst (refine cls n B)) (snd (refine cls n B))"
proof -
  let ?f = "\<lambda>b. ub (fst (refine cls n B) ! b)" and ?m = "n + rank cls B n"
  have sub: "?f b < ?m" if "b < 256" for b
    using refine_byte[OF ok that, of B] rank_less[OF ec_ok_less[OF ok that], of cls B] ec_ok_less[OF ok that]
    by auto
  have "c \<in> ?f ` {..<256}" if "c < ?m" for c
  proof (cases "c < n")
    case True
    obtain b where b: "b < 256" "ub (cls ! b) = c" using ec_ok_onto[OF ok True] .
    show ?thesis
    proof (cases "splits cls B c")
      case True
      then obtain b' where "b' < 256" "ub (cls ! b') = c" "\<not> bs_test B b'" by (auto simp: splits_def)
      then show ?thesis using refine_byte[OF ok, of b' B] by force
    next
      case False
      then show ?thesis using refine_byte[OF ok b(1), of B] b by force
    qed
  next
    case False
    with that have "c - n \<in> rank cls B ` {c. c < n \<and> splits cls B c}" by (auto simp: rank_image)
    then obtain d where d: "splits cls B d" "c - n = rank cls B d" by auto
    then obtain b where "b < 256" "ub (cls ! b) = d" "bs_test B b" by (auto simp: splits_def)
    then show ?thesis using refine_byte[OF ok, of b B] d False by force
  qed
  with sub have "?f ` {..<256} = {..<?m}" by blast
  then show ?thesis by (simp add: ec_ok_def refine_eq[OF ok])
qed

section \<open>The result\<close>

text \<open>The sets of the edges that read a byte.\<close>

definition edge_sets :: "nfa_edge list \<Rightarrow> byte_set list" where
  "edge_sets es = filter (\<lambda>s. \<not> bs_empty s) (map e_on es)"

definition agree_on :: "byte_set set \<Rightarrow> nat \<Rightarrow> nat \<Rightarrow> bool" where
  "agree_on Bs a b \<longleftrightarrow> (\<forall>s\<in>Bs. bs_test s a = bs_test s b)"

text \<open>
  A table separates the bytes told apart by the sets seen so far; once it has 256 classes it
  separates all of them, which is why the code may stop.
\<close>

definition refines :: "byte_set set \<Rightarrow> eclasses \<Rightarrow> bool" where
  "refines Bs ec \<longleftrightarrow> ec_ok (ec_map ec) (ec_n ec) \<and>
     (\<forall>a<256. \<forall>b<256. same_class (ec_map ec) a b \<longleftrightarrow> agree_on Bs a b)"

lemma refines_ok: "refines Bs ec \<Longrightarrow> ec_ok (ec_map ec) (ec_n ec)"
  by (simp add: refines_def)

lemma ec_ok_bound: "ec_ok cls n \<Longrightarrow> n \<le> 256"
  using card_image_le[of "{..<256::nat}" "\<lambda>b. ub (cls ! b)"] by (simp add: ec_ok_def)

lemma full_injective:
  assumes "ec_ok cls n" "256 \<le> n" "a < 256" "b < 256" "same_class cls a b"
  shows "a = b"
proof -
  have "card ((\<lambda>b. ub (cls ! b)) ` {..<256}) = card {..<256::nat}"
    using assms(1,2) ec_ok_bound[OF assms(1)] by (simp add: ec_ok_def)
  then have "inj_on (\<lambda>b. ub (cls ! b)) {..<256}" by (intro eq_card_imp_inj_on) simp_all
  then show ?thesis using assms(3-5) by (auto simp: inj_on_def same_class_def)
qed

lemma refines_full:
  assumes "refines Bs ec" "256 \<le> ec_n ec" "Bs \<subseteq> Cs"
  shows "refines Cs ec"
  using assms full_injective[OF refines_ok[OF assms(1)] assms(2)]
  unfolding refines_def agree_on_def by (metis subsetD)

lemma refines_step:
  assumes "refines Bs ec" "refine (ec_map ec) (ec_n ec) s = (cls, n)"
  shows "refines (insert s Bs) \<lparr>ec_map = cls, ec_n = n\<rparr>"
  using assms refine_ok[OF refines_ok[OF assms(1)], of s] refine_same[OF refines_ok[OF assms(1)], of _ _ s]
  by (auto simp: refines_def agree_on_def)

lemma refine_edges_spec:
  assumes "refines Bs ec" "refine_edges es ec = (ec', ret)"
  shows "refines (Bs \<union> set (edge_sets es)) ec' \<and> (ret \<longrightarrow> 256 \<le> ec_n ec')"
  using assms
proof (induction es arbitrary: Bs ec)
  case (Cons e es)
  show ?case
  proof (cases "bs_empty (e_on e)")
    case True
    with Cons show ?thesis by (simp add: edge_sets_def)
  next
    case False
    obtain cls n where r: "refine (ec_map ec) (ec_n ec) (e_on e) = (cls, n)" by fastforce
    let ?ec = "\<lparr>ec_map = cls, ec_n = n\<rparr>"
    note one = refines_step[OF Cons.prems(1) r]
    have un: "insert (e_on e) Bs \<union> set (edge_sets es) = Bs \<union> set (edge_sets (e # es))"
      using False by (auto simp: edge_sets_def)
    show ?thesis
    proof (cases "n \<ge> 256")
      case True
      with Cons.prems(2) r False have "ec' = ?ec" "ret" by auto
      moreover have "refines (Bs \<union> set (edge_sets (e # es))) ?ec"
        by (rule refines_full[OF one]) (use True un in auto)
      ultimately show ?thesis using True by simp
    next
      case ge: False
      with Cons.prems(2) r False have "refine_edges es ?ec = (ec', ret)" by simp
      from Cons.IH[OF one this] show ?thesis unfolding un .
    qed
  qed
qed (simp add: edge_sets_def)

lemma refine_states_spec:
  "refines Bs ec \<Longrightarrow> refines (Bs \<union> (\<Union>st\<in>set sts. set (edge_sets (st_out st)))) (refine_states sts ec)"
proof (induction sts arbitrary: Bs ec)
  case (Cons st sts)
  obtain ec' ret where e: "refine_edges (st_out st) ec = (ec', ret)" by fastforce
  note one = refine_edges_spec[OF Cons.prems e]
  show ?case
  proof (cases ret)
    case True
    have "refines (Bs \<union> (\<Union>st\<in>set (st # sts). set (edge_sets (st_out st)))) ec'"
      by (rule refines_full[of "Bs \<union> set (edge_sets (st_out st))"]) (use one True in auto)
    with e True show ?thesis by simp
  next
    case False
    with Cons.IH[of "Bs \<union> set (edge_sets (st_out st))" ec'] one e show ?thesis
      by (simp add: Un_assoc)
  qed
qed simp

definition nfa_sets :: "nfa \<Rightarrow> byte_set set" where
  "nfa_sets nfa = (\<Union>st\<in>set (nfa_states nfa). set (edge_sets (st_out st)))"

lemma compute_eclasses_refines: "refines (nfa_sets nfa) (compute_eclasses nfa)"
proof -
  have "(\<lambda>b. ub (replicate 256 0 ! b)) ` {..<256} = (\<lambda>b. 0) ` {..<256::nat}"
    by (rule image_cong) auto
  then have "ec_ok (replicate 256 0) 1"
    by (simp add: ec_ok_def image_constant_conv lessThan_empty_iff lessThan_Suc)
  then have "refines {} \<lparr>ec_map = replicate 256 0, ec_n = 1\<rparr>"
    by (simp add: refines_def agree_on_def same_class_def)
  from refine_states_spec[OF this] show ?thesis by (simp add: compute_eclasses_def nfa_sets_def)
qed

lemma identity_eclasses_refines: "refines UNIV identity_eclasses"
proof -
  have "ec_ok (ec_map identity_eclasses) 256" by (force simp: ec_ok_def identity_eclasses_def)
  moreover have "same_class (ec_map identity_eclasses) a b \<longleftrightarrow> a = b" if "a < 256" "b < 256" for a b
    using that by (simp add: same_class_def identity_eclasses_def flip: ub_inj)
  moreover have "agree_on UNIV a b \<longleftrightarrow> a = b" if "a < 256" "b < 256" for a b
    using that bs_test_add[of a a bs_clear] bs_test_add[of a b bs_clear]
    by (auto simp: agree_on_def bs_test_clear)
  ultimately show ?thesis by (simp add: refines_def) (simp add: identity_eclasses_def)
qed

section \<open>Properties\<close>

text \<open>C36. Two bytes share a class of \<open>compute_eclasses\<close> if and only if every edge that reads
bytes covers both or neither of them; the class ids are exactly the numbers below
\<open>nclasses\<close>, of which there are at most 256.\<close>

theorem eclasses_partition:
  "(\<forall>a<256. \<forall>b<256. ec_map (compute_eclasses nfa) ! a = ec_map (compute_eclasses nfa) ! b \<longleftrightarrow>
      (\<forall>st\<in>set (nfa_states nfa). \<forall>e\<in>set (st_out st). \<not> bs_empty (e_on e) \<longrightarrow>
         bs_test (e_on e) a = bs_test (e_on e) b)) \<and>
   (\<lambda>b. ub (ec_map (compute_eclasses nfa) ! b)) ` {..<256} = {..<ec_n (compute_eclasses nfa)} \<and>
   ec_n (compute_eclasses nfa) \<le> 256"
proof -
  note r = compute_eclasses_refines[of nfa]
  have sets: "agree_on (nfa_sets nfa) a b \<longleftrightarrow> (\<forall>st\<in>set (nfa_states nfa). \<forall>e\<in>set (st_out st).
      \<not> bs_empty (e_on e) \<longrightarrow> bs_test (e_on e) a = bs_test (e_on e) b)" for a b
    by (auto simp: agree_on_def nfa_sets_def edge_sets_def)
  show ?thesis
    using r ec_ok_bound[OF refines_ok[OF r]] by (simp add: refines_def ec_ok_def same_class_def sets)
qed

lemma eclasses_partition_witness:
  "ec_map (compute_eclasses (fst (compile_class (bs_add bs_clear 97) empty_nfa))) ! 97 \<noteq>
   ec_map (compute_eclasses (fst (compile_class (bs_add bs_clear 97) empty_nfa))) ! 98"
proof -
  let ?N = "fst (compile_class (bs_add bs_clear 97) empty_nfa)"
  have t: "bs_test (bs_add bs_clear 97) 97" "\<not> bs_test (bs_add bs_clear 97) 98"
    by (simp_all add: bs_test_add bs_test_clear)
  then have ne: "\<not> bs_empty (bs_add bs_clear 97)" unfolding bs_empty_iff by (intro notI, elim allE[of _ 97]) simp
  have "\<exists>st\<in>set (nfa_states ?N). \<exists>e\<in>set (st_out st). e_on e = bs_add bs_clear 97"
    by (simp add: compile_class_def new_state_def empty_nfa_def add_class_def add_edge_def fresh_state_def)
  then obtain st e where e: "st \<in> set (nfa_states ?N)" "e \<in> set (st_out st)" "e_on e = bs_add bs_clear 97" by blast
  have "ec_map (compute_eclasses ?N) ! 97 = ec_map (compute_eclasses ?N) ! 98 \<longleftrightarrow>
      (\<forall>st\<in>set (nfa_states ?N). \<forall>e\<in>set (st_out st). \<not> bs_empty (e_on e) \<longrightarrow>
         bs_test (e_on e) 97 = bs_test (e_on e) 98)"
    by (rule mp[OF spec[OF mp[OF spec[OF conjunct1[OF eclasses_partition[of ?N]]]]]]) simp_all
  then show ?thesis using e t ne by metis
qed

text \<open>The early return of \<open>refine\<close> for more than 256 classes is never taken: on a table
whose ids are exactly those below \<open>nclasses\<close> the loop over the classes always completes.\<close>

theorem refine_never_saturates:
  assumes "length cls = 256" "(\<lambda>b. ub (cls ! b)) ` {..<256} = {..<n}"
  shows "\<exists>k remap. k \<le> 256 \<and> split_classes cls B 0 n (replicate n (-1)) = (k, Some remap)"
proof -
  have ok: "ec_ok cls n" using assms by (simp add: ec_ok_def)
  have "replicate n (-1) = map (remap_at cls B n 0) [0..<n]"
    by (intro nth_equalityI) (auto simp: remap_at_def)
  with split_loop[OF ok, of 0 B] split_room[OF ok, of B] show ?thesis by simp
qed

lemma refine_never_saturates_witness:
  "\<exists>k remap. k \<le> 256 \<and> split_classes (map of_nat [0..<256]) bs_clear 0 256 (replicate 256 (-1)) = (k, Some remap)"
  by (rule refine_never_saturates) force+

end
