(* ===== verification/Dfa.thy ===== *)
theory Dfa
  imports Nfa_Rules Eclass
begin

text \<open>
  The subset construction of \<open>src/src/dfa.cpp\<close>: epsilon closure, the step of a set of
  NFA states, the rules a set accepts, and \<open>build_dfa\<close> with its hash index and its queue.
  A \<open>StateSet\<close> is a list of NFA state ids. An index into a vector outside its range is
  undefined in C++; where a definition needs a case for it, the element counts as absent.
  On well-formed automata no such index occurs.
\<close>

section \<open>Data\<close>

record dfa_state =
  d_next :: "int list"
  d_accept_normal :: int
  d_accept_eol :: int
  d_accept_list :: "int list"
  d_boundary_rules :: "int list"

record dfa_start =
  ds_normal :: int
  ds_bol :: int

record dfa =
  dfa_states :: "dfa_state list"
  dfa_cond_starts :: "dfa_start list"
  dfa_eclasses :: eclasses
  dfa_nclasses :: nat
  dfa_meta :: "byte list"
  dfa_nmeta :: nat

type_synonym state_set = "nat list"

section \<open>Epsilon closure\<close>

text \<open>The \<open>for\<close> loop over the edges of the state taken from the stack.\<close>

primrec close_edges ::
    "nfa_edge list \<Rightarrow> nat list \<times> bool list \<times> state_set \<Rightarrow> nat list \<times> bool list \<times> state_set" where
  "close_edges [] st = st"
| "close_edges (e # es) st =
     (case st of (work, seen, ss) \<Rightarrow>
        if bs_empty (e_on e) \<and> e_target e < length seen \<and> \<not> seen ! e_target e
        then close_edges es (work @ [e_target e], seen[e_target e := True], ss @ [e_target e])
        else close_edges es (work, seen, ss))"

lemma close_edges_measure:
  "close_edges es (work, seen, ss) = (work', seen', ss') \<Longrightarrow>
   count_list seen' False + length work' = count_list seen False + length work"
proof (induction es arbitrary: work seen ss)
  case (Cons e es)
  show ?case
  proof (cases "bs_empty (e_on e) \<and> e_target e < length seen \<and> \<not> seen ! e_target e")
    case True
    with Cons.prems Cons.IH[of "work @ [e_target e]" "seen[e_target e := True]" "ss @ [e_target e]"]
      count_list_update_True[of "e_target e" seen]
    show ?thesis by simp
  next
    case False
    with Cons.prems have "close_edges es (work, seen, ss) = (work', seen', ss')"
      by (simp del: de_Morgan_conj split: if_splits)
    from Cons.IH[OF this] show ?thesis .
  qed
qed simp

lemma close_edges_decreases:
  assumes "(work', seen', ss') = close_edges es (butlast work, seen, ss)" "work \<noteq> []"
  shows "count_list seen' False + length work' < count_list seen False + length work"
proof -
  have "length work > 0" using assms(2) by simp
  then show ?thesis using close_edges_measure[OF assms(1)[symmetric]] by simp
qed

text \<open>The stack is a vector: its top is the last element.\<close>

function closure_loop :: "nfa_state list \<Rightarrow> nat list \<Rightarrow> bool list \<Rightarrow> state_set \<Rightarrow> state_set" where
  "closure_loop S work seen ss =
     (if work = [] then ss
      else case close_edges (outs S (last work)) (butlast work, seen, ss) of
             (work, seen, ss) \<Rightarrow> closure_loop S work seen ss)"
  by pat_completeness auto
termination
  by (relation "measure (\<lambda>(S, work, seen, ss). count_list seen False + length work)")
    (auto split: prod.splits dest: close_edges_decreases[OF sym])

declare closure_loop.simps [simp del]

definition eps_closure :: "nfa_state list \<Rightarrow> state_set \<Rightarrow> state_set" where
  "eps_closure S ss =
     sort_unique (closure_loop S ss (fold (\<lambda>s seen. seen[s := True]) ss (replicate (length S) False)) ss)"

definition step :: "nfa_state list \<Rightarrow> state_set \<Rightarrow> nat \<Rightarrow> state_set" where
  "step S ss byte =
     eps_closure S (concat (map (\<lambda>s. map e_target
       (filter (\<lambda>e. \<not> bs_empty (e_on e) \<and> bs_test (e_on e) byte) (outs S s))) ss))"

section \<open>What a set accepts\<close>

record accept_pair =
  ap_normal :: int
  ap_eol :: int
  ap_list :: "int list"
  ap_boundary :: "int list"

text \<open>The loop that keeps the smallest rule of each kind.\<close>

definition take_rule :: "nat list \<Rightarrow> int \<Rightarrow> int \<times> int \<Rightarrow> int \<times> int" where
  "take_rule rule_eol r p =
     (case p of (normal, eol) \<Rightarrow>
        if rule_eol ! nat r \<noteq> 0 then (normal, if eol < 0 \<or> r < eol then r else eol)
        else (if normal < 0 \<or> r < normal then r else normal, eol))"

text \<open>
  \<open>std::binary_search\<close> is used on a sorted set, where it decides membership.
\<close>

definition accept_for :: "nfa \<Rightarrow> state_set \<Rightarrow> accept_pair" where
  "accept_for nfa ss =
     (let rules = sort_unique (filter (\<lambda>r. \<not> r < 0) (map (\<lambda>s. st_accept_rule (nfa_states nfa ! s)) ss));
          (normal, eol) = fold (take_rule (nfa_rule_eol nfa)) rules (-1, -1);
          B = nfa_rule_boundary_states nfa;
          boundary = filter (\<lambda>r. list_ex (\<lambda>m. List.member ss m) (B ! r)) [0..<length B]
      in \<lparr>ap_normal = normal, ap_eol = eol, ap_list = rules, ap_boundary = map int boundary\<rparr>)"

section \<open>The construction\<close>

text \<open>The first byte of each class; 256 for a class no byte has.\<close>

definition class_reps :: "eclasses \<Rightarrow> nat list" where
  "class_reps ec =
     fold (\<lambda>b r. let c = ub (ec_map ec ! b) in if r ! c = 256 then r[c := b] else r)
       [0..<256] (replicate (ec_n ec) 256)"

record builder =
  bd_states :: "dfa_state list"
  bd_index :: "state_set \<rightharpoonup> nat"
  bd_sets :: "state_set list"
  bd_work :: "nat list"

definition blank_state :: "nat \<Rightarrow> dfa_state" where
  "blank_state nclasses = \<lparr>d_next = replicate nclasses (-1), d_accept_normal = -1,
     d_accept_eol = -1, d_accept_list = [], d_boundary_rules = []\<rparr>"

definition get_state :: "nfa \<Rightarrow> nat \<Rightarrow> state_set \<Rightarrow> builder \<Rightarrow> builder \<times> nat" where
  "get_state nfa nclasses ss bd =
     (case bd_index bd ss of
        Some sid \<Rightarrow> (bd, sid)
      | None \<Rightarrow>
          let sid = length (bd_states bd); ap = accept_for nfa ss;
              s = (blank_state nclasses)\<lparr>d_accept_normal := ap_normal ap, d_accept_eol := ap_eol ap,
                    d_accept_list := ap_list ap, d_boundary_rules := ap_boundary ap\<rparr>
          in (bd\<lparr>bd_states := bd_states bd @ [s], bd_sets := bd_sets bd @ [ss],
                bd_index := (bd_index bd)(ss \<mapsto> sid)\<rparr>, sid))"

text \<open>The seeds: both start states of every condition, in order.\<close>

primrec seed_conds :: "nfa \<Rightarrow> nat \<Rightarrow> cond_start list \<Rightarrow> builder \<Rightarrow> builder \<times> dfa_start list" where
  "seed_conds nfa nclasses [] bd = (bd, [])"
| "seed_conds nfa nclasses (cs # css) bd =
     (let n_set = eps_closure (nfa_states nfa) [cs_normal cs];
          b_set = eps_closure (nfa_states nfa) [cs_bol cs];
          (bd, n_id) = get_state nfa nclasses n_set bd;
          (bd, b_id) = get_state nfa nclasses b_set bd;
          bd = bd\<lparr>bd_work := bd_work bd @ [n_id, b_id]\<rparr>;
          (bd, starts) = seed_conds nfa nclasses css bd
      in (bd, \<lparr>ds_normal = int n_id, ds_bol = int b_id\<rparr> # starts))"

text \<open>One class of the state \<open>sid\<close> taken from the queue, whose set is \<open>cur\<close>.\<close>

definition set_next :: "nat \<Rightarrow> nat \<Rightarrow> int \<Rightarrow> dfa_state list \<Rightarrow> dfa_state list" where
  "set_next sid cl t D = D[sid := (D ! sid)\<lparr>d_next := (d_next (D ! sid))[cl := t]\<rparr>]"

definition expand_class ::
    "nfa \<Rightarrow> nat \<Rightarrow> nat list \<Rightarrow> nat \<Rightarrow> state_set \<Rightarrow> nat \<Rightarrow> builder \<Rightarrow> builder" where
  "expand_class nfa nclasses reps sid cur cl bd =
     (let rep = reps ! cl
      in if rep \<ge> 256 then bd
         else let n = step (nfa_states nfa) cur rep
              in if n = [] then bd
                 else let (bd, target) =
                        (case bd_index bd n of
                           Some target \<Rightarrow> (bd, target)
                         | None \<Rightarrow>
                             let (bd, target) = get_state nfa nclasses n bd
                             in (bd\<lparr>bd_work := bd_work bd @ [target]\<rparr>, target))
                      in bd\<lparr>bd_states := set_next sid cl (int target) (bd_states bd)\<rparr>)"

definition expand_state :: "nfa \<Rightarrow> nat \<Rightarrow> nat list \<Rightarrow> builder \<Rightarrow> builder" where
  "expand_state nfa nclasses reps bd =
     (let sid = hd (bd_work bd); bd = bd\<lparr>bd_work := tl (bd_work bd)\<rparr>; idx = sid - 1
      in if idx \<ge> length (bd_sets bd) then bd
         else fold (expand_class nfa nclasses reps sid (bd_sets bd ! idx)) [0..<nclasses] bd)"

text \<open>The \<open>while\<close> loop over the queue; no result would mean that it does not end.\<close>

partial_function (option) subset_loop :: "nfa \<Rightarrow> nat \<Rightarrow> nat list \<Rightarrow> builder \<Rightarrow> builder option" where
  "subset_loop nfa nclasses reps bd =
     (if bd_work bd = [] then Some bd
      else subset_loop nfa nclasses reps (expand_state nfa nclasses reps bd))"

section \<open>Meta classes\<close>

text \<open>
  \<open>columns\<close> are the signatures of the classes; the map from signatures to ids is \<open>seen\<close>.
\<close>

definition columns :: "dfa_state list \<Rightarrow> nat \<Rightarrow> int list list" where
  "columns D nc = map (\<lambda>c. map (\<lambda>st. d_next st ! c) D) [0..<nc]"

primrec meta_loop :: "int list list \<Rightarrow> (int list \<rightharpoonup> byte) \<Rightarrow> nat \<Rightarrow> byte list \<times> nat" where
  "meta_loop [] seen next_id = ([], next_id)"
| "meta_loop (col # cols) seen next_id =
     (case seen col of
        Some m \<Rightarrow> (let (ms, k) = meta_loop cols seen next_id in (m # ms, k))
      | None \<Rightarrow> (let m = of_nat next_id; (ms, k) = meta_loop cols (seen(col \<mapsto> m)) (next_id + 1)
                 in (m # ms, k)))"

definition compute_meta_classes :: "dfa \<Rightarrow> dfa" where
  "compute_meta_classes dfa =
     (let (meta, nmeta) = meta_loop (columns (dfa_states dfa) (dfa_nclasses dfa)) Map.empty 0
      in dfa\<lparr>dfa_meta := meta, dfa_nmeta := nmeta\<rparr>)"

definition empty_builder :: "nat \<Rightarrow> builder" where
  "empty_builder nclasses =
     \<lparr>bd_states = [blank_state nclasses], bd_index = Map.empty, bd_sets = [], bd_work = []\<rparr>"

definition build_dfa :: "nfa \<Rightarrow> bool \<Rightarrow> bool \<Rightarrow> dfa option" where
  "build_dfa nfa use_eclasses compute_meta =
     (let ec = (if use_eclasses then compute_eclasses nfa else identity_eclasses);
          reps = class_reps ec;
          (bd, starts) = seed_conds nfa (ec_n ec) (nfa_cond_starts nfa) (empty_builder (ec_n ec))
      in case subset_loop nfa (ec_n ec) reps bd of
           None \<Rightarrow> None
         | Some bd \<Rightarrow>
             let dfa = \<lparr>dfa_states = bd_states bd, dfa_cond_starts = starts, dfa_eclasses = ec,
                   dfa_nclasses = ec_n ec, dfa_meta = [], dfa_nmeta = 0\<rparr>
             in Some (if compute_meta then compute_meta_classes dfa else dfa))"

end
