(* ===== verification/Dfa_Sets.thy ===== *)
theory Dfa_Sets
  imports Dfa
begin

text \<open>
  The operations of the subset construction on one set of NFA states: \<open>eps_closure\<close>
  returns the states reached by silent paths, \<open>step\<close> those reached by one byte, and
  \<open>accept_for\<close> the rules, the smallest rule of each kind and the boundary rules.
\<close>

section \<open>Silent paths\<close>

definition silent :: "nfa_state list \<Rightarrow> nat set \<Rightarrow> nat set" where
  "silent S P = {q. \<exists>p\<in>P. path (estep S) p [] q}"

definition eps_edges :: "nfa_edge list \<Rightarrow> nat set" where
  "eps_edges es = {e_target e |e. e \<in> set es \<and> bs_empty (e_on e)}"

definition in_range :: "nfa_state list \<Rightarrow> bool" where
  "in_range S \<longleftrightarrow> (\<forall>p l x. estep S p l x \<longrightarrow> x < length S)"

lemma eps_edges_step: "x \<in> eps_edges (outs S p) \<longleftrightarrow> estep S p [] x"
  by (auto simp: eps_edges_def estep_def)

lemma close_edges_spec:
  assumes "close_edges es (work, seen, ss) = (work', seen', ss')"
    and "eps_edges es \<subseteq> {..<length seen}" "set ss = {x. x < length seen \<and> seen ! x}"
  shows "length seen' = length seen \<and> set ss' = {x. x < length seen \<and> seen' ! x} \<and>
    set ss' = set ss \<union> eps_edges es \<and> set work \<subseteq> set work' \<and>
    set ss' - set ss \<subseteq> set work' \<and> set work' \<subseteq> set work \<union> eps_edges es"
  using assms
proof (induction es arbitrary: work seen ss)
  case Nil
  then show ?case by (auto simp: eps_edges_def)
next
  case (Cons e es)
  have sub: "eps_edges es \<subseteq> {..<length seen}" using Cons.prems(2) by (auto simp: eps_edges_def)
  let ?t = "e_target e"
  show ?case
  proof (cases "bs_empty (e_on e)")
    case True
    then have t: "?t < length seen" and ee: "eps_edges (e # es) = insert ?t (eps_edges es)"
      using Cons.prems(2) by (auto simp: eps_edges_def)
    show ?thesis
    proof (cases "seen ! ?t")
      case True
      with Cons.prems t have "?t \<in> set ss" "close_edges es (work, seen, ss) = (work', seen', ss')" by auto
      with Cons.IH[OF this(2) sub Cons.prems(3)] show ?thesis unfolding ee by blast
    next
      case False
      with Cons.prems \<open>bs_empty (e_on e)\<close> t
      have c: "close_edges es (work @ [?t], seen[?t := True], ss @ [?t]) = (work', seen', ss')" by simp
      have s: "set (ss @ [?t]) = {x. x < length (seen[?t := True]) \<and> seen[?t := True] ! x}"
        using Cons.prems(3) t by (auto simp: nth_list_update)
      from Cons.IH[OF c _ s] sub show ?thesis unfolding ee by auto
    qed
  next
    case False
    then have ee: "eps_edges (e # es) = eps_edges es"
      and c: "close_edges es (work, seen, ss) = (work', seen', ss')"
      using Cons.prems(1) by (auto simp: eps_edges_def)
    from Cons.IH[OF c sub Cons.prems(3)] show ?thesis unfolding ee .
  qed
qed

lemma silent_closed: "P \<subseteq> Q \<Longrightarrow> (\<And>x y. x \<in> Q \<Longrightarrow> estep S x [] y \<Longrightarrow> y \<in> Q) \<Longrightarrow> silent S P \<subseteq> Q"
proof
  fix q assume P: "P \<subseteq> Q" and cl: "\<And>x y. x \<in> Q \<Longrightarrow> estep S x [] y \<Longrightarrow> y \<in> Q" and "q \<in> silent S P"
  then obtain p where "path (estep S) p [] q" "p \<in> P" by (auto simp: silent_def)
  from this(1) have "p \<in> Q \<longrightarrow> q \<in> Q"
    by (induction p "[] :: byte list" q rule: path.induct) (use cl in auto)
  with \<open>p \<in> P\<close> P show "q \<in> Q" by blast
qed

text \<open>
  The invariant of the loop: what has been seen is what has been collected, it lies in the
  closure, and every collected state is still on the stack or has its targets collected.
\<close>

lemma closure_loop_spec:
  assumes "in_range S" "length seen = length S" "set ss = {x. x < length S \<and> seen ! x}"
    and "set ss \<subseteq> silent S P" "P \<subseteq> set ss" "set work \<subseteq> set ss"
    and "\<And>x y. x \<in> set ss \<Longrightarrow> x \<notin> set work \<Longrightarrow> estep S x [] y \<Longrightarrow> y \<in> set ss"
  shows "set (closure_loop S work seen ss) = silent S P"
  using assms
proof (induction S work seen ss rule: closure_loop.induct)
  case (1 S work seen ss)
  show ?case
  proof (cases "work = []")
    case True
    have "silent S P \<subseteq> set ss"
      by (rule silent_closed[OF "1.prems"(5)]) (use "1.prems"(7) True in simp)
    with "1.prems"(4) True show ?thesis by (subst closure_loop.simps) simp
  next
    case False
    obtain w' s' c' where ce: "close_edges (outs S (last work)) (butlast work, seen, ss) = (w', s', c')"
      by (metis prod_cases3)
    have wk: "set work = insert (last work) (set (butlast work))"
      using False by (metis append_butlast_last_id list.simps(15) rotate1.simps(2) set_rotate1)
    have tgt: "eps_edges (outs S (last work)) \<subseteq> {..<length seen}"
      using "1.prems"(1,2) by (auto simp: eps_edges_step in_range_def)
    note sp = close_edges_spec[OF ce tgt, unfolded "1.prems"(2), OF "1.prems"(3)]
    have "last work \<in> silent S P" using "1.prems"(4,6) wk by blast
    then have edges: "eps_edges (outs S (last work)) \<subseteq> silent S P"
      using path_append[where E = "estep S" and u = "[]" and v = "[]"] path_one[of "estep S" _ "[]"]
      by (fastforce simp: eps_edges_step silent_def)
    have "set (closure_loop S w' s' c') = silent S P"
    proof (rule "1.IH"[OF False ce[symmetric] refl "1.prems"(1)])
      have c': "set c' = set ss \<union> eps_edges (outs S (last work))"
        and w': "set w' \<subseteq> set (butlast work) \<union> eps_edges (outs S (last work))"
        using sp by blast+
      show "length s' = length S" "set c' = {x. x < length S \<and> s' ! x}" using sp by blast+
      show "set c' \<subseteq> silent S P" using c' "1.prems"(4) edges by blast
      show "P \<subseteq> set c'" using c' "1.prems"(5) by blast
      show "set w' \<subseteq> set c'" using c' w' "1.prems"(6) wk by blast
      fix x y assume x: "x \<in> set c'" "x \<notin> set w'" and st: "estep S x [] y"
      from x sp have xs: "x \<in> set ss" "x \<notin> set (butlast work)" by auto
      show "y \<in> set c'"
      proof (cases "x = last work")
        case True
        with st sp show ?thesis by (auto simp: eps_edges_step)
      next
        case False
        with xs wk have "x \<notin> set work" by simp
        from "1.prems"(7)[OF xs(1) this st] sp show ?thesis by blast
      qed
    qed
    with ce False show ?thesis by (subst closure_loop.simps) simp
  qed
qed

lemma seen_fold:
  "length (fold (\<lambda>s seen. seen[s := True]) ss bs) = length bs \<and>
   (x < length bs \<longrightarrow> fold (\<lambda>s seen. seen[s := True]) ss bs ! x = (bs ! x \<or> x \<in> set ss))"
proof (induction ss arbitrary: bs)
  case (Cons s ss)
  from Cons.IH[of "bs[s := True]"] show ?case by (cases "x = s") auto
qed simp

lemma set_eps_closure:
  assumes "in_range S" "set ss \<subseteq> {..<length S}"
  shows "set (eps_closure S ss) = silent S (set ss)"
proof -
  let ?seen = "fold (\<lambda>s seen. seen[s := True]) ss (replicate (length S) False)"
  have "set ss = {x. x < length S \<and> ?seen ! x}" "length ?seen = length S"
    using seen_fold[of ss "replicate (length S) False"] assms(2) by auto
  from closure_loop_spec[OF assms(1) this(2,1), of "set ss" ss] show ?thesis
    by (auto simp: eps_closure_def silent_def)
qed

lemma eps_closure_sorted: "sorted_wrt (<) (eps_closure S ss)"
  by (simp add: eps_closure_def strict_sorted_sort_unique)

section \<open>Paths that read bytes\<close>

definition reach :: "nfa_state list \<Rightarrow> nat \<Rightarrow> byte list \<Rightarrow> nat set" where
  "reach S p w = {q. path (estep S) p w q}"

definition move :: "nfa_state list \<Rightarrow> nat set \<Rightarrow> byte \<Rightarrow> nat set" where
  "move S P b = silent S {y. \<exists>x\<in>P. estep S x [b] y}"

lemma estep_label: "estep S p l x \<Longrightarrow> l = [] \<or> (\<exists>b. l = [b])"
  by (auto simp: estep_def split: if_splits)

lemma path_snoc:
  "path (estep S) p w' q \<Longrightarrow> w' = w @ [b] \<Longrightarrow>
   \<exists>x y. path (estep S) p w x \<and> estep S x [b] y \<and> path (estep S) y [] q"
proof (induction arbitrary: w rule: path.induct)
  case (path_step p l x v q)
  show ?case
  proof (cases "l = []")
    case True
    with path_step.prems path_step.IH[of w] path_step.hyps(1) show ?thesis by (auto intro: path_eps)
  next
    case False
    then obtain c where l: "l = [c]" using estep_label[OF path_step.hyps(1)] by auto
    show ?thesis
    proof (cases w)
      case Nil
      with l path_step.prems have "v = []" "c = b" by auto
      with path_step.hyps l Nil show ?thesis by blast
    next
      case (Cons d w')
      with l path_step.prems have "v = w' @ [b]" "c = d" by auto
      from path_step.IH[OF this(1)] obtain x' y where
        "path (estep S) x w' x'" "estep S x' [b] y" "path (estep S) y [] q" by blast
      moreover from this(1) path_step.hyps(1) have "path (estep S) p ([c] @ w') x'"
        unfolding l by (rule path.path_step[rotated])
      ultimately show ?thesis using Cons \<open>c = d\<close> by auto
    qed
  qed
qed simp

lemma reach_snoc: "reach S p (w @ [b]) = move S (reach S p w) b"
proof
  show "reach S p (w @ [b]) \<subseteq> move S (reach S p w) b"
    using path_snoc[OF _ refl] by (fastforce simp: reach_def move_def silent_def)
  have "path (estep S) p (w @ [b]) q"
    if "path (estep S) p w x" "estep S x [b] y" "path (estep S) y [] q" for x y q
    using path_append[OF that(1) path_step[OF that(2,3)]] by simp
  then show "move S (reach S p w) b \<subseteq> reach S p (w @ [b])"
    by (auto simp: reach_def move_def silent_def)
qed

lemma reach_Nil: "reach S p [] = silent S {p}"
  by (simp add: reach_def silent_def)

definition class_edges :: "nfa_edge list \<Rightarrow> nat \<Rightarrow> nat list" where
  "class_edges es byte = map e_target (filter (\<lambda>e. \<not> bs_empty (e_on e) \<and> bs_test (e_on e) byte) es)"

lemma class_edges_step: "b < 256 \<Longrightarrow> x \<in> set (class_edges (outs S p) b) \<longleftrightarrow> estep S p [of_nat b] x"
  by (auto simp: class_edges_def estep_def)

lemma step_alt: "step S ss b = eps_closure S (concat (map (\<lambda>s. class_edges (outs S s) b) ss))"
  by (simp add: step_def class_edges_def)

lemma set_step:
  assumes "in_range S" "b < 256"
  shows "set (step S ss b) = move S (set ss) (of_nat b)"
proof -
  have "set (concat (map (\<lambda>s. class_edges (outs S s) b) ss)) = {y. \<exists>x\<in>set ss. estep S x [of_nat b] y}"
    using class_edges_step[OF assms(2)] by auto
  moreover have "\<dots> \<subseteq> {..<length S}" using assms(1) by (auto simp: in_range_def)
  ultimately show ?thesis
    using set_eps_closure[OF assms(1), of "concat (map (\<lambda>s. class_edges (outs S s) b) ss)"]
    by (simp add: step_alt move_def)
qed

lemma step_sorted: "sorted_wrt (<) (step S ss b)"
  by (simp add: step_alt eps_closure_sorted)

text \<open>Two bytes no edge tells apart lead to the same set.\<close>

lemma step_agree:
  assumes "\<And>p e. e \<in> set (outs S p) \<Longrightarrow> \<not> bs_empty (e_on e) \<Longrightarrow> bs_test (e_on e) a = bs_test (e_on e) b"
  shows "step S ss a = step S ss b"
proof -
  have "class_edges (outs S p) a = class_edges (outs S p) b" for p
    unfolding class_edges_def using assms by (metis (mono_tags, lifting) filter_cong)
  then show ?thesis by (simp add: step_alt)
qed

section \<open>What a set accepts\<close>

text \<open>\<open>least P k\<close>: \<open>k\<close> is the smallest rule with \<open>P\<close>, or -1 if there is none.\<close>

definition least :: "(int \<Rightarrow> bool) \<Rightarrow> int \<Rightarrow> bool" where
  "least P k \<longleftrightarrow> (if \<exists>r\<ge>0. P r then 0 \<le> k \<and> P k \<and> (\<forall>r\<ge>0. P r \<longrightarrow> k \<le> r) else k = -1)"

lemma least_unique: "least P j \<Longrightarrow> least P k \<Longrightarrow> j = k"
  unfolding least_def by (metis order_antisym)

lemma take_rule_fold:
  assumes "least P n" "least Q e" "\<And>r. r \<in> set rs \<Longrightarrow> 0 \<le> r" "fold (take_rule eol) rs (n, e) = (n', e')"
  shows "least (\<lambda>r. P r \<or> r \<in> set rs \<and> eol ! nat r = 0) n' \<and>
    least (\<lambda>r. Q r \<or> r \<in> set rs \<and> eol ! nat r \<noteq> 0) e'"
  using assms
proof (induction rs arbitrary: P Q n e)
  case (Cons r rs)
  obtain n1 e1 where one: "take_rule eol r (n, e) = (n1, e1)" by fastforce
  have r: "0 \<le> r" using Cons.prems(3) by simp
  have "least (\<lambda>x. P x \<or> x = r \<and> eol ! nat r = 0) n1" "least (\<lambda>x. Q x \<or> x = r \<and> eol ! nat r \<noteq> 0) e1"
    using Cons.prems(1,2) one r by (auto simp: least_def take_rule_def split: if_splits)
  from Cons.IH[OF this] Cons.prems(3,4) one
  have "least (\<lambda>x. (P x \<or> x = r \<and> eol ! nat r = 0) \<or> x \<in> set rs \<and> eol ! nat x = 0) n' \<and>
    least (\<lambda>x. (Q x \<or> x = r \<and> eol ! nat r \<noteq> 0) \<or> x \<in> set rs \<and> eol ! nat x \<noteq> 0) e'" by simp
  moreover have "(\<lambda>x. (P x \<or> x = r \<and> eol ! nat r = 0) \<or> x \<in> set rs \<and> eol ! nat x = 0)
      = (\<lambda>x. P x \<or> x \<in> set (r # rs) \<and> eol ! nat x = 0)"
    "(\<lambda>x. (Q x \<or> x = r \<and> eol ! nat r \<noteq> 0) \<or> x \<in> set rs \<and> eol ! nat x \<noteq> 0)
      = (\<lambda>x. Q x \<or> x \<in> set (r # rs) \<and> eol ! nat x \<noteq> 0)"
    by auto
  ultimately show ?case by simp
qed simp

definition set_accepts :: "nfa \<Rightarrow> nat set \<Rightarrow> int \<Rightarrow> bool" where
  "set_accepts nfa Q r \<longleftrightarrow> 0 \<le> r \<and> (\<exists>q\<in>Q. acc_of (nfa_states nfa) q = r)"

lemma accept_for_spec:
  assumes "set ss \<subseteq> {..<length (nfa_states nfa)}"
  shows "sorted_wrt (<) (ap_list (accept_for nfa ss))"
    "set (ap_list (accept_for nfa ss)) = {r. set_accepts nfa (set ss) r}"
    "least (\<lambda>r. set_accepts nfa (set ss) r \<and> nfa_rule_eol nfa ! nat r = 0) (ap_normal (accept_for nfa ss))"
    "least (\<lambda>r. set_accepts nfa (set ss) r \<and> nfa_rule_eol nfa ! nat r \<noteq> 0) (ap_eol (accept_for nfa ss))"
    "set (ap_boundary (accept_for nfa ss)) =
      {int r |r. r < length (nfa_rule_boundary_states nfa) \<and> set (nfa_rule_boundary_states nfa ! r) \<inter> set ss \<noteq> {}}"
proof -
  let ?rs = "sort_unique (filter (\<lambda>r. \<not> r < 0) (map (\<lambda>s. st_accept_rule (nfa_states nfa ! s)) ss))"
  show "sorted_wrt (<) (ap_list (accept_for nfa ss))"
    by (simp add: accept_for_def Let_def strict_sorted_sort_unique split: prod.splits)
  have rs: "set ?rs = {r. set_accepts nfa (set ss) r}"
    using assms by (auto simp: set_accepts_def acc_of_def)
  then show "set (ap_list (accept_for nfa ss)) = {r. set_accepts nfa (set ss) r}"
    by (simp add: accept_for_def Let_def split: prod.splits)
  obtain n e where f: "fold (take_rule (nfa_rule_eol nfa)) ?rs (-1, -1) = (n, e)" by fastforce
  have nonneg: "r \<in> set ?rs \<Longrightarrow> 0 \<le> r" for r
    by (simp only: rs mem_Collect_eq set_accepts_def)
  have "least (\<lambda>r. False) (-1)" by (simp add: least_def)
  from take_rule_fold[OF this this nonneg f]
  have "least (\<lambda>r. r \<in> set ?rs \<and> nfa_rule_eol nfa ! nat r = 0) n \<and>
      least (\<lambda>r. r \<in> set ?rs \<and> nfa_rule_eol nfa ! nat r \<noteq> 0) e"
    by (simp only: simp_thms)
  moreover have "(r \<in> set ?rs) = set_accepts nfa (set ss) r" for r using rs by blast
  ultimately have "least (\<lambda>r. set_accepts nfa (set ss) r \<and> nfa_rule_eol nfa ! nat r = 0) n \<and>
      least (\<lambda>r. set_accepts nfa (set ss) r \<and> nfa_rule_eol nfa ! nat r \<noteq> 0) e"
    by (simp only:)
  then show "least (\<lambda>r. set_accepts nfa (set ss) r \<and> nfa_rule_eol nfa ! nat r = 0) (ap_normal (accept_for nfa ss))"
    "least (\<lambda>r. set_accepts nfa (set ss) r \<and> nfa_rule_eol nfa ! nat r \<noteq> 0) (ap_eol (accept_for nfa ss))"
    using f by (simp_all add: accept_for_def Let_def)
  show "set (ap_boundary (accept_for nfa ss)) =
      {int r |r. r < length (nfa_rule_boundary_states nfa) \<and> set (nfa_rule_boundary_states nfa ! r) \<inter> set ss \<noteq> {}}"
    by (auto simp: accept_for_def Let_def list_ex_iff split: prod.splits)
qed

section \<open>Properties\<close>

text \<open>\<open>eps_closure\<close> returns, in ascending order and without repetition, exactly the
states reached from the given ones by silent edges.\<close>

theorem eps_closure_exact:
  assumes "\<And>p l x. estep S p l x \<Longrightarrow> x < length S" "set ss \<subseteq> {..<length S}"
  shows "sorted_wrt (<) (eps_closure S ss) \<and>
    set (eps_closure S ss) = {q. \<exists>p\<in>set ss. path (estep S) p [] q}"
  using set_eps_closure[of S ss] eps_closure_sorted[of S ss] assms
  by (simp add: in_range_def silent_def)

lemma eps_closure_exact_witness:
  "1 \<in> set (eps_closure (nfa_states (fst (compile_empty empty_nfa))) [0])"
proof -
  let ?S = "nfa_states (fst (compile_empty empty_nfa))"
  have st: "estep ?S p l x \<longleftrightarrow> p = 0 \<and> l = [] \<and> x = 1" for p l x
    using estep_add_eps[of 0 "grow2 []" 1 p l x]
    by (simp add: compile_empty_def new_state_def empty_nfa_def add_eps_def)
      (simp add: estep_def outs_def fresh_state_def nth_Cons split: nat.splits)
  have len: "length ?S = 2" by (simp add: compile_empty_def new_state_def empty_nfa_def add_eps_def)
  show ?thesis
    using eps_closure_exact[of ?S "[0]"] st path_one[of "estep ?S" 0 "[]" 1] by (simp add: len)
qed

text \<open>\<open>step\<close> returns exactly the states reached from a set by one byte and then by silent
edges, in ascending order.\<close>

theorem step_exact:
  assumes "\<And>p l x. estep S p l x \<Longrightarrow> x < length S"
  shows "sorted_wrt (<) (step S ss (ub b)) \<and>
    set (step S ss (ub b)) = {q. \<exists>p\<in>set ss. \<exists>y. estep S p [b] y \<and> path (estep S) y [] q}"
  using set_step[of S "ub b" ss] step_sorted[of S ss "ub b"] assms
  by (auto simp: in_range_def move_def silent_def)

lemma step_exact_witness: "set (step [] [0] (ub 97)) = {}"
  using step_exact[of "[]" "[0]" 97] by simp

text \<open>\<open>accept_for\<close> lists the rules accepted in a set in ascending order, picks the smallest
rule without and with a trailing anchor (-1 if there is none), and lists the rules one of
whose boundary states is in the set.\<close>

theorem accept_for_exact:
  assumes "set ss \<subseteq> {..<length (nfa_states nfa)}"
  shows "sorted_wrt (<) (ap_list (accept_for nfa ss)) \<and>
    set (ap_list (accept_for nfa ss)) = {r. 0 \<le> r \<and> (\<exists>q\<in>set ss. st_accept_rule (nfa_states nfa ! q) = r)} \<and>
    least (\<lambda>r. r \<in> set (ap_list (accept_for nfa ss)) \<and> nfa_rule_eol nfa ! nat r = 0) (ap_normal (accept_for nfa ss)) \<and>
    least (\<lambda>r. r \<in> set (ap_list (accept_for nfa ss)) \<and> nfa_rule_eol nfa ! nat r \<noteq> 0) (ap_eol (accept_for nfa ss)) \<and>
    set (ap_boundary (accept_for nfa ss)) =
      {int r |r. r < length (nfa_rule_boundary_states nfa) \<and> set (nfa_rule_boundary_states nfa ! r) \<inter> set ss \<noteq> {}}"
proof -
  have "set_accepts nfa (set ss) r \<longleftrightarrow> r \<in> set (ap_list (accept_for nfa ss))" for r
    using accept_for_spec(2)[OF assms] by simp
  moreover have "{r. set_accepts nfa (set ss) r} = {r. 0 \<le> r \<and> (\<exists>q\<in>set ss. st_accept_rule (nfa_states nfa ! q) = r)}"
    using assms by (auto simp: set_accepts_def acc_of_def)
  ultimately show ?thesis using accept_for_spec[OF assms] by (simp only:)
qed

lemma accept_for_exact_witness:
  "ap_list (accept_for (fst (compile_empty empty_nfa)) [0]) = []"
proof -
  let ?N = "fst (compile_empty empty_nfa)"
  have N: "length (nfa_states ?N) = 2" "st_accept_rule (nfa_states ?N ! 0) = -1"
    by (simp_all add: compile_empty_def new_state_def empty_nfa_def add_eps_def add_edge_def fresh_state_def)
  have "set (ap_list (accept_for ?N [0])) = {r. 0 \<le> r \<and> (\<exists>q\<in>set [0]. st_accept_rule (nfa_states ?N ! q) = r)}"
    using accept_for_exact[of "[0]" ?N] by (simp add: N(1))
  then have "set (ap_list (accept_for ?N [0])) = {}" by (auto simp: N(2))
  then show ?thesis by simp
qed

end
