(* ===== verification/Subset.thy ===== *)
theory Subset
  imports Dfa_Sets
begin

text \<open>
  The worklist of \<open>build_dfa\<close>: its invariant, its termination, and what the table it
  returns says about the sets of NFA states. The id of a set is its position in
  \<open>id_to_set\<close> plus one; the dead state has the id 0.
\<close>

section \<open>Sets that can occur\<close>

definition good_set :: "nfa_state list \<Rightarrow> state_set \<Rightarrow> bool" where
  "good_set S ss \<longleftrightarrow> sorted_wrt (<) ss \<and> set ss \<subseteq> {..<length S} \<and> ss \<noteq> []"

lemma good_set_unique: "good_set S a \<Longrightarrow> good_set S b \<Longrightarrow> set a = set b \<Longrightarrow> a = b"
  by (simp add: good_set_def strict_sorted_equal)

lemma finite_good_sets: "finite {ss. good_set S ss}"
proof -
  have "inj_on set {ss. good_set S ss}" by (auto intro!: inj_onI good_set_unique)
  moreover have "set ` {ss. good_set S ss} \<subseteq> Pow {..<length S}" by (auto simp: good_set_def)
  ultimately show ?thesis by (meson finite_Pow_iff finite_imageD finite_lessThan finite_subset)
qed

lemma silent_in_range: "in_range S \<Longrightarrow> P \<subseteq> {..<length S} \<Longrightarrow> silent S P \<subseteq> {..<length S}"
  by (rule silent_closed) (auto simp: in_range_def)

lemma silent_base: "P \<subseteq> silent S P"
  by (auto simp: silent_def)

lemma good_eps_closure:
  "in_range S \<Longrightarrow> set ss \<subseteq> {..<length S} \<Longrightarrow> ss \<noteq> [] \<Longrightarrow> good_set S (eps_closure S ss)"
  using set_eps_closure[of S ss] silent_in_range[of S "set ss"] eps_closure_sorted[of S ss]
    silent_base[of "set ss" S]
  by (auto simp: good_set_def)

lemma good_step: "in_range S \<Longrightarrow> b < 256 \<Longrightarrow> step S ss b \<noteq> [] \<Longrightarrow> good_set S (step S ss b)"
  using set_step[of S b ss] step_sorted[of S ss b]
    silent_in_range[of S "{y. \<exists>x\<in>set ss. estep S x [of_nat b] y}"]
  by (auto simp: good_set_def move_def in_range_def)

section \<open>Representatives\<close>

lemma class_reps_fold:
  assumes ok: "ec_ok cls n" and "k \<le> 256"
  shows "let r = fold (\<lambda>b r. let c = ub (cls ! b) in if r ! c = 256 then r[c := b] else r) [0..<k] (replicate n 256)
    in length r = n \<and> (\<forall>c<n. (r ! c < k \<and> ub (cls ! (r ! c)) = c \<or> r ! c = 256 \<and> (\<forall>b<k. ub (cls ! b) \<noteq> c)))"
  using assms(2)
proof (induction k)
  case (Suc k)
  then have "ub (cls ! k) < n" using ec_ok_less[OF ok] by simp
  with Suc show ?case by (auto simp: Let_def nth_list_update less_Suc_eq)
qed simp

lemma class_reps_spec:
  assumes "ec_ok (ec_map ec) (ec_n ec)" "c < ec_n ec"
  shows "class_reps ec ! c < 256" "ub (ec_map ec ! (class_reps ec ! c)) = c"
  using class_reps_fold[OF assms(1), of 256] assms(2) ec_ok_onto[OF assms]
  by (auto simp: class_reps_def Let_def)

section \<open>The invariant\<close>

definition live :: "builder \<Rightarrow> nat \<Rightarrow> bool" where
  "live bd i \<longleftrightarrow> 1 \<le> i \<and> i \<le> length (bd_sets bd)"

definition set_of :: "builder \<Rightarrow> nat \<Rightarrow> state_set" where
  "set_of bd i = bd_sets bd ! (i - 1)"

definition entry :: "builder \<Rightarrow> nat \<Rightarrow> nat \<Rightarrow> int" where
  "entry bd i cl = d_next (bd_states bd ! i) ! cl"

definition state_ok :: "nfa \<Rightarrow> nat \<Rightarrow> state_set \<Rightarrow> dfa_state \<Rightarrow> bool" where
  "state_ok nfa n ss d \<longleftrightarrow> length (d_next d) = n \<and>
     d_accept_normal d = ap_normal (accept_for nfa ss) \<and> d_accept_eol d = ap_eol (accept_for nfa ss) \<and>
     d_accept_list d = ap_list (accept_for nfa ss) \<and> d_boundary_rules d = ap_boundary (accept_for nfa ss)"

definition entry_ok :: "nfa_state list \<Rightarrow> nat list \<Rightarrow> builder \<Rightarrow> nat \<Rightarrow> nat \<Rightarrow> bool" where
  "entry_ok S rs bd i cl \<longleftrightarrow> entry bd i cl = -1 \<or>
     step S (set_of bd i) (rs ! cl) \<noteq> [] \<and>
     (\<exists>t. entry bd i cl = int t \<and> live bd t \<and> set_of bd t = step S (set_of bd i) (rs ! cl))"

definition filled :: "nfa_state list \<Rightarrow> nat list \<Rightarrow> builder \<Rightarrow> nat \<Rightarrow> nat \<Rightarrow> bool" where
  "filled S rs bd i cl \<longleftrightarrow> (step S (set_of bd i) (rs ! cl) \<noteq> [] \<longrightarrow> entry bd i cl \<noteq> -1)"

definition bd_ok :: "nfa \<Rightarrow> nat \<Rightarrow> nat list \<Rightarrow> builder \<Rightarrow> bool" where
  "bd_ok nfa n rs bd \<longleftrightarrow>
     length (bd_states bd) = Suc (length (bd_sets bd)) \<and>
     (\<forall>ss i. bd_index bd ss = Some i \<longleftrightarrow> live bd i \<and> set_of bd i = ss) \<and>
     (\<forall>ss\<in>set (bd_sets bd). good_set (nfa_states nfa) ss) \<and>
     bd_states bd ! 0 = blank_state n \<and>
     (\<forall>i. live bd i \<longrightarrow> state_ok nfa n (set_of bd i) (bd_states bd ! i)) \<and>
     (\<forall>i cl. live bd i \<longrightarrow> cl < n \<longrightarrow> entry_ok (nfa_states nfa) rs bd i cl) \<and>
     (\<forall>i\<in>set (bd_work bd). live bd i)"

text \<open>Sets keep their ids and filled entries stay filled.\<close>

definition grows :: "builder \<Rightarrow> builder \<Rightarrow> bool" where
  "grows a b \<longleftrightarrow> (\<exists>xs. bd_sets b = bd_sets a @ xs) \<and>
     (\<forall>i cl. live a i \<longrightarrow> entry a i cl \<noteq> -1 \<longrightarrow> entry b i cl \<noteq> -1)"

lemma grows_refl [simp]: "grows a a"
  by (simp add: grows_def)

lemma grows_live: "grows a b \<Longrightarrow> live a i \<Longrightarrow> live b i"
  by (auto simp: grows_def live_def)

lemma grows_set_of: "grows a b \<Longrightarrow> live a i \<Longrightarrow> set_of b i = set_of a i"
  by (auto simp: grows_def live_def set_of_def nth_append)

lemma grows_trans: "grows a b \<Longrightarrow> grows b c \<Longrightarrow> grows a c"
  using grows_live[of a b] by (auto simp: grows_def)

lemma grows_length: "grows a b \<Longrightarrow> length (bd_sets a) \<le> length (bd_sets b)"
  by (auto simp: grows_def)

lemma grows_filled: "grows a b \<Longrightarrow> live a i \<Longrightarrow> filled S rs a i cl \<Longrightarrow> filled S rs b i cl"
  using grows_set_of[of a b i] by (auto simp: filled_def grows_def)

lemma bd_okD:
  assumes "bd_ok nfa n rs bd"
  shows "length (bd_states bd) = Suc (length (bd_sets bd))"
    "bd_index bd ss = Some i \<longleftrightarrow> live bd i \<and> set_of bd i = ss"
    "live bd i \<Longrightarrow> good_set (nfa_states nfa) (set_of bd i)"
    "bd_states bd ! 0 = blank_state n"
    "live bd i \<Longrightarrow> state_ok nfa n (set_of bd i) (bd_states bd ! i)"
    "live bd i \<Longrightarrow> cl < n \<Longrightarrow> entry_ok (nfa_states nfa) rs bd i cl"
    "i \<in> set (bd_work bd) \<Longrightarrow> live bd i"
  using assms by (auto simp: bd_ok_def live_def set_of_def)

section \<open>The operations keep it\<close>

lemma get_state_new:
  assumes ok: "bd_ok nfa n rs bd" and good: "good_set (nfa_states nfa) ss" and new: "bd_index bd ss = None"
    and bd': "get_state nfa n ss bd = (bd', i)"
  shows "bd_ok nfa n rs bd'" "grows bd bd'" "i = Suc (length (bd_sets bd))"
    "bd_sets bd' = bd_sets bd @ [ss]" "bd_work bd' = bd_work bd"
proof -
  note len = bd_okD(1)[OF ok]
  let ?s = "(blank_state n)\<lparr>d_accept_normal := ap_normal (accept_for nfa ss), d_accept_eol := ap_eol (accept_for nfa ss),
     d_accept_list := ap_list (accept_for nfa ss), d_boundary_rules := ap_boundary (accept_for nfa ss)\<rparr>"
  have i: "i = Suc (length (bd_sets bd))"
    and b: "bd' = bd\<lparr>bd_states := bd_states bd @ [?s], bd_sets := bd_sets bd @ [ss],
      bd_index := (bd_index bd)(ss \<mapsto> i)\<rparr>"
    using bd' new len by (auto simp: get_state_def Let_def)
  show "i = Suc (length (bd_sets bd))" by (rule i)
  show sets: "bd_sets bd' = bd_sets bd @ [ss]" and work: "bd_work bd' = bd_work bd" by (simp_all add: b)
  have lv: "live bd' j \<longleftrightarrow> live bd j \<or> j = i" for j by (auto simp: live_def sets i)
  have so: "live bd j \<Longrightarrow> set_of bd' j = set_of bd j" "set_of bd' i = ss" for j
    by (auto simp: set_of_def sets live_def nth_append i)
  have st: "live bd j \<Longrightarrow> bd_states bd' ! j = bd_states bd ! j" "bd_states bd' ! i = ?s" for j
    using len by (auto simp: b live_def nth_append i)
  have en: "live bd j \<Longrightarrow> entry bd' j cl = entry bd j cl" "cl < n \<Longrightarrow> entry bd' i cl = -1" for j cl
    by (simp_all add: entry_def st) (simp add: blank_state_def)
  show "grows bd bd'" using en by (auto simp: grows_def sets)
  have fresh: "live bd j \<Longrightarrow> set_of bd j \<noteq> ss \<and> j \<noteq> i" for j
    using bd_okD(2)[OF ok, of ss j] new by (auto simp: i live_def)
  have "bd_index bd' t = Some j \<longleftrightarrow> live bd' j \<and> set_of bd' j = t" for t j
    using bd_okD(2)[OF ok, of t j] fresh[of j] so lv by (auto simp: b split: if_splits)
  moreover have "state_ok nfa n (set_of bd' j) (bd_states bd' ! j)" if "live bd' j" for j
    using that bd_okD(5)[OF ok, of j] so st by (auto simp: lv) (simp add: state_ok_def blank_state_def)
  moreover have "entry_ok (nfa_states nfa) rs bd' j cl" if "live bd' j" "cl < n" for j cl
    using that bd_okD(6)[OF ok, of j cl] so en by (auto simp: lv entry_ok_def)
  moreover have "bd_states bd' ! 0 = blank_state n" using bd_okD(4)[OF ok] len by (simp add: b nth_append)
  ultimately show "bd_ok nfa n rs bd'"
    using ok good len lv unfolding bd_ok_def by (auto simp: sets work) (simp add: b)
qed

lemma get_state_old:
  "bd_index bd ss = Some i \<Longrightarrow> get_state nfa n ss bd = (bd, i)"
  by (simp add: get_state_def)

lemma get_state_ok:
  assumes ok: "bd_ok nfa n rs bd" and good: "good_set (nfa_states nfa) ss"
    and bd': "get_state nfa n ss bd = (bd', i)"
  shows "bd_ok nfa n rs bd' \<and> grows bd bd' \<and> live bd' i \<and> set_of bd' i = ss \<and>
    bd_work bd' = bd_work bd \<and> (\<forall>j. live bd' j \<longrightarrow> live bd j \<or> j = i)"
proof (cases "bd_index bd ss")
  case None
  from get_state_new[OF ok good None bd'] show ?thesis by (auto simp: live_def set_of_def)
next
  case (Some k)
  with get_state_old[of bd ss k] bd' bd_okD(2)[OF ok, of ss k] ok show ?thesis by auto
qed

text \<open>Writing the entry of one class.\<close>

lemma set_next_ok:
  assumes ok: "bd_ok nfa n rs bd" and i: "live bd i" and cl: "cl < n"
    and t: "live bd t" "set_of bd t = step (nfa_states nfa) (set_of bd i) (rs ! cl)"
    and bd': "bd' = bd\<lparr>bd_states := set_next i cl (int t) (bd_states bd)\<rparr>"
  shows "bd_ok nfa n rs bd'" "grows bd bd'" "entry bd' i cl = int t"
proof -
  note len = bd_okD(1)[OF ok]
  have il: "i < length (bd_states bd)" "i \<noteq> 0" using i len by (auto simp: live_def)
  have lv: "live bd' = live bd" and so: "set_of bd' = set_of bd"
    by (simp_all add: fun_eq_iff live_def set_of_def bd')
  have st: "bd_states bd' ! j = (if j = i then (bd_states bd ! i)\<lparr>d_next := (d_next (bd_states bd ! i))[cl := int t]\<rparr>
      else bd_states bd ! j)" for j
    using il by (simp add: bd' set_next_def nth_list_update)
  have dn: "length (d_next (bd_states bd ! i)) = n" using bd_okD(5)[OF ok i] by (simp add: state_ok_def)
  have en: "entry bd' j c = (if j = i \<and> c = cl then int t else entry bd j c)" for j c
    using cl dn by (simp add: entry_def st nth_list_update)
  show "entry bd' i cl = int t" by (simp add: en)
  show "grows bd bd'" using en by (auto simp: grows_def bd')
  have "good_set (nfa_states nfa) (step (nfa_states nfa) (set_of bd i) (rs ! cl))"
    using bd_okD(3)[OF ok t(1)] t(2) by simp
  then have nonempty: "step (nfa_states nfa) (set_of bd i) (rs ! cl) \<noteq> []" by (simp add: good_set_def)
  have "entry_ok (nfa_states nfa) rs bd' j c" if "live bd' j" "c < n" for j c
    using bd_okD(6)[OF ok, of j c] that t nonempty by (auto simp: entry_ok_def en lv so)
  moreover have "state_ok nfa n (set_of bd' j) (bd_states bd' ! j)" if "live bd' j" for j
    using bd_okD(5)[OF ok, of j] that by (auto simp: so lv st state_ok_def)
  moreover have "length (bd_states bd') = length (bd_states bd)" by (simp add: bd' set_next_def)
  moreover have "bd_states bd' ! 0 = blank_state n" using bd_okD(4)[OF ok] il by (simp add: st)
  ultimately show "bd_ok nfa n rs bd'"
    using ok lv so unfolding bd_ok_def by (simp add: bd')
qed

text \<open>The ids handed out between two builders, in the order they are queued.\<close>

definition new_ids :: "builder \<Rightarrow> builder \<Rightarrow> nat list" where
  "new_ids a b = [Suc (length (bd_sets a))..<Suc (length (bd_sets b))]"

lemma new_ids_trans:
  "length (bd_sets a) \<le> length (bd_sets b) \<Longrightarrow> length (bd_sets b) \<le> length (bd_sets c) \<Longrightarrow>
   new_ids a b @ new_ids b c = new_ids a c"
  unfolding new_ids_def by (metis le_Suc_ex Suc_le_mono upt_add_eq_append)

lemma bd_ok_work: "bd_ok nfa n rs bd \<Longrightarrow> (\<And>i. i \<in> set w \<Longrightarrow> live bd i) \<Longrightarrow> bd_ok nfa n rs (bd\<lparr>bd_work := w\<rparr>)"
  by (simp add: bd_ok_def live_def set_of_def entry_ok_def entry_def)

lemma work_simps [simp]:
  "live (bd\<lparr>bd_work := w\<rparr>) = live bd" "set_of (bd\<lparr>bd_work := w\<rparr>) = set_of bd"
  "entry (bd\<lparr>bd_work := w\<rparr>) = entry bd" "filled S rs (bd\<lparr>bd_work := w\<rparr>) = filled S rs bd"
  "grows (bd\<lparr>bd_work := w\<rparr>) b = grows bd b" "grows a (bd\<lparr>bd_work := w\<rparr>) = grows a bd"
  "new_ids (bd\<lparr>bd_work := w\<rparr>) b = new_ids bd b" "new_ids a (bd\<lparr>bd_work := w\<rparr>) = new_ids a bd"
  by (simp_all add: fun_eq_iff live_def set_of_def entry_def filled_def grows_def new_ids_def)

lemma expand_class_ok:
  assumes rng: "in_range (nfa_states nfa)" and rep: "rs ! cl < 256"
    and ok: "bd_ok nfa n rs bd" and i: "live bd i" and cl: "cl < n"
    and bd': "bd' = expand_class nfa n rs i (set_of bd i) cl bd"
  shows "bd_ok nfa n rs bd' \<and> grows bd bd' \<and> bd_work bd' = bd_work bd @ new_ids bd bd' \<and>
    filled (nfa_states nfa) rs bd' i cl"
proof -
  let ?n = "step (nfa_states nfa) (set_of bd i) (rs ! cl)"
  show ?thesis
  proof (cases "?n = []")
    case True
    with bd' rep ok show ?thesis by (simp add: expand_class_def Let_def filled_def new_ids_def)
  next
    case False
    note good = good_step[OF rng rep False]
    show ?thesis
    proof (cases "bd_index bd ?n")
      case (Some t)
      then have b: "bd' = bd\<lparr>bd_states := set_next i cl (int t) (bd_states bd)\<rparr>"
        using bd' rep False by (simp add: expand_class_def Let_def)
      have "live bd t" "set_of bd t = ?n" using bd_okD(2)[OF ok] Some by blast+
      from set_next_ok[OF ok i cl this b] b show ?thesis by (simp add: filled_def new_ids_def)
    next
      case None
      obtain bd1 t where g: "get_state nfa n ?n bd = (bd1, t)" by fastforce
      let ?bd2 = "bd1\<lparr>bd_work := bd_work bd1 @ [t]\<rparr>"
      have b: "bd' = ?bd2\<lparr>bd_states := set_next i cl (int t) (bd_states ?bd2)\<rparr>"
        using bd' rep False None g by (simp add: expand_class_def Let_def)
      note new = get_state_new[OF ok good None g] and one = get_state_ok[OF ok good g]
      have ok2: "bd_ok nfa n rs ?bd2"
        by (rule bd_ok_work) (use one bd_okD(7)[OF new(1)] in auto)
      have i2: "live ?bd2 i" using grows_live[OF new(2) i] by simp
      have t2: "live ?bd2 t" "set_of ?bd2 t = step (nfa_states nfa) (set_of ?bd2 i) (rs ! cl)"
        using one grows_set_of[OF new(2) i] by simp_all
      note put = set_next_ok[OF ok2 i2 cl t2 b]
      from put new have "grows bd bd'" using grows_trans[of bd bd1 bd'] by simp
      moreover have "new_ids bd bd' = [t]" using new by (simp add: new_ids_def b)
      ultimately show ?thesis using put new b by (simp add: filled_def)
    qed
  qed
qed

lemma expand_classes_ok:
  assumes rng: "in_range (nfa_states nfa)" and rep: "\<And>cl. cl < n \<Longrightarrow> rs ! cl < 256"
    and ok: "bd_ok nfa n rs bd" and i: "live bd i" and cls: "set cls \<subseteq> {..<n}"
    and bd': "bd' = fold (expand_class nfa n rs i (set_of bd i)) cls bd"
  shows "bd_ok nfa n rs bd' \<and> grows bd bd' \<and> bd_work bd' = bd_work bd @ new_ids bd bd' \<and>
    (\<forall>cl\<in>set cls. filled (nfa_states nfa) rs bd' i cl)"
  using ok i cls bd'
proof (induction cls arbitrary: bd)
  case Nil
  then show ?case by (simp add: new_ids_def)
next
  case (Cons cl cls)
  define bd1 where "bd1 = expand_class nfa n rs i (set_of bd i) cl bd"
  have cl: "cl < n" using Cons.prems(3) by simp
  note one = expand_class_ok[OF rng rep[OF cl] Cons.prems(1,2) cl bd1_def]
  have i1: "live bd1 i" and s1: "set_of bd1 i = set_of bd i"
    using grows_live grows_set_of one Cons.prems(2) by blast+
  have "bd' = fold (expand_class nfa n rs i (set_of bd1 i)) cls bd1"
    unfolding s1 using Cons.prems(4) by (simp add: bd1_def)
  from Cons.IH[OF _ i1 _ this] one Cons.prems(3)
  have two: "bd_ok nfa n rs bd' \<and> grows bd1 bd' \<and> bd_work bd' = bd_work bd1 @ new_ids bd1 bd' \<and>
    (\<forall>cl\<in>set cls. filled (nfa_states nfa) rs bd' i cl)" by simp
  have "new_ids bd bd1 @ new_ids bd1 bd' = new_ids bd bd'"
    using new_ids_trans grows_length one two by blast
  with one two i1 show ?case
    using grows_trans[of bd bd1 bd'] grows_filled[of bd1 bd' i] by auto
qed

lemma expand_state_ok:
  assumes rng: "in_range (nfa_states nfa)" and rep: "\<And>cl. cl < n \<Longrightarrow> rs ! cl < 256"
    and ok: "bd_ok nfa n rs bd" and work: "bd_work bd \<noteq> []"
    and bd': "bd' = expand_state nfa n rs bd"
  shows "bd_ok nfa n rs bd' \<and> grows bd bd' \<and> bd_work bd' = tl (bd_work bd) @ new_ids bd bd' \<and>
    (\<forall>cl<n. filled (nfa_states nfa) rs bd' (hd (bd_work bd)) cl)"
proof -
  let ?i = "hd (bd_work bd)" and ?bd = "bd\<lparr>bd_work := tl (bd_work bd)\<rparr>"
  have i: "live bd ?i" using bd_okD(7)[OF ok] work by simp
  then have "\<not> length (bd_sets bd) \<le> ?i - 1" by (auto simp: live_def)
  then have "bd' = fold (expand_class nfa n rs ?i (set_of ?bd ?i)) [0..<n] ?bd"
    by (simp add: bd' expand_state_def Let_def set_of_def)
  moreover have okb: "bd_ok nfa n rs ?bd"
    by (rule bd_ok_work[OF ok]) (use bd_okD(7)[OF ok] in \<open>auto dest: list.set_sel(2)[OF work]\<close>)
  moreover have "live ?bd ?i" "set [0..<n] \<subseteq> {..<n}" using i by auto
  ultimately have "bd_ok nfa n rs bd' \<and> grows ?bd bd' \<and> bd_work bd' = bd_work ?bd @ new_ids ?bd bd' \<and>
      (\<forall>cl\<in>set [0..<n]. filled (nfa_states nfa) rs bd' ?i cl)"
    using expand_classes_ok[OF rng rep okb] by blast
  then show ?thesis by simp
qed

section \<open>The loop ends with every entry filled\<close>

definition complete :: "nfa_state list \<Rightarrow> nat \<Rightarrow> nat list \<Rightarrow> builder \<Rightarrow> bool" where
  "complete S n rs bd \<longleftrightarrow>
     (\<forall>i. live bd i \<longrightarrow> i \<notin> set (bd_work bd) \<longrightarrow> (\<forall>cl<n. filled S rs bd i cl))"

lemma sets_bound:
  assumes "bd_ok nfa n rs bd"
  shows "length (bd_sets bd) \<le> card {ss. good_set (nfa_states nfa) ss}"
proof -
  have "distinct (bd_sets bd)"
  proof (unfold distinct_conv_nth, intro allI impI)
    fix i j assume *: "i < length (bd_sets bd)" "j < length (bd_sets bd)" "i \<noteq> j"
    with bd_okD(2)[OF assms, of "bd_sets bd ! i" "Suc i"] bd_okD(2)[OF assms, of "bd_sets bd ! i" "Suc j"]
    show "bd_sets bd ! i \<noteq> bd_sets bd ! j" by (auto simp: live_def set_of_def)
  qed
  moreover have "set (bd_sets bd) \<subseteq> {ss. good_set (nfa_states nfa) ss}" using assms by (auto simp: bd_ok_def)
  ultimately show ?thesis by (metis card_mono distinct_card finite_good_sets)
qed

lemma new_ids_complete:
  assumes "complete S n rs a" "grows a b" "bd_work b = tl (bd_work a) @ new_ids a b"
    and "\<forall>cl<n. filled S rs b (hd (bd_work a)) cl" "bd_work a \<noteq> []"
  shows "complete S n rs b"
  unfolding complete_def
proof (intro allI impI)
  fix i cl assume i: "live b i" "i \<notin> set (bd_work b)" and cl: "cl < n"
  then have old: "live a i" using assms(3) by (auto simp: new_ids_def live_def)
  show "filled S rs b i cl"
  proof (cases "i = hd (bd_work a)")
    case False
    with i(2) assms(3,5) have "i \<notin> set (bd_work a)" by (cases "bd_work a") auto
    with assms(1) old cl have "filled S rs a i cl" by (simp add: complete_def)
    from grows_filled[OF assms(2) old this] show ?thesis .
  qed (use assms(4) cl in simp)
qed

lemma subset_loop_ends:
  assumes rng: "in_range (nfa_states nfa)" and rep: "\<And>cl. cl < n \<Longrightarrow> rs ! cl < 256"
    and "bd_ok nfa n rs bd" "complete (nfa_states nfa) n rs bd"
  shows "\<exists>bd'. subset_loop nfa n rs bd = Some bd' \<and> bd_ok nfa n rs bd' \<and> grows bd bd' \<and>
    (\<forall>i cl. live bd' i \<longrightarrow> cl < n \<longrightarrow> filled (nfa_states nfa) rs bd' i cl)"
  using assms(3,4)
proof (induction "card {ss. good_set (nfa_states nfa) ss} - length (bd_sets bd) + length (bd_work bd)"
    arbitrary: bd rule: less_induct)
  case less
  show ?case
  proof (cases "bd_work bd = []")
    case True
    with less.prems show ?thesis by (subst subset_loop.simps) (auto simp: complete_def)
  next
    case False
    let ?b = "expand_state nfa n rs bd"
    note e = expand_state_ok[OF rng rep less.prems(1) False refl]
    from e new_ids_complete[OF less.prems(2)] False have c: "complete (nfa_states nfa) n rs ?b" by blast
    have "length (bd_sets bd) \<le> length (bd_sets ?b)" using e grows_length by blast
    moreover have "length (bd_work ?b) = length (bd_work bd) - 1 + (length (bd_sets ?b) - length (bd_sets bd))"
      using e by (simp add: new_ids_def del: upt_Suc)
    moreover have "length (bd_work bd) > 0" using False by simp
    moreover have "length (bd_sets ?b) \<le> card {ss. good_set (nfa_states nfa) ss}"
      using e sets_bound by blast
    ultimately have "card {ss. good_set (nfa_states nfa) ss} - length (bd_sets ?b) + length (bd_work ?b)
      < card {ss. good_set (nfa_states nfa) ss} - length (bd_sets bd) + length (bd_work bd)" by linarith
    from less.hyps[OF this _ c] e obtain bd' where
      "subset_loop nfa n rs ?b = Some bd'" "bd_ok nfa n rs bd'" "grows ?b bd'"
      "\<forall>i cl. live bd' i \<longrightarrow> cl < n \<longrightarrow> filled (nfa_states nfa) rs bd' i cl" by blast
    moreover from this e grows_trans have "grows bd bd'" by blast
    ultimately show ?thesis using False by (subst subset_loop.simps) simp
  qed
qed

section \<open>The seeds\<close>

definition start_ok :: "nfa_state list \<Rightarrow> builder \<Rightarrow> cond_start \<Rightarrow> dfa_start \<Rightarrow> bool" where
  "start_ok S bd cs ds \<longleftrightarrow> (\<exists>i j. ds = \<lparr>ds_normal = int i, ds_bol = int j\<rparr> \<and> live bd i \<and> live bd j \<and>
     set_of bd i = eps_closure S [cs_normal cs] \<and> set_of bd j = eps_closure S [cs_bol cs])"

lemma start_ok_grows: "grows a b \<Longrightarrow> start_ok S a cs ds \<Longrightarrow> start_ok S b cs ds"
  using grows_live[of a b] grows_set_of[of a b] unfolding start_ok_def by metis

lemma seed_conds_ok:
  assumes rng: "in_range (nfa_states nfa)"
    and ok: "bd_ok nfa n rs bd" and c: "complete (nfa_states nfa) n rs bd"
    and css: "\<And>cs. cs \<in> set css \<Longrightarrow> cs_normal cs < length (nfa_states nfa) \<and> cs_bol cs < length (nfa_states nfa)"
    and seed: "seed_conds nfa n css bd = (bd', sts)"
  shows "bd_ok nfa n rs bd' \<and> complete (nfa_states nfa) n rs bd' \<and> grows bd bd' \<and>
    list_all2 (start_ok (nfa_states nfa) bd') css sts"
  using ok c css seed
proof (induction css arbitrary: bd sts)
  case (Cons cs css)
  let ?S = "nfa_states nfa"
  obtain b1 i where g1: "get_state nfa n (eps_closure ?S [cs_normal cs]) bd = (b1, i)" by fastforce
  obtain b2 j where g2: "get_state nfa n (eps_closure ?S [cs_bol cs]) b1 = (b2, j)" by fastforce
  let ?b3 = "b2\<lparr>bd_work := bd_work b2 @ [i, j]\<rparr>"
  obtain ss where rest: "seed_conds nfa n css ?b3 = (bd', ss)"
    and sts: "sts = \<lparr>ds_normal = int i, ds_bol = int j\<rparr> # ss"
    using Cons.prems(4) g1 g2 by (auto simp: Let_def split: prod.splits)
  have good: "good_set ?S (eps_closure ?S [cs_normal cs])" "good_set ?S (eps_closure ?S [cs_bol cs])"
    using Cons.prems(3)[of cs] good_eps_closure[OF rng] by auto
  note one = get_state_ok[OF Cons.prems(1) good(1) g1]
  then have ok1: "bd_ok nfa n rs b1" by simp
  note two = get_state_ok[OF ok1 good(2) g2]
  have g: "grows bd ?b3" using one two grows_trans[of bd b1 b2] by simp
  have lives: "live b2 i" "set_of b2 i = set_of b1 i" using one two grows_live grows_set_of by blast+
  have ok3: "bd_ok nfa n rs ?b3"
    by (rule bd_ok_work) (use two lives bd_okD(7)[of nfa n rs b2] in auto)
  have "complete ?S n rs ?b3"
    unfolding complete_def
  proof (intro allI impI)
    fix k cl assume "live ?b3 k" "k \<notin> set (bd_work ?b3)" "cl < n"
    with one two have k: "live bd k" "k \<notin> set (bd_work bd)" by auto
    with Cons.prems(2) \<open>cl < n\<close> have "filled ?S rs bd k cl" by (simp add: complete_def)
    from grows_filled[OF g k(1) this] show "filled ?S rs ?b3 k cl" .
  qed
  from Cons.IH[OF ok3 this _ rest] Cons.prems(3)
  have r: "bd_ok nfa n rs bd' \<and> complete ?S n rs bd' \<and> grows ?b3 bd' \<and> list_all2 (start_ok ?S bd') css ss"
    by simp
  have "start_ok ?S ?b3 cs \<lparr>ds_normal = int i, ds_bol = int j\<rparr>"
    using one two lives by (simp add: start_ok_def)
  with r start_ok_grows have "start_ok ?S bd' cs \<lparr>ds_normal = int i, ds_bol = int j\<rparr>" by blast
  with r g sts grows_trans[of bd ?b3 bd'] show ?case by simp
qed (simp add: complete_def)

lemma empty_builder_ok: "bd_ok nfa n rs (empty_builder n)" "complete S n rs (empty_builder n)"
  by (auto simp: bd_ok_def complete_def empty_builder_def live_def)

end
