(* ===== verification/Dfa_Correct.thy ===== *)
theory Dfa_Correct
  imports Subset
begin

text \<open>
  What \<open>build_dfa\<close> promises: it returns a table in which running from the start state of
  a condition over a string leads to the state whose accepting rules are those the NFA
  accepts after that string, or to the dead state when no rule can match any more. The
  locale \<open>table_automaton\<close> is the contract between a transition table and the set-valued
  automaton it stands for; it is met by the dense table here and by the compressed one in
  the theory \<open>Comb\<close>.
\<close>

section \<open>Running a table\<close>

text \<open>A table maps a state and a byte to the next state; 0 and -1 are the dead state.\<close>

primrec run_from :: "(nat \<Rightarrow> byte \<Rightarrow> int) \<Rightarrow> nat \<Rightarrow> byte list \<Rightarrow> nat option" where
  "run_from d s [] = Some s"
| "run_from d s (b # w) = (if d s b > 0 then run_from d (nat (d s b)) w else None)"

lemma run_from_snoc:
  "run_from d s (w @ [b]) =
     (case run_from d s w of None \<Rightarrow> None | Some t \<Rightarrow> if d t b > 0 then Some (nat (d t b)) else None)"
  by (induction w arbitrary: s) auto

locale table_automaton =
  fixes ok :: "'m \<Rightarrow> bool"
    and delta :: "'m \<Rightarrow> nat \<Rightarrow> byte \<Rightarrow> int"
    and ids :: "'m \<Rightarrow> nat set"
    and meaning :: "'m \<Rightarrow> nat \<Rightarrow> 'q set"
    and succs :: "'m \<Rightarrow> 'q set \<Rightarrow> byte \<Rightarrow> 'q set"
  assumes succs_empty: "ok m \<Longrightarrow> succs m {} b = {}"
    and dead: "ok m \<Longrightarrow> s \<in> ids m \<Longrightarrow> \<not> delta m s b > 0 \<Longrightarrow> succs m (meaning m s) b = {}"
    and live: "ok m \<Longrightarrow> s \<in> ids m \<Longrightarrow> delta m s b > 0 \<Longrightarrow>
      nat (delta m s b) \<in> ids m \<and> meaning m (nat (delta m s b)) = succs m (meaning m s) b"
begin

lemma run_empty: "ok m \<Longrightarrow> foldl (succs m) {} w = {}"
  by (induction w) (auto simp: succs_empty)

lemma run_table:
  assumes "ok m" "s \<in> ids m"
  shows "case run_from (delta m) s w of
      None \<Rightarrow> foldl (succs m) (meaning m s) w = {}
    | Some t \<Rightarrow> t \<in> ids m \<and> meaning m t = foldl (succs m) (meaning m s) w"
  using assms(2)
proof (induction w arbitrary: s)
  case (Cons b w)
  show ?case
  proof (cases "delta m s b > 0")
    case True
    with Cons.IH[of "nat (delta m s b)"] live[OF assms(1) Cons.prems True] show ?thesis
      by (simp split: option.splits)
  next
    case False
    with dead[OF assms(1) Cons.prems False] run_empty[OF assms(1)] show ?thesis by simp
  qed
qed simp

end

section \<open>The dense table\<close>

definition dfa_delta :: "dfa \<Rightarrow> nat \<Rightarrow> byte \<Rightarrow> int" where
  "dfa_delta dfa s b = d_next (dfa_states dfa ! s) ! ub (ec_map (dfa_eclasses dfa) ! ub b)"

definition dfa_start_of :: "dfa \<Rightarrow> nat \<Rightarrow> bool \<Rightarrow> nat" where
  "dfa_start_of dfa c at_bol =
     nat (if at_bol then ds_bol (dfa_cond_starts dfa ! c) else ds_normal (dfa_cond_starts dfa ! c))"

text \<open>The classes an automaton needs: bytes of one class are in the same edge sets.\<close>

definition classes_ok :: "nfa \<Rightarrow> eclasses \<Rightarrow> bool" where
  "classes_ok nfa ec \<longleftrightarrow> ec_ok (ec_map ec) (ec_n ec) \<and>
     (\<forall>a<256. \<forall>b<256. same_class (ec_map ec) a b \<longrightarrow> agree_on (nfa_sets nfa) a b)"

lemma refines_classes_ok: "refines Bs ec \<Longrightarrow> nfa_sets nfa \<subseteq> Bs \<Longrightarrow> classes_ok nfa ec"
  by (auto simp: refines_def classes_ok_def agree_on_def)

text \<open>The builder that is left when the loop ends, with the table read off it.\<close>

definition built :: "nfa \<Rightarrow> dfa \<Rightarrow> builder \<Rightarrow> bool" where
  "built nfa dfa bd \<longleftrightarrow>
     dfa_states dfa = bd_states bd \<and> classes_ok nfa (dfa_eclasses dfa) \<and>
     dfa_nclasses dfa = ec_n (dfa_eclasses dfa) \<and>
     bd_ok nfa (dfa_nclasses dfa) (class_reps (dfa_eclasses dfa)) bd \<and>
     (\<forall>i cl. live bd i \<longrightarrow> cl < dfa_nclasses dfa \<longrightarrow>
        filled (nfa_states nfa) (class_reps (dfa_eclasses dfa)) bd i cl) \<and>
     list_all2 (start_ok (nfa_states nfa) bd) (nfa_cond_starts nfa) (dfa_cond_starts dfa)"

lemma nfa_ok_in_range: "nfa_ok nfa \<Longrightarrow> in_range (nfa_states nfa)"
  using graph_okD(2)[OF nfa_ok_graph] by (auto simp: in_range_def)

lemma nfa_starts_in_range:
  assumes "nfa_ok nfa" "cs \<in> set (nfa_cond_starts nfa)"
  shows "cs_normal cs < length (nfa_states nfa) \<and> cs_bol cs < length (nfa_states nfa)"
proof -
  from assms(2) obtain c where c: "c < length (nfa_cond_starts nfa)" "cs = nfa_cond_starts nfa ! c"
    by (metis in_set_conv_nth)
  then show ?thesis
    using start_of_less[OF assms(1), of c False] start_of_less[OF assms(1), of c True]
      nfa_ok_starts[OF assms(1)] nfa_ok_conds[OF assms(1)]
    by (simp add: start_of_def)
qed

lemma meta_keeps_table [simp]:
  "dfa_states (compute_meta_classes d) = dfa_states d"
  "dfa_eclasses (compute_meta_classes d) = dfa_eclasses d"
  "dfa_nclasses (compute_meta_classes d) = dfa_nclasses d"
  "dfa_cond_starts (compute_meta_classes d) = dfa_cond_starts d"
  by (simp_all add: compute_meta_classes_def split: prod.splits)

lemma build_dfa_built:
  assumes ok: "nfa_ok nfa"
  obtains dfa bd where "build_dfa nfa use_eclasses meta = Some dfa" "built nfa dfa bd"
    "dfa_eclasses dfa = (if use_eclasses then compute_eclasses nfa else identity_eclasses)"
proof -
  let ?S = "nfa_states nfa"
  define ec where "ec = (if use_eclasses then compute_eclasses nfa else identity_eclasses)"
  have cls: "classes_ok nfa ec"
    using refines_classes_ok[OF compute_eclasses_refines] refines_classes_ok[OF identity_eclasses_refines]
    by (simp add: ec_def)
  let ?n = "ec_n ec" and ?rs = "class_reps ec"
  have rep: "cl < ?n \<Longrightarrow> ?rs ! cl < 256" for cl
    using class_reps_spec(1) cls by (simp add: classes_ok_def)
  note rng = nfa_ok_in_range[OF ok]
  obtain b1 sts where seed: "seed_conds nfa ?n (nfa_cond_starts nfa) (empty_builder ?n) = (b1, sts)" by fastforce
  note s = seed_conds_ok[OF rng empty_builder_ok(1)[of nfa ?n ?rs] empty_builder_ok(2) nfa_starts_in_range[OF ok] seed]
  from subset_loop_ends[OF rng rep] s obtain bd where
    loop: "subset_loop nfa ?n ?rs b1 = Some bd" and bd: "bd_ok nfa ?n ?rs bd" "grows b1 bd"
    "\<forall>i cl. live bd i \<longrightarrow> cl < ?n \<longrightarrow> filled ?S ?rs bd i cl" by blast
  let ?d = "\<lparr>dfa_states = bd_states bd, dfa_cond_starts = sts, dfa_eclasses = ec,
    dfa_nclasses = ?n, dfa_meta = [], dfa_nmeta = 0\<rparr>"
  have res: "build_dfa nfa use_eclasses meta = Some (if meta then compute_meta_classes ?d else ?d)"
    by (simp add: build_dfa_def Let_def seed loop flip: ec_def)
  have starts: "list_all2 (start_ok ?S bd) (nfa_cond_starts nfa) sts"
    using s start_ok_grows[OF bd(2)] by (metis list_all2_mono)
  show ?thesis
    by (rule that[OF res, of bd]) (use cls bd starts in \<open>simp_all add: built_def ec_def\<close>)
qed

section \<open>The contract\<close>

type_synonym table = "nfa \<times> dfa \<times> builder"

definition table_ok :: "table \<Rightarrow> bool" where
  "table_ok m = (case m of (nfa, dfa, bd) \<Rightarrow> nfa_ok nfa \<and> built nfa dfa bd)"

definition table_ids :: "table \<Rightarrow> nat set" where
  "table_ids m = (case m of (nfa, dfa, bd) \<Rightarrow> {i. live bd i})"

definition table_sets :: "table \<Rightarrow> nat \<Rightarrow> nat set" where
  "table_sets m i = (case m of (nfa, dfa, bd) \<Rightarrow> set (set_of bd i))"

definition dense_delta :: "table \<Rightarrow> nat \<Rightarrow> byte \<Rightarrow> int" where
  "dense_delta m = (case m of (nfa, dfa, bd) \<Rightarrow> dfa_delta dfa)"

definition table_moves :: "table \<Rightarrow> nat set \<Rightarrow> byte \<Rightarrow> nat set" where
  "table_moves m = (case m of (nfa, dfa, bd) \<Rightarrow> move (nfa_states nfa))"

lemmas table_defs = table_ok_def table_ids_def table_sets_def dense_delta_def table_moves_def

lemma move_empty [simp]: "move S {} b = {}"
  by (simp add: move_def silent_def)

lemma rep_agrees:
  assumes cls: "classes_ok nfa ec" and b: "b < 256"
  shows "step (nfa_states nfa) ss (class_reps ec ! ub (ec_map ec ! b)) = step (nfa_states nfa) ss b"
proof (rule step_agree)
  let ?c = "ub (ec_map ec ! b)" and ?S = "nfa_states nfa"
  fix p e assume e: "e \<in> set (outs ?S p)" "\<not> bs_empty (e_on e)"
  have ok: "ec_ok (ec_map ec) (ec_n ec)" using cls by (simp add: classes_ok_def)
  note r = class_reps_spec[OF ok ec_ok_less[OF ok b]]
  then have "same_class (ec_map ec) (class_reps ec ! ?c) b" by (simp add: same_class_def flip: ub_inj)
  with cls r(1) b have "agree_on (nfa_sets nfa) (class_reps ec ! ?c) b" by (simp add: classes_ok_def)
  moreover have "e_on e \<in> nfa_sets nfa"
    using e by (auto simp: outs_def nfa_sets_def edge_sets_def split: if_splits)
  ultimately show "bs_test (e_on e) (class_reps ec ! ?c) = bs_test (e_on e) b"
    by (simp add: agree_on_def)
qed

lemma dense_delta_cases:
  assumes "nfa_ok nfa" "built nfa dfa bd" "live bd i"
  shows "if move (nfa_states nfa) (set (set_of bd i)) b = {} then dfa_delta dfa i b = -1
    else (\<exists>t. dfa_delta dfa i b = int t \<and> live bd t \<and> set (set_of bd t) = move (nfa_states nfa) (set (set_of bd i)) b)"
proof -
  let ?S = "nfa_states nfa" and ?ec = "dfa_eclasses dfa"
  let ?c = "ub (ec_map ?ec ! ub b)"
  have cls: "classes_ok nfa ?ec" and n: "dfa_nclasses dfa = ec_n ?ec" using assms(2) by (simp_all add: built_def)
  then have c: "?c < dfa_nclasses dfa" using ec_ok_less[of "ec_map ?ec" "ec_n ?ec" "ub b"] by (simp add: classes_ok_def)
  have st: "step ?S (set_of bd i) (class_reps ?ec ! ?c) = step ?S (set_of bd i) (ub b)"
    by (rule rep_agrees[OF cls]) simp
  have sets: "set (step ?S (set_of bd i) (ub b)) = move ?S (set (set_of bd i)) b"
    using set_step[OF nfa_ok_in_range[OF assms(1)], of "ub b" "set_of bd i"] by simp
  have en: "dfa_delta dfa i b = entry bd i ?c" using assms(2) by (simp add: built_def dfa_delta_def entry_def)
  have "entry_ok ?S (class_reps ?ec) bd i ?c" "filled ?S (class_reps ?ec) bd i ?c"
    using assms(2,3) c bd_okD(6) by (auto simp: built_def)
  then show ?thesis
    using sets unfolding entry_ok_def filled_def st en by (auto simp flip: sets)
qed

lemma live_pos: "live bd t \<Longrightarrow> 0 < t"
  by (simp add: live_def)

interpretation dense: table_automaton table_ok dense_delta table_ids table_sets table_moves
proof
  fix m :: table and s b
  obtain nfa dfa bd where m: "m = (nfa, dfa, bd)" by (metis prod_cases3)
  assume ok: "table_ok m"
  show "table_moves m {} b = {}" by (simp add: table_defs m)
  assume s: "s \<in> table_ids m"
  have c: "nfa_ok nfa" "built nfa dfa bd" "live bd s" using ok s by (simp_all add: table_defs m)
  note d = dense_delta_cases[OF c, of b]
  let ?M = "move (nfa_states nfa) (set (set_of bd s)) b"
  have tm: "dense_delta m s b = dfa_delta dfa s b" "table_moves m (table_sets m s) b = ?M"
    by (simp_all add: table_defs m)
  show "\<not> 0 < dense_delta m s b \<Longrightarrow> table_moves m (table_sets m s) b = {}"
    unfolding tm using d live_pos by (cases "?M = {}") auto
  assume pos: "0 < dense_delta m s b"
  with d obtain t where "dfa_delta dfa s b = int t" "live bd t" "set (set_of bd t) = ?M"
    unfolding tm by (cases "?M = {}") auto
  then show "nat (dense_delta m s b) \<in> table_ids m \<and>
      table_sets m (nat (dense_delta m s b)) = table_moves m (table_sets m s) b"
    by (simp add: tm) (simp add: table_defs m)
qed

section \<open>The state a string leads to\<close>

text \<open>What the fields of a DFA state say about the NFA after a string \<open>w\<close>.\<close>

definition describes :: "nfa \<Rightarrow> nat \<Rightarrow> byte list \<Rightarrow> dfa_state \<Rightarrow> bool" where
  "describes nfa p w d \<longleftrightarrow>
     sorted_wrt (<) (d_accept_list d) \<and> set (d_accept_list d) = {int r |r. accepts nfa p w r} \<and>
     least (\<lambda>r. accepts nfa p w (nat r) \<and> nfa_rule_eol nfa ! nat r = 0) (d_accept_normal d) \<and>
     least (\<lambda>r. accepts nfa p w (nat r) \<and> nfa_rule_eol nfa ! nat r \<noteq> 0) (d_accept_eol d) \<and>
     set (d_boundary_rules d) = {int r |r. marked nfa p w r}"

lemma foldl_move: "foldl (move S) (reach S p []) w = reach S p w"
  by (induction w rule: rev_induct) (simp_all add: reach_snoc)

lemma reach_append: "reach S p w = {} \<Longrightarrow> reach S p (w @ v) = {}"
  by (induction v rule: rev_induct) (simp_all add: reach_snoc flip: append_assoc)

lemma least_cong: "(\<And>r. 0 \<le> r \<Longrightarrow> P r = Q r) \<Longrightarrow> least P k = least Q k"
  by (simp add: least_def) metis

lemma state_describes:
  assumes ok: "bd_ok nfa n rs bd" and t: "live bd t" "set (set_of bd t) = reach (nfa_states nfa) p w"
  shows "describes nfa p w (bd_states bd ! t)"
proof -
  let ?ss = "set_of bd t"
  have sub: "set ?ss \<subseteq> {..<length (nfa_states nfa)}" using bd_okD(3)[OF ok t(1)] by (simp add: good_set_def)
  have acc: "set_accepts nfa (set ?ss) r \<longleftrightarrow> 0 \<le> r \<and> accepts nfa p w (nat r)" for r
    by (auto simp: set_accepts_def accepts_def t(2) reach_def)
  then have accs: "{r. set_accepts nfa (set ?ss) r} = {int r |r. accepts nfa p w r}"
  proof (intro set_eqI)
    fix x
    show "x \<in> {r. set_accepts nfa (set ?ss) r} \<longleftrightarrow> x \<in> {int r |r. accepts nfa p w r}"
      unfolding mem_Collect_eq acc by (metis int_nat_eq nat_int of_nat_0_le_iff)
  qed
  have marks: "{int r |r. r < length (nfa_rule_boundary_states nfa) \<and> set (nfa_rule_boundary_states nfa ! r) \<inter> set ?ss \<noteq> {}}
      = {int r |r. marked nfa p w r}"
    by (auto simp: marked_def t(2) reach_def)
  have "state_ok nfa n ?ss (bd_states bd ! t)" by (rule bd_okD(5)[OF ok t(1)])
  moreover note accept_for_spec[OF sub, unfolded accs marks]
  moreover have "least (\<lambda>r. set_accepts nfa (set ?ss) r \<and> P r) k = least (\<lambda>r. accepts nfa p w (nat r) \<and> P r) k" for P k
    by (rule least_cong) (simp add: acc)
  ultimately show ?thesis by (simp add: describes_def state_ok_def)
qed

lemma dfa_run_sets:
  assumes ok: "nfa_ok nfa" and b: "built nfa dfa bd" and c: "c < length (nfa_cond_names nfa)"
  shows "case run_from (dfa_delta dfa) (dfa_start_of dfa c bol) w of
      None \<Rightarrow> reach (nfa_states nfa) (start_of nfa c bol) w = {}
    | Some t \<Rightarrow> live bd t \<and> set (set_of bd t) = reach (nfa_states nfa) (start_of nfa c bol) w"
proof -
  let ?m = "(nfa, dfa, bd)" and ?S = "nfa_states nfa" and ?p = "start_of nfa c bol"
  let ?s = "dfa_start_of dfa c bol"
  have "start_ok ?S bd (nfa_cond_starts nfa ! c) (dfa_cond_starts dfa ! c)"
    using b c nfa_ok_conds[OF ok] by (auto simp: built_def list_all2_conv_all_nth)
  then have s: "live bd ?s" "set_of bd ?s = eps_closure ?S [?p]"
    by (auto simp: start_ok_def dfa_start_of_def start_of_def)
  have "?p < length ?S" using start_of_less[OF ok c] nfa_ok_starts[OF ok] by (meson less_le_trans)
  then have m: "set (set_of bd ?s) = reach ?S ?p []"
    using set_eps_closure[OF nfa_ok_in_range[OF ok], of "[?p]"] by (simp add: s(2) reach_Nil)
  have "table_ok ?m" "?s \<in> table_ids ?m" using ok b s(1) by (simp_all add: table_defs)
  from dense.run_table[OF this, of w]
  show ?thesis by (simp add: table_defs m foldl_move split: option.splits)
qed

lemma dfa_run:
  assumes ok: "nfa_ok nfa" and b: "built nfa dfa bd" and c: "c < length (nfa_cond_names nfa)"
  shows "case run_from (dfa_delta dfa) (dfa_start_of dfa c bol) w of
      None \<Rightarrow> reach (nfa_states nfa) (start_of nfa c bol) w = {}
    | Some t \<Rightarrow> live bd t \<and> describes nfa (start_of nfa c bol) w (dfa_states dfa ! t)"
proof -
  note r = dfa_run_sets[OF ok b c, of bol w]
  let ?s = "dfa_start_of dfa c bol" and ?S = "nfa_states nfa" and ?p = "start_of nfa c bol"
  show ?thesis
  proof (cases "run_from (dfa_delta dfa) ?s w")
    case None
    with r show ?thesis by simp
  next
    case (Some t)
    with r have "live bd t" "set (set_of bd t) = reach ?S ?p w" by simp_all
    moreover from this b have "describes nfa ?p w (dfa_states dfa ! t)"
      using state_describes by (auto simp: built_def)
    ultimately show ?thesis using Some by simp
  qed
qed

text \<open>A state that is not dead stands for at least one NFA state.\<close>

lemma dfa_run_nonempty:
  assumes ok: "nfa_ok nfa" and b: "built nfa dfa bd" and c: "c < length (nfa_cond_names nfa)"
    and run: "run_from (dfa_delta dfa) (dfa_start_of dfa c bol) w = Some t"
  shows "reach (nfa_states nfa) (start_of nfa c bol) w \<noteq> {}"
  using run
proof (induction w arbitrary: t rule: rev_induct)
  case Nil
  then show ?case by (auto simp: reach_def)
next
  case (snoc x w)
  obtain s where s: "run_from (dfa_delta dfa) (dfa_start_of dfa c bol) w = Some s" "dfa_delta dfa s x > 0"
    using snoc.prems by (auto simp: run_from_snoc split: option.splits if_splits)
  have "live bd s" "set (set_of bd s) = reach (nfa_states nfa) (start_of nfa c bol) w"
    using dfa_run_sets[OF ok b c, of bol w] s(1) by simp_all
  with dense_delta_cases[OF ok b this(1), of x] s(2) show ?case
    by (auto simp: reach_snoc split: if_splits)
qed

section \<open>From the rules of a specification to the table\<close>

definition spec_nfa :: "string list \<Rightarrow> nat list \<Rightarrow> pattern_rule list \<Rightarrow> nfa" where
  "spec_nfa names excl rs = add_patterns rs 0 (init_nfa empty_nfa names excl)"

text \<open>Rule \<open>r\<close> matches \<open>w\<close> in condition \<open>c\<close>, at the beginning of a line or not.\<close>

definition rule_matches ::
    "string list \<Rightarrow> nat list \<Rightarrow> pattern_rule list \<Rightarrow> nat \<Rightarrow> bool \<Rightarrow> byte list \<Rightarrow> nat \<Rightarrow> bool" where
  "rule_matches names excl rs c bol w r \<longleftrightarrow> r < length rs \<and>
     rule_active (init_nfa empty_nfa names excl) (rs ! r) c bol \<and> w \<in> rule_lang (rs ! r)"

definition rule_marks ::
    "string list \<Rightarrow> nat list \<Rightarrow> pattern_rule list \<Rightarrow> nat \<Rightarrow> bool \<Rightarrow> byte list \<Rightarrow> nat \<Rightarrow> bool" where
  "rule_marks names excl rs c bol w r \<longleftrightarrow> r < length rs \<and>
     rule_active (init_nfa empty_nfa names excl) (rs ! r) c bol \<and> w \<in> rule_head (rs ! r)"

definition spec_ok :: "string list \<Rightarrow> nat list \<Rightarrow> pattern_rule list \<Rightarrow> bool" where
  "spec_ok names excl rs \<longleftrightarrow> length excl = length names \<and> list_all (rule_ok (length names)) rs"

lemma init_conds_frame:
  "nfa_cond_starts (init_nfa empty_nfa names excl) = map (\<lambda>i. \<lparr>cs_normal = 2 * i, cs_bol = 2 * i + 1\<rparr>) [0..<length names]"
  "nfa_rule_bol (init_nfa empty_nfa names excl) = []" "nfa_rule_eol (init_nfa empty_nfa names excl) = []"
  "nfa_rule_trail (init_nfa empty_nfa names excl) = []"
  "nfa_rule_boundary_states (init_nfa empty_nfa names excl) = []"
  by (simp_all add: init_nfa_def init_conds_eq empty_nfa_def)

lemma spec_nfa_adds:
  assumes "spec_ok names excl rs"
  shows "adds rs (init_nfa empty_nfa names excl) (spec_nfa names excl rs)"
proof -
  have "nfa_ok (init_nfa empty_nfa names excl)"
    by (rule init_nfa_ok) (use assms in \<open>simp_all add: spec_ok_def empty_nfa_def\<close>)
  then show ?thesis
    using adds_patterns[of "init_nfa empty_nfa names excl" rs 0] assms
    by (simp add: spec_ok_def spec_nfa_def init_nfa_conds init_conds_frame)
qed

lemma spec_nfa_spec:
  assumes ok: "spec_ok names excl rs" and c: "c < length names"
  shows "nfa_ok (spec_nfa names excl rs)" "nfa_cond_names (spec_nfa names excl rs) = names"
    "nfa_rule_eol (spec_nfa names excl rs) = map (\<lambda>r. if rule_is_eol r then 1 else 0) rs"
    "accepts (spec_nfa names excl rs) (start_of (spec_nfa names excl rs) c bol) w r \<longleftrightarrow>
      rule_matches names excl rs c bol w r"
    "marked (spec_nfa names excl rs) (start_of (spec_nfa names excl rs) c bol) w r \<longleftrightarrow>
      rule_marks names excl rs c bol w r"
proof -
  note a = spec_nfa_adds[OF ok, unfolded adds_def]
  have st: "start_of (spec_nfa names excl rs) = start_of (init_nfa empty_nfa names excl)"
    using a start_of_cong by blast
  show "nfa_ok (spec_nfa names excl rs)" using a by blast
  show "nfa_cond_names (spec_nfa names excl rs) = names"
    "nfa_rule_eol (spec_nfa names excl rs) = map (\<lambda>r. if rule_is_eol r then 1 else 0) rs"
    using a by (simp_all add: same_conds_def init_nfa_conds init_conds_frame)
  show "accepts (spec_nfa names excl rs) (start_of (spec_nfa names excl rs) c bol) w r \<longleftrightarrow>
      rule_matches names excl rs c bol w r"
    "marked (spec_nfa names excl rs) (start_of (spec_nfa names excl rs) c bol) w r \<longleftrightarrow>
      rule_marks names excl rs c bol w r"
    using a c by (simp_all add: st init_nfa_conds init_conds_frame init_nfa_accepts rule_at_def
        rule_matches_def rule_marks_def marked_def)
qed

section \<open>Properties\<close>

text \<open>The worklist loop of \<open>build_dfa\<close> ends on every well-formed automaton, with and
without byte classes, so a table is returned.\<close>

theorem build_dfa_terminates:
  assumes "nfa_ok nfa"
  shows "\<exists>dfa. build_dfa nfa use_eclasses compute_meta = Some dfa"
  using build_dfa_built[OF assms] by metis

lemma build_dfa_terminates_witness:
  "\<exists>dfa. build_dfa (init_nfa empty_nfa [''INITIAL''] [0]) True True = Some dfa"
  by (rule build_dfa_terminates, rule init_nfa_ok) (simp_all add: empty_nfa_def)

text \<open>C6. Subset construction: running the table from the start state of a condition over a
string leads to the dead state exactly if the NFA has no state left, and otherwise to the
state whose accepting rules, smallest rules and boundary rules are those of the NFA after
that string.\<close>

theorem build_dfa_simulates:
  assumes "nfa_ok nfa" "build_dfa nfa use_eclasses compute_meta = Some dfa" "c < length (nfa_cond_names nfa)"
  shows "case run_from (dfa_delta dfa) (dfa_start_of dfa c bol) w of
      None \<Rightarrow> \<forall>q. \<not> path (estep (nfa_states nfa)) (start_of nfa c bol) w q
    | Some t \<Rightarrow> (\<exists>q. path (estep (nfa_states nfa)) (start_of nfa c bol) w q) \<and>
        describes nfa (start_of nfa c bol) w (dfa_states dfa ! t)"
proof -
  obtain bd where b: "built nfa dfa bd"
    using build_dfa_built[OF assms(1)] assms(2) by (metis option.inject)
  show ?thesis
    using dfa_run[OF assms(1) b assms(3), of bol w] dfa_run_nonempty[OF assms(1) b assms(3), of bol w]
    by (auto simp: reach_def split: option.splits)
qed

lemma build_dfa_simulates_witness:
  "\<exists>dfa. build_dfa (init_nfa empty_nfa [''INITIAL''] [0]) False False = Some dfa \<and>
     run_from (dfa_delta dfa) (dfa_start_of dfa 0 True) [97] = None"
proof -
  let ?N = "init_nfa empty_nfa [''INITIAL''] [0]"
  have ok: "nfa_ok ?N" by (rule init_nfa_ok) (simp_all add: empty_nfa_def)
  obtain dfa bd where d: "build_dfa ?N False False = Some dfa" "built ?N dfa bd" by (rule build_dfa_built[OF ok])
  have "estep (nfa_states ?N) = (\<lambda>p l x. False)"
    using init_graph(4)[of 2] by (simp add: init_nfa_def init_conds_eq empty_nfa_def numeral_2_eq_2)
  then have "\<not> path (estep (nfa_states ?N)) p [97] q" for p q by (auto elim: path_cases)
  with build_dfa_simulates[OF ok d(1), of 0 True "[97]"]
  have "run_from (dfa_delta dfa) (dfa_start_of dfa 0 True) [97] = None"
    by (auto simp: init_nfa_conds split: option.splits)
  with d(1) show ?thesis by blast
qed

end
