(* ===== verification/Comb.thy ===== *)
theory Comb
  imports Dfa_Correct "HOL-Library.Multiset"
begin

text \<open>
  Row-displacement compression, \<open>compress_dfa\<close> of \<open>src/src/dfa.cpp\<close>, and the lookup
  macro the generator emits for the compressed table (\<open>YY_TRANSITION\<close> in
  \<open>codegen.cpp\<close>). The states are packed in an order that \<open>std::sort\<close> leaves open
  between states with equally many transitions, so the packing is proved correct for every
  permutation of them.
\<close>

section \<open>The code\<close>

record compressed_dfa =
  cd_base :: "int list"
  cd_def :: "int list"
  cd_nxt :: "int list"
  cd_chk :: "int list"
  cd_pool_size :: nat

type_synonym exc_list = "(nat \<times> int) list"

text \<open>The exceptions of a state: its classes with a live target. The dead state has none.\<close>

definition exceptions :: "dfa \<Rightarrow> nat \<Rightarrow> exc_list" where
  "exceptions dfa s =
     (if s = 0 then []
      else filter (\<lambda>(cl, t). t > 0)
             (map (\<lambda>cl. (cl, d_next (dfa_states dfa ! s) ! cl)) [0..<dfa_nclasses dfa]))"

definition pack_candidates :: "dfa \<Rightarrow> nat list" where
  "pack_candidates dfa = filter (\<lambda>s. exceptions dfa s \<noteq> []) [1..<length (dfa_states dfa)]"

definition fits_at :: "int list \<Rightarrow> nat \<Rightarrow> exc_list \<Rightarrow> bool" where
  "fits_at chk base se \<longleftrightarrow>
     list_all (\<lambda>(cl, t). \<not> (base + cl < length chk \<and> chk ! (base + cl) \<noteq> -1)) se"

definition resize :: "'a list \<Rightarrow> nat \<Rightarrow> 'a \<Rightarrow> 'a list" where
  "resize xs n v = take n xs @ replicate (n - length xs) v"

definition write_row :: "nat \<Rightarrow> nat \<Rightarrow> exc_list \<Rightarrow> int list \<times> int list \<Rightarrow> int list \<times> int list" where
  "write_row s base = fold (\<lambda>(cl, t) (chk, nxt). (chk[base + cl := int s], nxt[base + cl := t]))"

definition place_at :: "nat \<Rightarrow> nat \<Rightarrow> exc_list \<Rightarrow> int list \<times> int list \<Rightarrow> int list \<times> int list" where
  "place_at s base se pool =
     (case pool of (chk, nxt) \<Rightarrow>
        let hi = fold (\<lambda>(cl, t) hi. max hi (base + cl + 1)) se 0;
            (chk, nxt) = (if hi > length chk then (resize chk hi (-1), resize nxt hi 0) else (chk, nxt))
        in write_row s base se (chk, nxt))"

text \<open>The search for the lowest base; the loop runs one past the end of the pool.\<close>

definition find_base :: "int list \<Rightarrow> exc_list \<Rightarrow> nat" where
  "find_base chk se =
     (case find (\<lambda>base. fits_at chk base se) [0..<length chk + 1] of None \<Rightarrow> 0 | Some base \<Rightarrow> base)"

definition pack_state :: "dfa \<Rightarrow> nat \<Rightarrow> int list \<times> int list \<times> int list \<Rightarrow> int list \<times> int list \<times> int list" where
  "pack_state dfa s st =
     (case st of (base, chk, nxt) \<Rightarrow>
        let se = exceptions dfa s; best = find_base chk se;
            (chk, nxt) = place_at s best se (chk, nxt)
        in (base[s := int best], chk, nxt))"

definition compress_in_order :: "nat list \<Rightarrow> dfa \<Rightarrow> compressed_dfa" where
  "compress_in_order order dfa =
     (let nstates = length (dfa_states dfa); nclasses = dfa_nclasses dfa;
          (base, chk, nxt) = fold (pack_state dfa) order
            (replicate nstates 0, replicate nclasses (-1), replicate nclasses 0);
          max_base = fold (\<lambda>v m. if v > m then v else m) base 0;
          needed = max (nat max_base + nclasses) (length chk)
      in \<lparr>cd_base = base, cd_def = replicate nstates 0, cd_nxt = resize nxt needed 0,
          cd_chk = resize chk needed (-1), cd_pool_size = needed\<rparr>)"

text \<open>\<open>std::sort\<close> by decreasing number of exceptions, here with a stable sort.\<close>

definition pack_order :: "dfa \<Rightarrow> nat list" where
  "pack_order dfa = sort_key (\<lambda>s. - int (length (exceptions dfa s))) (pack_candidates dfa)"

definition compress_dfa :: "dfa \<Rightarrow> compressed_dfa" where
  "compress_dfa dfa = compress_in_order (pack_order dfa) dfa"

text \<open>The emitted macro.\<close>

definition yy_transition :: "eclasses \<Rightarrow> compressed_dfa \<Rightarrow> nat \<Rightarrow> byte \<Rightarrow> int" where
  "yy_transition ec cd s b =
     (let i = nat (cd_base cd ! s) + ub (ec_map ec ! ub b)
      in if cd_chk cd ! i = int s then cd_nxt cd ! i else -1)"

section \<open>Packing\<close>

lemma length_resize [simp]: "length (resize xs n v) = n"
  by (simp add: resize_def)

lemma nth_resize: "i < n \<Longrightarrow> resize xs n v ! i = (if i < length xs then xs ! i else v)"
  by (auto simp: resize_def nth_append)

lemma exceptions_mem:
  "(cl, t) \<in> set (exceptions dfa s) \<longleftrightarrow>
     s \<noteq> 0 \<and> cl < dfa_nclasses dfa \<and> t = d_next (dfa_states dfa ! s) ! cl \<and> t > 0"
  by (auto simp: exceptions_def)

lemma exceptions_distinct: "distinct (map fst (exceptions dfa s))"
proof -
  have "distinct (map fst (filter P (map (\<lambda>cl. (cl, f cl)) [0..<n])))" for P and f :: "nat \<Rightarrow> int" and n
    by (rule distinct_map_filter) (simp add: o_def)
  then show ?thesis by (simp add: exceptions_def)
qed

text \<open>The pool always has room: at its end every row fits.\<close>

lemma find_base_fits: "fits_at chk (find_base chk se) se"
proof -
  have "fits_at chk (length chk) se" by (auto simp: fits_at_def list_all_iff)
  then obtain base where f: "find (\<lambda>base. fits_at chk base se) [0..<length chk + 1] = Some base"
    by (metis (no_types, lifting) find_None_iff2 not_None_eq atLeastLessThan_iff set_upt less_add_one zero_le)
  then have "fits_at chk base se" by (auto simp: find_Some_iff simp del: upt_Suc)
  with f show ?thesis by (simp add: find_base_def del: upt_Suc)
qed

lemma hi_bound:
  "fold (\<lambda>(cl, t) hi. max hi (base + cl + 1)) se h \<ge> h \<and>
   (\<forall>(cl, t)\<in>set se. base + cl < fold (\<lambda>(cl, t) hi. max hi (base + cl + 1)) se h)"
  for h :: nat and se :: exc_list
proof (induction se arbitrary: h)
  case (Cons x se)
  obtain cl t where x: "x = (cl, t)" by fastforce
  define hi where "hi = fold (\<lambda>(cl, t) hi. max hi (base + cl + 1)) se (max h (base + cl + 1))"
  have "fold (\<lambda>(cl, t) hi. max hi (base + cl + 1)) (x # se) h = hi" by (simp add: x hi_def)
  moreover have "max h (base + cl + 1) \<le> hi" "\<forall>(cl, t)\<in>set se. base + cl < hi"
    using Cons.IH[of "max h (base + cl + 1)"] unfolding hi_def by blast+
  ultimately show ?case by (simp add: x)
qed simp

definition row_at :: "nat \<Rightarrow> exc_list \<Rightarrow> nat set" where
  "row_at base se = (\<lambda>(cl, t). base + cl) ` set se"

lemma write_row_spec:
  assumes "distinct (map fst se)" "row_at base se \<subseteq> {..<length chk}" "length nxt = length chk"
    and "write_row s base se (chk, nxt) = (chk', nxt')"
  shows "length chk' = length chk \<and> length nxt' = length chk \<and>
    (\<forall>(cl, t)\<in>set se. chk' ! (base + cl) = int s \<and> nxt' ! (base + cl) = t) \<and>
    (\<forall>i. i \<notin> row_at base se \<longrightarrow> chk' ! i = chk ! i \<and> nxt' ! i = nxt ! i)"
  using assms
proof (induction se arbitrary: chk nxt)
  case Nil
  then show ?case by (simp add: write_row_def)
next
  case (Cons x se)
  obtain cl t where x: "x = (cl, t)" by fastforce
  let ?chk = "chk[base + cl := int s]" and ?nxt = "nxt[base + cl := t]"
  have w: "write_row s base se (?chk, ?nxt) = (chk', nxt')"
    using Cons.prems(4) by (simp add: x write_row_def)
  have "row_at base se \<subseteq> {..<length ?chk}" "length ?nxt = length ?chk" "distinct (map fst se)"
    using Cons.prems by (auto simp: row_at_def)
  note ih = Cons.IH[OF this(3,1,2) w]
  have cl: "base + cl \<notin> row_at base se" "base + cl < length chk"
    using Cons.prems(1,2) by (auto simp: x row_at_def rev_image_eqI)
  have un: "row_at base (x # se) = insert (base + cl) (row_at base se)" by (simp add: x row_at_def)
  from ih cl Cons.prems(3) have "chk' ! (base + cl) = int s \<and> nxt' ! (base + cl) = t" by simp
  with ih show ?case unfolding un by (simp add: x)
qed

text \<open>
  The invariant of the packing loop, for the states \<open>P\<close> already placed: every row is in
  the pool at its base, and every occupied slot belongs to one of these rows.
\<close>

definition packed :: "dfa \<Rightarrow> nat set \<Rightarrow> int list \<Rightarrow> int list \<Rightarrow> int list \<Rightarrow> bool" where
  "packed dfa P base chk nxt \<longleftrightarrow>
     length base = length (dfa_states dfa) \<and> length nxt = length chk \<and>
     (\<forall>s. base ! s \<ge> 0 \<or> s \<ge> length base) \<and>
     (\<forall>s\<in>P. \<forall>(cl, t)\<in>set (exceptions dfa s). nat (base ! s) + cl < length chk \<and>
        chk ! (nat (base ! s) + cl) = int s \<and> nxt ! (nat (base ! s) + cl) = t) \<and>
     (\<forall>i<length chk. chk ! i = -1 \<or> (\<exists>s\<in>P. chk ! i = int s \<and>
        i \<in> row_at (nat (base ! s)) (exceptions dfa s)))"

lemma place_at_spec:
  assumes fit: "fits_at chk base se" and len: "length nxt = length chk" and d: "distinct (map fst se)"
    and p: "place_at s base se (chk, nxt) = (chk', nxt')"
  shows "length chk \<le> length chk' \<and> length nxt' = length chk' \<and>
    (\<forall>(cl, t)\<in>set se. base + cl < length chk' \<and> chk' ! (base + cl) = int s \<and> nxt' ! (base + cl) = t) \<and>
    (\<forall>i<length chk'. i \<notin> row_at base se \<longrightarrow>
       (if i < length chk then chk' ! i = chk ! i \<and> nxt' ! i = nxt ! i else chk' ! i = -1)) \<and>
    (\<forall>i<length chk. i \<in> row_at base se \<longrightarrow> chk ! i = -1)"
proof -
  define hi where "hi = fold (\<lambda>(cl, t) hi. max hi (base + cl + 1)) se 0"
  define c1 n1 where "c1 = (if hi > length chk then resize chk hi (-1) else chk)"
    and "n1 = (if hi > length chk then resize nxt hi 0 else nxt)"
  have w: "write_row s base se (c1, n1) = (chk', nxt')"
    using p by (auto simp: place_at_def Let_def hi_def c1_def n1_def split: if_splits)
  have len1: "length n1 = length c1" "length chk \<le> length c1" "hi \<le> length c1"
    using len by (auto simp: c1_def n1_def)
  have row: "row_at base se \<subseteq> {..<length c1}"
    using hi_bound[where base = base and se = se and h = 0] len1(3) unfolding hi_def[symmetric] by (fastforce simp: row_at_def)
  have old: "i < length chk \<Longrightarrow> c1 ! i = chk ! i \<and> n1 ! i = nxt ! i"
    and new: "i < length c1 \<Longrightarrow> \<not> i < length chk \<Longrightarrow> c1 ! i = -1" for i
    using len by (auto simp: c1_def n1_def nth_resize split: if_splits)
  have free: "i < length chk \<Longrightarrow> i \<in> row_at base se \<Longrightarrow> chk ! i = -1" for i
    using fit by (auto simp: fits_at_def list_all_iff row_at_def)
  from write_row_spec[OF d row len1(1) w] len1(2) old new free row show ?thesis
    by (auto simp: row_at_def image_subset_iff)
qed

lemma pack_state_ok:
  assumes ok: "packed dfa P base chk nxt" and s: "s < length (dfa_states dfa)" "s \<notin> P"
    and st: "pack_state dfa s (base, chk, nxt) = (base', chk', nxt')"
  shows "packed dfa (insert s P) base' chk' nxt'" "length chk \<le> length chk'"
proof -
  let ?se = "exceptions dfa s"
  define b where "b = find_base chk ?se"
  have len: "length nxt = length chk" "length base = length (dfa_states dfa)" using ok by (simp_all add: packed_def)
  have b': "base' = base[s := int b]" and pl: "place_at s b ?se (chk, nxt) = (chk', nxt')"
    using st by (auto simp: pack_state_def Let_def b_def split: prod.splits)
  note p = place_at_spec[OF find_base_fits len(1) exceptions_distinct pl[unfolded b_def], folded b_def]
  show "length chk \<le> length chk'" using p by simp
  have bs: "base' ! s = int b" "\<And>k. k \<noteq> s \<Longrightarrow> base' ! k = base ! k" using s len(2) by (simp_all add: b')
  have sP: "k \<in> P \<Longrightarrow> base' ! k = base ! k" for k using s(2) bs(2) by metis
  have keep: "chk' ! i = int k \<and> nxt' ! i = t" if "i < length chk" "chk ! i = int k" "nxt ! i = t" for i k t
  proof -
    have "i \<notin> row_at b ?se" using p that(1,2) by force
    with p that show ?thesis by auto
  qed
  have rows: "nat (base' ! k) + cl < length chk' \<and> chk' ! (nat (base' ! k) + cl) = int k \<and>
      nxt' ! (nat (base' ! k) + cl) = t"
    if "k \<in> insert s P" "(cl, t) \<in> set (exceptions dfa k)" for k cl t
  proof (cases "k = s")
    case True
    with that(2) p bs(1) show ?thesis by auto
  next
    case False
    with that have kP: "k \<in> P" by simp
    with ok that(2) have *: "nat (base ! k) + cl < length chk" "chk ! (nat (base ! k) + cl) = int k"
      "nxt ! (nat (base ! k) + cl) = t" by (auto simp: packed_def)
    from keep[OF *] *(1) p show ?thesis by (simp add: sP[OF kP])
  qed
  have occ: "chk' ! i = -1 \<or> (\<exists>k\<in>insert s P. chk' ! i = int k \<and> i \<in> row_at (nat (base' ! k)) (exceptions dfa k))"
    if i: "i < length chk'" for i
  proof (cases "i \<in> row_at b ?se")
    case True
    with p have "chk' ! i = int s" by (auto simp: row_at_def)
    with True bs(1) show ?thesis by simp
  next
    case False
    show ?thesis
    proof (cases "i < length chk")
      case True
      with False i p have "chk' ! i = chk ! i" by simp
      moreover have "chk ! i = -1 \<or> (\<exists>k\<in>P. chk ! i = int k \<and> i \<in> row_at (nat (base ! k)) (exceptions dfa k))"
        using ok True by (simp add: packed_def)
      ultimately show ?thesis using sP by auto
    qed (use False i p in simp)
  qed
  have "base' ! k \<ge> 0 \<or> k \<ge> length base'" for k
    using ok bs by (cases "k = s") (auto simp: packed_def b')
  with rows occ p len show "packed dfa (insert s P) base' chk' nxt'"
    unfolding packed_def by (auto simp: b')
qed

lemma pack_all_ok:
  assumes "packed dfa P base chk nxt" "distinct order" "set order \<inter> P = {}"
    and "\<And>s. s \<in> set order \<Longrightarrow> s < length (dfa_states dfa)"
    and "fold (pack_state dfa) order (base, chk, nxt) = (base', chk', nxt')"
  shows "packed dfa (P \<union> set order) base' chk' nxt' \<and> length chk \<le> length chk'"
  using assms
proof (induction order arbitrary: P base chk nxt)
  case (Cons s order)
  obtain b1 c1 n1 where one: "pack_state dfa s (base, chk, nxt) = (b1, c1, n1)" by (metis prod_cases3)
  have s: "s < length (dfa_states dfa)" "s \<notin> P" using Cons.prems by auto
  note st = pack_state_ok[OF Cons.prems(1) s one]
  have "packed dfa (insert s P \<union> set order) base' chk' nxt' \<and> length c1 \<le> length chk'"
    by (rule Cons.IH[OF st(1)]) (use Cons.prems one in auto)
  with st(2) show ?case by simp
qed simp

lemma max_fold: "v \<in> set base \<Longrightarrow> v \<le> fold (\<lambda>v m. if v > m then v else m) base k"
  "k \<le> fold (\<lambda>v m. if v > m then v else m) base k" for k :: int
proof (induction base arbitrary: k)
  case (Cons x base)
  {
    case 1
    then show ?case using Cons.IH[of "if x > k then x else k"] by (auto split: if_splits)
  next
    case 2
    show ?case using Cons.IH(2)[of "if x > k then x else k"] by (auto split: if_splits)
  }
qed simp_all

text \<open>The compressed table is the dense one, for any order of packing.\<close>

lemma compress_lookup:
  assumes order: "mset order = mset (pack_candidates dfa)"
    and s: "s < length (dfa_states dfa)" and cl: "cl < dfa_nclasses dfa"
  defines "cd \<equiv> compress_in_order order dfa"
  defines "i \<equiv> nat (cd_base cd ! s) + cl"
  shows "i < cd_pool_size cd" "length (cd_chk cd) = cd_pool_size cd" "length (cd_nxt cd) = cd_pool_size cd"
    "if s \<noteq> 0 \<and> d_next (dfa_states dfa ! s) ! cl > 0
     then cd_chk cd ! i = int s \<and> cd_nxt cd ! i = d_next (dfa_states dfa ! s) ! cl
     else cd_chk cd ! i \<noteq> int s"
proof -
  let ?ns = "length (dfa_states dfa)" and ?nc = "dfa_nclasses dfa"
  obtain base chk nxt where f: "fold (pack_state dfa) order (replicate ?ns 0, replicate ?nc (-1), replicate ?nc 0)
      = (base, chk, nxt)" by (metis prod_cases3)
  have mem: "set order = set (pack_candidates dfa)" "distinct order"
    using order by (metis mset_eq_setD, metis distinct_filter distinct_upt mset_eq_imp_distinct_iff pack_candidates_def)
  have "packed dfa {} (replicate ?ns 0) (replicate ?nc (-1)) (replicate ?nc 0)"
    by (auto simp: packed_def not_le)
  then have "packed dfa ({} \<union> set order) base chk nxt \<and> length (replicate ?nc (-1 :: int)) \<le> length chk"
    by (rule pack_all_ok[OF _ mem(2) _ _ f]) (simp_all add: mem(1) pack_candidates_def)
  then have pk: "packed dfa (set order) base chk nxt" and nc: "?nc \<le> length chk" by simp_all
  let ?max = "fold (\<lambda>v m. if v > m then v else m) base 0"
  define needed where "needed = max (nat ?max + ?nc) (length chk)"
  have cd: "cd = \<lparr>cd_base = base, cd_def = replicate ?ns 0, cd_nxt = resize nxt needed 0,
      cd_chk = resize chk needed (-1), cd_pool_size = needed\<rparr>"
    by (simp add: cd_def compress_in_order_def Let_def f needed_def)
  show "length (cd_chk cd) = cd_pool_size cd" "length (cd_nxt cd) = cd_pool_size cd" by (simp_all add: cd)
  have "base ! s \<le> ?max" using s pk max_fold(1)[of "base ! s" base 0] by (simp add: packed_def)
  then show pool: "i < cd_pool_size cd" using cl by (simp add: i_def cd needed_def)
  have chk: "cd_chk cd ! i = (if i < length chk then chk ! i else -1)"
    and nxt: "cd_nxt cd ! i = (if i < length chk then nxt ! i else 0)"
    using pool pk by (simp_all add: cd nth_resize packed_def)
  have i: "i = nat (base ! s) + cl" by (simp add: i_def cd)
  show "if s \<noteq> 0 \<and> d_next (dfa_states dfa ! s) ! cl > 0
     then cd_chk cd ! i = int s \<and> cd_nxt cd ! i = d_next (dfa_states dfa ! s) ! cl
     else cd_chk cd ! i \<noteq> int s"
  proof (cases "s \<noteq> 0 \<and> d_next (dfa_states dfa ! s) ! cl > 0")
    case True
    then have e: "(cl, d_next (dfa_states dfa ! s) ! cl) \<in> set (exceptions dfa s)"
      using cl by (simp add: exceptions_mem)
    then have "exceptions dfa s \<noteq> []" by force
    with s True have "s \<in> set (pack_candidates dfa)" by (simp add: pack_candidates_def)
    then have "s \<in> set order" by (simp only: mem(1))
    with pk have "\<forall>(cl, t)\<in>set (exceptions dfa s). nat (base ! s) + cl < length chk \<and>
        chk ! (nat (base ! s) + cl) = int s \<and> nxt ! (nat (base ! s) + cl) = t"
      by (simp add: packed_def)
    from bspec[OF this e] have "i < length chk \<and> chk ! i = int s \<and> nxt ! i = d_next (dfa_states dfa ! s) ! cl"
      by (simp add: i)
    with True show ?thesis by (simp add: chk nxt)
  next
    case False
    have "cd_chk cd ! i \<noteq> int s"
    proof
      assume eq: "cd_chk cd ! i = int s"
      then have il: "i < length chk" "chk ! i = int s" by (auto simp: chk split: if_splits)
      then have "chk ! i \<noteq> -1" by simp
      with pk il(1) obtain k where "k \<in> set order" "chk ! i = int k"
        "i \<in> row_at (nat (base ! k)) (exceptions dfa k)"
        unfolding packed_def by blast
      with il have "i \<in> row_at (nat (base ! s)) (exceptions dfa s)" by simp
      then have "\<exists>t. (cl, t) \<in> set (exceptions dfa s)" by (auto simp: row_at_def i)
      with False show False by (auto simp: exceptions_mem)
    qed
    with False show ?thesis by simp
  qed
qed

section \<open>The compressed table meets the contract\<close>

lemma pack_order_perm: "mset (pack_order dfa) = mset (pack_candidates dfa)"
  by (simp add: pack_order_def)

lemma live_in_table:
  assumes "built nfa dfa bd" "live bd s"
  shows "s < length (dfa_states dfa)" "s \<noteq> 0"
  using assms bd_okD(1) by (auto simp: built_def live_def)

lemma class_in_table:
  assumes "built nfa dfa bd"
  shows "ub (ec_map (dfa_eclasses dfa) ! ub b) < dfa_nclasses dfa"
  using assms ec_ok_less[of "ec_map (dfa_eclasses dfa)" "ec_n (dfa_eclasses dfa)" "ub b"]
  by (simp add: built_def classes_ok_def)

lemma transition_eq:
  assumes b: "built nfa dfa bd" and s: "live bd s" and order: "mset order = mset (pack_candidates dfa)"
  shows "yy_transition (dfa_eclasses dfa) (compress_in_order order dfa) s c =
    (if dfa_delta dfa s c > 0 then dfa_delta dfa s c else -1)"
  using compress_lookup(4)[OF order live_in_table(1)[OF b s] class_in_table[OF b], of c] live_in_table(2)[OF b s]
  by (auto simp: yy_transition_def Let_def dfa_delta_def split: if_splits)

definition comb_delta :: "table \<Rightarrow> nat \<Rightarrow> byte \<Rightarrow> int" where
  "comb_delta m = (case m of (nfa, dfa, bd) \<Rightarrow> yy_transition (dfa_eclasses dfa) (compress_dfa dfa))"

lemma comb_dense:
  assumes "table_ok m" "s \<in> table_ids m"
  shows "comb_delta m s b = (if dense_delta m s b > 0 then dense_delta m s b else -1)"
proof -
  obtain nfa dfa bd where m: "m = (nfa, dfa, bd)" by (metis prod_cases3)
  with assms have "built nfa dfa bd" "live bd s" by (simp_all add: table_defs)
  from transition_eq[OF this pack_order_perm] show ?thesis
    by (simp add: m dense_delta_def comb_delta_def compress_dfa_def)
qed

interpretation comb: table_automaton table_ok comb_delta table_ids table_sets table_moves
  by unfold_locales (auto simp: comb_dense dense.succs_empty dense.dead dense.live split: if_splits)

text \<open>Running the compressed table is running the dense one.\<close>

lemma comb_run:
  assumes ok: "table_ok m" and s: "s \<in> table_ids m"
  shows "run_from (comb_delta m) s w = run_from (dense_delta m) s w"
  using s
proof (induction w arbitrary: s)
  case (Cons b w)
  then show ?case using comb_dense[OF ok Cons.prems, of b] dense.live[OF ok Cons.prems, of b] by auto
qed simp

section \<open>Properties\<close>

text \<open>C35. Compression is exact and in bounds, whatever order \<open>std::sort\<close> leaves states with
equally many transitions in: for every state and class the looked-up position lies in the pool,
and it holds the state's mark and target if the dense table has a live target there, and
another mark otherwise.\<close>

theorem compressed_lookup_exact:
  assumes "mset order = mset (pack_candidates dfa)"
    and "s < length (dfa_states dfa)" "cl < dfa_nclasses dfa"
    and "cd = compress_in_order order dfa" "i = nat (cd_base cd ! s) + cl"
  shows "i < cd_pool_size cd \<and> length (cd_chk cd) = cd_pool_size cd \<and> length (cd_nxt cd) = cd_pool_size cd \<and>
    (if s \<noteq> 0 \<and> d_next (dfa_states dfa ! s) ! cl > 0
     then cd_chk cd ! i = int s \<and> cd_nxt cd ! i = d_next (dfa_states dfa ! s) ! cl
     else cd_chk cd ! i \<noteq> int s)"
  using compress_lookup[OF assms(1-3)] assms(4,5) by simp

text \<open>A table with one live state that loops on its only class.\<close>

definition loop_dfa :: dfa where
  "loop_dfa = \<lparr>dfa_states = [blank_state 1, (blank_state 1)\<lparr>d_next := [1]\<rparr>], dfa_cond_starts = [],
     dfa_eclasses = \<lparr>ec_map = replicate 256 0, ec_n = 1\<rparr>, dfa_nclasses = 1, dfa_meta = [], dfa_nmeta = 0\<rparr>"

lemma compressed_lookup_exact_witness:
  "cd_nxt (compress_dfa loop_dfa) ! nat (cd_base (compress_dfa loop_dfa) ! 1) = 1"
proof -
  have l: "length (dfa_states loop_dfa) = 2" "dfa_nclasses loop_dfa = 1" "d_next (dfa_states loop_dfa ! 1) ! 0 = 1"
    by (simp_all add: loop_dfa_def)
  show ?thesis
    using compressed_lookup_exact[OF pack_order_perm[of loop_dfa], of 1 0 "compress_dfa loop_dfa"]
    by (simp add: l compress_dfa_def del: One_nat_def)
qed

end
