(* ===== verification/Meta_Classes.thy ===== *)
theory Meta_Classes
  imports Dfa_Correct
begin

text \<open>
  \<open>compute_meta_classes\<close> of \<open>src/src/dfa.cpp\<close>: two byte classes get the same meta class
  exactly if every state moves the same way on both, and the meta ids are consecutive. The
  ids are stored in 8 bits, which is enough because there are at most 256 classes.
\<close>

text \<open>The map from signatures to ids hands out the ids below \<open>k\<close>, each once.\<close>

definition ids_upto :: "(int list \<rightharpoonup> byte) \<Rightarrow> nat \<Rightarrow> bool" where
  "ids_upto seen k \<longleftrightarrow> (\<forall>x y m. seen x = Some m \<longrightarrow> seen y = Some m \<longrightarrow> x = y) \<and> ran seen = of_nat ` {..<k}"

lemma ids_upto_empty: "ids_upto Map.empty 0"
  by (simp add: ids_upto_def)

lemma of_nat_byte_inj: "a < 256 \<Longrightarrow> b < 256 \<Longrightarrow> (of_nat a :: byte) = of_nat b \<longleftrightarrow> a = b"
  by (metis ub_of_nat)

lemma ids_upto_next:
  assumes "ids_upto seen k" "seen col = None" "k < 256"
  shows "ids_upto (seen(col \<mapsto> of_nat k)) (Suc k)"
proof -
  have new: "of_nat k \<notin> ran seen"
    using assms(1,3) of_nat_byte_inj unfolding ids_upto_def by force
  have "\<forall>x y m. (seen(col \<mapsto> of_nat k)) x = Some m \<longrightarrow> (seen(col \<mapsto> of_nat k)) y = Some m \<longrightarrow> x = y"
  proof (intro allI impI)
    fix x y m
    assume x: "(seen(col \<mapsto> of_nat k)) x = Some m" and y: "(seen(col \<mapsto> of_nat k)) y = Some m"
    have inj: "seen x = Some m \<Longrightarrow> seen y = Some m \<Longrightarrow> x = y" using assms(1) unfolding ids_upto_def by blast
    have no: "seen z \<noteq> Some (of_nat k)" for z using new by (auto simp: ran_def)
    show "x = y"
    proof (cases "x = col \<or> y = col")
      case True
      with x y no show ?thesis by (metis fun_upd_apply option.inject)
    next
      case False
      with x y inj show ?thesis by simp
    qed
  qed
  moreover have "ran seen = of_nat ` {..<k}" using assms(1) unfolding ids_upto_def by blast
  then have "ran (seen(col \<mapsto> of_nat k)) = of_nat ` {..<Suc k}"
    by (simp only: ran_map_upd[of seen col, OF assms(2)] lessThan_Suc image_insert)
  ultimately show ?thesis unfolding ids_upto_def by blast
qed

lemma meta_loop_spec:
  assumes "ids_upto seen k" "k + length cols \<le> 256" "meta_loop cols seen k = (ms, n)"
  shows "\<exists>seen'. ids_upto seen' n \<and> (\<forall>c m. seen c = Some m \<longrightarrow> seen' c = Some m) \<and>
    list_all2 (\<lambda>c m. seen' c = Some m) cols ms \<and> n \<le> k + length cols"
  using assms
proof (induction cols arbitrary: seen k ms)
  case (Cons col cols)
  show ?case
  proof (cases "seen col")
    case (Some m)
    obtain ms' where rest: "meta_loop cols seen k = (ms', n)" "ms = m # ms'"
      using Cons.prems(3) Some by (auto split: prod.splits)
    from Cons.IH[OF Cons.prems(1) _ rest(1)] Cons.prems(2) Some rest(2) show ?thesis by fastforce
  next
    case None
    obtain ms' where rest: "meta_loop cols (seen(col \<mapsto> of_nat k)) (Suc k) = (ms', n)" "ms = of_nat k # ms'"
      using Cons.prems(3) None by (auto simp: Let_def split: prod.splits)
    have "k < 256" using Cons.prems(2) by simp
    from Cons.IH[OF ids_upto_next[OF Cons.prems(1) None this] _ rest(1)] Cons.prems(2)
    obtain seen' where s: "ids_upto seen' n" "\<forall>c m. (seen(col \<mapsto> of_nat k)) c = Some m \<longrightarrow> seen' c = Some m"
      "list_all2 (\<lambda>c m. seen' c = Some m) cols ms'" "n \<le> Suc k + length cols" by auto
    from s(2) have "seen' col = Some (of_nat k)" by simp
    moreover have "\<forall>c m. seen c = Some m \<longrightarrow> seen' c = Some m"
      using s(2) None by (metis fun_upd_other option.distinct(1))
    ultimately have "seen' col = Some (of_nat k)" "\<forall>c m. seen c = Some m \<longrightarrow> seen' c = Some m" .
    with s rest(2) show ?thesis by auto
  qed
qed auto

lemma meta_classes_correct:
  assumes "dfa_nclasses d \<le> 256" "compute_meta_classes d = d'"
  shows "length (dfa_meta d') = dfa_nclasses d"
    and "a < dfa_nclasses d \<Longrightarrow> ub (dfa_meta d' ! a) < dfa_nmeta d'"
    and "a < dfa_nclasses d \<Longrightarrow> b < dfa_nclasses d \<Longrightarrow>
      dfa_meta d' ! a = dfa_meta d' ! b \<longleftrightarrow> (\<forall>st\<in>set (dfa_states d). d_next st ! a = d_next st ! b)"
proof -
  let ?cols = "columns (dfa_states d) (dfa_nclasses d)"
  obtain ms n where m: "meta_loop ?cols Map.empty 0 = (ms, n)" by fastforce
  have d': "dfa_meta d' = ms" "dfa_nmeta d' = n" using assms(2) m by (auto simp: compute_meta_classes_def)
  have lc: "length ?cols = dfa_nclasses d" by (simp add: columns_def)
  from meta_loop_spec[OF ids_upto_empty _ m] assms(1) obtain seen where
    s: "ids_upto seen n" "list_all2 (\<lambda>c m. seen c = Some m) ?cols ms" "n \<le> 256" by (auto simp: lc)
  have len: "length ms = dfa_nclasses d" using list_all2_lengthD[OF s(2)] by (simp add: lc)
  have id_of: "seen (?cols ! i) = Some (ms ! i)" if "i < dfa_nclasses d" for i
    using list_all2_nthD[OF s(2), of i] that lc by simp
  show "length (dfa_meta d') = dfa_nclasses d" by (simp add: d' len)
  show "ub (dfa_meta d' ! a) < dfa_nmeta d'" if "a < dfa_nclasses d"
  proof -
    have "ms ! a \<in> ran seen" using id_of[OF that] by (auto simp: ran_def)
    then obtain k where "k < n" "ms ! a = of_nat k" using s(1) by (auto simp: ids_upto_def)
    then show ?thesis using s(3) by (simp add: d')
  qed
  assume ab: "a < dfa_nclasses d" "b < dfa_nclasses d"
  have "ms ! a = ms ! b \<longleftrightarrow> ?cols ! a = ?cols ! b"
    using id_of[OF ab(1)] id_of[OF ab(2)] s(1) unfolding ids_upto_def
    by (metis option.inject)
  also have "\<dots> \<longleftrightarrow> (\<forall>st\<in>set (dfa_states d). d_next st ! a = d_next st ! b)"
    using ab by (simp add: columns_def)
  finally show "dfa_meta d' ! a = dfa_meta d' ! b \<longleftrightarrow> (\<forall>st\<in>set (dfa_states d). d_next st ! a = d_next st ! b)"
    by (simp add: d')
qed

section \<open>Properties\<close>

text \<open>C37. \<open>compute_meta_classes\<close> fuses two byte classes if and only if every DFA state has the
same transition on both; every meta id is below \<open>nmeta\<close>.\<close>

theorem meta_classes_exact:
  assumes "dfa_nclasses d \<le> 256" "a < dfa_nclasses d" "b < dfa_nclasses d"
  shows "(dfa_meta (compute_meta_classes d) ! a = dfa_meta (compute_meta_classes d) ! b \<longleftrightarrow>
      (\<forall>st\<in>set (dfa_states d). d_next st ! a = d_next st ! b)) \<and>
    ub (dfa_meta (compute_meta_classes d) ! a) < dfa_nmeta (compute_meta_classes d)"
  using meta_classes_correct[OF assms(1) refl] assms(2,3) by simp

text \<open>Three classes, the first and the last of which move alike.\<close>

definition three_classes :: dfa where
  "three_classes = \<lparr>dfa_states = [(blank_state 3)\<lparr>d_next := [1, 2, 1]\<rparr>], dfa_cond_starts = [],
     dfa_eclasses = identity_eclasses, dfa_nclasses = 3, dfa_meta = [], dfa_nmeta = 0\<rparr>"

lemma meta_classes_exact_witness:
  "dfa_meta (compute_meta_classes three_classes) ! 0 = dfa_meta (compute_meta_classes three_classes) ! 2 \<and>
   dfa_meta (compute_meta_classes three_classes) ! 0 \<noteq> dfa_meta (compute_meta_classes three_classes) ! 1"
proof -
  have n: "dfa_nclasses three_classes = 3" by (simp add: three_classes_def)
  have "\<forall>st\<in>set (dfa_states three_classes). d_next st ! 0 = d_next st ! 2"
    "\<not> (\<forall>st\<in>set (dfa_states three_classes). d_next st ! 0 = d_next st ! 1)"
    by (simp_all add: three_classes_def)
  with meta_classes_exact[of three_classes 0 2] meta_classes_exact[of three_classes 0 1]
  show ?thesis unfolding n by simp
qed

end
