(* ===== verification/Tables.thy ===== *)
theory Tables
  imports Comb Diag
begin

text \<open>
  The table files of \<open>src/src/tables.cpp\<close>, the tables \<open>emit_c\<close> of \<open>src/src/codegen.cpp\<close>
  compiles into the scanner, and \<open>yytables_fload\<close>, the C function it emits to read a table
  file back. The loader is modelled statement by statement on a file with a position and
  the arrays of the scanner, which it overwrites as it goes.
\<close>

section \<open>Writing\<close>

definition put_u8 :: "byte list \<Rightarrow> byte \<Rightarrow> byte list" where
  "put_u8 out v = out @ [v]"

definition put_u32 :: "byte list \<Rightarrow> u32 \<Rightarrow> byte list" where
  "put_u32 out v =
     put_u8 (put_u8 (put_u8 (put_u8 out (ucast (drop_bit 24 v AND 0xff)))
       (ucast (drop_bit 16 v AND 0xff))) (ucast (drop_bit 8 v AND 0xff))) (ucast (v AND 0xff))"

definition put_i32 :: "byte list \<Rightarrow> int \<Rightarrow> byte list" where
  "put_i32 out v = put_u32 out (word_of_int v)"

definition no_comb :: compressed_dfa where
  "no_comb = \<lparr>cd_base = [], cd_def = [], cd_nxt = [], cd_chk = [], cd_pool_size = 0\<rparr>"

definition serialise_tables :: "nfa \<Rightarrow> dfa \<Rightarrow> bool \<Rightarrow> string \<Rightarrow> byte list" where
  "serialise_tables nfa dfa compressed scanner_name =
     (let out = put_u32 (put_u32 [] 0xF13C57B1) 1;
          out = put_u32 out (of_nat (length scanner_name));
          out = fold (\<lambda>c out. put_u8 out (of_nat (uc c))) scanner_name out;
          flags = (if compressed then 1 else 0);
          out = put_u32 out flags;
          nclasses = (of_nat (dfa_nclasses dfa) :: u32);
          nstates = of_nat (length (dfa_states dfa));
          nrules = of_nat (length (nfa_rule_trail nfa));
          c = (if compressed then compress_dfa dfa else no_comb);
          pool_size = (if compressed then of_nat (cd_pool_size c) else 0);
          out = put_u32 (put_u32 (put_u32 (put_u32 out nclasses) nstates) nrules) pool_size;
          out = fold (\<lambda>i out. put_u8 out (ec_map (dfa_eclasses dfa) ! i)) [0..<256] out;
          out = fold (\<lambda>i out. put_u8 out (if i < length (dfa_meta dfa) then dfa_meta dfa ! i else of_nat i))
                  [0..<unat nclasses] out;
          out = (if compressed
                 then fold (\<lambda>v out. put_i32 out v) (cd_chk c)
                        (fold (\<lambda>v out. put_i32 out v) (cd_nxt c)
                          (fold (\<lambda>v out. put_i32 out v) (cd_def c)
                            (fold (\<lambda>v out. put_i32 out v) (cd_base c) out)))
                 else fold (\<lambda>st out. fold (\<lambda>cl out. put_i32 out (d_next st ! cl)) [0..<unat nclasses] out)
                        (dfa_states dfa) out);
          out = fold (\<lambda>st out. put_i32 out (d_accept_normal st)) (dfa_states dfa) out;
          out = fold (\<lambda>st out. put_i32 out (d_accept_eol st)) (dfa_states dfa) out;
          out = put_u32 out (of_nat (length (dfa_cond_starts dfa)));
          out = fold (\<lambda>cs out. put_i32 out (ds_normal cs)) (dfa_cond_starts dfa) out;
          out = fold (\<lambda>cs out. put_i32 out (ds_bol cs)) (dfa_cond_starts dfa) out;
          out = fold (\<lambda>v out. put_i32 out v) (nfa_rule_trail nfa) out
      in out)"

section \<open>The tables of the scanner\<close>

datatype compress_mode = Full | FullEc | Compress

record yy_tables =
  yy_ec :: "byte list"
  yy_meta :: "byte list"
  yy_base :: "int list"
  yy_def :: "int list"
  yy_nxt :: "int list"
  yy_chk :: "int list"
  yy_accept_normal :: "int list"
  yy_accept_eol :: "int list"
  yy_cond_normal :: "int list"
  yy_cond_bol :: "int list"
  yy_rule_trail_len :: "int list"

text \<open>
  The initial values \<open>emit_c\<close> writes. The arrays a mode does not have are empty; the
  two-dimensional \<open>yy_nxt\<close> of the dense modes is the list of its rows, one after the other.
\<close>

definition compiled_tables :: "compress_mode \<Rightarrow> nfa \<Rightarrow> dfa \<Rightarrow> yy_tables" where
  "compiled_tables mode nfa dfa =
     (let c = (if mode = Compress then compress_dfa dfa else no_comb)
      in \<lparr>yy_ec = (if mode \<noteq> Full then map (\<lambda>i. ec_map (dfa_eclasses dfa) ! i) [0..<256] else map of_nat [0..<256]),
          yy_meta = (if mode = Compress
            then (if dfa_meta dfa = [] then map of_nat [0..<dfa_nclasses dfa] else dfa_meta dfa) else []),
          yy_base = cd_base c, yy_def = cd_def c,
          yy_nxt = (if mode = Compress then cd_nxt c
            else concat (map (\<lambda>st. map (\<lambda>i. d_next st ! i) [0..<dfa_nclasses dfa]) (dfa_states dfa))),
          yy_chk = cd_chk c,
          yy_accept_normal = map d_accept_normal (dfa_states dfa),
          yy_accept_eol = map d_accept_eol (dfa_states dfa),
          yy_cond_normal = map ds_normal (dfa_cond_starts dfa),
          yy_cond_bol = map ds_bol (dfa_cond_starts dfa),
          yy_rule_trail_len = (if nfa_rule_trail nfa = [] then [0] else nfa_rule_trail nfa)\<rparr>)"

section \<open>The emitted loader\<close>

record loader =
  ld_data :: "byte list"
  ld_pos :: nat
  ld_tabs :: yy_tables

text \<open>\<open>fread\<close> of \<open>n\<close> bytes: those there are; the call succeeded if there were \<open>n\<close>.\<close>

definition fread :: "nat \<Rightarrow> loader \<Rightarrow> byte list \<times> loader" where
  "fread n s =
     (let got = take n (drop (ld_pos s) (ld_data s)) in (got, s\<lparr>ld_pos := ld_pos s + length got\<rparr>))"

definition yy_read_be32 :: "loader \<Rightarrow> int option \<times> loader" where
  "yy_read_be32 s =
     (case fread 4 s of (b, s) \<Rightarrow>
        if length b \<noteq> 4 then (None, s)
        else (Some (sint (push_bit 24 (ucast (b ! 0) :: u32) OR push_bit 16 (ucast (b ! 1)) OR
               push_bit 8 (ucast (b ! 2)) OR ucast (b ! 3))), s))"

text \<open>A statement of \<open>yytables_fload\<close>: \<open>False\<close> is the jump to \<open>bad\<close>.\<close>

type_synonym stmt = "loader \<Rightarrow> bool \<times> loader"

definition andthen :: "stmt \<Rightarrow> stmt \<Rightarrow> stmt" where
  "andthen p q s = (case p s of (ok, s) \<Rightarrow> if ok then q s else (False, s))"

text \<open>Reading a local variable and going on with its value.\<close>

definition read_then :: "(int \<Rightarrow> stmt) \<Rightarrow> stmt" where
  "read_then k s = (case yy_read_be32 s of (None, s) \<Rightarrow> (False, s) | (Some v, s) \<Rightarrow> k v s)"

definition check :: "bool \<Rightarrow> stmt" where
  "check P s = (P, s)"

definition seek_cur :: "int \<Rightarrow> stmt" where
  "seek_cur d s =
     (if int (ld_pos s) + d < 0 then (False, s) else (True, s\<lparr>ld_pos := nat (int (ld_pos s) + d)\<rparr>))"

text \<open>Reading into an array, given how to get and set it.\<close>

fun yy_read_int_array ::
    "(yy_tables \<Rightarrow> int list) \<Rightarrow> (int list \<Rightarrow> yy_tables \<Rightarrow> yy_tables) \<Rightarrow> nat \<Rightarrow> nat \<Rightarrow> stmt" where
  "yy_read_int_array get set_to i 0 s = (True, s)"
| "yy_read_int_array get set_to i (Suc n) s =
     (case yy_read_be32 s of
        (None, s) \<Rightarrow> (False, s)
      | (Some v, s) \<Rightarrow>
          yy_read_int_array get set_to (i + 1) n
            (s\<lparr>ld_tabs := set_to ((get (ld_tabs s))[i := v]) (ld_tabs s)\<rparr>))"

definition read_bytes ::
    "(yy_tables \<Rightarrow> byte list) \<Rightarrow> (byte list \<Rightarrow> yy_tables \<Rightarrow> yy_tables) \<Rightarrow> nat \<Rightarrow> stmt" where
  "read_bytes get set_to n s =
     (case fread n s of (b, s) \<Rightarrow>
        (length b = n,
         s\<lparr>ld_tabs := set_to (b @ drop (length b) (get (ld_tabs s))) (ld_tabs s)\<rparr>))"

definition skip_bytes :: "nat \<Rightarrow> stmt" where
  "skip_bytes n s = (case fread n s of (b, s) \<Rightarrow> (length b = n, s))"

text \<open>The constants the generator writes into the loader.\<close>

record load_dims =
  ncls :: nat
  ns :: nat
  ncs :: nat
  nr :: nat
  pool :: nat

definition dims_of :: "compress_mode \<Rightarrow> nfa \<Rightarrow> dfa \<Rightarrow> load_dims" where
  "dims_of mode nfa dfa =
     \<lparr>ncls = dfa_nclasses dfa, ns = length (dfa_states dfa), ncs = length (dfa_cond_starts dfa),
      nr = (if length (nfa_rule_trail nfa) = 0 then 1 else length (nfa_rule_trail nfa)),
      pool = (if mode = Compress then cd_pool_size (compress_dfa dfa) else 0)\<rparr>"

definition load_counts :: "load_dims \<Rightarrow> (int \<Rightarrow> stmt) \<Rightarrow> stmt" where
  "load_counts D k =
     read_then (\<lambda>flags. read_then (\<lambda>got_nclasses. read_then (\<lambda>got_nstates.
     read_then (\<lambda>got_nrules. read_then (\<lambda>got_pool.
        andthen (check (got_nclasses = int (ncls D)))
       (andthen (check (got_nstates = int (ns D))) (k got_pool)))))))"

definition load_header :: "load_dims \<Rightarrow> (int \<Rightarrow> stmt) \<Rightarrow> stmt" where
  "load_header D k =
     read_then (\<lambda>magic. andthen (check (magic = i32 0xF13C57B1))
     (read_then (\<lambda>version. andthen (check (version = 1))
     (read_then (\<lambda>name_len. andthen (seek_cur name_len) (load_counts D k))))))"

definition load_transitions :: "bool \<Rightarrow> load_dims \<Rightarrow> int \<Rightarrow> stmt" where
  "load_transitions compressed D got_pool =
     (if compressed
      then andthen (check (got_pool = int (pool D)))
          (andthen (yy_read_int_array yy_base (\<lambda>a t. t\<lparr>yy_base := a\<rparr>) 0 (ns D))
          (andthen (yy_read_int_array yy_def (\<lambda>a t. t\<lparr>yy_def := a\<rparr>) 0 (ns D))
          (andthen (yy_read_int_array yy_nxt (\<lambda>a t. t\<lparr>yy_nxt := a\<rparr>) 0 (pool D))
                   (yy_read_int_array yy_chk (\<lambda>a t. t\<lparr>yy_chk := a\<rparr>) 0 (pool D)))))
      else yy_read_int_array yy_nxt (\<lambda>a t. t\<lparr>yy_nxt := a\<rparr>) 0 (ns D * ncls D))"

definition load_tail :: "load_dims \<Rightarrow> stmt" where
  "load_tail D =
     andthen (yy_read_int_array yy_accept_normal (\<lambda>a t. t\<lparr>yy_accept_normal := a\<rparr>) 0 (ns D))
    (andthen (yy_read_int_array yy_accept_eol (\<lambda>a t. t\<lparr>yy_accept_eol := a\<rparr>) 0 (ns D))
    (read_then (\<lambda>got_ncond. andthen (check (got_ncond = int (ncs D)))
    (andthen (yy_read_int_array yy_cond_normal (\<lambda>a t. t\<lparr>yy_cond_normal := a\<rparr>) 0 (ncs D))
    (andthen (yy_read_int_array yy_cond_bol (\<lambda>a t. t\<lparr>yy_cond_bol := a\<rparr>) 0 (ncs D))
             (yy_read_int_array yy_rule_trail_len (\<lambda>a t. t\<lparr>yy_rule_trail_len := a\<rparr>) 0 (nr D)))))))"

definition load_body :: "bool \<Rightarrow> load_dims \<Rightarrow> int \<Rightarrow> stmt" where
  "load_body compressed D got_pool =
     andthen (read_bytes yy_ec (\<lambda>a t. t\<lparr>yy_ec := a\<rparr>) 256)
    (andthen (if compressed then read_bytes yy_meta (\<lambda>a t. t\<lparr>yy_meta := a\<rparr>) (ncls D) else skip_bytes (ncls D))
    (andthen (load_transitions compressed D got_pool) (load_tail D)))"

text \<open>The return code (0 or -1) and the tables afterwards, for a file with the given bytes.\<close>

definition yytables_fload :: "bool \<Rightarrow> load_dims \<Rightarrow> byte list \<Rightarrow> yy_tables \<Rightarrow> int \<times> yy_tables" where
  "yytables_fload compressed D data tabs =
     (case load_header D (load_body compressed D) \<lparr>ld_data = data, ld_pos = 0, ld_tabs = tabs\<rparr> of
        (ok, s) \<Rightarrow> (if ok then 0 else -1, ld_tabs s))"

section \<open>Bytes of a number\<close>

definition be32 :: "u32 \<Rightarrow> byte list" where
  "be32 v = put_u32 [] v"

lemma length_be32 [simp]: "length (be32 v) = 4"
  by (simp add: be32_def put_u32_def put_u8_def)

lemma put_u32_be32: "put_u32 out v = out @ be32 v"
  by (simp add: be32_def put_u32_def put_u8_def)

lemma low_byte: "(ucast (x AND 0xff) :: byte) = ucast (x :: u32)"
proof -
  have "x AND 0xff = take_bit 8 x" by (simp add: take_bit_eq_mask mask_eq_exp_minus_1)
  moreover have "(ucast (take_bit 8 x) :: byte) = ucast x" by (rule bit_word_eqI) (simp add: bit_simps)
  ultimately show ?thesis by simp
qed

lemma be32_bytes: "be32 v = [ucast (drop_bit 24 v), ucast (drop_bit 16 v), ucast (drop_bit 8 v), ucast v]"
  by (simp only: be32_def put_u32_def put_u8_def low_byte) simp

lemma be32_value:
  "push_bit 24 (ucast (be32 v ! 0) :: u32) OR push_bit 16 (ucast (be32 v ! 1)) OR
   push_bit 8 (ucast (be32 v ! 2)) OR ucast (be32 v ! 3) = v"
proof (rule bit_word_eqI)
  fix n assume n: "n < LENGTH(32)"
  then consider "n < 8" | "8 \<le> n" "n < 16" | "16 \<le> n" "n < 24" | "24 \<le> n" "n < 32" by force
  then show "bit (push_bit 24 (ucast (be32 v ! 0) :: u32) OR push_bit 16 (ucast (be32 v ! 1)) OR
     push_bit 8 (ucast (be32 v ! 2)) OR ucast (be32 v ! 3)) n = bit v n"
    by cases (auto simp: be32_bytes bit_simps)
qed

lemma sint_i32: "sint (word_of_int v :: u32) = i32 v"
  by (simp add: int_word_sint i32_def)

lemma sint_word_of_int32: "- (2 ^ 31) \<le> v \<Longrightarrow> v < 2 ^ 31 \<Longrightarrow> sint (word_of_int v :: u32) = v"
  by (simp add: sint_i32 i32_id)

definition int32 :: "int \<Rightarrow> bool" where
  "int32 v \<longleftrightarrow> - (2 ^ 31) \<le> v \<and> v < 2 ^ 31"

definition ints :: "int list \<Rightarrow> byte list" where
  "ints vs = concat (map (\<lambda>v. be32 (word_of_int v)) vs)"

lemma length_ints [simp]: "length (ints vs) = 4 * length vs"
  by (induction vs) (simp_all add: ints_def)

lemma ints_simps [simp]: "ints [] = []" "ints (v # vs) = be32 (word_of_int v) @ ints vs"
  by (simp_all add: ints_def)

lemma fold_put_i32: "fold (\<lambda>x out. put_i32 out (f x)) xs out = out @ ints (map f xs)"
  by (induction xs arbitrary: out) (simp_all add: put_i32_def put_u32_be32)

lemma fold_put_i32_id: "fold (\<lambda>v out. put_i32 out v) xs out = out @ ints xs"
  using fold_put_i32[of "\<lambda>v. v"] by simp

lemma fold_put_u8: "fold (\<lambda>x out. put_u8 out (f x)) xs out = out @ map f xs"
  by (induction xs arbitrary: out) (simp_all add: put_u8_def)

lemma ints_append: "ints (xs @ ys) = ints xs @ ints ys"
  by (simp add: ints_def)

lemma fold_put_rows: "fold (\<lambda>st out. fold (\<lambda>cl out. put_i32 out (f st cl)) cs out) xs out =
   out @ ints (concat (map (\<lambda>st. map (f st) cs) xs))"
  by (induction xs arbitrary: out) (simp_all add: fold_put_i32 ints_append)

section \<open>Reading what was written\<close>

definition ahead :: "loader \<Rightarrow> byte list" where
  "ahead s = drop (ld_pos s) (ld_data s)"

definition adv :: "nat \<Rightarrow> loader \<Rightarrow> loader" where
  "adv k s = s\<lparr>ld_pos := ld_pos s + k\<rparr>"

definition upd :: "(yy_tables \<Rightarrow> yy_tables) \<Rightarrow> loader \<Rightarrow> loader" where
  "upd g s = s\<lparr>ld_tabs := g (ld_tabs s)\<rparr>"

lemma ahead_simps [simp]:
  "ahead (adv k s) = drop k (ahead s)" "ahead (upd g s) = ahead s"
  "adv j (adv k s) = adv (k + j) s" "adv k (upd g s) = upd g (adv k s)" "ld_tabs (adv k s) = ld_tabs s"
  "ld_tabs (upd g s) = g (ld_tabs s)" "adv 0 s = s" "ld_data (adv k s) = ld_data s" "ld_data (upd g s) = ld_data s"
  by (simp_all add: ahead_def adv_def upd_def add_ac)

lemma fread_ahead: "fread n s = (take n (ahead s), adv (length (take n (ahead s))) s)"
  by (simp add: fread_def ahead_def adv_def Let_def)

lemma read_be32_ahead:
  assumes "ahead s = be32 v @ ys"
  shows "yy_read_be32 s = (Some (sint v), adv 4 s)"
  using assms be32_value[of v] by (simp add: yy_read_be32_def fread_ahead nth_append)

lemma read_then_ahead: "ahead s = be32 v @ ys \<Longrightarrow> read_then k s = k (sint v) (adv 4 s)"
  by (simp add: read_then_def read_be32_ahead)

text \<open>
  An array of the tables: how it is read and replaced. The loader fills it from the front.
\<close>

locale table_array =
  fixes get :: "yy_tables \<Rightarrow> 'a list"
    and set_to :: "'a list \<Rightarrow> yy_tables \<Rightarrow> yy_tables"
  assumes get_set: "get (set_to a t) = a"
    and set_set: "set_to a (set_to b t) = set_to a t"
    and set_get: "set_to (get t) t = t"

locale byte_array = table_array get set_to for get :: "yy_tables \<Rightarrow> byte list" and set_to
begin

lemma fill:
  assumes "ahead s = bs @ ys" "length bs = n" "length (get (ld_tabs s)) = n"
  shows "andthen (read_bytes get set_to n) q s = q (upd (set_to bs) (adv n s))"
  using assms by (simp add: andthen_def read_bytes_def fread_ahead upd_def)

end

interpretation ec: byte_array yy_ec "\<lambda>a t. t\<lparr>yy_ec := a\<rparr>" by unfold_locales simp_all
interpretation meta: byte_array yy_meta "\<lambda>a t. t\<lparr>yy_meta := a\<rparr>" by unfold_locales simp_all

lemma skip_bytes_ahead:
  "ahead s = bs @ ys \<Longrightarrow> length bs = n \<Longrightarrow> andthen (skip_bytes n) q s = q (adv n s)"
  by (simp add: andthen_def skip_bytes_def fread_ahead)

locale int_array = table_array get set_to for get :: "yy_tables \<Rightarrow> int list" and set_to
begin

lemma fill:
  "ahead s = ints vs @ ys \<Longrightarrow> \<forall>v\<in>set vs. int32 v \<Longrightarrow> i + length vs \<le> length (get (ld_tabs s)) \<Longrightarrow>
   yy_read_int_array get set_to i (length vs) s =
     (True, upd (set_to (take i (get (ld_tabs s)) @ vs @ drop (i + length vs) (get (ld_tabs s))))
        (adv (4 * length vs) s))"
proof (induction vs arbitrary: i s)
  case Nil
  then show ?case by (simp add: upd_def set_get)
next
  case (Cons v vs)
  let ?a = "get (ld_tabs s)"
  have v: "sint (word_of_int v :: u32) = v"
    using Cons.prems(2) by (simp add: int32_def sint_word_of_int32)
  have s': "ahead (upd (set_to (?a[i := v])) (adv 4 s)) = ints vs @ ys" using Cons.prems(1) by simp
  have i: "i < length ?a" using Cons.prems(3) by simp
  have "yy_read_int_array get set_to i (length (v # vs)) s =
      yy_read_int_array get set_to (i + 1) (length vs) (upd (set_to (?a[i := v])) (adv 4 s))"
    using Cons.prems(1) by (simp add: read_be32_ahead[of s "word_of_int v"] v upd_def)
  also have "\<dots> = (True, upd (set_to (take (i + 1) (?a[i := v]) @ vs @ drop (i + 1 + length vs) (?a[i := v])))
      (adv (4 * length vs) (upd (set_to (?a[i := v])) (adv 4 s))))"
    using Cons.prems by (subst Cons.IH[OF s']) (simp_all add: get_set)
  also have "take (i + 1) (?a[i := v]) = take i ?a @ [v]"
    using i by (simp add: take_Suc_conv_app_nth)
  finally show ?case by (simp add: upd_def set_set adv_def)
qed

lemma fill_all:
  assumes "ahead s = ints vs @ ys" "\<forall>v\<in>set vs. int32 v" "length (get (ld_tabs s)) = length vs"
  shows "andthen (yy_read_int_array get set_to 0 (length vs)) q s = q (upd (set_to vs) (adv (4 * length vs) s))"
    "yy_read_int_array get set_to 0 (length vs) s = (True, upd (set_to vs) (adv (4 * length vs) s))"
  using fill[OF assms(1,2), of 0] assms(3) by (simp_all add: andthen_def)

end

interpretation base: int_array yy_base "\<lambda>a t. t\<lparr>yy_base := a\<rparr>" by unfold_locales simp_all
interpretation def: int_array yy_def "\<lambda>a t. t\<lparr>yy_def := a\<rparr>" by unfold_locales simp_all
interpretation nxt: int_array yy_nxt "\<lambda>a t. t\<lparr>yy_nxt := a\<rparr>" by unfold_locales simp_all
interpretation chk: int_array yy_chk "\<lambda>a t. t\<lparr>yy_chk := a\<rparr>" by unfold_locales simp_all
interpretation an: int_array yy_accept_normal "\<lambda>a t. t\<lparr>yy_accept_normal := a\<rparr>" by unfold_locales simp_all
interpretation ae: int_array yy_accept_eol "\<lambda>a t. t\<lparr>yy_accept_eol := a\<rparr>" by unfold_locales simp_all
interpretation cn: int_array yy_cond_normal "\<lambda>a t. t\<lparr>yy_cond_normal := a\<rparr>" by unfold_locales simp_all
interpretation cb: int_array yy_cond_bol "\<lambda>a t. t\<lparr>yy_cond_bol := a\<rparr>" by unfold_locales simp_all
interpretation tr: int_array yy_rule_trail_len "\<lambda>a t. t\<lparr>yy_rule_trail_len := a\<rparr>" by unfold_locales simp_all

section \<open>The whole file\<close>

text \<open>The transition part of a file, and the file as a sequence of its parts.\<close>

definition trans_ints :: "bool \<Rightarrow> yy_tables \<Rightarrow> int list" where
  "trans_ints compressed t =
     (if compressed then yy_base t @ yy_def t @ yy_nxt t @ yy_chk t else yy_nxt t)"

definition meta_bytes :: "dfa \<Rightarrow> byte list" where
  "meta_bytes dfa =
     map (\<lambda>i. if i < length (dfa_meta dfa) then dfa_meta dfa ! i else of_nat i) [0..<dfa_nclasses dfa]"

definition head_bytes :: "compress_mode \<Rightarrow> nfa \<Rightarrow> dfa \<Rightarrow> string \<Rightarrow> byte list" where
  "head_bytes mode nfa dfa name =
     be32 0xF13C57B1 @ be32 1 @ be32 (of_nat (length name)) @ map (\<lambda>c. of_nat (uc c)) name @
     be32 (if mode = Compress then 1 else 0) @ be32 (of_nat (dfa_nclasses dfa)) @
     be32 (of_nat (length (dfa_states dfa))) @ be32 (of_nat (length (nfa_rule_trail nfa))) @
     be32 (if mode = Compress then of_nat (cd_pool_size (compress_dfa dfa)) else 0)"

lemma serialise_parts:
  assumes "dfa_nclasses dfa < 2 ^ 32"
  shows "serialise_tables nfa dfa (mode = Compress) name =
    (let t = compiled_tables mode nfa dfa in
     head_bytes mode nfa dfa name @ map (\<lambda>i. ec_map (dfa_eclasses dfa) ! i) [0..<256] @ meta_bytes dfa @
     ints (trans_ints (mode = Compress) t) @ ints (yy_accept_normal t) @ ints (yy_accept_eol t) @
     be32 (of_nat (length (dfa_cond_starts dfa))) @ ints (yy_cond_normal t) @ ints (yy_cond_bol t) @
     ints (nfa_rule_trail nfa))"
proof -
  have n: "unat (of_nat (dfa_nclasses dfa) :: u32) = dfa_nclasses dfa"
    using assms by (simp add: unat_of_nat)
  show ?thesis
    unfolding serialise_tables_def Let_def n fold_put_i32 fold_put_i32_id fold_put_u8 fold_put_rows put_u32_be32
    by (cases "mode = Compress")
      (simp_all add: head_bytes_def meta_bytes_def trans_ints_def compiled_tables_def Let_def ints_append)
qed

definition same_sizes :: "yy_tables \<Rightarrow> yy_tables \<Rightarrow> bool" where
  "same_sizes t u \<longleftrightarrow>
     length (yy_ec t) = length (yy_ec u) \<and> length (yy_meta t) = length (yy_meta u) \<and>
     length (yy_base t) = length (yy_base u) \<and> length (yy_def t) = length (yy_def u) \<and>
     length (yy_nxt t) = length (yy_nxt u) \<and> length (yy_chk t) = length (yy_chk u) \<and>
     length (yy_accept_normal t) = length (yy_accept_normal u) \<and>
     length (yy_accept_eol t) = length (yy_accept_eol u) \<and>
     length (yy_cond_normal t) = length (yy_cond_normal u) \<and>
     length (yy_cond_bol t) = length (yy_cond_bol u) \<and>
     length (yy_rule_trail_len t) = length (yy_rule_trail_len u)"

text \<open>Tables whose numbers fit the format, and whose parts have the sizes they are declared with.\<close>

definition storable :: "compress_mode \<Rightarrow> nfa \<Rightarrow> dfa \<Rightarrow> string \<Rightarrow> bool" where
  "storable mode nfa dfa name \<longleftrightarrow>
     length name < 2 ^ 31 \<and> dfa_nclasses dfa \<le> 256 \<and> length (dfa_states dfa) < 2 ^ 31 \<and>
     length (dfa_cond_starts dfa) < 2 ^ 31 \<and>
     (let t = compiled_tables mode nfa dfa in
      (\<forall>v\<in>set (trans_ints (mode = Compress) t) \<union> set (yy_accept_normal t) \<union> set (yy_accept_eol t) \<union>
          set (yy_cond_normal t) \<union> set (yy_cond_bol t) \<union> set (nfa_rule_trail nfa). int32 v)) \<and>
     (mode = Full \<longrightarrow> (\<forall>i<256. ec_map (dfa_eclasses dfa) ! i = of_nat i)) \<and>
     (mode = Compress \<longrightarrow>
        (let c = compress_dfa dfa in cd_pool_size c < 2 ^ 31 \<and>
         length (cd_base c) = length (dfa_states dfa) \<and> length (cd_def c) = length (dfa_states dfa) \<and>
         length (cd_nxt c) = cd_pool_size c \<and> length (cd_chk c) = cd_pool_size c) \<and>
        (dfa_meta dfa = [] \<or> length (dfa_meta dfa) = dfa_nclasses dfa))"

lemma sint_small_nat: "n < 2 ^ 31 \<Longrightarrow> sint (of_nat n :: u32) = int n"
proof -
  assume n: "n < 2 ^ 31"
  then have "int n < int (2 ^ 31)" by (simp only: of_nat_less_iff)
  then have "sint (word_of_int (int n) :: u32) = int n" by (intro sint_word_of_int32) simp_all
  then show ?thesis by simp
qed

lemma sint_magic: "sint (0xF13C57B1 :: u32) = i32 0xF13C57B1"
  using sint_i32[of "0xF13C57B1"] by simp

lemma andthen_check: "andthen (check P) q s = (if P then q s else (False, s))"
  by (simp add: andthen_def check_def)

lemma andthen_seek: "andthen (seek_cur (int n)) q s = q (adv n s)"
  by (simp add: andthen_def seek_cur_def adv_def nat_add_distrib)

lemma load_header_reads:
  assumes ok: "storable mode nfa dfa name" and D: "D = dims_of mode nfa dfa"
    and s: "ahead s = head_bytes mode nfa dfa name @ ys"
  shows "load_header D k s = k (int (pool D)) (adv (length (head_bytes mode nfa dfa name)) s)"
proof -
  have l: "sint (of_nat (length name) :: u32) = int (length name)"
    "sint (of_nat (dfa_nclasses dfa) :: u32) = int (ncls D)"
    "sint (of_nat (length (dfa_states dfa)) :: u32) = int (ns D)"
    "sint (if mode = Compress then of_nat (cd_pool_size (compress_dfa dfa)) else 0 :: u32) = int (pool D)"
    using ok by (auto simp: storable_def D dims_of_def Let_def intro!: sint_small_nat)
  note r = read_then_ahead
  show ?thesis
    unfolding load_header_def load_counts_def
    apply (subst r[where v = "0xF13C57B1"], simp add: s head_bytes_def)
    apply (subst andthen_check, subst sint_magic, simp only: if_True refl)
    apply (subst r[where v = 1], simp add: s head_bytes_def)
    apply (simp add: andthen_check)
    apply (subst r[where v = "of_nat (length name)"], simp add: s head_bytes_def)
    apply (simp only: l andthen_seek ahead_simps)
    apply (subst r[where v = "if mode = Compress then 1 else 0"], simp add: s head_bytes_def)
    apply (subst r[where v = "of_nat (dfa_nclasses dfa)"], simp add: s head_bytes_def)
    apply (subst r[where v = "of_nat (length (dfa_states dfa))"], simp add: s head_bytes_def)
    apply (subst r[where v = "of_nat (length (nfa_rule_trail nfa))"], simp add: s head_bytes_def)
    apply (subst r[where v = "if mode = Compress then of_nat (cd_pool_size (compress_dfa dfa)) else 0"],
        simp add: s head_bytes_def)
    apply (simp add: l andthen_check head_bytes_def add_ac)
    done
qed

lemma upd_upd: "upd f (upd g s) = upd (f \<circ> g) s"
  by (simp add: upd_def)

lemma load_tail_reads:
  assumes s: "ahead s = ints an @ ints ae @ be32 (of_nat (ncs D)) @ ints cn @ ints cb @ ints tr"
    and len: "length an = ns D" "length ae = ns D" "length cn = ncs D" "length cb = ncs D" "length tr = nr D"
    and t: "length (yy_accept_normal (ld_tabs s)) = ns D" "length (yy_accept_eol (ld_tabs s)) = ns D"
      "length (yy_cond_normal (ld_tabs s)) = ncs D" "length (yy_cond_bol (ld_tabs s)) = ncs D"
      "length (yy_rule_trail_len (ld_tabs s)) = nr D"
    and ok: "\<forall>v\<in>set an \<union> set ae \<union> set cn \<union> set cb \<union> set tr. int32 v" "ncs D < 2 ^ 31"
  shows "\<exists>s'. load_tail D s = (True, s') \<and> ld_tabs s' = (ld_tabs s)\<lparr>yy_accept_normal := an, yy_accept_eol := ae,
    yy_cond_normal := cn, yy_cond_bol := cb, yy_rule_trail_len := tr\<rparr>"
proof -
  define s1 where "s1 = upd (\<lambda>t. t\<lparr>yy_accept_normal := an\<rparr>) (adv (4 * ns D) s)"
  define s2 where "s2 = upd (\<lambda>t. t\<lparr>yy_accept_eol := ae\<rparr>) (adv (4 * ns D) s1)"
  define s3 where "s3 = adv 4 s2"
  define s4 where "s4 = upd (\<lambda>t. t\<lparr>yy_cond_normal := cn\<rparr>) (adv (4 * ncs D) s3)"
  define s5 where "s5 = upd (\<lambda>t. t\<lparr>yy_cond_bol := cb\<rparr>) (adv (4 * ncs D) s4)"
  have a1: "ahead s1 = ints ae @ be32 (of_nat (ncs D)) @ ints cn @ ints cb @ ints tr" using s len by (simp add: s1_def)
  have a2: "ahead s2 = be32 (of_nat (ncs D)) @ ints cn @ ints cb @ ints tr" using a1 len by (simp add: s2_def)
  have a3: "ahead s3 = ints cn @ ints cb @ ints tr" using a2 by (simp add: s3_def)
  have a4: "ahead s4 = ints cb @ ints tr" using a3 len by (simp add: s4_def)
  have a5: "ahead s5 = ints tr @ []" using a4 len by (simp add: s5_def)
  have m: "sint (of_nat (ncs D) :: u32) = int (ncs D)" using ok(2) by (rule sint_small_nat)
  note tabs = s1_def s2_def s3_def s4_def s5_def
  have "load_tail D s = (True, upd (\<lambda>t. t\<lparr>yy_rule_trail_len := tr\<rparr>) (adv (4 * nr D) s5))"
    unfolding load_tail_def
    apply (subst an.fill_all(1)[OF s, unfolded len], use ok t in simp, use t in simp)
    apply (subst s1_def[symmetric], subst ae.fill_all(1)[OF a1, unfolded len], use ok in simp, use t in \<open>simp add: tabs\<close>)
    apply (subst s2_def[symmetric], subst read_then_ahead[OF a2], subst s3_def[symmetric])
    apply (subst andthen_check, simp only: m refl if_True)
    apply (subst cn.fill_all(1)[OF a3, unfolded len], use ok in simp, use t in \<open>simp add: tabs\<close>)
    apply (subst s4_def[symmetric], subst cb.fill_all(1)[OF a4, unfolded len], use ok in simp, use t in \<open>simp add: tabs\<close>)
    apply (subst s5_def[symmetric], subst tr.fill_all(2)[OF a5, unfolded len], use ok in simp, use t in \<open>simp add: tabs\<close>)
    apply (rule refl)
    done
  then show ?thesis by (simp add: tabs)
qed

lemma load_transitions_reads:
  assumes s: "ahead s = ints (trans_ints compressed t) @ ys" and ok: "\<forall>v\<in>set (trans_ints compressed t). int32 v"
    and sz: "same_sizes (ld_tabs s) t"
    and len: "if compressed then length (yy_base t) = ns D \<and> length (yy_def t) = ns D \<and>
        length (yy_nxt t) = pool D \<and> length (yy_chk t) = pool D
      else length (yy_nxt t) = ns D * ncls D \<and> yy_base t = [] \<and> yy_def t = [] \<and> yy_chk t = []"
  shows "\<exists>s'. load_transitions compressed D (int (pool D)) s = (True, s') \<and> ahead s' = ys \<and>
    ld_tabs s' = (ld_tabs s)\<lparr>yy_base := yy_base t, yy_def := yy_def t, yy_nxt := yy_nxt t, yy_chk := yy_chk t\<rparr>"
proof (cases compressed)
  case False
  then have a: "ahead s = ints (yy_nxt t) @ ys" "\<forall>v\<in>set (yy_nxt t). int32 v"
    using s ok by (simp_all add: trans_ints_def)
  have "drop (4 * (ns D * ncls D)) (ahead s) = ys" using a(1) len False by simp
  with nxt.fill_all(2)[OF a] False sz len show ?thesis
    by (simp add: load_transitions_def same_sizes_def)
next
  case True
  define s1 where "s1 = upd (\<lambda>u. u\<lparr>yy_base := yy_base t\<rparr>) (adv (4 * ns D) s)"
  define s2 where "s2 = upd (\<lambda>u. u\<lparr>yy_def := yy_def t\<rparr>) (adv (4 * ns D) s1)"
  define s3 where "s3 = upd (\<lambda>u. u\<lparr>yy_nxt := yy_nxt t\<rparr>) (adv (4 * pool D) s2)"
  have l: "length (yy_base t) = ns D" "length (yy_def t) = ns D" "length (yy_nxt t) = pool D" "length (yy_chk t) = pool D"
    using len True by simp_all
  have a0: "ahead s = ints (yy_base t) @ ints (yy_def t) @ ints (yy_nxt t) @ ints (yy_chk t) @ ys"
    using s True by (simp add: trans_ints_def ints_append)
  have a1: "ahead s1 = ints (yy_def t) @ ints (yy_nxt t) @ ints (yy_chk t) @ ys" using a0 l by (simp add: s1_def)
  have a2: "ahead s2 = ints (yy_nxt t) @ ints (yy_chk t) @ ys" using a1 l by (simp add: s2_def)
  have a3: "ahead s3 = ints (yy_chk t) @ ys" using a2 l by (simp add: s3_def)
  have o: "\<forall>v\<in>set (yy_base t). int32 v" "\<forall>v\<in>set (yy_def t). int32 v" "\<forall>v\<in>set (yy_nxt t). int32 v"
    "\<forall>v\<in>set (yy_chk t). int32 v" using ok True by (simp_all add: trans_ints_def)
  note tabs = s1_def s2_def s3_def
  have z: "length (yy_base (ld_tabs s)) = ns D" "length (yy_def (ld_tabs s1)) = ns D"
    "length (yy_nxt (ld_tabs s2)) = pool D" "length (yy_chk (ld_tabs s3)) = pool D"
    using sz l by (simp_all add: same_sizes_def tabs)
  define s4 where "s4 = upd (\<lambda>u. u\<lparr>yy_chk := yy_chk t\<rparr>) (adv (4 * pool D) s3)"
  have a4: "ahead s4 = ys" using a3 l by (simp add: s4_def)
  have t4: "ld_tabs s4 = (ld_tabs s)\<lparr>yy_base := yy_base t, yy_def := yy_def t, yy_nxt := yy_nxt t, yy_chk := yy_chk t\<rparr>"
    by (simp add: s4_def tabs)
  have "load_transitions compressed D (int (pool D)) s = (True, s4)"
    unfolding load_transitions_def s4_def
    using True base.fill_all(1)[OF a0 o(1), unfolded l, OF z(1)] def.fill_all(1)[OF a1 o(2), unfolded l, OF z(2)]
      nxt.fill_all(1)[OF a2 o(3), unfolded l, OF z(3)] chk.fill_all(2)[OF a3 o(4), unfolded l, OF z(4)]
    by (simp add: andthen_check tabs[symmetric])
  with a4 t4 show ?thesis by blast
qed

lemma compiled_sizes:
  assumes "storable mode nfa dfa name" and "D = dims_of mode nfa dfa" and "t = compiled_tables mode nfa dfa"
  shows "length (yy_accept_normal t) = ns D" "length (yy_accept_eol t) = ns D" "length (yy_cond_normal t) = ncs D"
    "length (yy_cond_bol t) = ncs D" "length (yy_rule_trail_len t) = nr D" "length (yy_ec t) = 256"
    "if mode = Compress then length (yy_base t) = ns D \<and> length (yy_def t) = ns D \<and>
        length (yy_nxt t) = pool D \<and> length (yy_chk t) = pool D
      else length (yy_nxt t) = ns D * ncls D \<and> yy_base t = [] \<and> yy_def t = [] \<and> yy_chk t = []"
    "if mode = Compress then length (yy_meta t) = ncls D else yy_meta t = []"
proof -
  have "length (concat (map (\<lambda>st. map (\<lambda>i. d_next st ! i) [0..<k]) xs)) = length xs * k" for k and xs :: "dfa_state list"
    by (induction xs) simp_all
  then show "if mode = Compress then length (yy_base t) = ns D \<and> length (yy_def t) = ns D \<and>
        length (yy_nxt t) = pool D \<and> length (yy_chk t) = pool D
      else length (yy_nxt t) = ns D * ncls D \<and> yy_base t = [] \<and> yy_def t = [] \<and> yy_chk t = []"
    using assms by (simp add: storable_def compiled_tables_def dims_of_def no_comb_def Let_def)
qed (use assms in \<open>auto simp: storable_def compiled_tables_def dims_of_def Let_def\<close>)

lemma ec_written:
  assumes "storable mode nfa dfa name"
  shows "map (\<lambda>i. ec_map (dfa_eclasses dfa) ! i) [0..<256] = yy_ec (compiled_tables mode nfa dfa)"
  using assms by (cases "mode = Full") (auto simp: storable_def compiled_tables_def Let_def)

lemma meta_written:
  assumes "storable Compress nfa dfa name"
  shows "meta_bytes dfa = yy_meta (compiled_tables Compress nfa dfa)"
  using assms by (auto simp: storable_def compiled_tables_def meta_bytes_def Let_def intro: nth_equalityI)

lemma load_body_reads:
  assumes ok: "storable mode nfa dfa name" and D: "D = dims_of mode nfa dfa" and t: "t = compiled_tables mode nfa dfa"
    and s: "ahead s = yy_ec t @ meta_bytes dfa @ ints (trans_ints (mode = Compress) t) @
      ints (yy_accept_normal t) @ ints (yy_accept_eol t) @ be32 (of_nat (ncs D)) @
      ints (yy_cond_normal t) @ ints (yy_cond_bol t) @ ints (yy_rule_trail_len t)"
    and sz: "same_sizes (ld_tabs s) t"
    and int: "\<forall>v\<in>set (trans_ints (mode = Compress) t) \<union> set (yy_accept_normal t) \<union> set (yy_accept_eol t) \<union>
          set (yy_cond_normal t) \<union> set (yy_cond_bol t) \<union> set (yy_rule_trail_len t). int32 v"
  shows "\<exists>s'. load_body (mode = Compress) D (int (pool D)) s = (True, s') \<and> ld_tabs s' = t"
proof -
  note sizes = compiled_sizes[OF ok D t]
  have nc: "ncs D < 2 ^ 31" using ok D by (simp add: storable_def dims_of_def)
  define s1 where "s1 = upd (\<lambda>u. u\<lparr>yy_ec := yy_ec t\<rparr>) (adv 256 s)"
  define s2 where "s2 = (if mode = Compress then upd (\<lambda>u. u\<lparr>yy_meta := yy_meta t\<rparr>) (adv (ncls D) s1)
    else adv (ncls D) s1)"
  have lm: "length (meta_bytes dfa) = ncls D" by (simp add: D dims_of_def meta_bytes_def)
  have lt: "length (yy_ec (ld_tabs s)) = 256" using sz sizes by (simp add: same_sizes_def)
  have a1: "ahead s1 = meta_bytes dfa @ ints (trans_ints (mode = Compress) t) @
      ints (yy_accept_normal t) @ ints (yy_accept_eol t) @ be32 (of_nat (ncs D)) @
      ints (yy_cond_normal t) @ ints (yy_cond_bol t) @ ints (yy_rule_trail_len t)"
    using s sizes(6) by (simp add: s1_def)
  have a2: "ahead s2 = ints (trans_ints (mode = Compress) t) @
      ints (yy_accept_normal t) @ ints (yy_accept_eol t) @ be32 (of_nat (ncs D)) @
      ints (yy_cond_normal t) @ ints (yy_cond_bol t) @ ints (yy_rule_trail_len t)"
    using a1 lm by (simp add: s2_def)
  have e1: "andthen (read_bytes yy_ec (\<lambda>a u. u\<lparr>yy_ec := a\<rparr>) 256) q s = q s1" for q
    unfolding s1_def by (rule ec.fill[OF s sizes(6) lt])
  have lm1: "length (yy_meta (ld_tabs s1)) = (if mode = Compress then ncls D else 0)"
    using sz sizes(8) by (auto simp: same_sizes_def s1_def upd_def split: if_splits)
  have e2: "andthen (if mode = Compress then read_bytes yy_meta (\<lambda>a u. u\<lparr>yy_meta := a\<rparr>) (ncls D)
      else skip_bytes (ncls D)) q s1 = q s2" for q
    using meta.fill[OF a1 lm, of q] skip_bytes_ahead[OF a1 lm, of q] lm1 meta_written[of nfa dfa name] ok t
    by (auto simp: s2_def)
  have sz2: "same_sizes (ld_tabs s2) t"
    using sz sizes lm1 by (auto simp: same_sizes_def s2_def s1_def upd_def)
  obtain s3 where s3: "load_transitions (mode = Compress) D (int (pool D)) s2 = (True, s3)"
    "ahead s3 = ints (yy_accept_normal t) @ ints (yy_accept_eol t) @ be32 (of_nat (ncs D)) @
      ints (yy_cond_normal t) @ ints (yy_cond_bol t) @ ints (yy_rule_trail_len t)"
    "ld_tabs s3 = (ld_tabs s2)\<lparr>yy_base := yy_base t, yy_def := yy_def t, yy_nxt := yy_nxt t, yy_chk := yy_chk t\<rparr>"
    using load_transitions_reads[OF a2 _ sz2 sizes(7)] int by auto
  have z3: "length (yy_accept_normal (ld_tabs s3)) = ns D" "length (yy_accept_eol (ld_tabs s3)) = ns D"
    "length (yy_cond_normal (ld_tabs s3)) = ncs D" "length (yy_cond_bol (ld_tabs s3)) = ncs D"
    "length (yy_rule_trail_len (ld_tabs s3)) = nr D"
    using sz2 sizes by (simp_all add: s3(3) same_sizes_def)
  obtain s4 where s4: "load_tail D s3 = (True, s4)" "ld_tabs s4 = (ld_tabs s3)\<lparr>yy_accept_normal := yy_accept_normal t,
      yy_accept_eol := yy_accept_eol t, yy_cond_normal := yy_cond_normal t, yy_cond_bol := yy_cond_bol t,
      yy_rule_trail_len := yy_rule_trail_len t\<rparr>"
    using load_tail_reads[OF s3(2) sizes(1-5) z3 _ nc] int by auto
  have "ld_tabs s4 = t"
    using sz2 sizes(8) by (auto simp: s4 s3(3) s2_def s1_def upd_def same_sizes_def split: if_splits)
  moreover have "load_body (mode = Compress) D (int (pool D)) s = (True, s4)"
    unfolding load_body_def e1 e2 using s3(1) s4(1) by (simp add: andthen_def)
  ultimately show ?thesis by blast
qed

section \<open>What a successful load has read\<close>

text \<open>\<open>takes k p\<close>: if \<open>p\<close> succeeds, it has read \<open>k\<close> bytes that were there.\<close>

definition takes :: "nat \<Rightarrow> stmt \<Rightarrow> bool" where
  "takes k p \<longleftrightarrow> (\<forall>s s'. p s = (True, s') \<longrightarrow>
     ld_data s' = ld_data s \<and> ld_pos s' = ld_pos s + k \<and> (0 < k \<longrightarrow> ld_pos s' \<le> length (ld_data s)))"

lemma fread_success:
  "fread n s = (b, s') \<Longrightarrow> length b = n \<Longrightarrow>
   s' = adv n s \<and> (0 < n \<longrightarrow> ld_pos s + n \<le> length (ld_data s))"
  by (auto simp: fread_ahead adv_def) (auto simp: ahead_def min_def split: if_splits)

lemma be32_success:
  "yy_read_be32 s = (Some v, s') \<Longrightarrow> s' = adv 4 s \<and> ld_pos s + 4 \<le> length (ld_data s)"
  using fread_success[of 4 s] by (auto simp: yy_read_be32_def split: prod.splits if_splits)

lemma takes_check: "takes 0 (check P)"
  by (simp add: takes_def check_def)

lemma takes_andthen: "takes j p \<Longrightarrow> takes k q \<Longrightarrow> takes (j + k) (andthen p q)"
  unfolding takes_def andthen_def by (auto split: prod.splits if_splits) (metis add_0_right gr0I)+

lemma read_then_success:
  assumes "read_then k s = (True, s')"
  obtains v where "yy_read_be32 s = (Some v, adv 4 s)" "ld_pos s + 4 \<le> length (ld_data s)" "k v (adv 4 s) = (True, s')"
  using assms by (auto simp: read_then_def split: prod.splits option.splits dest: be32_success)

lemma takes_read_then:
  assumes "\<And>v. takes k (q v)"
  shows "takes (4 + k) (read_then q)"
  unfolding takes_def
proof (intro allI impI)
  fix s s' assume "read_then q s = (True, s')"
  then obtain v where v: "ld_pos s + 4 \<le> length (ld_data s)" "q v (adv 4 s) = (True, s')"
    by (rule read_then_success)
  from assms[unfolded takes_def, rule_format, OF v(2)]
  have "ld_data s' = ld_data s" "ld_pos s' = ld_pos s + 4 + k" "0 < k \<longrightarrow> ld_pos s + 4 + k \<le> length (ld_data s)"
    by (auto simp: adv_def)
  with v(1) show "ld_data s' = ld_data s \<and> ld_pos s' = ld_pos s + (4 + k) \<and>
      (0 < 4 + k \<longrightarrow> ld_pos s' \<le> length (ld_data s))"
    by (cases "k = 0") simp_all
qed

lemma takes_ints: "takes (4 * n) (yy_read_int_array get set_to i n)"
proof (induction n arbitrary: i)
  case 0
  then show ?case by (simp add: takes_def)
next
  case (Suc n)
  show ?case
    unfolding takes_def
  proof (intro allI impI)
    fix s s' assume "yy_read_int_array get set_to i (Suc n) s = (True, s')"
    then obtain v where v: "yy_read_be32 s = (Some v, adv 4 s)" "ld_pos s + 4 \<le> length (ld_data s)"
      "yy_read_int_array get set_to (i + 1) n (upd (set_to ((get (ld_tabs s))[i := v])) (adv 4 s)) = (True, s')"
      by (auto split: prod.splits option.splits dest!: be32_success simp: upd_def)
    from Suc[of "i + 1", unfolded takes_def, rule_format, OF v(3)]
    have "ld_data s' = ld_data s" "ld_pos s' = ld_pos s + 4 + 4 * n" "0 < n \<longrightarrow> ld_pos s + 4 + 4 * n \<le> length (ld_data s)"
      by (auto simp: upd_def adv_def)
    with v(2) show "ld_data s' = ld_data s \<and> ld_pos s' = ld_pos s + 4 * Suc n \<and>
        (0 < 4 * Suc n \<longrightarrow> ld_pos s' \<le> length (ld_data s))"
      by (cases "n = 0") simp_all
  qed
qed

lemma takes_bytes: "takes n (read_bytes get set_to n)" "takes n (skip_bytes n)"
  unfolding takes_def read_bytes_def skip_bytes_def
  using fread_success by (auto split: prod.splits simp: adv_def) fastforce+

lemma takes_transitions:
  "takes (if compressed then 8 * ns D + 8 * pool D else 4 * (ns D * ncls D)) (load_transitions compressed D v)"
proof (cases compressed)
  case True
  have "takes (0 + (4 * ns D + (4 * ns D + (4 * pool D + 4 * pool D)))) (load_transitions compressed D v)"
    unfolding load_transitions_def if_P[OF True]
    by (intro takes_andthen takes_check takes_ints)
  moreover have "0 + (4 * ns D + (4 * ns D + (4 * pool D + 4 * pool D))) = 8 * ns D + 8 * pool D" by simp
  ultimately show ?thesis using True by simp
next
  case False
  then show ?thesis using takes_ints by (simp add: load_transitions_def)
qed

lemma takes_tail: "takes (8 * ns D + 4 + 8 * ncs D + 4 * nr D) (load_tail D)"
proof -
  have "takes (4 * ns D + (4 * ns D + (4 + (0 + (4 * ncs D + (4 * ncs D + 4 * nr D)))))) (load_tail D)"
    unfolding load_tail_def by (intro takes_andthen takes_read_then takes_check takes_ints)
  moreover have "4 * ns D + (4 * ns D + (4 + (0 + (4 * ncs D + (4 * ncs D + 4 * nr D))))) =
    8 * ns D + 4 + 8 * ncs D + 4 * nr D" by simp
  ultimately show ?thesis by metis
qed

definition body_size :: "bool \<Rightarrow> load_dims \<Rightarrow> nat" where
  "body_size compressed D =
     256 + (ncls D + ((if compressed then 8 * ns D + 8 * pool D else 4 * (ns D * ncls D)) +
       (8 * ns D + 4 + 8 * ncs D + 4 * nr D)))"

lemma takes_body: "takes (body_size compressed D) (load_body compressed D v)"
  unfolding load_body_def body_size_def
  by (intro takes_andthen takes_tail takes_transitions takes_bytes(1)) (simp add: takes_bytes)

lemma takes_counts:
  assumes "\<And>v. takes K (k v)"
  shows "takes (20 + K) (load_counts D k)"
proof -
  have "takes (4 + (4 + (4 + (4 + (4 + (0 + (0 + K))))))) (load_counts D k)"
    unfolding load_counts_def by (intro takes_read_then takes_andthen takes_check assms)
  moreover have "4 + (4 + (4 + (4 + (4 + (0 + (0 + K)))))) = 20 + K" by simp
  ultimately show ?thesis by metis
qed

lemma read_then_go: "read_then k s = (True, s') \<Longrightarrow> \<exists>v. k v (adv 4 s) = (True, s')"
  by (erule read_then_success) blast

lemma header_success:
  assumes "load_header D k s = (True, s')" "ld_pos s = 0"
  obtains nl where "yy_read_be32 (adv 8 s) = (Some nl, adv 12 s)" "12 \<le> length (ld_data s)" "0 \<le> 12 + nl"
    "load_counts D k (s\<lparr>ld_pos := nat (12 + nl)\<rparr>) = (True, s')"
proof -
  from read_then_go[OF assms(1)[unfolded load_header_def]] obtain v where "andthen (check (v = i32 0xF13C57B1))
     (read_then (\<lambda>version. andthen (check (version = 1))
     (read_then (\<lambda>name_len. andthen (seek_cur name_len) (load_counts D k))))) (adv 4 s) = (True, s')"
    by blast
  then have "read_then (\<lambda>version. andthen (check (version = 1))
     (read_then (\<lambda>name_len. andthen (seek_cur name_len) (load_counts D k)))) (adv 4 s) = (True, s')"
    by (simp add: andthen_check split: if_splits)
  from read_then_go[OF this] obtain w :: int where "andthen (check (w = 1))
     (read_then (\<lambda>name_len. andthen (seek_cur name_len) (load_counts D k))) (adv 4 (adv 4 s)) = (True, s')"
    by blast
  then have "read_then (\<lambda>name_len. andthen (seek_cur name_len) (load_counts D k)) (adv 8 s) = (True, s')"
    by (simp add: andthen_check split: if_splits)
  then obtain nl where nl: "yy_read_be32 (adv 8 s) = (Some nl, adv 4 (adv 8 s))"
    "ld_pos (adv 8 s) + 4 \<le> length (ld_data (adv 8 s))"
    "andthen (seek_cur nl) (load_counts D k) (adv 4 (adv 8 s)) = (True, s')"
    by (rule read_then_success)
  from nl(3) assms(2) have "0 \<le> 12 + nl" "load_counts D k (s\<lparr>ld_pos := nat (12 + nl)\<rparr>) = (True, s')"
    by (auto simp: andthen_def seek_cur_def adv_def split: if_splits)
  with nl(1,2) assms(2) show ?thesis by (intro that[of nl]) (simp_all add: adv_def)
qed

lemma length_serialise:
  assumes "storable mode nfa dfa name" "nfa_rule_trail nfa \<noteq> []"
  shows "length (serialise_tables nfa dfa (mode = Compress) name) =
    32 + length name + body_size (mode = Compress) (dims_of mode nfa dfa)"
proof -
  note sizes = compiled_sizes[OF assms(1) refl refl]
  have nc: "dfa_nclasses dfa < 2 ^ 32" using assms(1) by (simp add: storable_def)
  have "length (meta_bytes dfa) = dfa_nclasses dfa" by (simp add: meta_bytes_def)
  then show ?thesis
    using sizes assms(2)
    unfolding serialise_parts[OF nc]
    by (cases "mode = Compress")
      (simp_all add: Let_def head_bytes_def body_size_def trans_ints_def dims_of_def)
qed

lemma load_success_size:
  assumes ok: "storable mode nfa dfa name"
    and s: "load_header D (load_body compressed D) s = (True, s')" "ld_pos s = 0" "ld_data s = take n fbytes"
    and fb: "fbytes = serialise_tables nfa dfa (mode = Compress) name"
  shows "32 + length name + body_size compressed D \<le> n"
proof -
  from header_success[OF s(1,2)] obtain nl where
    nl: "yy_read_be32 (adv 8 s) = (Some nl, adv 12 s)" "12 \<le> length (ld_data s)" "0 \<le> 12 + nl"
      "load_counts D (load_body compressed D) (s\<lparr>ld_pos := nat (12 + nl)\<rparr>) = (True, s')" .
  have "dfa_nclasses dfa < 2 ^ 32" using ok by (simp add: storable_def)
  then obtain ys where f: "fbytes = be32 0xF13C57B1 @ be32 1 @ be32 (of_nat (length name)) @ ys"
    unfolding fb by (simp add: serialise_parts head_bytes_def Let_def)
  have n: "12 \<le> n" using nl(2) s(3) by simp
  have "ahead (adv 8 s) = be32 (of_nat (length name)) @ take (n - 12) ys"
    using s(2) n by (simp add: ahead_def adv_def s(3) f)
  from read_be32_ahead[OF this] nl(1) have "nl = int (length name)"
    using ok by (simp add: storable_def sint_small_nat)
  then have p: "nat (12 + nl) = 12 + length name" by simp
  from takes_counts[OF takes_body, unfolded takes_def, rule_format, OF nl(4)]
  have "12 + length name + (20 + body_size compressed D) \<le> length (ld_data s)" using p by simp
  then show ?thesis using s(3) by simp
qed

section \<open>Properties\<close>

text \<open>C33. A table file reads back: in each of the three table modes, loading the file the
generator has written for a scanner into that scanner's arrays succeeds and gives exactly the
tables that \<open>emit_c\<close> compiles in, whatever the arrays held before.\<close>

theorem tables_roundtrip:
  assumes ok: "storable mode nfa dfa name" and rules: "nfa_rule_trail nfa \<noteq> []"
    and sz: "same_sizes t0 (compiled_tables mode nfa dfa)"
  shows "yytables_fload (mode = Compress) (dims_of mode nfa dfa)
      (serialise_tables nfa dfa (mode = Compress) name) t0 = (0, compiled_tables mode nfa dfa)"
proof -
  define t where "t = compiled_tables mode nfa dfa"
  define D where "D = dims_of mode nfa dfa"
  define fbytes where "fbytes = serialise_tables nfa dfa (mode = Compress) name"
  define s where "s = \<lparr>ld_data = fbytes, ld_pos = 0, ld_tabs = t0\<rparr>"
  have tr: "yy_rule_trail_len t = nfa_rule_trail nfa" using rules by (simp add: t_def compiled_tables_def Let_def)
  have "dfa_nclasses dfa < 2 ^ 32" using ok by (simp add: storable_def)
  then have parts: "fbytes = head_bytes mode nfa dfa name @ yy_ec t @ meta_bytes dfa @
     ints (trans_ints (mode = Compress) t) @ ints (yy_accept_normal t) @ ints (yy_accept_eol t) @
     be32 (of_nat (ncs D)) @ ints (yy_cond_normal t) @ ints (yy_cond_bol t) @ ints (yy_rule_trail_len t)"
    by (simp add: fbytes_def serialise_parts Let_def t_def[symmetric] ec_written[OF ok] tr)
      (simp add: D_def dims_of_def)
  then have "ahead s = head_bytes mode nfa dfa name @ yy_ec t @ meta_bytes dfa @
     ints (trans_ints (mode = Compress) t) @ ints (yy_accept_normal t) @ ints (yy_accept_eol t) @
     be32 (of_nat (ncs D)) @ ints (yy_cond_normal t) @ ints (yy_cond_bol t) @ ints (yy_rule_trail_len t)"
    by (simp add: ahead_def s_def)
  note head = load_header_reads[OF ok D_def this]
  have int: "\<forall>v\<in>set (trans_ints (mode = Compress) t) \<union> set (yy_accept_normal t) \<union> set (yy_accept_eol t) \<union>
          set (yy_cond_normal t) \<union> set (yy_cond_bol t) \<union> set (yy_rule_trail_len t). int32 v"
    using ok unfolding storable_def Let_def t_def[symmetric] tr by blast
  define s1 where "s1 = adv (length (head_bytes mode nfa dfa name)) s"
  have "ahead s1 = yy_ec t @ meta_bytes dfa @ ints (trans_ints (mode = Compress) t) @
      ints (yy_accept_normal t) @ ints (yy_accept_eol t) @ be32 (of_nat (ncs D)) @
      ints (yy_cond_normal t) @ ints (yy_cond_bol t) @ ints (yy_rule_trail_len t)"
    by (simp add: s1_def ahead_def s_def parts adv_def)
  moreover have "same_sizes (ld_tabs s1) t" using sz by (simp add: s1_def s_def t_def)
  ultimately obtain s' where "load_body (mode = Compress) D (int (pool D)) s1 = (True, s')" "ld_tabs s' = t"
    using load_body_reads[OF ok D_def t_def _ _ int] by blast
  then show ?thesis
    unfolding yytables_fload_def fbytes_def[symmetric] D_def[symmetric] t_def[symmetric] s_def[symmetric]
    by (simp add: head s1_def)
qed

text \<open>C34. A truncated table file is rejected: whatever is missing at its end, loading it
returns -1.\<close>

theorem truncated_tables_rejected:
  assumes ok: "storable mode nfa dfa name" "nfa_rule_trail nfa \<noteq> []"
    and n: "n < length (serialise_tables nfa dfa (mode = Compress) name)"
  shows "fst (yytables_fload (mode = Compress) (dims_of mode nfa dfa)
      (take n (serialise_tables nfa dfa (mode = Compress) name)) t0) = -1"
proof -
  let ?D = "dims_of mode nfa dfa" and ?file = "serialise_tables nfa dfa (mode = Compress) name"
  let ?s = "\<lparr>ld_data = take n ?file, ld_pos = 0, ld_tabs = t0\<rparr>"
  have "\<not> fst (load_header ?D (load_body (mode = Compress) ?D) ?s)"
  proof
    assume "fst (load_header ?D (load_body (mode = Compress) ?D) ?s)"
    then obtain s' where "load_header ?D (load_body (mode = Compress) ?D) ?s = (True, s')"
      by (metis prod.collapse)
    from load_success_size[OF ok(1) this _ _ refl, where n = n] n length_serialise[OF ok] show False by simp
  qed
  then show ?thesis
    by (cases "load_header ?D (load_body (mode = Compress) ?D) ?s") (simp add: yytables_fload_def)
qed

text \<open>A scanner without rules (only \<open><<EOF>>\<close> actions) cannot load its own table file: the
writer stores no trail length, the loader expects one, because the generated array has one
element when there is no rule.\<close>

theorem no_rules_tables_rejected:
  assumes ok: "storable mode nfa dfa name" and rules: "nfa_rule_trail nfa = []"
  shows "fst (yytables_fload (mode = Compress) (dims_of mode nfa dfa)
      (serialise_tables nfa dfa (mode = Compress) name) t0) = -1"
proof -
  let ?D = "dims_of mode nfa dfa" and ?bs = "serialise_tables nfa dfa (mode = Compress) name"
  let ?s = "\<lparr>ld_data = ?bs, ld_pos = 0, ld_tabs = t0\<rparr>"
  note sizes = compiled_sizes[OF ok refl refl]
  have nc: "dfa_nclasses dfa < 2 ^ 32" using ok by (simp add: storable_def)
  have "length (meta_bytes dfa) = dfa_nclasses dfa" by (simp add: meta_bytes_def)
  then have len: "length ?bs < 32 + length name + body_size (mode = Compress) ?D"
    using sizes rules
    unfolding serialise_parts[OF nc]
    by (cases "mode = Compress")
      (simp_all add: Let_def head_bytes_def body_size_def trans_ints_def dims_of_def)
  have "\<not> fst (load_header ?D (load_body (mode = Compress) ?D) ?s)"
  proof
    assume "fst (load_header ?D (load_body (mode = Compress) ?D) ?s)"
    then obtain s' where "load_header ?D (load_body (mode = Compress) ?D) ?s = (True, s')"
      by (metis prod.collapse)
    from load_success_size[OF ok this _ _ refl, where n = "length ?bs"] len show False by simp
  qed
  then show ?thesis
    by (cases "load_header ?D (load_body (mode = Compress) ?D) ?s") (simp add: yytables_fload_def)
qed

text \<open>A scanner with one state, one class and one condition, for the witnesses.\<close>

definition tiny_dfa :: dfa where
  "tiny_dfa = \<lparr>dfa_states = [\<lparr>d_next = [-1], d_accept_normal = 0, d_accept_eol = -1,
       d_accept_list = [0], d_boundary_rules = []\<rparr>],
     dfa_cond_starts = [\<lparr>ds_normal = 0, ds_bol = 0\<rparr>],
     dfa_eclasses = \<lparr>ec_map = replicate 256 0, ec_n = 1\<rparr>,
     dfa_nclasses = 1, dfa_meta = [], dfa_nmeta = 1\<rparr>"

lemma tiny_storable: "storable FullEc (empty_nfa\<lparr>nfa_rule_trail := trail\<rparr>) tiny_dfa ''yy''"
  if "trail = [] \<or> trail = [0]"
  using that by (auto simp: storable_def tiny_dfa_def compiled_tables_def trans_ints_def no_comb_def Let_def int32_def)

lemma tables_roundtrip_witness:
  "fst (yytables_fload False (dims_of FullEc (empty_nfa\<lparr>nfa_rule_trail := [0]\<rparr>) tiny_dfa)
     (serialise_tables (empty_nfa\<lparr>nfa_rule_trail := [0]\<rparr>) tiny_dfa False ''yy'')
     (compiled_tables FullEc (empty_nfa\<lparr>nfa_rule_trail := [0]\<rparr>) tiny_dfa)) = 0"
  using tables_roundtrip[OF tiny_storable[of "[0]"], of "compiled_tables FullEc (empty_nfa\<lparr>nfa_rule_trail := [0]\<rparr>) tiny_dfa"]
  by (simp add: same_sizes_def)

lemma truncated_tables_rejected_witness:
  "fst (yytables_fload False (dims_of FullEc (empty_nfa\<lparr>nfa_rule_trail := [0]\<rparr>) tiny_dfa)
     (take 100 (serialise_tables (empty_nfa\<lparr>nfa_rule_trail := [0]\<rparr>) tiny_dfa False ''yy''))
     (compiled_tables FullEc (empty_nfa\<lparr>nfa_rule_trail := [0]\<rparr>) tiny_dfa)) = -1"
proof -
  have "100 < length (serialise_tables (empty_nfa\<lparr>nfa_rule_trail := [0]\<rparr>) tiny_dfa (FullEc = Compress) ''yy'')"
    using length_serialise[OF tiny_storable[of "[0]"]] by (simp add: body_size_def)
  from truncated_tables_rejected[OF tiny_storable[of "[0]"] _ this] show ?thesis by simp
qed

lemma no_rules_tables_rejected_witness:
  "fst (yytables_fload False (dims_of FullEc (empty_nfa\<lparr>nfa_rule_trail := []\<rparr>) tiny_dfa)
     (serialise_tables (empty_nfa\<lparr>nfa_rule_trail := []\<rparr>) tiny_dfa False ''yy'')
     (compiled_tables FullEc (empty_nfa\<lparr>nfa_rule_trail := []\<rparr>) tiny_dfa)) = -1"
  using no_rules_tables_rejected[OF tiny_storable[of "[]"]] by simp

end
