(* ===== verification/Table_Spec.thy ===== *)
theory Table_Spec
  imports Dfa_Correct
begin

text \<open>
  What an automaton carries the rules of a specification, whichever way the calls of
  \<open>add_rule_to_nfa\<close> and \<open>add_eof_rule\<close> were interleaved (\<open>carries\<close>), and what the states of
  its table then report (\<open>reports\<close>). The compiler reads a class without members as the empty
  string: \<open>clean\<close> makes that explicit, and \<open>add_rule_to_nfa\<close> does the same with the cleaned tree.
\<close>

section \<open>Classes without members\<close>

primrec clean :: "node \<Rightarrow> node" where
  "clean Null = Null"
| "clean Empty = Empty"
| "clean (Class s) = (if bs_empty s then Empty else Class s)"
| "clean (Concat a b) = Concat (clean a) (clean b)"
| "clean (Alt a b) = Alt (clean a) (clean b)"
| "clean (Star a) = Star (clean a)"
| "clean (Plus a) = Plus (clean a)"
| "clean (Question a) = Question (clean a)"
| "clean (Repeat a lo hi) = Repeat (clean a) lo hi"
| "clean AnchorBOL = AnchorBOL"
| "clean AnchorEOL = AnchorEOL"
| "clean TrailBoundary = TrailBoundary"

lemma proper_clean [simp]: "proper (clean n)"
  by (induction n) auto

lemma clean_proper [simp]: "proper n \<Longrightarrow> clean n = n"
  by (induction n) auto

lemma compile_clean: "compile (clean n) = compile n"
proof (induction n)
  case (Class s)
  show ?case
  proof (cases "bs_empty s")
    case True
    then have "s = bs_clear" by (simp add: bs_empty_eq)
    then show ?thesis
      by (simp add: bs_empty_eq compile_empty_def compile_class_def add_eps_def add_class_def fun_eq_iff)
  qed simp
qed simp_all

lemma clean_anchors [simp]:
  "clean n = AnchorBOL \<longleftrightarrow> n = AnchorBOL" "clean n = AnchorEOL \<longleftrightarrow> n = AnchorEOL"
  by (cases n; simp)+

lemma clean_unwrap:
  "unwrap_bol (clean n) = map_prod clean id (unwrap_bol n)"
  "unwrap_eol (clean n) = map_prod clean id (unwrap_eol n)"
  "unwrap_anchors (clean n) = map_prod clean id (unwrap_anchors n)"
proof -
  show b: "unwrap_bol (clean n) = map_prod clean id (unwrap_bol n)" for n
    by (cases n) (auto simp: unwrap_bol_def split: node.splits)
  show e: "unwrap_eol (clean n) = map_prod clean id (unwrap_eol n)" for n
    by (cases n) (auto simp: unwrap_eol_def split: node.splits)
  show "unwrap_anchors (clean n) = map_prod clean id (unwrap_anchors n)"
    by (simp add: unwrap_anchors_def b e split: prod.splits)
qed

lemma add_rule_clean: "add_rule_to_nfa nfa (clean root) r sites t = add_rule_to_nfa nfa root r sites t"
  by (cases "unwrap_anchors root") (simp add: add_rule_to_nfa_def clean_unwrap compile_clean)


section \<open>Automata that carry a list of rules\<close>

text \<open>
  \<open>carries names excl rs nfa\<close>: the automaton has the conditions of \<open>init_nfa\<close>, and what it
  accepts and marks from a start state is what the rules \<open>rs\<close> say. Nothing is said of the
  end-of-file rules beyond the length of their vector.
\<close>

definition carries :: "string list \<Rightarrow> nat list \<Rightarrow> pattern_rule list \<Rightarrow> nfa \<Rightarrow> bool" where
  "carries names excl rs nfa \<longleftrightarrow> nfa_ok nfa \<and> same_conds nfa (init_nfa empty_nfa names excl) \<and>
     length (nfa_rule_bol nfa) = length rs \<and>
     nfa_rule_eol nfa = map (\<lambda>r. if rule_is_eol r then 1 else 0) rs \<and>
     nfa_rule_trail nfa = map (\<lambda>r. snd (snd r)) rs \<and>
     (\<forall>c bol w r. c < length names \<longrightarrow>
        (accepts nfa (start_of nfa c bol) w r \<longleftrightarrow> rule_matches names excl rs c bol w r) \<and>
        (marked nfa (start_of nfa c bol) w r \<longleftrightarrow> rule_marks names excl rs c bol w r))"

lemma carriesD:
  assumes "carries names excl rs nfa"
  shows "nfa_ok nfa" "same_conds nfa (init_nfa empty_nfa names excl)" "nfa_cond_names nfa = names"
    "length (nfa_rule_bol nfa) = length rs"
    "nfa_rule_eol nfa = map (\<lambda>r. if rule_is_eol r then 1 else 0) rs"
    "nfa_rule_trail nfa = map (\<lambda>r. snd (snd r)) rs"
    "c < length names \<Longrightarrow> accepts nfa (start_of nfa c bol) w r \<longleftrightarrow> rule_matches names excl rs c bol w r"
    "c < length names \<Longrightarrow> marked nfa (start_of nfa c bol) w r \<longleftrightarrow> rule_marks names excl rs c bol w r"
  using assms unfolding carries_def same_conds_def by (auto simp: init_nfa_conds)

lemma carries_init:
  assumes "length excl = length names"
  shows "carries names excl [] (init_nfa empty_nfa names excl)"
proof -
  have "nfa_ok (init_nfa empty_nfa names excl)"
    by (rule init_nfa_ok) (use assms in \<open>simp_all add: empty_nfa_def\<close>)
  then show ?thesis
    by (simp add: carries_def same_conds_def init_conds_frame init_nfa_accepts rule_matches_def rule_marks_def
        marked_def)
qed

lemma carries_adds:
  assumes a: "carries names excl rs nfa" and b: "adds ss nfa nfa'"
  shows "carries names excl (rs @ ss) nfa'"
proof -
  have st: "start_of nfa' = start_of nfa" using b by (intro start_of_cong) (simp add: adds_def)
  have act: "rule_active nfa = rule_active (init_nfa empty_nfa names excl)"
    using rule_active_cong[OF carriesD(2)[OF a]] by (intro ext)
  have "same_conds nfa' (init_nfa empty_nfa names excl)"
    using b carriesD(2)[OF a] by (simp add: adds_def same_conds_def)
  moreover have "rule_matches names excl (rs @ ss) c bol w r \<longleftrightarrow> rule_matches names excl rs c bol w r \<or>
      rule_at (length rs) ss (\<lambda>x. rule_active nfa x c bol \<and> w \<in> rule_lang x) r"
    "rule_marks names excl (rs @ ss) c bol w r \<longleftrightarrow> rule_marks names excl rs c bol w r \<or>
      rule_at (length rs) ss (\<lambda>x. rule_active nfa x c bol \<and> w \<in> rule_head x) r" for c bol w r
    by (auto simp: rule_matches_def rule_marks_def rule_at_def nth_append act)
  ultimately show ?thesis
    using b carriesD(3-8)[OF a] by (simp add: carries_def adds_def st)
qed

lemma carries_rule:
  assumes "carries names excl rs nfa" "list_all (\<lambda>c. c < length names) (rs_conds sites)"
  shows "carries names excl (rs @ [(clean root, sites, t)]) (add_rule_to_nfa nfa root (length rs) sites t)"
proof -
  note c = carriesD[OF assms(1)]
  have "adds [(clean root, sites, t)] nfa (add_rule_to_nfa nfa (clean root) (length (nfa_rule_bol nfa)) sites t)"
    by (rule adds_one[OF c(1)]) (simp add: rule_ok_def assms(2) c(3))
  from carries_adds[OF assms(1) this] show ?thesis by (simp add: add_rule_clean c(4))
qed

lemma add_eof_frame:
  "\<exists>e. add_eof_rule nfa i sites = nfa\<lparr>nfa_eof_rules := e\<rparr> \<and> length e = length (nfa_eof_rules nfa)"
proof -
  have "\<exists>e. fold (\<lambda>c nfa. nfa\<lparr>nfa_eof_rules := (nfa_eof_rules nfa)[c := nfa_eof_rules nfa ! c @ [i]]\<rparr>) cs nfa
      = nfa\<lparr>nfa_eof_rules := e\<rparr> \<and> length e = length (nfa_eof_rules nfa)" for cs
  proof (induction cs arbitrary: nfa)
    case Nil
    then show ?case by (intro exI[of _ "nfa_eof_rules nfa"]) simp
  next
    case (Cons d cs)
    from Cons.IH[of "nfa\<lparr>nfa_eof_rules := (nfa_eof_rules nfa)[d := nfa_eof_rules nfa ! d @ [i]]\<rparr>"]
    show ?case by auto
  qed
  then show ?thesis by (simp add: add_eof_rule_def)
qed

lemma carries_eof:
  assumes "carries names excl rs nfa"
  shows "carries names excl rs (add_eof_rule nfa i sites)"
proof -
  obtain e where e: "add_eof_rule nfa i sites = nfa\<lparr>nfa_eof_rules := e\<rparr>" "length e = length (nfa_eof_rules nfa)"
    using add_eof_frame by blast
  have "start_of (nfa\<lparr>nfa_eof_rules := e\<rparr>) = start_of nfa"
    by (simp add: start_of_def fun_eq_iff)
  moreover have "accepts (nfa\<lparr>nfa_eof_rules := e\<rparr>) = accepts nfa" "marked (nfa\<lparr>nfa_eof_rules := e\<rparr>) = marked nfa"
    by (simp_all add: accepts_def marked_def fun_eq_iff)
  moreover have "same_conds (nfa\<lparr>nfa_eof_rules := e\<rparr>) x = same_conds nfa x" for x
    by (simp add: same_conds_def)
  moreover have "nfa_ok (nfa\<lparr>nfa_eof_rules := e\<rparr>) \<longleftrightarrow> nfa_ok nfa" if "nfa_ok nfa"
    using that e(2) by (simp add: nfa_ok_def starts_def)
  ultimately show ?thesis
    using assms by (simp add: e(1) carries_def)
qed

lemma spec_nfa_carries:
  assumes "spec_ok names excl rs"
  shows "carries names excl rs (spec_nfa names excl rs)"
  using carries_adds[OF carries_init spec_nfa_adds[OF assms]] assms by (simp add: spec_ok_def)

section \<open>What the table reports\<close>

text \<open>What a DFA state reports about the rules after the string \<open>w\<close>.\<close>

definition reports ::
    "string list \<Rightarrow> nat list \<Rightarrow> pattern_rule list \<Rightarrow> nat \<Rightarrow> bool \<Rightarrow> byte list \<Rightarrow> dfa_state \<Rightarrow> bool" where
  "reports names excl rs c bol w d \<longleftrightarrow>
     sorted_wrt (<) (d_accept_list d) \<and>
     set (d_accept_list d) = {int r |r. rule_matches names excl rs c bol w r} \<and>
     least (\<lambda>r. rule_matches names excl rs c bol w (nat r) \<and> \<not> rule_is_eol (rs ! nat r)) (d_accept_normal d) \<and>
     least (\<lambda>r. rule_matches names excl rs c bol w (nat r) \<and> rule_is_eol (rs ! nat r)) (d_accept_eol d) \<and>
     set (d_boundary_rules d) = {int r |r. rule_marks names excl rs c bol w r}"

text \<open>The table tells the rules apart, from every start state and after every string.\<close>

definition scans :: "string list \<Rightarrow> nat list \<Rightarrow> pattern_rule list \<Rightarrow> dfa \<Rightarrow> bool" where
  "scans names excl rs dfa \<longleftrightarrow>
     (\<forall>c bol w. c < length names \<longrightarrow>
       (case run_from (dfa_delta dfa) (dfa_start_of dfa c bol) w of
          None \<Rightarrow> \<forall>v r. \<not> rule_matches names excl rs c bol (w @ v) r
        | Some t \<Rightarrow> reports names excl rs c bol w (dfa_states dfa ! t)))"

lemma table_scans:
  assumes N: "carries names excl rs nfa" and dfa: "build_dfa nfa use_eclasses compute_meta = Some dfa"
  shows "scans names excl rs dfa"
  unfolding scans_def
proof (intro allI impI)
  fix c bol w
  assume c: "c < length names"
  note s = carriesD[OF N]
  obtain bd where b: "built nfa dfa bd"
    using build_dfa_built[OF s(1)] dfa by (metis option.inject)
  have c': "c < length (nfa_cond_names nfa)" by (simp add: s(3) c)
  have no: "reach (nfa_states nfa) (start_of nfa c bol) w = {} \<Longrightarrow> \<not> accepts nfa (start_of nfa c bol) (w @ v) r" for v r
    using foldl_move[of "nfa_states nfa" "start_of nfa c bol"] reach_append[of "nfa_states nfa" "start_of nfa c bol" w v]
    by (auto simp: accepts_def reach_def)
  have eol: "rule_matches names excl rs c bol w (nat r) \<Longrightarrow>
      (nfa_rule_eol nfa ! nat r = 0) = (\<not> rule_is_eol (rs ! nat r))" for r
    by (auto simp: s(5) rule_matches_def)
  have "least (\<lambda>r. accepts nfa (start_of nfa c bol) w (nat r) \<and> nfa_rule_eol nfa ! nat r = 0) k
      = least (\<lambda>r. rule_matches names excl rs c bol w (nat r) \<and> \<not> rule_is_eol (rs ! nat r)) k"
    "least (\<lambda>r. accepts nfa (start_of nfa c bol) w (nat r) \<and> nfa_rule_eol nfa ! nat r \<noteq> 0) k
      = least (\<lambda>r. rule_matches names excl rs c bol w (nat r) \<and> rule_is_eol (rs ! nat r)) k" for k
    by (rule least_cong; use eol s(7)[OF c] in metis)+
  with dfa_run[OF s(1) b c', of bol w] no show "case run_from (dfa_delta dfa) (dfa_start_of dfa c bol) w of
      None \<Rightarrow> \<forall>v r. \<not> rule_matches names excl rs c bol (w @ v) r
    | Some t \<Rightarrow> reports names excl rs c bol w (dfa_states dfa ! t)"
    by (auto simp: reports_def describes_def s(7,8)[OF c] split: option.splits)
qed

end
