(* ===== verification/Source_Data.thy ===== *)
theory Source_Data
  imports Diag
begin

text \<open>
  The contents of a specification file, as \<open>src/src/source.hpp\<close> declares them: start
  conditions, rules, options and the verbatim sections.
\<close>

record start_cond =
  sc_name :: string
  sc_exclusive :: bool

record lex_rule =
  r_loc :: source_loc
  r_conds :: "string list"
  r_any_state :: bool
  r_pattern :: string
  r_action :: string
  r_eof :: bool

record options =
  o_noyywrap :: bool
  o_yylineno :: bool
  o_case_insensitive :: bool
  o_nodefault :: bool
  o_debug :: bool
  o_reentrant :: bool
  o_bison_bridge :: bool
  o_bison_locations :: bool
  o_uses_reject :: bool
  o_array :: bool
  o_noyyalloc :: bool
  o_noyyrealloc :: bool
  o_noyyfree :: bool
  o_prefix :: string
  o_extra_type :: string

record lex_file =
  lf_origin :: source_loc
  lf_defs :: "(string \<times> string) list"
  lf_conds :: "start_cond list"
  lf_rules :: "lex_rule list"
  lf_section_top :: string
  lf_section_top_loc :: source_loc
  lf_section1 :: string
  lf_section1_loc :: source_loc
  lf_section2 :: string
  lf_section2_loc :: source_loc
  lf_section3 :: string
  lf_section3_loc :: source_loc
  lf_options :: options

text \<open>The values the members start with.\<close>

definition empty_loc :: source_loc where
  "empty_loc = \<lparr>sl_file = [], sl_line = 0, sl_col = 0\<rparr>"

definition default_options :: options where
  "default_options = \<lparr>o_noyywrap = False, o_yylineno = False, o_case_insensitive = False, o_nodefault = False,
     o_debug = False, o_reentrant = False, o_bison_bridge = False, o_bison_locations = False,
     o_uses_reject = False, o_array = False, o_noyyalloc = False, o_noyyrealloc = False, o_noyyfree = False,
     o_prefix = ''yy'', o_extra_type = []\<rparr>"

definition empty_file :: "source_loc \<Rightarrow> lex_file" where
  "empty_file origin = \<lparr>lf_origin = origin, lf_defs = [], lf_conds = [], lf_rules = [],
     lf_section_top = [], lf_section_top_loc = empty_loc, lf_section1 = [], lf_section1_loc = empty_loc,
     lf_section2 = [], lf_section2_loc = empty_loc, lf_section3 = [], lf_section3_loc = empty_loc,
     lf_options = default_options\<rparr>"

definition empty_rule :: lex_rule where
  "empty_rule = \<lparr>r_loc = empty_loc, r_conds = [], r_any_state = False, r_pattern = [], r_action = [], r_eof = False\<rparr>"

end
