(* ===== verification/Driver.thy ===== *)
theory Driver
  imports Source_Data Tables
begin

text \<open>
  The command line of \<open>src/src/main.cpp\<close>: \<open>parse_args\<close>, and the text functions
  \<open>normalise_source\<close> and \<open>contains_word\<close>. Writing a file or the standard output is an
  effect the model records: \<open>--help\<close> and \<open>--version\<close> end the program with a text, and
  \<open>-b\<close> adds a path to which the fixed line of the backup report is written.
\<close>

section \<open>Arguments\<close>

record args =
  a_output_path :: string
  a_prefix :: string
  a_input_paths :: "string list"
  a_to_stdout :: bool
  a_case_insensitive :: bool
  a_yylineno :: bool
  a_nodefault :: bool
  a_prefix_set :: bool
  a_noline :: bool
  a_debug :: bool
  a_header_path :: string
  a_tables_path :: string
  a_skeleton_path :: string
  a_compress :: compress_mode

definition no_args :: args where
  "no_args = \<lparr>a_output_path = [], a_prefix = [], a_input_paths = [], a_to_stdout = False,
     a_case_insensitive = False, a_yylineno = False, a_nodefault = False, a_prefix_set = False,
     a_noline = False, a_debug = False, a_header_path = [], a_tables_path = [], a_skeleton_path = [],
     a_compress = Compress\<rparr>"

definition starts_with :: "string \<Rightarrow> string \<Rightarrow> bool" where
  "starts_with s p \<longleftrightarrow> length s \<ge> length p \<and> take (length p) s = p"

text \<open>
  What one argument does, given the arguments after it: end the program (help or version),
  report an error, or go on with new settings after skipping some of the following
  arguments, possibly having written the backup report.
\<close>

datatype outcome = Help | Version

datatype arg_act =
    Quit outcome
  | Bad string
  | Go nat args "string option"

definition with_value :: "string \<Rightarrow> string list \<Rightarrow> (string \<Rightarrow> args) \<Rightarrow> arg_act" where
  "with_value msg rest_args set_to = (case rest_args of [] \<Rightarrow> Bad msg | v # _ \<Rightarrow> Go 1 (set_to v) None)"

definition arg_modes :: "string \<Rightarrow> compress_mode option" where
  "arg_modes a =
     (if a \<in> {''-f'', ''--full'', ''-Cf'', ''--Cf''} then Some Full
      else if a \<in> {''-Cfe'', ''--Cfe''} then Some FullEc
      else if a \<in> {''-Cem'', ''--Cem'', ''--compress''} then Some Compress
      else if a \<in> {''-CF'', ''-CFe'', ''-CFa'', ''-CFae'', ''-CFr'', ''-CFar'', ''-CFaer''} then Some Full
      else None)"

definition ignored_args :: "string list" where
  "ignored_args = [''-p'', ''-p1'', ''-p2'', ''--perf-report'', ''-T'', ''--trace'', ''-w'', ''--nowarn'', ''-7'', ''-8'']"

text \<open>The flags, before the options that carry a value.\<close>

definition flag_act :: "string \<Rightarrow> args \<Rightarrow> arg_act option" where
  "flag_act a out =
     (if a = ''-h'' \<or> a = ''--help'' then Some (Quit Help)
      else if a = ''-V'' \<or> a = ''--version'' then Some (Quit Version)
      else if a = ''-t'' \<or> a = ''--stdout'' then Some (Go 0 (out\<lparr>a_to_stdout := True\<rparr>) None)
      else if a = ''-i'' \<or> a = ''--case-insensitive'' then Some (Go 0 (out\<lparr>a_case_insensitive := True\<rparr>) None)
      else if a = ''--yylineno'' then Some (Go 0 (out\<lparr>a_yylineno := True\<rparr>) None)
      else if a = ''-s'' \<or> a = ''--nodefault'' then Some (Go 0 (out\<lparr>a_nodefault := True\<rparr>) None)
      else if a = ''-L'' \<or> a = ''--noline'' then Some (Go 0 (out\<lparr>a_noline := True\<rparr>) None)
      else case arg_modes a of
        Some m \<Rightarrow> Some (Go 0 (out\<lparr>a_compress := m\<rparr>) None)
      | None \<Rightarrow>
          if a = ''-d'' \<or> a = ''--debug'' then Some (Go 0 (out\<lparr>a_debug := True\<rparr>) None)
          else if a \<in> set ignored_args then Some (Go 0 out None)
          else None)"

definition value_act :: "string \<Rightarrow> string list \<Rightarrow> args \<Rightarrow> arg_act" where
  "value_act a later out =
     (if starts_with a ''-b'' then Go 0 out (Some (if length a > 2 then drop 2 a else ''lex.backup''))
      else if starts_with a ''--tables-file='' then Go 0 (out\<lparr>a_tables_path := drop 14 a\<rparr>) None
      else if a = ''-S'' \<or> a = ''--skeleton'' then
        with_value ''-S requires an argument'' later (\<lambda>v. out\<lparr>a_skeleton_path := v\<rparr>)
      else if starts_with a ''-S'' then Go 0 (out\<lparr>a_skeleton_path := drop 2 a\<rparr>) None
      else if starts_with a ''--skeleton='' then Go 0 (out\<lparr>a_skeleton_path := drop 11 a\<rparr>) None
      else if starts_with a ''--header-file='' then Go 0 (out\<lparr>a_header_path := drop 14 a\<rparr>) None
      else if a = ''--header-file'' then
        (case later of
           [] \<Rightarrow> Go 0 (out\<lparr>a_header_path := ''_default_''\<rparr>) None
         | v # _ \<Rightarrow>
             if v \<noteq> [] \<and> hd v \<noteq> CHR ''-'' then Go 1 (out\<lparr>a_header_path := v\<rparr>) None
             else Go 0 (out\<lparr>a_header_path := ''_default_''\<rparr>) None)
      else if a = ''-o'' then with_value ''-o requires an argument'' later (\<lambda>v. out\<lparr>a_output_path := v\<rparr>)
      else if starts_with a ''-o'' then Go 0 (out\<lparr>a_output_path := drop 2 a\<rparr>) None
      else if starts_with a ''--outfile='' then Go 0 (out\<lparr>a_output_path := drop 10 a\<rparr>) None
      else if a = ''-P'' then
        with_value ''-P requires an argument'' later (\<lambda>v. out\<lparr>a_prefix := v, a_prefix_set := True\<rparr>)
      else if starts_with a ''-P'' then Go 0 (out\<lparr>a_prefix := drop 2 a, a_prefix_set := True\<rparr>) None
      else if starts_with a ''--prefix='' then Go 0 (out\<lparr>a_prefix := drop 9 a, a_prefix_set := True\<rparr>) None
      else if a = ''--'' then Go (length later) (out\<lparr>a_input_paths := a_input_paths out @ later\<rparr>) None
      else if a \<noteq> [] \<and> hd a = CHR ''-'' \<and> a \<noteq> ''-'' then Bad (''unknown option: '' @ a)
      else Go 0 (out\<lparr>a_input_paths := a_input_paths out @ [a]\<rparr>) None)"

definition arg_step :: "string \<Rightarrow> string list \<Rightarrow> args \<Rightarrow> arg_act" where
  "arg_step a later out = (case flag_act a out of Some act \<Rightarrow> act | None \<Rightarrow> value_act a later out)"

text \<open>
  The result: the program ended, or \<open>parse_args\<close> returned a code; with the paths the backup
  report was written to.
\<close>

datatype cli =
    Exited outcome "string list"
  | Returned int args diagnostics "string list"

function args_loop :: "string list \<Rightarrow> args \<Rightarrow> diagnostics \<Rightarrow> string list \<Rightarrow> cli" where
  "args_loop [] out diag written =
     Returned 0
       (if a_output_path out = [] \<and> \<not> a_to_stdout out then out\<lparr>a_output_path := ''lex.yy.c''\<rparr> else out)
       diag written"
| "args_loop (a # later) out diag written =
     (case arg_step a later out of
        Quit oc \<Rightarrow> Exited oc written
      | Bad msg \<Rightarrow> Returned 2 out (diag_error empty_loc msg diag) written
      | Go k out w \<Rightarrow>
          args_loop (drop k later) out diag (case w of None \<Rightarrow> written | Some p \<Rightarrow> written @ [p]))"
  by pat_completeness auto
termination
  by (relation "measure (\<lambda>(argv, out, diag, written). length argv)") auto

text \<open>\<open>argv[0]\<close> is the name of the program.\<close>

definition parse_args :: "string list \<Rightarrow> diagnostics \<Rightarrow> cli" where
  "parse_args argv diag = args_loop (drop 1 argv) no_args diag []"

section \<open>Text\<close>

fun collapse_crlf :: "string \<Rightarrow> string" where
  "collapse_crlf [] = []"
| "collapse_crlf (c # cs) =
     (if c = CHR 0x0D \<and> cs \<noteq> [] \<and> hd cs = CHR 0x0A then collapse_crlf cs else c # collapse_crlf cs)"

definition normalise_source :: "string \<Rightarrow> string" where
  "normalise_source s =
     collapse_crlf
       (if length s \<ge> 3 \<and> uc (s ! 0) = 0xef \<and> uc (s ! 1) = 0xbb \<and> uc (s ! 2) = 0xbf then drop 3 s else s)"

text \<open>\<open>s.find(word, pos)\<close>: the first position from \<open>pos\<close> on where \<open>word\<close> occurs.\<close>

definition find_from :: "string \<Rightarrow> string \<Rightarrow> nat \<Rightarrow> nat option" where
  "find_from s word pos =
     List.find (\<lambda>i. take (length word) (drop i s) = word) [pos..<length s + 1 - length word]"

definition word_char :: "char \<Rightarrow> bool" where
  "word_char c \<longleftrightarrow> isalnum c \<or> c = CHR ''_''"

lemma find_from_bounds:
  "find_from s word pos = Some i \<Longrightarrow> pos \<le> i \<and> i + length word \<le> length s"
  unfolding find_from_def by (auto simp: find_Some_iff nth_append)

text \<open>
  The loop of \<open>contains_word\<close>. An empty word that is found inside a longer word leaves the
  position where it was, so the loop then never ends: that is \<open>None\<close>.
\<close>

partial_function (option) word_from :: "string \<Rightarrow> string \<Rightarrow> nat \<Rightarrow> bool option" where
  "word_from s word pos =
     (case find_from s word pos of
        None \<Rightarrow> Some False
      | Some i \<Rightarrow>
          (let lb = (i = 0 \<or> \<not> word_char (s ! (i - 1))); e = i + length word;
               rb = (e \<ge> length s \<or> \<not> word_char (s ! e))
           in if lb \<and> rb then Some True else word_from s word e))"

definition contains_word :: "string \<Rightarrow> string \<Rightarrow> bool option" where
  "contains_word s word = word_from s word 0"

text \<open>The occurrences of a word that no letter, digit or underscore touches.\<close>

definition whole_word_at :: "string \<Rightarrow> string \<Rightarrow> nat \<Rightarrow> bool" where
  "whole_word_at s word i \<longleftrightarrow>
     i + length word \<le> length s \<and> take (length word) (drop i s) = word
     \<and> (i = 0 \<or> \<not> word_char (s ! (i - 1)))
     \<and> (i + length word = length s \<or> \<not> word_char (s ! (i + length word)))"

lemma find_from_exact:
  "find_from s word pos = Some i \<longleftrightarrow>
     pos \<le> i \<and> i + length word \<le> length s \<and> take (length word) (drop i s) = word
     \<and> (\<forall>j. pos \<le> j \<longrightarrow> j < i \<longrightarrow> take (length word) (drop j s) \<noteq> word)"
  (is "?L \<longleftrightarrow> ?R")
proof
  assume ?L
  then obtain k where k: "k < length s + 1 - length word - pos" "i = pos + k"
      "take (length word) (drop (pos + k) s) = word"
      "\<forall>j<k. take (length word) (drop (pos + j) s) \<noteq> word"
    unfolding find_from_def by (auto simp: find_Some_iff)
  have "take (length word) (drop j s) \<noteq> word" if "pos \<le> j" "j < i" for j
    using k(4)[rule_format, of "j - pos"] that k(2) by simp
  then show ?R using k by auto
next
  assume R: ?R
  then show ?L
    unfolding find_from_def
    by (auto simp: find_Some_iff intro!: exI[of _ "i - pos"])
qed

lemma find_from_None:
  assumes "find_from s word pos = None" "pos \<le> i" "i + length word \<le> length s"
  shows "take (length word) (drop i s) \<noteq> word"
  using assms unfolding find_from_def by (auto simp: find_None_iff)

text \<open>
  Skipping to the end of an occurrence that is part of a longer word misses no whole word:
  an occurrence that starts inside it has a word character before it.
\<close>

definition all_word :: "string \<Rightarrow> bool" where
  "all_word w \<longleftrightarrow> w \<noteq> [] \<and> list_all word_char w"

lemma word_from_spec:
  assumes "all_word word"
  shows "word_from s word pos = Some (\<exists>i\<ge>pos. whole_word_at s word i)"
proof (induction "length s - pos" arbitrary: pos rule: less_induct)
  case less
  show ?case
  proof (cases "find_from s word pos")
    case None
    then show ?thesis
      using find_from_None[OF None] by (auto simp: word_from.simps[of s word pos] whole_word_at_def)
  next
    case (Some i)
    note i = Some[unfolded find_from_exact]
    have w0: "0 < length word" using assms by (auto simp: all_word_def)
    have start: "i \<le> j" if "whole_word_at s word j" "pos \<le> j" for j
      using i that by (meson not_le_imp_less whole_word_at_def)
    have inside: "word_char (s ! (j - 1))" if "i < j" "j \<le> i + length word" for j
    proof -
      have "word ! (j - 1 - i) = s ! (j - 1)"
      proof -
        have "take (length word) (drop i s) ! (j - 1 - i) = s ! (i + (j - 1 - i))"
          using i that by (subst nth_take) auto
        then show ?thesis using i that by simp
      qed
      moreover have "word_char (word ! (j - 1 - i))"
        using assms that by (auto simp: all_word_def list_all_length)
      ultimately show ?thesis by simp
    qed
    have skip: "i + length word \<le> j" if "whole_word_at s word j" "pos \<le> j" "j \<noteq> i" for j
    proof (rule ccontr)
      assume "\<not> i + length word \<le> j"
      with start[OF that(1,2)] that(3) inside[of j] have "word_char (s ! (j - 1))" "0 < j" by auto
      with that(1) show False by (auto simp: whole_word_at_def)
    qed
    have rest: "(\<exists>j\<ge>pos. whole_word_at s word j) \<longleftrightarrow> (\<exists>j\<ge>i + length word. whole_word_at s word j)"
      if "\<not> whole_word_at s word i"
    proof -
      have "i + length word \<le> j" if "pos \<le> j" "whole_word_at s word j" for j
        using skip[OF that(2,1)] that \<open>\<not> whole_word_at s word i\<close> by blast
      moreover have "pos \<le> j" if "i + length word \<le> j" for j using i that by simp
      ultimately show ?thesis by blast
    qed
    have "length s - (i + length word) < length s - pos" using i w0 by arith
    then have IH: "word_from s word (i + length word) = Some (\<exists>j\<ge>i + length word. whole_word_at s word j)"
      by (rule less)
    have at: "whole_word_at s word i \<longleftrightarrow>
        (i = 0 \<or> \<not> word_char (s ! (i - 1)))
        \<and> (i + length word \<ge> length s \<or> \<not> word_char (s ! (i + length word)))"
      using i by (auto simp: whole_word_at_def)
    show ?thesis
    proof (cases "whole_word_at s word i")
      case True
      then have "\<exists>j\<ge>pos. whole_word_at s word j" using i by blast
      then show ?thesis using True at by (simp add: word_from.simps[of s word pos] Some Let_def)
    next
      case False
      have "word_from s word pos = word_from s word (i + length word)"
        using False[unfolded at] by (auto simp: word_from.simps[of s word pos] Some Let_def)
      then show ?thesis using rest[OF False] IH by simp
    qed
  qed
qed

lemma REJECT_is_word: "all_word ''REJECT''"
  by (simp add: all_word_def word_char_def isalnum_def isalpha_def isupper_def islower_def isdigit_def)


section \<open>A command line and the settings it gives\<close>

text \<open>The command line that spells out some settings.\<close>

definition given :: "bool \<Rightarrow> string \<Rightarrow> string list" where
  "given b s = (if b then [s] else [])"

definition mode_flag :: "compress_mode \<Rightarrow> string" where
  "mode_flag m = (case m of Full \<Rightarrow> ''-f'' | FullEc \<Rightarrow> ''-Cfe'' | Compress \<Rightarrow> ''-Cem'')"

definition argv_of :: "args \<Rightarrow> string list" where
  "argv_of a =
     given (a_to_stdout a) ''-t'' @ given (a_case_insensitive a) ''-i'' @ given (a_yylineno a) ''--yylineno''
     @ given (a_nodefault a) ''-s'' @ given (a_noline a) ''-L'' @ given (a_debug a) ''-d''
     @ given True (mode_flag (a_compress a))
     @ given (a_output_path a \<noteq> []) (''--outfile='' @ a_output_path a)
     @ given (a_prefix_set a) (''--prefix='' @ a_prefix a)
     @ given (a_header_path a \<noteq> []) (''--header-file='' @ a_header_path a)
     @ given (a_tables_path a \<noteq> []) (''--tables-file='' @ a_tables_path a)
     @ given (a_skeleton_path a \<noteq> []) (''--skeleton='' @ a_skeleton_path a)
     @ ''--'' # a_input_paths a"

text \<open>
  The settings a command line can give: the prefix is empty unless it was set, and the output
  goes somewhere.
\<close>

definition settled :: "args \<Rightarrow> bool" where
  "settled a \<longleftrightarrow> (a_prefix_set a \<or> a_prefix a = []) \<and> (a_to_stdout a \<or> a_output_path a \<noteq> [])"

lemma args_loop_go:
  assumes "arg_step a later out = Go 0 out' None"
  shows "args_loop (a # later) out diag written = args_loop later out' diag written"
  using assms by simp

lemma starts_with_simps [simp]:
  "starts_with s []"
  "\<not> starts_with [] (d # p)"
  "starts_with (c # s) (d # p) \<longleftrightarrow> c = d \<and> starts_with s p"
  by (auto simp: starts_with_def)

lemma flag_steps:
  "arg_step ''-t'' later out = Go 0 (out\<lparr>a_to_stdout := True\<rparr>) None"
  "arg_step ''-i'' later out = Go 0 (out\<lparr>a_case_insensitive := True\<rparr>) None"
  "arg_step ''--yylineno'' later out = Go 0 (out\<lparr>a_yylineno := True\<rparr>) None"
  "arg_step ''-s'' later out = Go 0 (out\<lparr>a_nodefault := True\<rparr>) None"
  "arg_step ''-L'' later out = Go 0 (out\<lparr>a_noline := True\<rparr>) None"
  "arg_step ''-d'' later out = Go 0 (out\<lparr>a_debug := True\<rparr>) None"
  by (simp_all add: arg_step_def flag_act_def arg_modes_def)

lemma mode_step: "arg_step (mode_flag m) later out = Go 0 (out\<lparr>a_compress := m\<rparr>) None"
  by (cases m) (simp_all add: arg_step_def flag_act_def arg_modes_def mode_flag_def)

lemma no_flags:
  "flag_act (''--outfile='' @ v) out = None"
  "flag_act (''--prefix='' @ v) out = None"
  "flag_act (''--header-file='' @ v) out = None"
  "flag_act (''--tables-file='' @ v) out = None"
  "flag_act (''--skeleton='' @ v) out = None"
  "flag_act ''--'' out = None"
  by (simp_all add: flag_act_def arg_modes_def ignored_args_def)

lemma value_steps:
  "arg_step (''--outfile='' @ v) later out = Go 0 (out\<lparr>a_output_path := v\<rparr>) None"
  "arg_step (''--prefix='' @ v) later out = Go 0 (out\<lparr>a_prefix := v, a_prefix_set := True\<rparr>) None"
  "arg_step (''--header-file='' @ v) later out = Go 0 (out\<lparr>a_header_path := v\<rparr>) None"
  "arg_step (''--tables-file='' @ v) later out = Go 0 (out\<lparr>a_tables_path := v\<rparr>) None"
  "arg_step (''--skeleton='' @ v) later out = Go 0 (out\<lparr>a_skeleton_path := v\<rparr>) None"
  unfolding arg_step_def no_flags by (simp_all add: value_act_def)

lemma dashes_step:
  "arg_step ''--'' later out = Go (length later) (out\<lparr>a_input_paths := a_input_paths out @ later\<rparr>) None"
  unfolding arg_step_def no_flags by (simp add: value_act_def)

lemma given_flags:
  "args_loop (given b ''-t'' @ later) out diag written =
     args_loop later (out\<lparr>a_to_stdout := b \<or> a_to_stdout out\<rparr>) diag written"
  "args_loop (given b ''-i'' @ later) out diag written =
     args_loop later (out\<lparr>a_case_insensitive := b \<or> a_case_insensitive out\<rparr>) diag written"
  "args_loop (given b ''--yylineno'' @ later) out diag written =
     args_loop later (out\<lparr>a_yylineno := b \<or> a_yylineno out\<rparr>) diag written"
  "args_loop (given b ''-s'' @ later) out diag written =
     args_loop later (out\<lparr>a_nodefault := b \<or> a_nodefault out\<rparr>) diag written"
  "args_loop (given b ''-L'' @ later) out diag written =
     args_loop later (out\<lparr>a_noline := b \<or> a_noline out\<rparr>) diag written"
  "args_loop (given b ''-d'' @ later) out diag written =
     args_loop later (out\<lparr>a_debug := b \<or> a_debug out\<rparr>) diag written"
  by (cases b; simp add: given_def flag_steps args_loop_go)+

lemma given_mode:
  "args_loop (given True (mode_flag m) @ later) out diag written =
     args_loop later (out\<lparr>a_compress := m\<rparr>) diag written"
  by (simp add: given_def mode_step args_loop_go)

lemma given_values:
  "args_loop (given (v \<noteq> []) (''--outfile='' @ v) @ later) out diag written =
     args_loop later (out\<lparr>a_output_path := if v = [] then a_output_path out else v\<rparr>) diag written"
  "args_loop (given (v \<noteq> []) (''--header-file='' @ v) @ later) out diag written =
     args_loop later (out\<lparr>a_header_path := if v = [] then a_header_path out else v\<rparr>) diag written"
  "args_loop (given (v \<noteq> []) (''--tables-file='' @ v) @ later) out diag written =
     args_loop later (out\<lparr>a_tables_path := if v = [] then a_tables_path out else v\<rparr>) diag written"
  "args_loop (given (v \<noteq> []) (''--skeleton='' @ v) @ later) out diag written =
     args_loop later (out\<lparr>a_skeleton_path := if v = [] then a_skeleton_path out else v\<rparr>) diag written"
  "args_loop (given b (''--prefix='' @ v) @ later) out diag written =
     args_loop later (out\<lparr>a_prefix := if b then v else a_prefix out, a_prefix_set := b \<or> a_prefix_set out\<rparr>)
       diag written"
  using value_steps by (auto simp: given_def intro!: args_loop_go)

lemmas given_steps = given_flags given_mode given_values

lemma args_loop_dashes:
  "args_loop (''--'' # later) out diag written =
     args_loop [] (out\<lparr>a_input_paths := a_input_paths out @ later\<rparr>) diag written"
  by (simp add: dashes_step)

text \<open>A file as an editor on Windows writes it: an optional byte order mark, and CR LF line ends.\<close>

definition byte_order_mark :: string where
  "byte_order_mark = [CHR 0xEF, CHR 0xBB, CHR 0xBF]"

fun to_crlf :: "string \<Rightarrow> string" where
  "to_crlf [] = []"
| "to_crlf (c # cs) = (if c = CHR 0x0A then [CHR 0x0D, CHR 0x0A] else [c]) @ to_crlf cs"

lemma collapse_to_crlf: "collapse_crlf (to_crlf s) = s"
proof (induction s)
  case (Cons c s)
  then show ?case by (cases s) auto
qed simp

lemma starts_with_to_crlf:
  "CHR 0x0D \<notin> set p \<Longrightarrow> CHR 0x0A \<notin> set p \<Longrightarrow> starts_with (to_crlf s) p \<longleftrightarrow> starts_with s p"
proof (induction p arbitrary: s)
  case (Cons d p)
  then show ?case by (cases s) auto
qed simp

lemma mark_test:
  "length s \<ge> 3 \<and> uc (s ! 0) = 0xef \<and> uc (s ! 1) = 0xbb \<and> uc (s ! 2) = 0xbf \<longleftrightarrow> starts_with s byte_order_mark"
proof -
  have "uc c = 0xef \<longleftrightarrow> c = CHR 0xEF" "uc c = 0xbb \<longleftrightarrow> c = CHR 0xBB" "uc c = 0xbf \<longleftrightarrow> c = CHR 0xBF" for c
    using of_char_eq_iff[of c "CHR 0xEF", where 'a = nat] of_char_eq_iff[of c "CHR 0xBB", where 'a = nat]
      of_char_eq_iff[of c "CHR 0xBF", where 'a = nat] by simp_all
  then show ?thesis
    by (cases s; cases "tl s"; cases "tl (tl s)") (auto simp: byte_order_mark_def)
qed

lemma drop_one: "drop 1 (x # xs) = xs"
  by simp

lemma parse_argv_of: "settled a \<Longrightarrow> parse_args (program # argv_of a) diag = Returned 0 a diag []"
  unfolding parse_args_def argv_of_def drop_one
  by (simp only: given_steps args_loop_dashes append_assoc args_loop.simps(1))
    (auto simp: no_args_def settled_def)

text \<open>C38. A command line that spells out any settings of the generator is read back as exactly
  those settings, without a diagnostic and without writing a backup report: the output goes
  somewhere, the prefix is empty unless it was set, and the paths may hold any bytes, leading
  dashes included.
\<close>

theorem command_line_roundtrip:
  assumes "settled a"
  shows "parse_args (program # argv_of a) diag = Returned 0 a diag []"
  by (rule parse_argv_of[OF assms])

definition sample_args :: args where
  "sample_args = no_args\<lparr>a_output_path := ''-o'', a_prefix := [], a_prefix_set := True,
     a_input_paths := [''--help'', ''-''], a_nodefault := True, a_compress := FullEc\<rparr>"

theorem command_line_roundtrip_witness:
  "settled sample_args \<and>
   parse_args [''lex'', ''-s'', ''-Cfe'', ''--outfile=-o'', ''--prefix='', ''--'', ''--help'', ''-''] no_diag
     = Returned 0 sample_args no_diag []"
proof -
  have "settled sample_args"
    by (simp add: settled_def sample_args_def)
  then show ?thesis
    using command_line_roundtrip[of sample_args "''lex''" no_diag]
    by (simp add: argv_of_def given_def sample_args_def no_args_def mode_flag_def)
qed

text \<open>Reading a source file does not depend on how the file ends its lines: a file that starts
  with a byte order mark, or that has none and does not look as if it had, with every line
  feed written as carriage return and line feed, is normalised to the original text.
\<close>

theorem normalise_restores_text:
  "normalise_source ((if mark \<or> starts_with s byte_order_mark then byte_order_mark else []) @ to_crlf s) = s"
proof (cases "mark \<or> starts_with s byte_order_mark")
  case True
  have "starts_with (byte_order_mark @ to_crlf s) byte_order_mark" "drop 3 (byte_order_mark @ to_crlf s) = to_crlf s"
    by (simp_all add: byte_order_mark_def)
  with True show ?thesis by (simp only: normalise_source_def mark_test if_True collapse_to_crlf simp_thms)
next
  case False
  then have "\<not> starts_with (to_crlf s) byte_order_mark"
    by (simp add: starts_with_to_crlf byte_order_mark_def)
  with False show ?thesis by (simp add: normalise_source_def mark_test[unfolded One_nat_def] collapse_to_crlf)
qed

text \<open>The search for \<open>REJECT\<close> in an action ends, and finds it exactly when it occurs there as a
  whole word: skipping past an occurrence inside a longer identifier misses none.
\<close>

theorem reject_search_exact:
  "contains_word action ''REJECT'' = Some (\<exists>i. whole_word_at action ''REJECT'' i)"
  using word_from_spec[OF REJECT_is_word, of action 0] by (simp add: contains_word_def)

end
