(* ===== verification/Front_End.thy ===== *)
theory Front_End
  imports Table_Spec Driver Regex_Patterns
begin

text \<open>
  The middle of \<open>core_main\<close> in \<open>src/src/main.cpp\<close>: from the parsed specification to the
  automaton and its table. An early \<open>return 1\<close> is \<open>Inl\<close> with the diagnostics, a result \<open>Inr\<close>;
  the surrounding \<open>option\<close> is \<open>None\<close> if one of the loops below does not return.
\<close>

section \<open>The settings that come from the command line\<close>

definition apply_args :: "args \<Rightarrow> options \<Rightarrow> options" where
  "apply_args a opt =
     (let opt = (if a_case_insensitive a then opt\<lparr>o_case_insensitive := True\<rparr> else opt);
          opt = (if a_yylineno a then opt\<lparr>o_yylineno := True\<rparr> else opt);
          opt = (if a_nodefault a then opt\<lparr>o_nodefault := True\<rparr> else opt);
          opt = (if a_debug a then opt\<lparr>o_debug := True\<rparr> else opt)
      in if a_prefix_set a then opt\<lparr>o_prefix := a_prefix a\<rparr> else opt)"

fun reject_loop :: "lex_rule list \<Rightarrow> options \<Rightarrow> options option" where
  "reject_loop [] opt = Some opt"
| "reject_loop (r # rs) opt =
     do { b \<leftarrow> contains_word (r_action r) ''REJECT'';
          if b then Some (opt\<lparr>o_uses_reject := True\<rparr>) else reject_loop rs opt }"

section \<open>Names\<close>

definition cond_names :: "start_cond list \<Rightarrow> string list" where
  "cond_names conds = ''INITIAL'' # map sc_name conds"

definition cond_excl :: "start_cond list \<Rightarrow> nat list" where
  "cond_excl conds = 0 # map (\<lambda>sc. if sc_exclusive sc then 1 else 0) conds"

text \<open>The map \<open>cond_id\<close>: a later condition of the same name replaces an earlier one.\<close>

definition cond_id :: "start_cond list \<Rightarrow> string \<Rightarrow> nat option" where
  "cond_id conds = map_of (rev (zip (cond_names conds) [0..<Suc (length conds)]))"

definition resolver_of :: "(string \<times> string) list \<Rightarrow> resolver" where
  "resolver_of defs name = map_option (\<lambda>v. ''('' @ v @ '')'') (map_of (rev defs) name)"

text \<open>The conditions of a rule, or the first one that is not declared.\<close>

fun resolve_conds :: "start_cond list \<Rightarrow> string list \<Rightarrow> string + nat list" where
  "resolve_conds conds [] = Inr []"
| "resolve_conds conds (cn # cns) =
     (case cond_id conds cn of
        None \<Rightarrow> Inl cn
      | Some c \<Rightarrow> (case resolve_conds conds cns of Inl e \<Rightarrow> Inl e | Inr cs \<Rightarrow> Inr (c # cs)))"

section \<open>The loop over the rules\<close>

text \<open>
  A bound for the depth of calls in \<open>parse_pattern\<close>, computed from the definitions: at least
  \<open>parser_fuel\<close>.
\<close>

definition longest_def :: "(string \<times> string) list \<Rightarrow> nat" where
  "longest_def defs = fold max (map (\<lambda>d. length (snd d) + 2) defs) 0"

definition pattern_fuel :: "(string \<times> string) list \<Rightarrow> string \<Rightarrow> nat" where
  "pattern_fuel defs src = (6 * longest_def defs + 7) * length defs + 6 * length src + 6"

text \<open>\<open>i\<close> is the index of the rule in the file, \<open>k\<close> the next rule id.\<close>

fun add_rules :: "lex_file \<Rightarrow> lex_rule list \<Rightarrow> nat \<Rightarrow> nat \<Rightarrow> nfa \<Rightarrow> diagnostics \<Rightarrow>
    (diagnostics + nfa \<times> diagnostics) option" where
  "add_rules file [] i k nfa diag = Some (Inr (nfa, diag))"
| "add_rules file (r # rs) i k nfa diag =
     (case resolve_conds (lf_conds file) (r_conds r) of
        Inl cn \<Rightarrow> Some (Inl (diag_error (r_loc r) (''unknown start condition: '' @ cn) diag))
      | Inr cs \<Rightarrow>
          let sites = \<lparr>rs_conds = cs, rs_any_state = r_any_state r\<rparr>
          in if r_eof r then add_rules file rs (Suc i) k (add_eof_rule nfa i sites) diag
             else do {
               (pp, diag) \<leftarrow> parse_pattern (pattern_fuel (lf_defs file) (r_pattern r)) (r_pattern r)
                 (resolver_of (lf_defs file)) (o_case_insensitive (lf_options file)) diag (r_loc r);
               if pp_tree pp = Null
               then Some (Inl (diag_error (r_loc r) (''failed to parse pattern: '' @ r_pattern r) diag))
               else add_rules file rs (Suc i) (Suc k)
                 (add_rule_to_nfa nfa (pp_tree pp) k sites (pp_trail_len pp)) diag })"

text \<open>
  The check that \<open>REJECT\<close> is not used with variable trailing context. The location it
  reports is that of \<open>file.rules[i]\<close>, where \<open>i\<close> is the rule id.
\<close>

definition reject_check :: "lex_file \<Rightarrow> nfa \<Rightarrow> diagnostics \<Rightarrow> diagnostics option" where
  "reject_check file nfa diag =
     (if o_uses_reject (lf_options file)
      then map_option
             (\<lambda>i. diag_error (if i < length (lf_rules file) then r_loc (lf_rules file ! i) else empty_loc)
                ''REJECT cannot be combined with variable-length trailing context'' diag)
             (List.find (\<lambda>i. nfa_rule_trail nfa ! i < 0) [0..<length (nfa_rule_trail nfa)])
      else None)"

record front_end =
  fe_file :: lex_file
  fe_nfa :: nfa
  fe_dfa :: dfa
  fe_diag :: diagnostics

definition front_end :: "args \<Rightarrow> lex_file \<Rightarrow> diagnostics \<Rightarrow> (diagnostics + front_end) option" where
  "front_end a file diag =
     do { opt \<leftarrow> reject_loop (lf_rules file) (apply_args a (lf_options file));
          let file = file\<lparr>lf_options := opt\<rparr>;
          r \<leftarrow> add_rules file (lf_rules file) 0 0
            (init_nfa empty_nfa (cond_names (lf_conds file)) (cond_excl (lf_conds file))) diag;
          case r of
            Inl diag \<Rightarrow> Some (Inl diag)
          | Inr (nfa, diag) \<Rightarrow>
              if \<not> diag_ok diag then Some (Inl diag)
              else case reject_check file nfa diag of
                Some diag \<Rightarrow> Some (Inl diag)
              | None \<Rightarrow> do {
                  dfa \<leftarrow> build_dfa nfa (a_compress a \<noteq> Full) (a_compress a = Compress);
                  Some (Inr \<lparr>fe_file = file, fe_nfa = nfa, fe_dfa = dfa, fe_diag = diag\<rparr>) } }"


section \<open>Every loop returns\<close>

lemma reject_loop_exact:
  "reject_loop rs opt =
     Some (if \<exists>r\<in>set rs. \<exists>i. whole_word_at (r_action r) ''REJECT'' i then opt\<lparr>o_uses_reject := True\<rparr> else opt)"
  by (induction rs) (auto simp: contains_word_def word_from_spec[OF REJECT_is_word])

lemma longest_fold: "fold max xs (m :: nat) = Max (insert m (set xs))"
  by (metis Max.set_eq_fold list.simps(15))

lemma longest_def_max: "d \<in> set defs \<Longrightarrow> length (snd d) + 2 \<le> longest_def defs"
  unfolding longest_def_def longest_fold by (intro Max_ge) auto

lemma dom_resolver: "dom (resolver_of defs) = fst ` set defs"
  unfolding resolver_of_def using dom_map_of_conv_image_fst[of "rev defs"] by (auto simp: dom_def)

lemma resolver_bounded: "macros_bounded (longest_def defs) (resolver_of defs)"
  using longest_def_max
  by (auto simp: macros_bounded_def dom_resolver) (force simp: resolver_of_def dest!: map_of_SomeD)

lemma pattern_fuel_enough: "parser_fuel (longest_def defs) (resolver_of defs) src \<le> pattern_fuel defs src"
proof -
  have "card (dom (resolver_of defs)) \<le> length defs"
    using card_image_le[of "set defs" fst] card_length[of defs] by (simp add: dom_resolver)
  then show ?thesis unfolding parser_fuel_def pattern_fuel_def by (intro add_mono mult_le_mono) simp_all
qed

lemma parse_pattern_returns:
  "parse_pattern (pattern_fuel defs src) src (resolver_of defs) ci diag loc \<noteq> None"
  using parse_pattern_total[OF resolver_bounded, of defs src ci diag loc] pattern_fuel_enough[of defs src] by auto

lemma add_rules_returns: "add_rules file rs i k nfa diag \<noteq> None"
proof (induction rs arbitrary: i k nfa diag)
  case (Cons r rs)
  obtain pp d where "parse_pattern (pattern_fuel (lf_defs file) (r_pattern r)) (r_pattern r)
      (resolver_of (lf_defs file)) (o_case_insensitive (lf_options file)) diag (r_loc r) = Some (pp, d)"
    using parse_pattern_returns by (metis option.exhaust surj_pair)
  with Cons.IH show ?case by (auto simp: Let_def split: sum.split)
qed simp

section \<open>The automaton of a file\<close>

lemma cond_id_less: "cond_id conds cn = Some c \<Longrightarrow> c < Suc (length conds)"
  by (auto simp: cond_id_def dest!: map_of_SomeD set_zip_rightD)

lemma resolve_conds_less:
  "resolve_conds conds cns = Inr cs \<Longrightarrow> list_all (\<lambda>c. c < length (cond_names conds)) cs"
proof (induction cns arbitrary: cs)
  case (Cons cn cns)
  then show ?case
    using cond_id_less[of conds cn] by (auto simp: cond_names_def split: option.splits sum.splits)
qed simp

text \<open>
  How the rule of the automaton follows from the rule of the file: its conditions by name,
  its tree from the pattern, with classes that have no member read as the empty string.
\<close>

definition rule_from :: "lex_file \<Rightarrow> lex_rule \<Rightarrow> pattern_rule \<Rightarrow> bool" where
  "rule_from file r pr \<longleftrightarrow>
     (\<exists>cs pp d d'. resolve_conds (lf_conds file) (r_conds r) = Inr cs \<and>
        parse_pattern (pattern_fuel (lf_defs file) (r_pattern r)) (r_pattern r) (resolver_of (lf_defs file))
          (o_case_insensitive (lf_options file)) d (r_loc r) = Some (pp, d') \<and>
        pp_tree pp \<noteq> Null \<and>
        pr = (clean (pp_tree pp), \<lparr>rs_conds = cs, rs_any_state = r_any_state r\<rparr>, pp_trail_len pp))"

definition pattern_rules :: "lex_file \<Rightarrow> lex_rule list \<Rightarrow> pattern_rule list \<Rightarrow> bool" where
  "pattern_rules file rs ps \<longleftrightarrow> list_all2 (rule_from file) (filter (\<lambda>r. \<not> r_eof r) rs) ps"

lemma add_rules_carries:
  assumes "add_rules file rs i (length ps) nfa diag = Some (Inr (nfa', diag'))"
    and "carries (cond_names (lf_conds file)) excl ps nfa"
  shows "\<exists>qs. pattern_rules file rs qs \<and> carries (cond_names (lf_conds file)) excl (ps @ qs) nfa'"
  using assms
proof (induction rs arbitrary: i ps nfa diag)
  case Nil
  then show ?case by (auto simp: pattern_rules_def)
next
  case (Cons r rs)
  from Cons.prems(1) obtain cs where cs: "resolve_conds (lf_conds file) (r_conds r) = Inr cs"
    by (auto split: sum.splits)
  let ?sites = "\<lparr>rs_conds = cs, rs_any_state = r_any_state r\<rparr>"
  show ?case
  proof (cases "r_eof r")
    case True
    with Cons.prems cs have "add_rules file rs (Suc i) (length ps) (add_eof_rule nfa i ?sites) diag = Some (Inr (nfa', diag'))"
      by simp
    from Cons.IH[OF this carries_eof[OF Cons.prems(2)]] True show ?thesis by (simp add: pattern_rules_def)
  next
    case False
    with Cons.prems(1) cs obtain pp d where pp: "parse_pattern (pattern_fuel (lf_defs file) (r_pattern r))
        (r_pattern r) (resolver_of (lf_defs file)) (o_case_insensitive (lf_options file)) diag (r_loc r) = Some (pp, d)"
      "pp_tree pp \<noteq> Null"
      "add_rules file rs (Suc i) (Suc (length ps)) (add_rule_to_nfa nfa (pp_tree pp) (length ps) ?sites (pp_trail_len pp)) d
        = Some (Inr (nfa', diag'))"
      by (auto simp: bind_eq_Some_conv Let_def split: if_splits)
    let ?q = "(clean (pp_tree pp), ?sites, pp_trail_len pp)"
    have "carries (cond_names (lf_conds file)) excl (ps @ [?q])
        (add_rule_to_nfa nfa (pp_tree pp) (length ps) ?sites (pp_trail_len pp))"
      by (rule carries_rule[OF Cons.prems(2)]) (simp add: resolve_conds_less[OF cs])
    from Cons.IH[OF _ this, of "Suc i" d] pp(3) obtain qs where
      "pattern_rules file rs qs" "carries (cond_names (lf_conds file)) excl (ps @ ?q # qs) nfa'" by auto
    moreover have "rule_from file r ?q" using cs pp(1,2) by (auto simp: rule_from_def)
    ultimately show ?thesis using False by (intro exI[of _ "?q # qs"]) (simp add: pattern_rules_def)
  qed
qed

lemma add_rules_from_start:
  assumes "add_rules file rs 0 0 (init_nfa empty_nfa (cond_names (lf_conds file)) (cond_excl (lf_conds file))) diag
    = Some (Inr (nfa, diag'))"
  obtains ps where "pattern_rules file rs ps" "carries (cond_names (lf_conds file)) (cond_excl (lf_conds file)) ps nfa"
proof -
  have "carries (cond_names (lf_conds file)) (cond_excl (lf_conds file)) []
      (init_nfa empty_nfa (cond_names (lf_conds file)) (cond_excl (lf_conds file)))"
    by (rule carries_init) (simp add: cond_names_def cond_excl_def)
  then have "\<exists>qs. pattern_rules file rs qs \<and>
      carries (cond_names (lf_conds file)) (cond_excl (lf_conds file)) ([] @ qs) nfa"
    by (rule add_rules_carries[rotated]) (use assms in simp)
  with that show thesis by auto
qed

lemma front_endE:
  assumes "front_end a file diag = Some (Inr fe)"
  obtains opt where
    "reject_loop (lf_rules file) (apply_args a (lf_options file)) = Some opt"
    "fe_file fe = file\<lparr>lf_options := opt\<rparr>"
    "add_rules (fe_file fe) (lf_rules file) 0 0
       (init_nfa empty_nfa (cond_names (lf_conds file)) (cond_excl (lf_conds file))) diag
       = Some (Inr (fe_nfa fe, fe_diag fe))"
    "diag_ok (fe_diag fe)" "reject_check (fe_file fe) (fe_nfa fe) (fe_diag fe) = None"
    "build_dfa (fe_nfa fe) (a_compress a \<noteq> Full) (a_compress a = Compress) = Some (fe_dfa fe)"
proof -
  from assms obtain opt r where opt: "reject_loop (lf_rules file) (apply_args a (lf_options file)) = Some opt"
    and r: "add_rules (file\<lparr>lf_options := opt\<rparr>) (lf_rules file) 0 0
      (init_nfa empty_nfa (cond_names (lf_conds file)) (cond_excl (lf_conds file))) diag = Some r"
    by (auto simp: front_end_def bind_eq_Some_conv Let_def)
  show thesis
  proof (cases r)
    case (Inr p)
    with assms opt r that show thesis
      by (cases p) (auto simp: front_end_def bind_eq_Some_conv Let_def split: if_splits option.splits)
  qed (use assms opt r in \<open>simp add: front_end_def\<close>)
qed

lemma add_rules_error:
  "add_rules file rs i k nfa diag = Some (Inl d) \<Longrightarrow> \<not> diag_ok d"
proof (induction rs arbitrary: i k nfa diag)
  case (Cons r rs)
  then show ?case
    by (auto simp: bind_eq_Some_conv Let_def diag_ok_def split: sum.splits if_splits)
qed simp

lemma front_end_terminates: "\<exists>r. front_end a file diag = Some r"
proof -
  obtain opt where opt: "reject_loop (lf_rules file) (apply_args a (lf_options file)) = Some opt"
    by (simp add: reject_loop_exact)
  let ?F = "file\<lparr>lf_options := opt\<rparr>"
  let ?N = "init_nfa empty_nfa (cond_names (lf_conds file)) (cond_excl (lf_conds file))"
  obtain r where r: "add_rules ?F (lf_rules file) 0 0 ?N diag = Some r"
    using add_rules_returns by blast
  show ?thesis
  proof (cases r)
    case (Inr p)
    obtain nfa d where p: "p = (nfa, d)" by fastforce
    obtain ps where "carries (cond_names (lf_conds ?F)) (cond_excl (lf_conds ?F)) ps nfa"
      by (rule add_rules_from_start[of ?F "lf_rules file" diag nfa d]) (use r Inr p in simp_all)
    then obtain dfa where "build_dfa nfa (a_compress a \<noteq> Full) (a_compress a = Compress) = Some dfa"
      using build_dfa_built[OF carriesD(1)] by metis
    with opt r Inr p show ?thesis by (auto simp: front_end_def Let_def split: option.split)
  qed (use opt r in \<open>simp add: front_end_def Let_def\<close>)
qed

lemma front_end_verdict_of:
  assumes "front_end a file diag = Some r"
  shows "case r of Inl d \<Rightarrow> \<not> diag_ok d | Inr fe \<Rightarrow> diag_ok (fe_diag fe)"
proof (cases r)
  case (Inl e)
  obtain opt where opt: "reject_loop (lf_rules file) (apply_args a (lf_options file)) = Some opt"
    by (simp add: reject_loop_exact)
  let ?F = "file\<lparr>lf_options := opt\<rparr>"
  obtain s where s: "add_rules ?F (lf_rules file) 0 0
      (init_nfa empty_nfa (cond_names (lf_conds file)) (cond_excl (lf_conds file))) diag = Some s"
    using add_rules_returns by blast
  have "\<not> diag_ok e"
  proof (cases s)
    case (Inl d)
    with assms opt s \<open>r = Inl e\<close> have "d = e" by (simp add: front_end_def Let_def)
    with add_rules_error[OF s[unfolded Inl]] show ?thesis by simp
  next
    case (Inr p)
    obtain nfa d where p: "p = (nfa, d)" by fastforce
    show ?thesis
    proof (cases "diag_ok d")
      case True
      with assms opt s Inr p \<open>r = Inl e\<close> have "reject_check ?F nfa d = Some e"
        by (auto simp: front_end_def Let_def bind_eq_Some_conv split: option.splits)
      then show ?thesis by (auto simp: reject_check_def split: if_splits)
    next
      case False
      with assms opt s Inr p \<open>r = Inl e\<close> show ?thesis by (simp add: front_end_def Let_def)
    qed
  qed
  then show ?thesis by (simp add: Inl)
next
  case (Inr fe)
  with assms show ?thesis by (auto elim: front_endE)
qed

text \<open>What a success of the generator means.\<close>

lemma front_end_scans:
  assumes "front_end a file diag = Some (Inr fe)"
  shows "\<exists>ps. pattern_rules (fe_file fe) (lf_rules file) ps \<and>
    nfa_rule_trail (fe_nfa fe) = map (\<lambda>p. snd (snd p)) ps \<and>
    scans (cond_names (lf_conds file)) (cond_excl (lf_conds file)) ps (fe_dfa fe)"
  using assms
proof (rule front_endE)
  fix opt
  assume F: "fe_file fe = file\<lparr>lf_options := opt\<rparr>"
    and r: "add_rules (fe_file fe) (lf_rules file) 0 0
      (init_nfa empty_nfa (cond_names (lf_conds file)) (cond_excl (lf_conds file))) diag = Some (Inr (fe_nfa fe, fe_diag fe))"
    and d: "build_dfa (fe_nfa fe) (a_compress a \<noteq> Full) (a_compress a = Compress) = Some (fe_dfa fe)"
  have "lf_conds (fe_file fe) = lf_conds file" by (simp add: F)
  with r obtain ps where "pattern_rules (fe_file fe) (lf_rules file) ps"
      "carries (cond_names (lf_conds file)) (cond_excl (lf_conds file)) ps (fe_nfa fe)"
    using add_rules_from_start[of "fe_file fe" "lf_rules file" diag "fe_nfa fe" "fe_diag fe"] by metis
  with table_scans[OF this(2) d] carriesD(6) show ?thesis by blast
qed


section \<open>Properties\<close>

text \<open>From any parsed specification and any settings, the generator reaches a verdict: the
  search for \<open>REJECT\<close>, the parser on every pattern (whatever the definitions are, cyclic ones
  included) and the subset construction all return. It gives up exactly when an error has
  been reported: a result comes with diagnostics that count no error, and when there is none,
  at least one error was counted.
\<close>

theorem front_end_verdict:
  "\<exists>r. front_end a file diag = Some r \<and> (case r of Inl d \<Rightarrow> \<not> diag_ok d | Inr fe \<Rightarrow> diag_ok (fe_diag fe))"
  using front_end_terminates front_end_verdict_of by blast

text \<open>From the specification to the table: when the generator succeeds, rule number \<open>j\<close> of its
  automaton is the parsed pattern of the \<open>j\<close>-th rule of the file that is not an end-of-file rule,
  active in the conditions its names stand for, and the table reports, after every string read
  from the start of every condition, exactly the rules that match it.
\<close>

theorem front_end_correct:
  assumes "front_end a file diag = Some (Inr fe)"
  shows "\<exists>ps. pattern_rules (fe_file fe) (lf_rules file) ps \<and>
    nfa_rule_trail (fe_nfa fe) = map (\<lambda>p. snd (snd p)) ps \<and>
    scans (cond_names (lf_conds file)) (cond_excl (lf_conds file)) ps (fe_dfa fe)"
  by (rule front_end_scans[OF assms])

text \<open>A file with the pattern \<open>ab\<close> and an end-of-file rule, both in the condition \<open>X\<close>.\<close>

definition sample_file :: lex_file where
  "sample_file = (empty_file empty_loc)\<lparr>lf_conds := [\<lparr>sc_name = ''X'', sc_exclusive = True\<rparr>],
     lf_rules := [empty_rule\<lparr>r_conds := [''X''], r_eof := True\<rparr>, empty_rule\<lparr>r_conds := [''X''], r_pattern := ''ab''\<rparr>]\<rparr>"

lemma sample_parse:
  "parse_pattern 18 ''ab'' (\<lambda>name. None) False no_diag empty_loc =
     Some (\<lparr>pp_tree = Concat (Class (bs_add bs_clear 97)) (Class (bs_add bs_clear 98)), pp_trail_len = 0,
       pp_eol_anchored = False\<rparr>, no_diag)"
  by code_simp

lemma sample_front_end: "\<exists>fe. front_end no_args sample_file no_diag = Some (Inr fe)"
proof -
  have "resolver_of [] = (\<lambda>name. None)" by (simp add: resolver_of_def fun_eq_iff)
  moreover have "pattern_fuel [] ''ab'' = 18" by (simp add: pattern_fuel_def)
  moreover have "cond_id [\<lparr>sc_name = ''X'', sc_exclusive = True\<rparr>] ''X'' = Some 1"
    by (simp add: cond_id_def cond_names_def)
  ultimately obtain nfa where "add_rules sample_file (lf_rules sample_file) 0 0
      (init_nfa empty_nfa (cond_names (lf_conds sample_file)) (cond_excl (lf_conds sample_file))) no_diag
      = Some (Inr (nfa, no_diag))"
    by (simp add: sample_file_def empty_file_def empty_rule_def default_options_def sample_parse)
  moreover have "reject_loop (lf_rules sample_file) (apply_args no_args (lf_options sample_file)) = Some default_options"
    by (simp add: sample_file_def empty_file_def empty_rule_def apply_args_def no_args_def contains_word_def
        word_from.simps find_from_def)
  moreover have "sample_file\<lparr>lf_options := default_options\<rparr> = sample_file"
    by (simp add: sample_file_def empty_file_def)
  moreover have "reject_check sample_file nfa no_diag = None" for nfa
    by (simp add: reject_check_def sample_file_def empty_file_def default_options_def)
  ultimately show ?thesis
    using front_end_terminates[of no_args sample_file no_diag]
    by (auto simp: front_end_def Let_def bind_eq_Some_conv diag_ok_def no_diag_def)
qed

lemma front_end_correct_witness:
  "\<exists>fe ps. front_end no_args sample_file no_diag = Some (Inr fe) \<and> length ps = 1 \<and>
     scans [''INITIAL'', ''X''] [0, 1] ps (fe_dfa fe)"
proof -
  obtain fe where fe: "front_end no_args sample_file no_diag = Some (Inr fe)" using sample_front_end by blast
  obtain ps where "pattern_rules (fe_file fe) (lf_rules sample_file) ps"
      "scans (cond_names (lf_conds sample_file)) (cond_excl (lf_conds sample_file)) ps (fe_dfa fe)"
    using front_end_correct[OF fe] by blast
  moreover have "length ps = 1"
    using calculation(1) by (auto simp: pattern_rules_def sample_file_def empty_rule_def dest!: list_all2_lengthD)
  ultimately show ?thesis
    using fe by (auto simp: sample_file_def cond_names_def cond_excl_def)
qed

end
