(* ===== verification/Match_Loop.thy ===== *)
theory Match_Loop
  imports Tables Table_Spec Source_Data "HOL-Library.Monad_Syntax"
begin

text \<open>
  The loop of the scanner that \<open>emit_c\<close> and \<open>yy_lex_body\<close> in \<open>src/src/codegen.cpp\<close> write:
  it runs the table from the current position, remembers the last accepting states, picks a
  rule, cuts off the trailing context and hands the text to the action of the rule. Actions are
  user code: a parameter of the loop. A buffer holds all of the input (as after
  \<open>yy_scan_bytes\<close>); the NUL that ends \<open>yytext\<close> while an action runs is put back before the
  buffer is read again and is left out.
\<close>

section \<open>The arrays\<close>

text \<open>Lists of numbers per state, flattened: where the list of a state starts, and the pool.\<close>

definition offsets_pool :: "(dfa_state \<Rightarrow> int list) \<Rightarrow> dfa_state list \<Rightarrow> int list \<times> int list" where
  "offsets_pool f states =
     (let (off, pool) = fold (\<lambda>st (off, pool). (off @ [int (length pool)], pool @ f st)) states ([], []);
          off = off @ [int (length pool)]
      in (off, if pool = [] then [0] else pool))"

definition pool_slice :: "int list \<times> int list \<Rightarrow> nat \<Rightarrow> int list" where
  "pool_slice t s = (let off = fst t ! s; n = fst t ! (s + 1) - off in take (nat n) (drop (nat off) (snd t)))"

definition any_var_trail :: "nfa \<Rightarrow> bool" where
  "any_var_trail nfa \<longleftrightarrow> list_ex (\<lambda>t. t < 0) (nfa_rule_trail nfa)"

record scan_tables =
  st_mode :: compress_mode
  st_ncls :: nat
  st_tabs :: yy_tables
  st_nrules :: nat
  st_boundary :: "(int list \<times> int list) option"
  st_rule_eol :: "nat list"
  st_accept :: "int list \<times> int list"

text \<open>The number of rules is that of the rules of the file that are not end-of-file rules, at least 1.\<close>

definition emitted_tables :: "compress_mode \<Rightarrow> nfa \<Rightarrow> dfa \<Rightarrow> scan_tables" where
  "emitted_tables mode nfa dfa =
     \<lparr>st_mode = mode, st_ncls = dfa_nclasses dfa, st_tabs = compiled_tables mode nfa dfa,
      st_nrules = (if nfa_rule_trail nfa = [] then 1 else length (nfa_rule_trail nfa)),
      st_boundary = (if any_var_trail nfa then Some (offsets_pool d_boundary_rules (dfa_states dfa)) else None),
      st_rule_eol = (if nfa_rule_eol nfa = [] then [0] else nfa_rule_eol nfa),
      st_accept = offsets_pool d_accept_list (dfa_states dfa)\<rparr>"

text \<open>The macro \<open>YY_TRANSITION\<close>.\<close>

definition next_state :: "scan_tables \<Rightarrow> nat \<Rightarrow> byte \<Rightarrow> int" where
  "next_state T s b =
     (let t = st_tabs T; cl = ub (yy_ec t ! ub b)
      in if st_mode T = Compress
         then (if yy_chk t ! (nat (yy_base t ! s) + cl) = int s then yy_nxt t ! (nat (yy_base t ! s) + cl) else -1)
         else yy_nxt t ! (s * st_ncls T + cl))"

section \<open>The match\<close>

record match =
  m_state :: nat
  m_scan :: nat
  m_acc_n :: int
  m_acc_n_len :: nat
  m_acc_e :: int
  m_acc_e_len :: nat
  m_bounds :: "nat option list"

text \<open>What is noted in a state: boundaries of variable trailing contexts and accepted rules.\<close>

definition note_bounds :: "scan_tables \<Rightarrow> match \<Rightarrow> match" where
  "note_bounds T m =
     (case st_boundary T of
        None \<Rightarrow> m
      | Some t \<Rightarrow> m\<lparr>m_bounds := fold (\<lambda>r bs. bs[nat r := Some (m_scan m)]) (pool_slice t (m_state m)) (m_bounds m)\<rparr>)"

definition note_accept :: "scan_tables \<Rightarrow> nat \<Rightarrow> match \<Rightarrow> match" where
  "note_accept T mb m =
     (let an = yy_accept_normal (st_tabs T) ! m_state m; ae = yy_accept_eol (st_tabs T) ! m_state m;
          m = (if an \<ge> 0 then m\<lparr>m_acc_n := an, m_acc_n_len := m_scan m - mb\<rparr> else m)
      in if ae \<ge> 0 then m\<lparr>m_acc_e := ae, m_acc_e_len := m_scan m - mb\<rparr> else m)"

definition match_start :: "scan_tables \<Rightarrow> nat \<Rightarrow> nat \<Rightarrow> bool \<Rightarrow> match" where
  "match_start T mb c at_bol =
     note_accept T mb (note_bounds T
       \<lparr>m_state = nat (if at_bol then yy_cond_bol (st_tabs T) ! c else yy_cond_normal (st_tabs T) ! c), m_scan = mb,
        m_acc_n = -1, m_acc_n_len = 0, m_acc_e = -1, m_acc_e_len = 0, m_bounds = replicate (st_nrules T) None\<rparr>)"

definition match_step :: "scan_tables \<Rightarrow> nat \<Rightarrow> nat \<Rightarrow> match \<Rightarrow> match" where
  "match_step T mb s m = note_accept T mb (note_bounds T (m\<lparr>m_state := s, m_scan := m_scan m + 1\<rparr>))"

lemma note_scan [simp]: "m_scan (note_accept T mb m) = m_scan m" "m_scan (note_bounds T m) = m_scan m"
  by (auto simp: note_accept_def note_bounds_def Let_def split: option.split)

function match_loop :: "scan_tables \<Rightarrow> byte list \<Rightarrow> nat \<Rightarrow> match \<Rightarrow> match" where
  "match_loop T buf mb m =
     (if m_scan m < length buf then
        let n = next_state T (m_state m) (buf ! m_scan m)
        in if n < 0 then m else match_loop T buf mb (match_step T mb (nat n) m)
      else m)"
  by pat_completeness auto
termination
  by (relation "measure (\<lambda>(T, buf, mb, m). length buf - m_scan m)") (auto simp: match_step_def)

declare match_loop.simps [simp del]

text \<open>Which of the accepted rules: \<open>-1\<close> if none.\<close>

definition pick_rule :: "byte list \<Rightarrow> nat \<Rightarrow> match \<Rightarrow> int \<times> nat" where
  "pick_rule buf mb m =
     (let after = mb + m_acc_e_len m;
          eol = (if m_acc_e m \<ge> 0 \<and> m_acc_e_len m > 0 \<and> (after \<ge> length buf \<or> buf ! after = 10) then
                   (if m_acc_n_len m > m_acc_e_len m then (m_acc_n m, m_acc_n_len m)
                    else if m_acc_n_len m = m_acc_e_len m \<and> m_acc_n m \<ge> 0 \<and> m_acc_n m < m_acc_e m
                    then (m_acc_n m, m_acc_n_len m)
                    else (m_acc_e m, m_acc_e_len m))
                 else (-1, 0))
      in if fst eol < 0 \<and> m_acc_n m \<ge> 0 \<and> m_acc_n_len m > 0 then (m_acc_n m, m_acc_n_len m) else eol)"

text \<open>The length without the trailing context.\<close>

definition trim_trail :: "scan_tables \<Rightarrow> nat \<Rightarrow> match \<Rightarrow> int \<Rightarrow> nat \<Rightarrow> nat" where
  "trim_trail T mb m rule len =
     (let trail = yy_rule_trail_len (st_tabs T) ! nat rule
      in if trail > 0 \<and> nat trail \<le> len then len - nat trail
         else if st_boundary T \<noteq> None \<and> trail < 0 then
           (case m_bounds m ! nat rule of
              None \<Rightarrow> len
            | Some bp \<Rightarrow> if mb \<le> bp \<and> bp \<le> mb + len then bp - mb else len)
         else len)"

section \<open>The state of the scanner\<close>

record scanner =
  ys_buf :: "byte list"
  ys_pos :: nat
  ys_start :: nat
  ys_at_bol :: bool
  ys_more_flag :: bool
  ys_more_offset :: nat
  ys_lineno :: nat
  ys_out :: "byte list"

text \<open>
  One turn of the loop of \<open>yylex\<close>. \<open>AtEof\<close>: the end-of-file rule of the condition runs.
  \<open>Jammed\<close>: \<open>%option nodefault\<close> and no rule matches. \<open>Echoed\<close>: the default rule copied a byte.
  \<open>Matched rule text s\<close>: the scanner stands at the action of the rule.
\<close>

datatype turn = AtEof scanner | Jammed scanner | Echoed scanner | Matched int "byte list" scanner

definition newlines :: "byte list \<Rightarrow> nat" where
  "newlines bs = length (filter (\<lambda>b. b = 10) bs)"

definition echo_byte :: "options \<Rightarrow> scanner \<Rightarrow> scanner" where
  "echo_byte opt s =
     (let d = ys_buf s ! ys_pos s
      in s\<lparr>ys_pos := ys_pos s + 1, ys_out := ys_out s @ [d],
           ys_lineno := (if o_yylineno opt \<and> d = 10 then ys_lineno s + 1 else ys_lineno s), ys_at_bol := (d = 10)\<rparr>)"

text \<open>The text of a match of \<open>len\<close> bytes, and the scanner its action sees.\<close>

definition take_text :: "options \<Rightarrow> nat \<Rightarrow> nat \<Rightarrow> scanner \<Rightarrow> byte list \<times> scanner" where
  "take_text opt mb len s =
     (let s = s\<lparr>ys_pos := mb + len\<rparr>;
          first = mb - ys_more_offset s;
          len = len + ys_more_offset s;
          text = take len (drop first (ys_buf s))
      in (text, s\<lparr>ys_more_flag := False,
              ys_lineno := (if o_yylineno opt then ys_lineno s + newlines text else ys_lineno s),
              ys_at_bol := (len > 0 \<and> text ! (len - 1) = 10)\<rparr>))"

definition yy_turn :: "options \<Rightarrow> scan_tables \<Rightarrow> scanner \<Rightarrow> turn" where
  "yy_turn opt T s =
     (if ys_pos s \<ge> length (ys_buf s) then AtEof s
      else let mb = ys_pos s;
               m = match_loop T (ys_buf s) mb (match_start T mb (ys_start s) (ys_at_bol s));
               (rule, len) = pick_rule (ys_buf s) mb m
           in if rule < 0 then (if o_nodefault opt then Jammed s else Echoed (echo_byte opt s))
              else (case take_text opt mb (trim_trail T mb m rule len) s of (text, s) \<Rightarrow> Matched rule text s))"

text \<open>
  The action of a rule: it may change the scanner (\<open>BEGIN\<close>, \<open>yymore\<close>, \<open>yyless\<close>) and ends by
  running on or by returning from \<open>yylex\<close>. \<open>yy_more_offset\<close> is set behind the \<open>switch\<close>, which
  a \<open>return\<close> does not reach.
\<close>

type_synonym action = "int \<Rightarrow> byte list \<Rightarrow> scanner \<Rightarrow> scanner \<times> bool"

definition after_action :: "byte list \<Rightarrow> scanner \<Rightarrow> scanner" where
  "after_action text s = s\<lparr>ys_more_offset := (if ys_more_flag s then length text else 0)\<rparr>"

text \<open>How \<open>yylex\<close> ends: the rule whose action returned, the end of the file, or a jam.\<close>

datatype lex_end = LexReturned int | Eof | Jam

text \<open>\<open>yylex\<close> with the texts it handed to actions, oldest first. It may run for ever.\<close>

partial_function (option) yylex ::
    "options \<Rightarrow> scan_tables \<Rightarrow> action \<Rightarrow> scanner \<Rightarrow> ((int \<times> byte list) list \<times> lex_end \<times> scanner) option" where
  "yylex opt T act s =
     (case yy_turn opt T s of
        AtEof s \<Rightarrow> Some ([], Eof, s)
      | Jammed s \<Rightarrow> Some ([], Jam, s)
      | Echoed s \<Rightarrow> yylex opt T act s
      | Matched rule text s \<Rightarrow>
          (case act rule text s of (s, returned) \<Rightarrow>
             if returned then Some ([(rule, text)], LexReturned rule, s)
             else do { (ms, e, s) \<leftarrow> yylex opt T act (after_action text s); Some ((rule, text) # ms, e, s) }))"

end
