(* ===== verification/Match_Run.thy ===== *)
theory Match_Run
  imports Match_Loop
begin

text \<open>
  What the loop of the scanner computes, state by state: the table as an automaton on the rest
  of the buffer, and everything the loop notes as a function of the states it passes.
\<close>

section \<open>The arrays hold what they should\<close>

lemma offsets_pool_fold:
  "fold (\<lambda>st (os, ps). (os @ [int (length ps)], ps @ f st)) states (os, ps) =
     (os @ map (\<lambda>i. int (length ps + length (concat (map f (take i states))))) [0..<length states],
      ps @ concat (map f states))"
proof (induction states arbitrary: os ps)
  case (Cons st states)
  have "[0..<Suc (length states)] = 0 # map Suc [0..<length states]" by (simp add: map_Suc_upt upt_conv_Cons del: upt_Suc)
  with Cons show ?case by (simp add: o_def add.assoc del: upt_Suc)
qed simp

lemma pool_slice_state:
  assumes "s < length states"
  shows "pool_slice (offsets_pool f states) s = f (states ! s)"
proof -
  let ?at = "\<lambda>i. int (length (concat (map f (take i states))))"
  let ?pool = "concat (map f states)"
  have o: "offsets_pool f states = (map ?at [0..<length states] @ [int (length ?pool)], if ?pool = [] then [0] else ?pool)"
    by (simp add: offsets_pool_def offsets_pool_fold)
  have at: "fst (offsets_pool f states) ! i = ?at i" if "i \<le> length states" for i
    using that by (cases "i = length states") (simp_all add: o nth_append del: upt_Suc)
  have split: "?pool = concat (map f (take s states)) @ f (states ! s) @ concat (map f (drop (Suc s) states))"
    using assms by (metis append_take_drop_id concat_append map_append Cons_nth_drop_Suc concat.simps(2) list.simps(9))
  have suc: "?at (s + 1) = ?at s + int (length (f (states ! s)))"
    using assms by (simp add: take_Suc_conv_app_nth)
  show ?thesis
  proof (cases "f (states ! s) = []")
    case True
    then show ?thesis using at[of s] at[of "s + 1"] suc assms by (simp add: pool_slice_def Let_def)
  next
    case False
    then have "snd (offsets_pool f states) = ?pool" using split by (auto simp: o)
    then show ?thesis
      using at[of s] at[of "s + 1"] suc assms split by (simp add: pool_slice_def Let_def)
  qed
qed

lemma nth_concat_rows:
  "(\<forall>r\<in>set rows. length r = n) \<Longrightarrow> s < length rows \<Longrightarrow> i < n \<Longrightarrow> concat rows ! (s * n + i) = rows ! s ! i"
proof (induction rows arbitrary: s)
  case (Cons r rows)
  then show ?case by (cases s) (auto simp: nth_append)
qed simp

text \<open>The macro and the dense table agree, whichever way the table is stored.\<close>

lemma next_state_exact:
  assumes ok: "nfa_ok nfa" and b: "built nfa dfa bd" and s: "live bd s"
    and ec: "dfa_eclasses dfa = (if mode \<noteq> Full then compute_eclasses nfa else identity_eclasses)"
  shows "next_state (emitted_tables mode nfa dfa) s c = (if dfa_delta dfa s c > 0 then dfa_delta dfa s c else -1)"
proof -
  let ?T = "compiled_tables mode nfa dfa"
  have len: "s < length (dfa_states dfa)" and cl: "ub (ec_map (dfa_eclasses dfa) ! ub c) < dfa_nclasses dfa"
    using live_in_table(1)[OF b s] class_in_table[OF b] by simp_all
  have yec: "yy_ec ?T ! ub c = ec_map (dfa_eclasses dfa) ! ub c"
    by (simp add: compiled_tables_def Let_def ec identity_eclasses_def)
  show ?thesis
  proof (cases "mode = Compress")
    case True
    have "next_state (emitted_tables mode nfa dfa) s c = yy_transition (dfa_eclasses dfa) (compress_dfa dfa) s c"
      using yec by (simp add: next_state_def emitted_tables_def yy_transition_def Let_def True compiled_tables_def)
    also have "\<dots> = (if dfa_delta dfa s c > 0 then dfa_delta dfa s c else -1)"
      unfolding compress_dfa_def by (rule transition_eq[OF b s pack_order_perm])
    finally show ?thesis .
  next
    case False
    let ?rows = "map (\<lambda>st. map (\<lambda>i. d_next st ! i) [0..<dfa_nclasses dfa]) (dfa_states dfa)"
    have "next_state (emitted_tables mode nfa dfa) s c
        = concat ?rows ! (s * dfa_nclasses dfa + ub (ec_map (dfa_eclasses dfa) ! ub c))"
      using yec False by (simp add: next_state_def emitted_tables_def Let_def compiled_tables_def)
    also have "\<dots> = dfa_delta dfa s c"
      by (subst nth_concat_rows) (use len cl in \<open>simp_all add: dfa_delta_def\<close>)
    finally show ?thesis using dense_delta_cases[OF ok b s, of c] live_pos by (auto split: if_splits)
  qed
qed

section \<open>The latest state that accepts\<close>

fun latest :: "(nat \<Rightarrow> int) \<Rightarrow> nat \<Rightarrow> int \<times> nat" where
  "latest f 0 = (if f 0 \<ge> 0 then (f 0, 0) else (-1, 0))"
| "latest f (Suc k) = (if f (Suc k) \<ge> 0 then (f (Suc k), Suc k) else latest f k)"

lemma latest_cases:
  "fst (latest f k) = -1 \<and> snd (latest f k) = 0 \<and> (\<forall>j\<le>k. f j < 0) \<or>
   fst (latest f k) \<ge> 0 \<and> snd (latest f k) \<le> k \<and> f (snd (latest f k)) = fst (latest f k) \<and>
     (\<forall>j\<le>k. snd (latest f k) < j \<longrightarrow> f j < 0)"
proof (induction k)
  case (Suc k)
  then show ?case by (auto simp: le_Suc_eq)
qed auto

section \<open>The loop\<close>

text \<open>The state after \<open>k\<close> bytes from \<open>mb\<close>, the boundaries and the match noted then.\<close>

definition state_at :: "(nat \<Rightarrow> byte \<Rightarrow> int) \<Rightarrow> nat \<Rightarrow> byte list \<Rightarrow> nat \<Rightarrow> nat \<Rightarrow> nat" where
  "state_at d s0 buf mb k = the (run_from d s0 (take k (drop mb buf)))"

definition alive :: "(nat \<Rightarrow> byte \<Rightarrow> int) \<Rightarrow> nat \<Rightarrow> byte list \<Rightarrow> nat \<Rightarrow> nat \<Rightarrow> bool" where
  "alive d s0 buf mb k \<longleftrightarrow> mb + k \<le> length buf \<and> run_from d s0 (take k (drop mb buf)) \<noteq> None"

fun bounds_at :: "scan_tables \<Rightarrow> nat \<Rightarrow> (nat \<Rightarrow> nat) \<Rightarrow> nat \<Rightarrow> nat option list" where
  "bounds_at T mb q 0 = (case st_boundary T of None \<Rightarrow> replicate (st_nrules T) None
     | Some t \<Rightarrow> fold (\<lambda>r bs. bs[nat r := Some mb]) (pool_slice t (q 0)) (replicate (st_nrules T) None))"
| "bounds_at T mb q (Suc k) = (case st_boundary T of None \<Rightarrow> bounds_at T mb q k
     | Some t \<Rightarrow> fold (\<lambda>r bs. bs[nat r := Some (mb + Suc k)]) (pool_slice t (q (Suc k))) (bounds_at T mb q k))"

definition noted :: "scan_tables \<Rightarrow> nat \<Rightarrow> (nat \<Rightarrow> nat) \<Rightarrow> nat \<Rightarrow> match" where
  "noted T mb q k =
     (let n = latest (\<lambda>l. yy_accept_normal (st_tabs T) ! q l) k; e = latest (\<lambda>l. yy_accept_eol (st_tabs T) ! q l) k
      in \<lparr>m_state = q k, m_scan = mb + k, m_acc_n = fst n, m_acc_n_len = snd n, m_acc_e = fst e, m_acc_e_len = snd e,
          m_bounds = bounds_at T mb q k\<rparr>)"

lemma noted_start:
  assumes "nat (if bol then yy_cond_bol (st_tabs T) ! c else yy_cond_normal (st_tabs T) ! c) = q 0"
  shows "match_start T mb c bol = noted T mb q 0"
  by (simp add: match_start_def noted_def note_accept_def note_bounds_def assms Let_def split: option.split)

lemma noted_step: "match_step T mb (q (Suc k)) (noted T mb q k) = noted T mb q (Suc k)"
  by (simp add: match_step_def noted_def note_accept_def note_bounds_def Let_def split: option.split)

lemma take_drop_snoc: "mb + k < length buf \<Longrightarrow> take (Suc k) (drop mb buf) = take k (drop mb buf) @ [buf ! (mb + k)]"
  by (simp add: take_Suc_conv_app_nth)

lemma alive_Suc:
  assumes "alive d s0 buf mb k"
  shows "alive d s0 buf mb (Suc k) \<longleftrightarrow> mb + k < length buf \<and> d (state_at d s0 buf mb k) (buf ! (mb + k)) > 0"
    "alive d s0 buf mb (Suc k) \<Longrightarrow> state_at d s0 buf mb (Suc k) = nat (d (state_at d s0 buf mb k) (buf ! (mb + k)))"
  using assms by (auto simp: alive_def state_at_def take_drop_snoc run_from_snoc split: option.splits if_splits)

lemma run_from_append:
  "run_from d s (u @ v) = (case run_from d s u of None \<Rightarrow> None | Some t \<Rightarrow> run_from d t v)"
  by (induction u arbitrary: s) auto

lemma take_prefix: "l \<le> j \<Longrightarrow> \<exists>v. take j xs = take l xs @ v"
  by (metis append_take_drop_id min.absorb1 take_take)

lemma alive_before:
  assumes "alive d s buf mb j" "l \<le> j"
  shows "alive d s buf mb l"
proof -
  obtain v where "take j (drop mb buf) = take l (drop mb buf) @ v" using take_prefix[OF assms(2)] by blast
  with assms show ?thesis by (simp add: alive_def run_from_append split: option.splits)
qed

lemma last_holds: "P 0 \<Longrightarrow> \<not> P n \<Longrightarrow> \<exists>j. P j \<and> \<not> P (Suc j)"
  by (induction n) auto

lemma last_alive:
  assumes "mb \<le> length buf"
  obtains j where "alive d s buf mb j" "\<not> alive d s buf mb (Suc j)"
proof -
  have "alive d s buf mb 0" using assms by (simp add: alive_def)
  moreover have "\<not> alive d s buf mb (Suc (length buf))" by (simp add: alive_def)
  ultimately show thesis using last_holds[of "alive d s buf mb"] that by blast
qed

text \<open>The macro on the states of a run.\<close>

definition steps_exact :: "scan_tables \<Rightarrow> (nat \<Rightarrow> byte \<Rightarrow> int) \<Rightarrow> nat \<Rightarrow> byte list \<Rightarrow> nat \<Rightarrow> bool" where
  "steps_exact T d s0 buf mb \<longleftrightarrow> (\<forall>k b. alive d s0 buf mb k \<longrightarrow>
     next_state T (state_at d s0 buf mb k) b = (if d (state_at d s0 buf mb k) b > 0 then d (state_at d s0 buf mb k) b else -1))"

lemma run_step:
  assumes "steps_exact T d s0 buf mb" "alive d s0 buf mb k" "mb + k < length buf"
  shows "next_state T (state_at d s0 buf mb k) (buf ! (mb + k)) =
    (if alive d s0 buf mb (Suc k) then int (state_at d s0 buf mb (Suc k)) else -1)"
  using assms alive_Suc[OF assms(2)] by (auto simp: steps_exact_def)

lemma match_loop_run:
  assumes n: "steps_exact T d s0 buf mb" and j: "alive d s0 buf mb j" "\<not> alive d s0 buf mb (Suc j)" and k: "k \<le> j"
  shows "match_loop T buf mb (noted T mb (state_at d s0 buf mb) k) = noted T mb (state_at d s0 buf mb) j"
  using k
proof (induction "j - k" arbitrary: k)
  case 0
  then have "mb + j < length buf \<Longrightarrow> next_state T (state_at d s0 buf mb j) (buf ! (mb + j)) = -1"
    using run_step[OF n j(1)] j(2) by simp
  with 0 show ?case by (subst match_loop.simps) (auto simp: noted_def Let_def)
next
  case (Suc x)
  let ?q = "state_at d s0 buf mb"
  have a: "alive d s0 buf mb k" "alive d s0 buf mb (Suc k)" using Suc.hyps(2) by (auto intro: alive_before[OF j(1)])
  then have l: "mb + k < length buf" by (auto simp: alive_def)
  then have "match_loop T buf mb (noted T mb ?q k) = match_loop T buf mb (noted T mb ?q (Suc k))"
    using run_step[OF n a(1)] a(2) noted_step[of T mb ?q k]
    by (subst match_loop.simps) (simp add: noted_def Let_def)
  also have "\<dots> = noted T mb ?q j" by (rule Suc.hyps(1)) (use Suc.hyps(2) in simp_all)
  finally show ?case .
qed

end
