(* ===== verification/Match_Correct.thy ===== *)
theory Match_Correct
  imports Match_Run
begin

text \<open>
  Which rule the scanner picks: the longest match, and the first rule among those of the same
  length.
\<close>

section \<open>What a match should be\<close>

text \<open>The text of length \<open>l\<close> from \<open>mb\<close> matches rule \<open>r\<close>, or is a head of the rule \<open>r/s\<close>; a rule that ends in \<open>$\<close> needs the end of a line.\<close>

definition line_end :: "byte list \<Rightarrow> nat \<Rightarrow> bool" where
  "line_end buf i \<longleftrightarrow> length buf \<le> i \<or> buf ! i = 10"

definition text_matches ::
    "string list \<Rightarrow> nat list \<Rightarrow> pattern_rule list \<Rightarrow> nat \<Rightarrow> bool \<Rightarrow> byte list \<Rightarrow> nat \<Rightarrow> nat \<Rightarrow> nat \<Rightarrow> bool" where
  "text_matches names excl rs c bol buf mb l r \<longleftrightarrow>
     mb + l \<le> length buf \<and> rule_matches names excl rs c bol (take l (drop mb buf)) r"

definition text_marks ::
    "string list \<Rightarrow> nat list \<Rightarrow> pattern_rule list \<Rightarrow> nat \<Rightarrow> bool \<Rightarrow> byte list \<Rightarrow> nat \<Rightarrow> nat \<Rightarrow> nat \<Rightarrow> bool" where
  "text_marks names excl rs c bol buf mb l r \<longleftrightarrow>
     mb + l \<le> length buf \<and> rule_marks names excl rs c bol (take l (drop mb buf)) r"

definition candidate ::
    "string list \<Rightarrow> nat list \<Rightarrow> pattern_rule list \<Rightarrow> nat \<Rightarrow> bool \<Rightarrow> byte list \<Rightarrow> nat \<Rightarrow> nat \<Rightarrow> nat \<Rightarrow> bool" where
  "candidate names excl rs c bol buf mb l r \<longleftrightarrow>
     0 < l \<and> text_matches names excl rs c bol buf mb l r \<and> (rule_is_eol (rs ! r) \<longrightarrow> line_end buf (mb + l))"

text \<open>
  The code looks at one length only for the rules that end in \<open>$\<close>: the longest at which any
  of them matches, whatever follows.
\<close>

definition code_candidate ::
    "string list \<Rightarrow> nat list \<Rightarrow> pattern_rule list \<Rightarrow> nat \<Rightarrow> bool \<Rightarrow> byte list \<Rightarrow> nat \<Rightarrow> nat \<Rightarrow> nat \<Rightarrow> bool" where
  "code_candidate names excl rs c bol buf mb l r \<longleftrightarrow>
     candidate names excl rs c bol buf mb l r \<and>
     (rule_is_eol (rs ! r) \<longrightarrow>
        (\<forall>l' r'. text_matches names excl rs c bol buf mb l' r' \<and> rule_is_eol (rs ! r') \<longrightarrow> l' \<le> l))"

text \<open>The longest candidate, the first rule of it; \<open>rule\<close> is negative if there is none.\<close>

definition best_match :: "(nat \<Rightarrow> nat \<Rightarrow> bool) \<Rightarrow> int \<times> nat \<Rightarrow> bool" where
  "best_match C p \<longleftrightarrow>
     (if fst p < 0 then \<forall>l r. \<not> C l r
      else C (snd p) (nat (fst p)) \<and> (\<forall>l r. C l r \<longrightarrow> l < snd p \<or> l = snd p \<and> nat (fst p) \<le> r))"

text \<open>A rule that cannot match a line end is one whose strings have no newline.\<close>

definition single_line :: "pattern_rule \<Rightarrow> bool" where
  "single_line r \<longleftrightarrow> (\<forall>w\<in>rule_lang r. 10 \<notin> set w)"

lemma code_candidate_single_line:
  assumes "\<forall>r\<in>set rs. rule_is_eol r \<longrightarrow> single_line r"
  shows "code_candidate names excl rs c bol buf mb = candidate names excl rs c bol buf mb"
proof (intro ext iffI)
  fix l r
  assume c: "candidate names excl rs c bol buf mb l r"
  have "l' \<le> l" if t: "text_matches names excl rs c bol buf mb l' r'" and e: "rule_is_eol (rs ! r')" "rule_is_eol (rs ! r)" for l' r'
  proof (rule ccontr)
    assume "\<not> l' \<le> l"
    then have l: "l < l'" "mb + l < length buf" using t by (auto simp: text_matches_def)
    then have "buf ! (mb + l) = 10" using c e(2) by (auto simp: candidate_def line_end_def)
    moreover have "take l' (drop mb buf) ! l = buf ! (mb + l)" using l by simp
    ultimately have "10 \<in> set (take l' (drop mb buf))"
      using l t by (auto simp: text_matches_def in_set_conv_nth intro!: exI[of _ l])
    moreover have "rs ! r' \<in> set rs" "take l' (drop mb buf) \<in> rule_lang (rs ! r')"
      using t by (auto simp: text_matches_def rule_matches_def)
    ultimately show False using assms e(1) by (auto simp: single_line_def)
  qed
  with c show "code_candidate names excl rs c bol buf mb l r" by (auto simp: code_candidate_def)
qed (simp add: code_candidate_def)

section \<open>The states on the way\<close>

text \<open>The latest accepting state gives the longest match, and its entry the first rule.\<close>

definition latest_of :: "(nat \<Rightarrow> nat \<Rightarrow> bool) \<Rightarrow> int \<times> nat \<Rightarrow> bool" where
  "latest_of P p \<longleftrightarrow> p = (-1, 0) \<and> (\<forall>l r. \<not> P l r) \<or>
     fst p \<ge> 0 \<and> P (snd p) (nat (fst p)) \<and> (\<forall>l r. P l r \<longrightarrow> l < snd p \<or> l = snd p \<and> nat (fst p) \<le> r)"

lemma least_entry:
  assumes "least (\<lambda>r. P (nat r)) k"
  shows "k < 0 \<Longrightarrow> \<not> P r" "k \<ge> 0 \<Longrightarrow> P (nat k)" "P r \<Longrightarrow> nat k \<le> r" "P r \<Longrightarrow> k \<ge> 0"
proof -
  have r: "P r \<Longrightarrow> \<exists>r\<ge>0. P (nat r)" by (intro exI[of _ "int r"]) simp
  show "k < 0 \<Longrightarrow> \<not> P r" using assms r unfolding least_def by (auto split: if_splits)
  show "k \<ge> 0 \<Longrightarrow> P (nat k)" using assms unfolding least_def by (auto split: if_splits)
  show "P r \<Longrightarrow> k \<ge> 0" using assms r unfolding least_def by (auto split: if_splits)
  assume p: "P r"
  then have "k \<le> int r" using assms r unfolding least_def by (metis nat_int of_nat_0_le_iff)
  then show "nat k \<le> r" by simp
qed

lemma latest_least:
  assumes f: "\<And>l. l \<le> k \<Longrightarrow> least (\<lambda>r. P l (nat r)) (f l)" and b: "\<And>l r. P l r \<Longrightarrow> l \<le> k"
  shows "latest_of P (latest f k)"
  using latest_cases[of f k]
proof (elim disjE conjE)
  assume "fst (latest f k) = -1" "snd (latest f k) = 0" "\<forall>j\<le>k. f j < 0"
  with least_entry(1)[OF f] b show ?thesis unfolding latest_of_def by (metis prod.collapse)
next
  let ?v = "fst (latest f k)" and ?n = "snd (latest f k)"
  assume a: "?v \<ge> 0" "?n \<le> k" "f ?n = ?v" "\<forall>j\<le>k. ?n < j \<longrightarrow> f j < 0"
  have "P ?n (nat ?v)" using least_entry(2)[OF f[OF a(2)]] a by simp
  moreover have "l < ?n \<or> l = ?n \<and> nat ?v \<le> r" if p: "P l r" for l r
  proof -
    have "f l \<ge> 0" using least_entry(4)[OF f[OF b[OF p]] p] .
    with a(4) b[OF p] have "l \<le> ?n" by (meson linorder_not_le)
    then show ?thesis using least_entry(3)[OF f[OF a(2)]] p a(3) by (cases "l = ?n") auto
  qed
  ultimately show ?thesis using a(1) unfolding latest_of_def by blast
qed

lemma pick_rule_best:
  assumes n: "latest_of N (m_acc_n m, m_acc_n_len m)" and e: "latest_of E (m_acc_e m, m_acc_e_len m)"
    and C: "\<And>l r. C l r \<longleftrightarrow> 0 < l \<and> (N l r \<or> E l r \<and> line_end buf (mb + l) \<and> (\<forall>l' r'. E l' r' \<longrightarrow> l' \<le> l))"
    and d: "\<And>l r. \<not> (N l r \<and> E l r)"
  shows "best_match C (pick_rule buf mb m)"
proof -
  let ?n = "m_acc_n_len m" and ?vn = "m_acc_n m" and ?e = "m_acc_e_len m" and ?ve = "m_acc_e m"
  have N: "N l r \<Longrightarrow> ?vn \<ge> 0 \<and> N ?n (nat ?vn) \<and> (l < ?n \<or> l = ?n \<and> nat ?vn \<le> r)" for l r
    using n unfolding latest_of_def by auto
  have E: "E l r \<Longrightarrow> ?ve \<ge> 0 \<and> E ?e (nat ?ve) \<and> (l < ?e \<or> l = ?e \<and> nat ?ve \<le> r)" for l r
    using e unfolding latest_of_def by auto
  have vn: "?vn \<ge> 0 \<Longrightarrow> N ?n (nat ?vn)" "?vn < 0 \<Longrightarrow> ?n = 0" using n unfolding latest_of_def by auto
  have ve: "?ve \<ge> 0 \<Longrightarrow> E ?e (nat ?ve)" using e unfolding latest_of_def by auto
  have last: "C l r \<Longrightarrow> E l r \<Longrightarrow> l = ?e \<and> 0 < ?e \<and> ?ve \<ge> 0 \<and> line_end buf (mb + ?e)" for l r
    using E[of l r] C[of l r] d[of l r] by force
  show ?thesis
  proof (cases "?ve \<ge> 0 \<and> 0 < ?e \<and> line_end buf (mb + ?e)")
    case eol: True
    have "E l r \<Longrightarrow> l \<le> ?e" for l r using E[of l r] by linarith
    then have Ce: "C ?e (nat ?ve)" using eol ve by (simp add: C)
    have c: "C l r \<Longrightarrow> (?vn \<ge> 0 \<and> (l < ?n \<or> l = ?n \<and> nat ?vn \<le> r)) \<or> l = ?e \<and> nat ?ve \<le> r" for l r
      using C[of l r] N[of l r] E[of l r] last[of l r] by blast
    have p: "pick_rule buf mb m =
        (if ?n > ?e \<or> ?n = ?e \<and> ?vn \<ge> 0 \<and> ?vn < ?ve then (?vn, ?n) else (?ve, ?e))"
      using eol vn(2) by (auto simp: pick_rule_def Let_def line_end_def)
    show ?thesis
    proof (cases "?n > ?e \<or> ?n = ?e \<and> ?vn \<ge> 0 \<and> ?vn < ?ve")
      case True
      then have v: "?vn \<ge> 0" "0 < ?n" using vn(2) eol by force+
      then have "C ?n (nat ?vn)" using vn(1) by (simp add: C)
      moreover have "l < ?n \<or> l = ?n \<and> nat ?vn \<le> r" if "C l r" for l r
        using c[OF that] True by auto
      ultimately show ?thesis using p True v by (simp add: best_match_def)
    next
      case False
      have "l < ?e \<or> l = ?e \<and> nat ?ve \<le> r" if "C l r" for l r
        using c[OF that] False by auto
      then show ?thesis using p False eol Ce by (simp add: best_match_def)
    qed
  next
    case False
    then have "pick_rule buf mb m = (if ?vn \<ge> 0 \<and> ?n > 0 then (?vn, ?n) else (-1, 0))"
      by (auto simp: pick_rule_def Let_def line_end_def)
    moreover have CN: "?vn \<ge> 0 \<and> 0 < ?n \<and> (l < ?n \<or> l = ?n \<and> nat ?vn \<le> r)" if "C l r" for l r
    proof -
      from that have "N l r" "0 < l" using last[of l r] False C[of l r] by blast+
      with N[of l r] show ?thesis by auto
    qed
    moreover have "C ?n (nat ?vn)" if "?vn \<ge> 0" "0 < ?n" using vn(1) that by (simp add: C)
    ultimately show ?thesis unfolding best_match_def by auto
  qed
qed

section \<open>The scanner of a list of rules\<close>

definition scans_rules :: "string list \<Rightarrow> nat list \<Rightarrow> pattern_rule list \<Rightarrow> compress_mode \<Rightarrow> nfa \<Rightarrow> dfa \<Rightarrow> bool" where
  "scans_rules names excl rs mode nfa dfa \<longleftrightarrow>
     carries names excl rs nfa \<and> build_dfa nfa (mode \<noteq> Full) (mode = Compress) = Some dfa"

text \<open>The run of the table of some rules: how far it reads, and what its states report.\<close>

definition run_reports ::
    "string list \<Rightarrow> nat list \<Rightarrow> pattern_rule list \<Rightarrow> nat \<Rightarrow> bool \<Rightarrow> byte list \<Rightarrow> nat \<Rightarrow> dfa \<Rightarrow> (nat \<Rightarrow> nat) \<Rightarrow> nat \<Rightarrow> bool" where
  "run_reports names excl rs c bol buf mb dfa q j \<longleftrightarrow> mb + j \<le> length buf \<and>
     (\<forall>l\<le>j. q l < length (dfa_states dfa) \<and> reports names excl rs c bol (take l (drop mb buf)) (dfa_states dfa ! q l)) \<and>
     (\<forall>l r. text_matches names excl rs c bol buf mb l r \<or> text_marks names excl rs c bol buf mb l r \<longrightarrow> l \<le> j)"

lemma table_states:
  assumes R: "scans_rules names excl rs mode nfa dfa" and c: "c < length names" and mb: "mb \<le> length buf"
  defines "T \<equiv> emitted_tables mode nfa dfa"
  obtains d s0 j where
    "nat (if bol then yy_cond_bol (st_tabs T) ! c else yy_cond_normal (st_tabs T) ! c) = state_at d s0 buf mb 0"
    "steps_exact T d s0 buf mb" "alive d s0 buf mb j" "\<not> alive d s0 buf mb (Suc j)"
    "run_reports names excl rs c bol buf mb dfa (state_at d s0 buf mb) j"
proof -
  have N: "carries names excl rs nfa" and dfa: "build_dfa nfa (mode \<noteq> Full) (mode = Compress) = Some dfa"
    using R by (simp_all add: scans_rules_def)
  note s = carriesD[OF N]
  let ?d = "dfa_delta dfa" and ?s = "dfa_start_of dfa c bol"
  let ?q = "state_at ?d ?s buf mb"
  obtain bd where b: "built nfa dfa bd"
    and ec: "dfa_eclasses dfa = (if mode \<noteq> Full then compute_eclasses nfa else identity_eclasses)"
    using build_dfa_built[OF s(1), of "mode \<noteq> Full" "mode = Compress"] dfa by (metis option.inject)
  have c': "c < length (nfa_cond_names nfa)" by (simp add: s(3) c)
  have live: "live bd (?q k)" if "alive ?d ?s buf mb k" for k
    using that dfa_run_sets[OF s(1) b c', of bol "take k (drop mb buf)"] by (auto simp: alive_def state_at_def)
  have "c < length (dfa_cond_starts dfa)"
    using b c' nfa_ok_conds[OF s(1)] by (auto simp: built_def list_all2_conv_all_nth)
  then have start: "nat (if bol then yy_cond_bol (st_tabs T) ! c else yy_cond_normal (st_tabs T) ! c) = ?q 0"
    by (simp add: T_def emitted_tables_def compiled_tables_def Let_def state_at_def dfa_start_of_def)
  have exact: "steps_exact T ?d ?s buf mb"
    using next_state_exact[OF s(1) b live ec] by (simp add: steps_exact_def T_def)
  obtain j where j: "alive ?d ?s buf mb j" "\<not> alive ?d ?s buf mb (Suc j)" by (rule last_alive[OF mb])
  have "?q l < length (dfa_states dfa) \<and> reports names excl rs c bol (take l (drop mb buf)) (dfa_states dfa ! ?q l)"
    if "l \<le> j" for l
  proof -
    have a: "alive ?d ?s buf mb l" by (rule alive_before[OF j(1) that])
    have "case run_from ?d ?s (take l (drop mb buf)) of None \<Rightarrow> True
        | Some t \<Rightarrow> reports names excl rs c bol (take l (drop mb buf)) (dfa_states dfa ! t)"
      using table_scans[OF N dfa] c unfolding scans_def by (auto split: option.splits)
    with a live_in_table(1)[OF b live[OF a]] show ?thesis by (auto simp: alive_def state_at_def)
  qed
  moreover have "\<not> accepts nfa (start_of nfa c bol) (take l (drop mb buf)) r \<and> \<not> marked nfa (start_of nfa c bol) (take l (drop mb buf)) r"
    if l: "j < l" "mb + l \<le> length buf" for l r
  proof -
    have "run_from ?d ?s (take (Suc j) (drop mb buf)) = None" using l j(2) by (auto simp: alive_def)
    with dfa_run_sets[OF s(1) b c', of bol "take (Suc j) (drop mb buf)"]
    have e: "reach (nfa_states nfa) (start_of nfa c bol) (take (Suc j) (drop mb buf)) = {}" by simp
    obtain v where "take l (drop mb buf) = take (Suc j) (drop mb buf) @ v"
      using take_prefix[of "Suc j" l "drop mb buf"] l(1) by auto
    with reach_append[OF e, of v] show ?thesis by (auto simp: accepts_def marked_def reach_def)
  qed
  then have "l \<le> j" if "text_matches names excl rs c bol buf mb l r \<or> text_marks names excl rs c bol buf mb l r" for l r
    using that s(7,8)[OF c] by (meson leI text_marks_def text_matches_def)
  moreover have "mb + j \<le> length buf" using j(1) by (simp add: alive_def)
  ultimately have "run_reports names excl rs c bol buf mb dfa ?q j" by (auto simp: run_reports_def)
  then show thesis by (rule that[OF start exact j])
qed

text \<open>What the loop of the scanner leaves.\<close>

lemma match_states:
  assumes R: "scans_rules names excl rs mode nfa dfa" and c: "c < length names" and mb: "mb \<le> length buf"
  obtains q j where
    "match_loop (emitted_tables mode nfa dfa) buf mb (match_start (emitted_tables mode nfa dfa) mb c bol)
       = noted (emitted_tables mode nfa dfa) mb q j"
    "run_reports names excl rs c bol buf mb dfa q j"
proof -
  let ?T = "emitted_tables mode nfa dfa"
  obtain d s0 j where
    t: "nat (if bol then yy_cond_bol (st_tabs ?T) ! c else yy_cond_normal (st_tabs ?T) ! c) = state_at d s0 buf mb 0"
      "steps_exact ?T d s0 buf mb" "alive d s0 buf mb j" "\<not> alive d s0 buf mb (Suc j)"
      "run_reports names excl rs c bol buf mb dfa (state_at d s0 buf mb) j"
    by (rule table_states[OF R c mb])
  have "match_loop ?T buf mb (match_start ?T mb c bol) = noted ?T mb (state_at d s0 buf mb) j"
    using noted_start[where q = "state_at d s0 buf mb", OF t(1)] match_loop_run[OF t(2-4), of 0] by simp
  from that[OF this t(5)] show thesis .
qed

lemma run_entries:
  assumes r: "run_reports names excl rs c bol buf mb dfa q j" and l: "l \<le> j"
  shows "least (\<lambda>r. text_matches names excl rs c bol buf mb l (nat r) \<and> \<not> rule_is_eol (rs ! nat r))
      (yy_accept_normal (st_tabs (emitted_tables mode nfa dfa)) ! q l)"
    "least (\<lambda>r. text_matches names excl rs c bol buf mb l (nat r) \<and> rule_is_eol (rs ! nat r))
      (yy_accept_eol (st_tabs (emitted_tables mode nfa dfa)) ! q l)"
    "set (d_accept_list (dfa_states dfa ! q l)) = {int r |r. text_matches names excl rs c bol buf mb l r}"
    "set (d_boundary_rules (dfa_states dfa ! q l)) = {int r |r. text_marks names excl rs c bol buf mb l r}"
  using r l by (auto simp: run_reports_def reports_def emitted_tables_def compiled_tables_def Let_def text_matches_def text_marks_def)

lemma match_best:
  assumes R: "scans_rules names excl rs mode nfa dfa" and c: "c < length names" and mb: "mb \<le> length buf"
  defines "T \<equiv> emitted_tables mode nfa dfa"
  shows "best_match (code_candidate names excl rs c bol buf mb)
    (pick_rule buf mb (match_loop T buf mb (match_start T mb c bol)))"
proof -
  let ?M = "text_matches names excl rs c bol buf mb"
  obtain q j where j: "match_loop T buf mb (match_start T mb c bol) = noted T mb q j"
    "run_reports names excl rs c bol buf mb dfa q j"
    unfolding T_def by (rule match_states[OF R c mb])
  have far: "\<And>l r. ?M l r \<Longrightarrow> l \<le> j" using j(2) by (auto simp: run_reports_def)
  have "latest_of (\<lambda>l r. ?M l r \<and> \<not> rule_is_eol (rs ! r)) (latest (\<lambda>l. yy_accept_normal (st_tabs T) ! q l) j)"
    "latest_of (\<lambda>l r. ?M l r \<and> rule_is_eol (rs ! r)) (latest (\<lambda>l. yy_accept_eol (st_tabs T) ! q l) j)"
    unfolding T_def by (rule latest_least; use run_entries(1,2)[OF j(2)] far in blast)+
  then show ?thesis
    unfolding j(1) by (intro pick_rule_best) (auto simp: noted_def Let_def code_candidate_def candidate_def)
qed

end
