(* ===== verification/Match_Turn.thy ===== *)
theory Match_Turn
  imports Match_Correct
begin

text \<open>
  A turn of the scanner: the picked rule, the text without its trailing context, and what is
  left of the buffer; and why the scanner gets through every buffer.
\<close>

section \<open>The end of the head of \<open>r/s\<close>\<close>

text \<open>How much of a match of length \<open>l\<close> of rule \<open>r\<close> is taken.\<close>

definition taken ::
    "string list \<Rightarrow> nat list \<Rightarrow> pattern_rule list \<Rightarrow> nat \<Rightarrow> bool \<Rightarrow> byte list \<Rightarrow> nat \<Rightarrow> nat \<Rightarrow> nat \<Rightarrow> nat \<Rightarrow> bool" where
  "taken names excl rs c bol buf mb l r n \<longleftrightarrow>
     (let t = snd (snd (rs ! r)); M = (\<lambda>b. text_marks names excl rs c bol buf mb b r)
      in if 0 < t \<and> nat t \<le> l then n = l - nat t
         else if t < 0 \<and> (\<exists>b. M b) \<and> (\<forall>b. M b \<longrightarrow> b \<le> l) then M n \<and> (\<forall>b. M b \<longrightarrow> b \<le> n)
         else n = l)"

lemma fold_mark:
  "i < length bs \<Longrightarrow> fold (\<lambda>r bs. bs[nat r := v]) xs bs ! i = (if \<exists>r\<in>set xs. nat r = i then v else bs ! i)"
  by (induction xs arbitrary: bs) auto

lemma length_fold_mark [simp]: "length (fold (\<lambda>r bs. bs[nat r := v]) xs bs) = length bs"
  by (induction xs arbitrary: bs) auto

lemma length_bounds [simp]: "length (bounds_at T mb q k) = st_nrules T"
  by (induction k) (auto split: option.split)

text \<open>The boundary noted for a rule is the last one.\<close>

lemma bounds_last:
  assumes t: "st_boundary T = Some t" and i: "i < st_nrules T"
  shows "case bounds_at T mb q k ! i of
      None \<Rightarrow> \<forall>b\<le>k. \<not> (\<exists>r\<in>set (pool_slice t (q b)). nat r = i)
    | Some p \<Rightarrow> \<exists>b\<le>k. p = mb + b \<and> (\<exists>r\<in>set (pool_slice t (q b)). nat r = i) \<and>
        (\<forall>b'\<le>k. (\<exists>r\<in>set (pool_slice t (q b')). nat r = i) \<longrightarrow> b' \<le> b)"
proof (induction k)
  case 0
  then show ?case using i by (simp add: t fold_mark)
next
  case (Suc k)
  show ?case
  proof (cases "\<exists>r\<in>set (pool_slice t (q (Suc k))). nat r = i")
    case True
    then have "bounds_at T mb q (Suc k) ! i = Some (mb + Suc k)" using i by (simp add: t fold_mark)
    with True show ?thesis by (auto intro!: exI[of _ "Suc k"])
  next
    case False
    then have e: "bounds_at T mb q (Suc k) ! i = bounds_at T mb q k ! i" using i by (auto simp: t fold_mark)
    show ?thesis
    proof (cases "bounds_at T mb q k ! i")
      case None
      with Suc False e show ?thesis by (auto simp: le_Suc_eq)
    next
      case (Some p)
      with Suc False obtain b where "b \<le> k" "p = mb + b" "\<exists>r\<in>set (pool_slice t (q b)). nat r = i"
        "\<forall>b'\<le>k. (\<exists>r\<in>set (pool_slice t (q b')). nat r = i) \<longrightarrow> b' \<le> b" by auto
      with Some False e show ?thesis by (auto simp: le_Suc_eq intro!: exI[of _ b])
    qed
  qed
qed

section \<open>A turn\<close>

text \<open>What a turn does, for the candidates \<open>C\<close> and the taken lengths \<open>K\<close>.\<close>

definition right_turn :: "options \<Rightarrow> (nat \<Rightarrow> nat \<Rightarrow> bool) \<Rightarrow> (nat \<Rightarrow> nat \<Rightarrow> nat \<Rightarrow> bool) \<Rightarrow> scanner \<Rightarrow> turn \<Rightarrow> bool" where
  "right_turn opt C K s t \<longleftrightarrow>
     (case t of
        AtEof s' \<Rightarrow> False
      | Jammed s' \<Rightarrow> s' = s \<and> o_nodefault opt \<and> (\<forall>l r. \<not> C l r)
      | Echoed s' \<Rightarrow> s' = echo_byte opt s \<and> \<not> o_nodefault opt \<and> (\<forall>l r. \<not> C l r)
      | Matched rule text s' \<Rightarrow> \<exists>l n. rule \<ge> 0 \<and> best_match C (rule, l) \<and> K l (nat rule) n \<and>
          take_text opt (ys_pos s) n s = (text, s'))"

lemma taken_of_trim:
  assumes N: "carries names excl rs nfa" and r: "r < length rs"
    and m: "m = noted (emitted_tables mode nfa dfa) mb q j" and run: "run_reports names excl rs c bol buf mb dfa q j"
  shows "taken names excl rs c bol buf mb l r (trim_trail (emitted_tables mode nfa dfa) mb m (int r) l)"
proof -
  let ?T = "emitted_tables mode nfa dfa" and ?t = "snd (snd (rs ! r))"
  let ?M = "\<lambda>b. text_marks names excl rs c bol buf mb b r"
  have ne: "nfa_rule_trail nfa = map (\<lambda>r. snd (snd r)) rs" "nfa_rule_trail nfa \<noteq> []"
    using carriesD(6)[OF N] r by auto
  have trail: "yy_rule_trail_len (st_tabs ?T) ! nat (int r) = ?t"
    using r ne by (simp add: emitted_tables_def compiled_tables_def Let_def)
  show ?thesis
  proof (cases "?t < 0")
    case False
    then show ?thesis unfolding taken_def trim_trail_def trail Let_def by (auto split: if_splits)
  next
    case True
    then have "any_var_trail nfa" using r by (auto simp: any_var_trail_def ne(1) list_ex_iff)
    then have b: "st_boundary ?T = Some (offsets_pool d_boundary_rules (dfa_states dfa))" "r < st_nrules ?T"
      using r ne by (simp_all add: emitted_tables_def)
    let ?P = "\<lambda>b. \<exists>x\<in>set (pool_slice (offsets_pool d_boundary_rules (dfa_states dfa)) (q b)). nat x = r"
    have P: "?P b \<longleftrightarrow> ?M b" if "b \<le> j" for b
    proof -
      have "q b < length (dfa_states dfa)" using run that by (simp add: run_reports_def)
      then show ?thesis using run_entries(4)[OF run that] by (auto simp: pool_slice_state)
    qed
    have far: "?M b \<Longrightarrow> b \<le> j" for b using run by (auto simp: run_reports_def)
    have trim: "trim_trail ?T mb m (int r) l =
        (case bounds_at ?T mb q j ! r of None \<Rightarrow> l
         | Some bp \<Rightarrow> if mb \<le> bp \<and> bp \<le> mb + l then bp - mb else l)"
      unfolding trim_trail_def trail Let_def using True b(1) by (simp add: m noted_def Let_def)
    show ?thesis
    proof (cases "bounds_at ?T mb q j ! r")
      case None
      with bounds_last[OF b, where mb = mb and q = q and k = j] have "\<forall>b\<le>j. \<not> ?P b" by simp
      with P far have "\<not> ?M b" for b by blast
      with None True trim show ?thesis by (simp add: taken_def)
    next
      case (Some p)
      with bounds_last[OF b, where mb = mb and q = q and k = j] obtain b where bb: "b \<le> j" "p = mb + b" "?P b" "\<forall>b'\<le>j. ?P b' \<longrightarrow> b' \<le> b" by auto
      then have M: "?M b" "\<And>b'. ?M b' \<Longrightarrow> b' \<le> b" using P far by blast+
      have n: "trim_trail ?T mb m (int r) l = (if b \<le> l then b else l)" using Some trim bb(2) by simp
      show ?thesis
      proof (cases "b \<le> l")
        case le: True
        with M have "\<forall>b'. ?M b' \<longrightarrow> b' \<le> l" using le_trans by blast
        with M True n le show ?thesis unfolding taken_def Let_def by auto
      next
        case False
        with M(1) True n show ?thesis unfolding taken_def Let_def by auto
      qed
    qed
  qed
qed

lemma turn_is_right:
  assumes R: "scans_rules names excl rs mode nfa dfa" and s: "ys_pos s < length (ys_buf s)" "ys_start s < length names"
  shows "right_turn opt (code_candidate names excl rs (ys_start s) (ys_at_bol s) (ys_buf s) (ys_pos s))
    (taken names excl rs (ys_start s) (ys_at_bol s) (ys_buf s) (ys_pos s)) s
    (yy_turn opt (emitted_tables mode nfa dfa) s)"
proof -
  let ?T = "emitted_tables mode nfa dfa" and ?c = "ys_start s" and ?bol = "ys_at_bol s" and ?buf = "ys_buf s" and ?mb = "ys_pos s"
  let ?C = "code_candidate names excl rs ?c ?bol ?buf ?mb"
  let ?m = "match_loop ?T ?buf ?mb (match_start ?T ?mb ?c ?bol)"
  have N: "carries names excl rs nfa" using R by (simp add: scans_rules_def)
  have le: "?mb \<le> length ?buf" using s(1) by simp
  obtain k l where p: "pick_rule ?buf ?mb ?m = (k, l)" by fastforce
  have best: "best_match ?C (k, l)" using match_best[OF R s(2) le, of ?bol] p by simp
  obtain bs s' where t: "take_text opt ?mb (trim_trail ?T ?mb ?m k l) s = (bs, s')" by fastforce
  have turn: "yy_turn opt ?T s = (if k < 0 then (if o_nodefault opt then Jammed s else Echoed (echo_byte opt s))
      else Matched k bs s')"
    using s(1) p t by (simp add: yy_turn_def Let_def)
  show ?thesis
  proof (cases "k < 0")
    case True
    with turn best show ?thesis by (simp add: right_turn_def best_match_def)
  next
    case False
    with best have r: "nat k < length rs"
      by (simp add: best_match_def code_candidate_def candidate_def text_matches_def rule_matches_def)
    obtain q j where "?m = noted ?T ?mb q j" "run_reports names excl rs ?c ?bol ?buf ?mb dfa q j"
      by (rule match_states[OF R s(2) le])
    from taken_of_trim[OF N r this, of l] False best turn t show ?thesis
      by (auto simp: right_turn_def)
  qed
qed

end
