(* ===== verification/Source_Lex.thy ===== *)
theory Source_Lex
  imports Source_Data
begin

text \<open>
  The cursor of the specification parser (\<open>struct Parser\<close> of \<open>src/src/source.cpp\<close>) and the
  loops that read text with it. The source does not change while it is read, so the state
  holds the text from \<open>pos\<close> on (\<open>sp_rest\<close>) in place of the pair \<open>src\<close>, \<open>pos\<close>; saving and
  restoring \<open>pos\<close> is saving and restoring \<open>sp_rest\<close>. A loop that looks at each character
  is \<open>read_while\<close>; the others are written out.
\<close>

section \<open>State\<close>

text \<open>An open block \<open><sc1,sc2>{\<close>.\<close>

record sc_block =
  sb_conds :: "string list"
  sb_any_state :: bool

record sparser =
  sp_rest :: string
  sp_line :: u32
  sp_col :: u32
  sp_file :: string
  sp_diag :: diagnostics
  sp_out :: lex_file
  sp_blocks :: "sc_block list"

abbreviation NL :: char where
  "NL \<equiv> CHR 0x0A"

abbreviation TAB :: char where
  "TAB \<equiv> CHR 0x09"

definition sp_loc :: "sparser \<Rightarrow> source_loc" where
  "sp_loc p = \<lparr>sl_file = sp_file p, sl_line = unat (sp_line p), sl_col = unat (sp_col p)\<rparr>"

definition sp_start :: "string \<Rightarrow> string \<Rightarrow> diagnostics \<Rightarrow> sparser" where
  "sp_start src path diag = \<lparr>sp_rest = src, sp_line = 1, sp_col = 1, sp_file = path, sp_diag = diag,
     sp_out = empty_file \<lparr>sl_file = path, sl_line = 1, sl_col = 1\<rparr>, sp_blocks = []\<rparr>"

definition sp_at_end :: "sparser \<Rightarrow> bool" where
  "sp_at_end p \<longleftrightarrow> sp_rest p = []"

definition sp_peek :: "sparser \<Rightarrow> nat \<Rightarrow> char" where
  "sp_peek p k = (if k < length (sp_rest p) then sp_rest p ! k else NUL)"

definition sp_get :: "sparser \<Rightarrow> char \<times> sparser" where
  "sp_get p =
     (case sp_rest p of
        [] \<Rightarrow> (NUL, p)
      | c # cs \<Rightarrow>
          (c, if c = NL then p\<lparr>sp_rest := cs, sp_line := sp_line p + 1, sp_col := 1\<rparr>
              else p\<lparr>sp_rest := cs, sp_col := sp_col p + 1\<rparr>))"

abbreviation sp_skip :: "sparser \<Rightarrow> sparser" where
  "sp_skip p \<equiv> snd (sp_get p)"

text \<open>\<open>src.compare(pos, n, s) == 0\<close> with \<open>n\<close> the length of \<open>s\<close>.\<close>

definition sp_looking_at :: "sparser \<Rightarrow> string \<Rightarrow> bool" where
  "sp_looking_at p s \<longleftrightarrow> take (length s) (sp_rest p) = s"

definition sp_save :: "sparser \<Rightarrow> sparser \<Rightarrow> sparser" where
  "sp_save saved p = p\<lparr>sp_rest := sp_rest saved, sp_line := sp_line saved, sp_col := sp_col saved\<rparr>"

section \<open>What a read leaves alone\<close>

text \<open>\<open>goes p q\<close>: only the cursor moved; \<open>left p\<close> characters are still to be read.\<close>

definition goes :: "sparser \<Rightarrow> sparser \<Rightarrow> bool" where
  "goes p q \<longleftrightarrow> sp_file q = sp_file p \<and> sp_diag q = sp_diag p \<and> sp_out q = sp_out p \<and> sp_blocks q = sp_blocks p"

abbreviation left_to_read :: "sparser \<Rightarrow> nat" where
  "left_to_read p \<equiv> length (sp_rest p)"

lemma goes_refl [simp, intro]: "goes p p"
  by (simp add: goes_def)

lemma goes_trans [trans]: "goes p q \<Longrightarrow> goes q r \<Longrightarrow> goes p r"
  by (simp add: goes_def)

lemma goes_fields:
  assumes "goes p q"
  shows "sp_file q = sp_file p" "sp_diag q = sp_diag p" "sp_out q = sp_out p" "sp_blocks q = sp_blocks p"
  using assms by (auto simp: goes_def)

lemma goes_get [simp, intro]: "goes p (sp_skip p)"
  by (cases "sp_rest p") (auto simp: sp_get_def goes_def)

lemma rest_get [simp]: "sp_rest (sp_skip p) = tl (sp_rest p)"
  by (cases "sp_rest p") (auto simp: sp_get_def)

lemma fst_get [simp]: "sp_rest p = c # cs \<Longrightarrow> fst (sp_get p) = c"
  by (simp add: sp_get_def)

lemma peek_0 [simp]: "sp_rest p = c # cs \<Longrightarrow> sp_peek p 0 = c"
  by (simp add: sp_peek_def)

lemma peek_nonempty: "sp_peek p k \<noteq> NUL \<Longrightarrow> k < left_to_read p"
  by (auto simp: sp_peek_def split: if_splits)

lemma sp_end_rest: "sp_at_end p \<longleftrightarrow> left_to_read p = 0"
  by (simp add: sp_at_end_def)

lemma goes_save [simp, intro]: "goes saved p \<Longrightarrow> goes saved (sp_save saved p)"
  by (auto simp: goes_def sp_save_def)

lemma rest_save [simp]: "sp_rest (sp_save saved p) = sp_rest saved"
  by (simp add: sp_save_def)

section \<open>Loops over single characters\<close>

function read_while :: "(char \<Rightarrow> bool) \<Rightarrow> sparser \<Rightarrow> string \<times> sparser" where
  "read_while P p =
     (if \<not> sp_at_end p \<and> P (sp_peek p 0)
      then let (c, p) = sp_get p; (s, p) = read_while P p in (c # s, p)
      else ([], p))"
  by pat_completeness auto
termination
  by (relation "measure (\<lambda>(P, p). left_to_read p)") (auto simp: sp_at_end_def sp_get_def split: list.splits)

declare read_while.simps [simp del]

abbreviation skip_while :: "(char \<Rightarrow> bool) \<Rightarrow> sparser \<Rightarrow> sparser" where
  "skip_while P p \<equiv> snd (read_while P p)"

lemma read_while_goes: "goes p (skip_while P p)"
proof (induction P p rule: read_while.induct)
  case (1 P p)
  show ?case
  proof (cases "\<not> sp_at_end p \<and> P (sp_peek p 0)")
    case True
    from 1[OF this] have "goes (sp_skip p) (skip_while P (sp_skip p))"
      by (metis prod.collapse)
    with goes_get have "goes p (skip_while P (sp_skip p))" by (rule goes_trans)
    with True show ?thesis
      by (subst read_while.simps) (simp split: prod.splits, metis snd_conv)
  next
    case False
    then show ?thesis by (subst read_while.simps) auto
  qed
qed

lemma read_while_text:
  "fst (read_while P p) = takeWhile P (sp_rest p)" "sp_rest (skip_while P p) = dropWhile P (sp_rest p)"
proof -
  have "fst (read_while P p) = takeWhile P (sp_rest p) \<and> sp_rest (skip_while P p) = dropWhile P (sp_rest p)"
  proof (induction P p rule: read_while.induct)
    case (1 P p)
    show ?case
    proof (cases "sp_rest p")
      case Nil
      then show ?thesis by (subst (1 2) read_while.simps) (simp add: sp_at_end_def)
    next
      case (Cons c cs)
      show ?thesis
      proof (cases "P c")
        case True
        with Cons have c: "\<not> sp_at_end p \<and> P (sp_peek p 0)" by (simp add: sp_at_end_def)
        obtain q where g: "sp_get p = (c, q)" using Cons by (metis fst_get prod.collapse)
        then have "sp_rest q = cs" using Cons rest_get[of p] by simp
        with 1[OF c g[symmetric] refl] c g True Cons show ?thesis
          by (subst (1 2) read_while.simps) (auto split: prod.split)
      next
        case False
        with Cons show ?thesis by (subst (1 2) read_while.simps) simp
      qed
    qed
  qed
  then show "fst (read_while P p) = takeWhile P (sp_rest p)" "sp_rest (skip_while P p) = dropWhile P (sp_rest p)"
    by blast+
qed


lemma get_shrinks: "\<not> sp_at_end p \<Longrightarrow> left_to_read (sp_skip p) < left_to_read p"
  by (cases "sp_rest p") (auto simp: sp_at_end_def)

lemma get_le: "left_to_read (sp_skip p) \<le> left_to_read p"
  by simp

lemma read_while_le: "left_to_read (skip_while P p) \<le> left_to_read p"
  by (simp add: read_while_text length_dropWhile_le)

definition is_blank :: "char \<Rightarrow> bool" where
  "is_blank c \<longleftrightarrow> c = CHR '' '' \<or> c = TAB"

definition skip_blanks :: "sparser \<Rightarrow> sparser" where
  "skip_blanks p = skip_while is_blank p"

definition to_eol :: "sparser \<Rightarrow> sparser" where
  "to_eol p = skip_while (\<lambda>c. c \<noteq> NL) p"

definition eat_nl :: "sparser \<Rightarrow> sparser" where
  "eat_nl p = (if sp_peek p 0 = NL then sp_skip p else p)"

definition read_line :: "sparser \<Rightarrow> string \<times> sparser" where
  "read_line p = (let (s, p) = read_while (\<lambda>c. c \<noteq> NL) p in (s, eat_nl p))"

definition read_line_keep_nl :: "sparser \<Rightarrow> string \<times> sparser" where
  "read_line_keep_nl p =
     (let (s, p) = read_while (\<lambda>c. c \<noteq> NL) p
      in if sp_at_end p then (s, p) else (s @ [NL], sp_skip p))"

definition skip_blank_line :: "sparser \<Rightarrow> sparser" where
  "skip_blank_line p = (let p = to_eol p in if sp_at_end p then p else sp_skip p)"

definition rstrip :: "string \<Rightarrow> string" where
  "rstrip s = rev (dropWhile (\<lambda>c. c = NL \<or> c = CHR 0x0D \<or> c = CHR '' '' \<or> c = TAB) (rev s))"

fun sp_get_n :: "nat \<Rightarrow> sparser \<Rightarrow> string \<times> sparser" where
  "sp_get_n 0 p = ([], p)"
| "sp_get_n (Suc n) p = (let (c, p) = sp_get p; (s, p) = sp_get_n n p in (c # s, p))"

lemma goes_steps [simp, intro]:
  "goes p (skip_blanks p)" "goes p (to_eol p)" "goes p (eat_nl p)" "goes p (snd (read_line p))"
  "goes p (snd (read_line_keep_nl p))" "goes p (skip_blank_line p)" "goes p (snd (sp_get_n n p))"
proof -
  show "goes p (skip_blanks p)" "goes p (to_eol p)" for p
    by (simp_all add: skip_blanks_def to_eol_def read_while_goes)
  show e: "goes p (eat_nl p)" for p by (simp add: eat_nl_def)
  obtain t q where q: "read_while (\<lambda>c. c \<noteq> NL) p = (t, q)" by fastforce
  with read_while_goes[of p "\<lambda>c. c \<noteq> NL"] have "goes p q" by simp
  with e goes_get goes_trans show "goes p (snd (read_line p))" "goes p (snd (read_line_keep_nl p))"
    "goes p (skip_blank_line p)"
    by (simp_all add: read_line_def read_line_keep_nl_def skip_blank_line_def to_eol_def q Let_def)
  show "goes p (snd (sp_get_n n p))"
  proof (induction n arbitrary: p)
    case (Suc n)
    from goes_trans[OF goes_get Suc] show ?case by (simp add: split_def Let_def)
  qed simp
qed

lemma rest_steps:
  "sp_rest (skip_blanks p) = dropWhile is_blank (sp_rest p)"
  "sp_rest (to_eol p) = dropWhile (\<lambda>c. c \<noteq> NL) (sp_rest p)"
  "sp_rest (eat_nl p) = (if sp_rest p \<noteq> [] \<and> hd (sp_rest p) = NL then tl (sp_rest p) else sp_rest p)"
  "fst (read_line p) = takeWhile (\<lambda>c. c \<noteq> NL) (sp_rest p)"
  "sp_rest (snd (read_line p)) = tl (dropWhile (\<lambda>c. c \<noteq> NL) (sp_rest p))"
  "sp_rest (snd (read_line_keep_nl p)) = tl (dropWhile (\<lambda>c. c \<noteq> NL) (sp_rest p))"
  "sp_rest (skip_blank_line p) = tl (dropWhile (\<lambda>c. c \<noteq> NL) (sp_rest p))"
  "sp_rest (snd (sp_get_n n p)) = drop n (sp_rest p)"
proof -
  show "sp_rest (skip_blanks p) = dropWhile is_blank (sp_rest p)"
    "sp_rest (to_eol p) = dropWhile (\<lambda>c. c \<noteq> NL) (sp_rest p)" for p
    by (simp_all add: skip_blanks_def to_eol_def read_while_text)
  have nl: "dropWhile (\<lambda>c. c \<noteq> NL) t = [] \<or> hd (dropWhile (\<lambda>c. c \<noteq> NL) t) = NL" for t
    using hd_dropWhile[of "\<lambda>c. c \<noteq> NL" t] by blast
  show e: "sp_rest (eat_nl p) = (if sp_rest p \<noteq> [] \<and> hd (sp_rest p) = NL then tl (sp_rest p) else sp_rest p)" for p
    by (cases "sp_rest p") (auto simp: eat_nl_def sp_peek_def)
  obtain t q where q: "read_while (\<lambda>c. c \<noteq> NL) p = (t, q)" by fastforce
  define d where "d = dropWhile (\<lambda>c. c \<noteq> NL) (sp_rest p)"
  have t: "t = takeWhile (\<lambda>c. c \<noteq> NL) (sp_rest p)" and d: "sp_rest q = d" "d = [] \<or> hd d = NL"
    using read_while_text[of "\<lambda>c. c \<noteq> NL" p] nl[of "sp_rest p"] by (simp_all add: q d_def)
  show "fst (read_line p) = takeWhile (\<lambda>c. c \<noteq> NL) (sp_rest p)"
    by (simp add: read_line_def q t)
  show "sp_rest (snd (read_line p)) = tl (dropWhile (\<lambda>c. c \<noteq> NL) (sp_rest p))"
    "sp_rest (snd (read_line_keep_nl p)) = tl (dropWhile (\<lambda>c. c \<noteq> NL) (sp_rest p))"
    "sp_rest (skip_blank_line p) = tl (dropWhile (\<lambda>c. c \<noteq> NL) (sp_rest p))"
    using d unfolding d_def[symmetric]
    by (auto simp: read_line_def read_line_keep_nl_def skip_blank_line_def to_eol_def e q Let_def sp_at_end_def)
  show "sp_rest (snd (sp_get_n n p)) = drop n (sp_rest p)"
    by (induction n arbitrary: p) (simp_all add: split_def Let_def drop_Suc)
qed

end
