(* ===== verification/Source_Blocks.thy ===== *)
theory Source_Blocks
  imports Source_Lex
begin

text \<open>
  The longer reads of the specification parser: comments, verbatim blocks, the code of
  \<open>%top\<close>, lists of start conditions, patterns and actions.
\<close>

section \<open>Comments and verbatim code\<close>

text \<open>The loop after the opening of a comment.\<close>

function skip_comment :: "sparser \<Rightarrow> sparser" where
  "skip_comment p =
     (if sp_at_end p then p
      else if sp_peek p 0 = CHR ''*'' \<and> sp_peek p 1 = CHR ''/'' then sp_skip (sp_skip p)
      else skip_comment (sp_skip p))"
  by pat_completeness auto
termination
  by (relation "measure left_to_read") (auto simp: sp_at_end_def)

text \<open>The same in the line of a block opener, where it gives up at the end of the line.\<close>

function skip_comment_in_line :: "sparser \<Rightarrow> sparser" where
  "skip_comment_in_line p =
     (if sp_at_end p then p
      else if sp_peek p 0 = CHR ''*'' \<and> sp_peek p 1 = CHR ''/'' then sp_skip (sp_skip p)
      else if sp_peek p 0 = NL then p
      else skip_comment_in_line (sp_skip p))"
  by pat_completeness auto
termination
  by (relation "measure left_to_read") (auto simp: sp_at_end_def)

declare skip_comment.simps [simp del] skip_comment_in_line.simps [simp del]

lemma read_line_keep_nl_shrinks:
  "\<not> sp_at_end p \<Longrightarrow> left_to_read (snd (read_line_keep_nl p)) < left_to_read p"
  using length_dropWhile_le[of "\<lambda>c. c \<noteq> NL" "sp_rest p"]
  by (auto simp: rest_steps sp_at_end_def less_eq_Suc_le[symmetric] intro: le_less_trans)
    (metis One_nat_def diff_Suc_less le_less_trans length_greater_0_conv diff_le_mono)

text \<open>The lines of a verbatim block up to the line that starts with \<open>%}\<close>, which is read too.\<close>

function verbatim_loop :: "sparser \<Rightarrow> string \<times> sparser" where
  "verbatim_loop p =
     (if sp_at_end p then ([], p)
      else if sp_peek p 0 = CHR ''%'' \<and> sp_peek p 1 = CHR ''}''
      then ([], eat_nl (to_eol (sp_skip (sp_skip p))))
      else let (l, p) = read_line_keep_nl p; (s, p) = verbatim_loop p in (l @ s, p))"
  by pat_completeness auto
termination
  by (relation "measure left_to_read") (simp_all, metis read_line_keep_nl_shrinks snd_conv)

declare verbatim_loop.simps [simp del]

text \<open>The block from its opening \<open>%{\<close> on.\<close>

definition verbatim_block :: "sparser \<Rightarrow> string \<times> sparser" where
  "verbatim_block p = verbatim_loop (eat_nl (to_eol (sp_skip (sp_skip p))))"

text \<open>The code of \<open>%top{ ... }\<close> after its brace; braces inside are counted.\<close>

function top_loop :: "nat \<Rightarrow> sparser \<Rightarrow> string \<times> sparser" where
  "top_loop depth p =
     (if sp_at_end p \<or> depth = 0 then ([], p)
      else if sp_peek p 0 = CHR ''}'' \<and> depth = 1 then ([], sp_skip p)
      else let d = (if sp_peek p 0 = CHR ''{'' then depth + 1
                    else if sp_peek p 0 = CHR ''}'' then depth - 1 else depth);
               (c, p) = sp_get p; (s, p) = top_loop d p
           in (c # s, p))"
  by pat_completeness auto
termination
  by (relation "measure (\<lambda>(d, p). left_to_read p)") (simp_all, metis get_shrinks snd_conv)

declare top_loop.simps [simp del]

section \<open>Start conditions\<close>

text \<open>The names of a list, with spaces dropped; empty names are not kept.\<close>

fun sc_loop :: "string \<Rightarrow> string \<Rightarrow> string list \<Rightarrow> string list" where
  "sc_loop [] cur conds = (if cur \<noteq> [] then conds @ [cur] else conds)"
| "sc_loop (ch # t) cur conds =
     (if ch = CHR '','' then sc_loop t [] (if cur \<noteq> [] then conds @ [cur] else conds)
      else if \<not> isspace ch then sc_loop t (cur @ [ch]) conds
      else sc_loop t cur conds)"

text \<open>The prefix of a rule or block, from its \<open><\<close> on: the names, and whether it is \<open><*>\<close>.\<close>

definition read_sc_prefix :: "sparser \<Rightarrow> (string list \<times> bool) \<times> sparser" where
  "read_sc_prefix p =
     (let p = sp_skip p
      in if sp_peek p 0 = CHR ''*'' \<and> sp_peek p 1 = CHR ''>'' then (([], True), sp_skip (sp_skip p))
         else let (t, p) = read_while (\<lambda>c. c \<noteq> CHR ''>'' \<and> c \<noteq> NL) p;
                  p = (if sp_peek p 0 = CHR ''>'' then sp_skip p else p)
              in ((sc_loop t [] [], False), p))"

section \<open>Patterns\<close>

text \<open>
  One turn of the loop of \<open>read_pattern\<close> on the next character: \<open>None\<close> ends the pattern,
  otherwise the number of characters to take and the new values of \<open>paren\<close>, \<open>in_class\<close> and
  \<open>in_quoted\<close>. \<open>two\<close> says that a second character follows.
\<close>

definition pattern_step :: "char \<Rightarrow> bool \<Rightarrow> nat \<times> bool \<times> bool \<Rightarrow> (nat \<times> nat \<times> bool \<times> bool) option" where
  "pattern_step c two st =
     (case st of (paren, in_class, in_quoted) \<Rightarrow>
        if \<not> in_class \<and> \<not> in_quoted \<and> paren = 0 \<and> (c = CHR '' '' \<or> c = TAB \<or> c = NL) then None
        else if c = CHR 0x5C \<and> two then Some (2, st)
        else if in_quoted then Some (1, paren, in_class, c \<noteq> CHR 0x22)
        else if in_class then Some (1, paren, c \<noteq> CHR '']'', in_quoted)
        else if c = CHR 0x22 then Some (1, paren, in_class, True)
        else if c = CHR ''['' then Some (1, paren, True, in_quoted)
        else if c = CHR ''('' then Some (1, paren + 1, in_class, in_quoted)
        else if c = CHR '')'' then Some (1, paren - 1, in_class, in_quoted)
        else Some (1, st))"

lemma pattern_step_takes: "pattern_step c two st = Some (n, st') \<Longrightarrow> 0 < n"
  by (auto simp: pattern_step_def split: prod.splits if_splits)

function pattern_loop :: "nat \<times> bool \<times> bool \<Rightarrow> sparser \<Rightarrow> string \<times> sparser" where
  "pattern_loop st p =
     (if sp_at_end p then ([], p)
      else case pattern_step (sp_peek p 0) (1 < left_to_read p) st of
        None \<Rightarrow> ([], p)
      | Some (n, st) \<Rightarrow>
          let (s, p) = sp_get_n n p; (t, p) = pattern_loop st p in (s @ t, p))"
  by pat_completeness auto
termination
proof (relation "measure (\<lambda>(st, p). left_to_read p)")
  fix st p x n st' s t q
  assume "\<not> sp_at_end p" "pattern_step (sp_peek p 0) (1 < left_to_read p) st = Some x" "(n, st') = x"
    and r: "t = sp_get_n n p" "(s, q) = t"
  then have "0 < n" "0 < left_to_read p"
    using pattern_step_takes[of "sp_peek p 0" "1 < left_to_read p" st n st'] by (simp_all add: sp_at_end_def)
  moreover have "sp_rest q = drop n (sp_rest p)" using rest_steps(8)[of n p] r by (metis snd_conv)
  ultimately show "((st', q), st, p) \<in> measure (\<lambda>(st, p). left_to_read p)" by simp
qed simp

declare pattern_loop.simps [simp del]

definition read_pattern :: "sparser \<Rightarrow> string \<times> sparser" where
  "read_pattern p = pattern_loop (0, False, False) p"

section \<open>Actions\<close>

text \<open>
  Where the loop of \<open>read_brace_block\<close> is: at most one of its flags \<open>in_str\<close>, \<open>in_chr\<close>,
  \<open>in_line_cmt\<close> and \<open>in_block_cmt\<close> is set, or none in \<open>Code\<close>.
\<close>

datatype c_mode = Code | Str | Chr | LineComment | BlockComment

text \<open>One turn on the next two characters: how many to take, the new depth and mode.\<close>

definition brace_step :: "char \<Rightarrow> char \<Rightarrow> bool \<Rightarrow> nat \<times> c_mode \<Rightarrow> nat \<times> nat \<times> c_mode" where
  "brace_step c c1 two st =
     (case st of (depth, mode) \<Rightarrow>
        case mode of
          LineComment \<Rightarrow> (1, depth, if c = NL then Code else LineComment)
        | BlockComment \<Rightarrow> if c = CHR ''*'' \<and> c1 = CHR ''/'' then (2, depth, Code) else (1, depth, BlockComment)
        | Str \<Rightarrow> if c = CHR 0x5C \<and> two then (2, depth, Str) else (1, depth, if c = CHR 0x22 then Code else Str)
        | Chr \<Rightarrow> if c = CHR 0x5C \<and> two then (2, depth, Chr) else (1, depth, if c = CHR 0x27 then Code else Chr)
        | Code \<Rightarrow>
            if c = CHR ''/'' \<and> c1 = CHR ''/'' then (2, depth, LineComment)
            else if c = CHR ''/'' \<and> c1 = CHR ''*'' then (2, depth, BlockComment)
            else if c = CHR 0x22 then (1, depth, Str)
            else if c = CHR 0x27 then (1, depth, Chr)
            else if c = CHR ''{'' then (1, depth + 1, Code)
            else if c = CHR ''}'' then (1, depth - 1, Code)
            else (1, depth, Code))"

lemma brace_step_takes: "brace_step c c1 two st = (n, st') \<Longrightarrow> 0 < n"
  by (auto simp: brace_step_def split: prod.splits if_splits c_mode.splits)

function brace_loop :: "nat \<times> c_mode \<Rightarrow> sparser \<Rightarrow> string \<times> sparser" where
  "brace_loop st p =
     (if sp_at_end p \<or> fst st = 0 then ([], p)
      else let (n, st) = brace_step (sp_peek p 0) (sp_peek p 1) (1 < left_to_read p) st;
               (s, p) = sp_get_n n p; (t, p) = brace_loop st p
           in (s @ t, p))"
  by pat_completeness auto
termination
proof (relation "measure (\<lambda>(st, p). left_to_read p)")
  fix st p x n st' s t q
  assume "\<not> (sp_at_end p \<or> fst st = 0)"
    "x = brace_step (sp_peek p 0) (sp_peek p 1) (1 < left_to_read p) st" "(n, st') = x"
    and r: "t = sp_get_n n p" "(s, q) = t"
  then have "0 < n" "0 < left_to_read p"
    using brace_step_takes[of "sp_peek p 0" "sp_peek p 1" "1 < left_to_read p" st n st'] by (simp_all add: sp_at_end_def)
  moreover have "sp_rest q = drop n (sp_rest p)" using rest_steps(8)[of n p] r by (metis snd_conv)
  ultimately show "((st', q), st, p) \<in> measure (\<lambda>(st, p). left_to_read p)" by simp
qed simp

declare brace_loop.simps [simp del]

definition read_brace_block :: "sparser \<Rightarrow> string \<times> sparser" where
  "read_brace_block p =
     (let (c, p) = sp_get p; (s, p) = brace_loop (1, Code) p in (c # s, eat_nl p))"

text \<open>
  \<open>read_action\<close>. When a bar is not alone on its line only \<open>pos\<close> goes back, so the column
  stays where the look-ahead left it.
\<close>

definition read_action :: "sparser \<Rightarrow> string \<times> sparser" where
  "read_action p =
     (if sp_peek p 0 = NL then ([], sp_skip p)
      else let ahead = skip_blanks (sp_skip p)
           in if sp_peek p 0 = CHR ''|'' \<and> (sp_peek ahead 0 = NL \<or> sp_at_end ahead)
              then (''|'', eat_nl ahead)
              else let p = (if sp_peek p 0 = CHR ''|'' then ahead\<lparr>sp_rest := sp_rest p\<rparr> else p)
                   in if sp_peek p 0 = CHR ''{'' then read_brace_block p else read_line p)"

end
