(* ===== verification/Source_Parse.thy ===== *)
theory Source_Parse
  imports Source_Blocks
begin

text \<open>
  The specification parser of \<open>src/src/source.cpp\<close>: options, start conditions, and the
  three sections. The body of each \<open>while\<close> loop over lines is a step function, which says
  with its first component whether the section has ended (\<open>return\<close>).
\<close>

section \<open>Options\<close>

definition set_option :: "string \<Rightarrow> string \<Rightarrow> options \<Rightarrow> options option" where
  "set_option key val opt =
     (if key = ''noyywrap'' then Some (opt\<lparr>o_noyywrap := True\<rparr>)
      else if key = ''yywrap'' then Some (opt\<lparr>o_noyywrap := False\<rparr>)
      else if key = ''yylineno'' then Some (opt\<lparr>o_yylineno := True\<rparr>)
      else if key = ''noyylineno'' then Some (opt\<lparr>o_yylineno := False\<rparr>)
      else if key \<in> {''case-insensitive'', ''caseless'', ''i''} then Some (opt\<lparr>o_case_insensitive := True\<rparr>)
      else if key \<in> {''case-sensitive'', ''nocaseless''} then Some (opt\<lparr>o_case_insensitive := False\<rparr>)
      else if key \<in> {''nodefault'', ''s''} then Some (opt\<lparr>o_nodefault := True\<rparr>)
      else if key = ''default'' then Some (opt\<lparr>o_nodefault := False\<rparr>)
      else if key \<in> {''debug'', ''d''} then Some (opt\<lparr>o_debug := True\<rparr>)
      else if key = ''nodebug'' then Some (opt\<lparr>o_debug := False\<rparr>)
      else if key = ''prefix'' then Some (opt\<lparr>o_prefix := val\<rparr>)
      else if key = ''reentrant'' then Some (opt\<lparr>o_reentrant := True\<rparr>)
      else if key = ''noreentrant'' then Some (opt\<lparr>o_reentrant := False\<rparr>)
      else if key = ''bison-bridge'' then Some (opt\<lparr>o_bison_bridge := True\<rparr>)
      else if key = ''bison-locations'' then Some (opt\<lparr>o_bison_locations := True\<rparr>)
      else if key = ''extra-type'' then Some (opt\<lparr>o_extra_type := val\<rparr>)
      else if key = ''array'' then Some (opt\<lparr>o_array := True\<rparr>)
      else if key = ''pointer'' then Some (opt\<lparr>o_array := False\<rparr>)
      else if key = ''noyyalloc'' then Some (opt\<lparr>o_noyyalloc := True\<rparr>)
      else if key = ''noyyrealloc'' then Some (opt\<lparr>o_noyyrealloc := True\<rparr>)
      else if key = ''noyyfree'' then Some (opt\<lparr>o_noyyfree := True\<rparr>)
      else None)"

definition unsupported_options :: "string list" where
  "unsupported_options = [''c++'', ''lex-compat'', ''posix-compat'', ''header'']"

definition ignored_options :: "string list" where
  "ignored_options =
     [''8bit'', ''no8bit'', ''interactive'', ''nointeractive'', ''batch'', ''nobatch'', ''warn'', ''nowarn'',
      ''ecs'', ''noecs'', ''meta-ecs'', ''nometa-ecs'', ''stack'', ''nostack'',
      ''always-interactive'', ''never-interactive'', ''fast'', ''full'', ''main'', ''nomain'',
      ''yymore'', ''noyymore'', ''input'', ''noinput'', ''unput'', ''nounput'',
      ''yyalloc'', ''yyfree'', ''yyrealloc'', ''yy_scan_buffer'', ''yy_scan_bytes'',
      ''yy_scan_string'', ''outfile'', ''header-file'', ''yyclass'', ''tables-file'', ''tables-verify'',
      ''verbose'', ''noverbose'', ''perf-report'', ''noperf-report'', ''backup'', ''nobackup'',
      ''align'', ''noalign'', ''read'', ''noread'', ''reject'', ''noreject'', ''yy_top_state'', ''noyy_top_state'',
      ''stdinit'', ''nostdinit'', ''yymore_used'', ''noyymore_used'', ''yywrap_used'', ''noyywrap_used'']"

definition strip_quotes :: "string \<Rightarrow> string" where
  "strip_quotes v =
     (if length v \<ge> 2 \<and> hd v = CHR 0x22 \<and> last v = CHR 0x22 then butlast (tl v) else v)"

definition apply_option :: "string \<Rightarrow> sparser \<Rightarrow> sparser" where
  "apply_option tok p =
     (let key = takeWhile (\<lambda>c. c \<noteq> CHR ''='') tok;
          val = strip_quotes (drop 1 (dropWhile (\<lambda>c. c \<noteq> CHR ''='') tok))
      in case set_option key val (lf_options (sp_out p)) of
           Some opt \<Rightarrow> p\<lparr>sp_out := (sp_out p)\<lparr>lf_options := opt\<rparr>\<rparr>
         | None \<Rightarrow>
             if key \<in> set unsupported_options
             then p\<lparr>sp_diag := diag_error (sp_loc p) (''unsupported %option: '' @ key) (sp_diag p)\<rparr>
             else if key \<in> set ignored_options then p
             else p\<lparr>sp_diag := diag_warn (sp_loc p) (''ignoring unknown %option: '' @ key) (sp_diag p)\<rparr>)"

text \<open>A quoted value after its opening quote, the closing one included.\<close>

fun quoted_value :: "string \<Rightarrow> string \<times> string" where
  "quoted_value [] = ([], [])"
| "quoted_value (c # t) =
     (if c = CHR 0x22 then ([c], t)
      else case t of
        d # u \<Rightarrow>
          if c = CHR 0x5C then (let (q, r) = quoted_value u in (c # d # q, r))
          else (let (q, r) = quoted_value t in (c # q, r))
      | [] \<Rightarrow> ([c], []))"

lemma quoted_value_le: "length (snd (quoted_value t)) \<le> length t"
proof (induction t rule: quoted_value.induct)
  case (2 c t)
  show ?case
  proof (cases t)
    case (Cons d u)
    with 2 show ?thesis by (cases "quoted_value u"; cases "quoted_value t") auto
  qed simp
qed simp

function option_token :: "string \<Rightarrow> string \<times> string" where
  "option_token [] = ([], [])"
| "option_token (c # t) =
     (if is_blank c then ([], c # t)
      else if c = CHR 0x22
      then let (q, t) = quoted_value t; (s, t) = option_token t in (c # q @ s, t)
      else let (s, t) = option_token t in (c # s, t))"
  by pat_completeness auto
termination
  by (relation "measure length") (simp_all, metis le_imp_less_Suc quoted_value_le snd_conv)

declare option_token.simps(2) [simp del]

lemma option_token_le: "length (snd (option_token t)) \<le> length t"
proof (induction t rule: option_token.induct)
  case (2 c t)
  obtain q r where q: "quoted_value t = (q, r)" by fastforce
  have "length r \<le> length t" using quoted_value_le[of t] by (simp add: q)
  moreover have "c = CHR 0x22 \<Longrightarrow> \<not> is_blank c \<Longrightarrow> length (snd (option_token r)) \<le> length r"
    using 2(1)[OF _ _ q[symmetric] refl] by simp
  ultimately show ?case
    using 2(2) by (subst option_token.simps) (auto simp: q split_def Let_def)
qed simp

lemma option_token_shrinks: "\<not> is_blank c \<Longrightarrow> length (snd (option_token (c # t))) < length (c # t)"
  using option_token_le[of t] option_token_le[of "snd (quoted_value t)"] quoted_value_le[of t]
  by (subst option_token.simps) (auto simp: split_def Let_def)

function parse_options :: "string \<Rightarrow> sparser \<Rightarrow> sparser" where
  "parse_options text p =
     (let t = dropWhile is_blank text
      in if t = [] then p else let (tok, u) = option_token t in parse_options u (apply_option tok p))"
  by pat_completeness auto
termination
proof (relation "measure (\<lambda>(text, p). length text)")
  fix s0 p t r tok u
  assume t: "t = dropWhile is_blank s0" "t \<noteq> []" and r: "r = option_token t" "(tok, u) = r"
  then obtain c cs where "t = c # cs" "\<not> is_blank c" by (metis hd_dropWhile list.exhaust_sel)
  with option_token_shrinks[of c cs] r have "length u < length t" by (metis snd_conv)
  with t(1) length_dropWhile_le[of is_blank s0] show "((u, apply_option tok p), s0, p) \<in> measure (\<lambda>(text, p). length text)"
    by simp
qed simp

declare parse_options.simps [simp del]

section \<open>Start conditions\<close>

definition is_name_char :: "char \<Rightarrow> bool" where
  "is_name_char c \<longleftrightarrow> isalnum c \<or> c = CHR ''_''"

function add_start_conds :: "string \<Rightarrow> bool \<Rightarrow> sparser \<Rightarrow> sparser" where
  "add_start_conds text excl p =
     (let t = dropWhile isspace text; name = takeWhile is_name_char t
      in if name = [] then p
         else add_start_conds (dropWhile is_name_char t) excl
           (p\<lparr>sp_out := (sp_out p)\<lparr>lf_conds := lf_conds (sp_out p) @ [\<lparr>sc_name = name, sc_exclusive = excl\<rparr>]\<rparr>\<rparr>))"
  by pat_completeness auto
termination
proof (relation "measure (\<lambda>(text, excl, p). length text)")
  fix s0 t name :: string and excl p
  assume t: "t = dropWhile isspace s0" and n: "name = takeWhile is_name_char t" "name \<noteq> []"
  have "length t = length name + length (dropWhile is_name_char t)"
    by (metis n(1) length_append takeWhile_dropWhile_id)
  with n(2) t length_dropWhile_le[of isspace s0]
  show "((dropWhile is_name_char t, excl, p\<lparr>sp_out := (sp_out p)\<lparr>lf_conds := lf_conds (sp_out p) @
      [\<lparr>sc_name = name, sc_exclusive = excl\<rparr>]\<rparr>\<rparr>), s0, excl, p) \<in> measure (\<lambda>(text, excl, p). length text)"
    by (cases name) auto
qed simp

declare add_start_conds.simps [simp del]


section \<open>The first section\<close>

definition is_ident_start :: "char \<Rightarrow> bool" where
  "is_ident_start c \<longleftrightarrow> isalpha c \<or> c = CHR ''_''"

definition is_ident_cont :: "char \<Rightarrow> bool" where
  "is_ident_cont c \<longleftrightarrow> isalnum c \<or> c = CHR ''_'' \<or> c = CHR ''-''"

definition add_verbatim1 :: "string \<Rightarrow> sparser \<Rightarrow> sparser" where
  "add_verbatim1 s p = p\<lparr>sp_out := (sp_out p)\<lparr>lf_section1 := lf_section1 (sp_out p) @ s\<rparr>\<rparr>"

text \<open>
  A line that starts with \<open>%%\<close>. When more text follows on it, the line is read again as
  verbatim code, with the line counter set to 1.
\<close>

definition section1_divider :: "sparser \<Rightarrow> bool \<times> sparser" where
  "section1_divider p =
     (let q = skip_blanks (sp_skip (sp_skip p))
      in if sp_peek q 0 = NL then (True, sp_skip q)
         else if sp_at_end q then (True, q)
         else let (l, p) = read_line_keep_nl (q\<lparr>sp_rest := sp_rest p, sp_line := 1\<rparr>) in (False, add_verbatim1 l p))"

definition section1_top :: "sparser \<Rightarrow> sparser" where
  "section1_top p =
     (let p = (if lf_section_top (sp_out p) = [] then p\<lparr>sp_out := (sp_out p)\<lparr>lf_section_top_loc := sp_loc p\<rparr>\<rparr> else p);
          (s, p) = top_loop 1 (sp_skip p);
          p = p\<lparr>sp_out := (sp_out p)\<lparr>lf_section_top := lf_section_top (sp_out p) @ s\<rparr>\<rparr>
      in eat_nl (to_eol p))"

definition section1_verbatim :: "sparser \<Rightarrow> sparser" where
  "section1_verbatim p =
     (let p = (if lf_section1 (sp_out p) = [] then p\<lparr>sp_out := (sp_out p)\<lparr>lf_section1_loc := sp_loc p\<rparr>\<rparr> else p);
          (s, p) = verbatim_block p
      in add_verbatim1 s p)"

definition section1_options :: "sparser \<Rightarrow> sparser" where
  "section1_options p =
     (let (rest, p) = read_line (skip_while (\<lambda>c. c \<noteq> CHR '' '' \<and> c \<noteq> TAB \<and> c \<noteq> NL) p)
      in parse_options rest p)"

definition section1_conds :: "sparser \<Rightarrow> sparser" where
  "section1_conds p =
     (let excl = (sp_peek p 1 = CHR ''x''); (rest, p) = read_line (sp_skip (sp_skip p))
      in add_start_conds rest excl p)"

definition section1_definition :: "sparser \<Rightarrow> sparser" where
  "section1_definition p =
     (let (name, p) = read_while is_ident_cont p;
          (pat, p) = read_line (skip_blanks p);
          pat = rstrip pat
      in if pat \<noteq> [] then p\<lparr>sp_out := (sp_out p)\<lparr>lf_defs := lf_defs (sp_out p) @ [(name, pat)]\<rparr>\<rparr> else p)"

definition section1_step :: "sparser \<Rightarrow> bool \<times> sparser" where
  "section1_step p =
     (let c0 = sp_peek p 0; top = skip_blanks (snd (sp_get_n 4 p))
      in if c0 = NL then (False, sp_skip p)
         else if c0 = CHR ''%'' \<and> sp_peek p 1 = CHR ''%'' then section1_divider p
         else if c0 = CHR ''%'' \<and> sp_looking_at p ''%top'' \<and> sp_peek top 0 = CHR ''{'' then (False, section1_top top)
         else if c0 = CHR ''%'' \<and> sp_peek p 1 = CHR ''{'' then (False, section1_verbatim p)
         else if c0 = CHR ''%'' \<and> (sp_looking_at p ''%option'' \<or> sp_looking_at p ''%options'')
         then (False, section1_options p)
         else if c0 = CHR ''%'' \<and> (sp_peek p 1 = CHR ''s'' \<or> sp_peek p 1 = CHR ''x'')
                 \<and> (sp_peek p 2 = CHR '' '' \<or> sp_peek p 2 = TAB)
         then (False, section1_conds p)
         else if c0 = CHR ''/'' \<and> sp_peek p 1 = CHR ''*'' then (False, skip_comment (sp_skip (sp_skip p)))
         else if c0 = CHR '' '' \<or> c0 = TAB
         then (let (l, p) = read_line_keep_nl p in (False, add_verbatim1 l p))
         else if is_ident_start c0 then (False, section1_definition p)
         else (False, skip_blank_line
           (p\<lparr>sp_diag := diag_warn (sp_loc p) ''ignoring unrecognised section-1 line'' (sp_diag p)\<rparr>)))"

section \<open>The second section\<close>

text \<open>One rule. A rule without a prefix takes the conditions of the innermost open block.\<close>

definition inherited_conds :: "sparser \<Rightarrow> string list \<times> bool" where
  "inherited_conds p =
     (if sp_blocks p = [] then ([], False)
      else if sb_any_state (last (sp_blocks p)) then ([], True)
      else (sb_conds (last (sp_blocks p)), False))"

definition add_rule :: "source_loc \<Rightarrow> string list \<times> bool \<Rightarrow> string \<Rightarrow> bool \<Rightarrow> sparser \<Rightarrow> sparser" where
  "add_rule loc sites pat eof p =
     (let (action, p) = read_action (skip_blanks p);
          r = \<lparr>r_loc = loc, r_conds = fst sites, r_any_state = snd sites, r_pattern = pat, r_action = action,
               r_eof = eof\<rparr>
      in p\<lparr>sp_out := (sp_out p)\<lparr>lf_rules := lf_rules (sp_out p) @ [r]\<rparr>\<rparr>)"

definition has_prefix :: "sparser \<Rightarrow> bool" where
  "has_prefix p \<longleftrightarrow> sp_peek p 0 = CHR ''<'' \<and> sp_peek p 1 \<noteq> CHR ''<''"

definition parse_rule :: "sparser \<Rightarrow> sparser" where
  "parse_rule p =
     (let loc = sp_loc p;
          (sites, p) = (if has_prefix p then read_sc_prefix p else (inherited_conds p, p))
      in if sp_looking_at p ''<<EOF>>'' then add_rule loc sites [] True (snd (sp_get_n 7 p))
         else let (pat, p) = read_pattern p
              in if pat = []
                 then eat_nl (to_eol (p\<lparr>sp_diag := diag_error loc ''empty pattern'' (sp_diag p)\<rparr>))
                 else add_rule loc sites pat False p)"

text \<open>
  The end of the line that may open a block, after its brace: spaces and at most one comment.
\<close>

definition block_line_end :: "sparser \<Rightarrow> sparser" where
  "block_line_end p =
     (let p = skip_blanks p
      in if sp_peek p 0 = CHR ''/'' \<and> sp_peek p 1 = CHR ''*''
         then skip_blanks (skip_comment_in_line (sp_skip (sp_skip p))) else p)"

text \<open>A line that starts with a prefix: it opens a block, or is a rule.\<close>

definition section2_prefixed :: "sparser \<Rightarrow> sparser" where
  "section2_prefixed p =
     (let (sites, q) = read_sc_prefix p;
          q = skip_while (\<lambda>c. c = CHR '' '' \<or> c = TAB \<or> c = NL) q;
          r = block_line_end (sp_skip q)
      in if sp_peek q 0 = CHR ''{'' \<and> (sp_at_end r \<or> sp_peek r 0 = NL)
         then eat_nl (r\<lparr>sp_blocks := sp_blocks r @ [\<lparr>sb_conds = fst sites, sb_any_state = snd sites\<rparr>]\<rparr>)
         else parse_rule p)"

text \<open>
  A line after its leading spaces: the end of a block, an opener or a rule. When a brace
  does not end its line only \<open>pos\<close> goes back.
\<close>

definition section2_line :: "sparser \<Rightarrow> sparser" where
  "section2_line p =
     (let q = skip_blanks (sp_skip p)
      in if sp_peek p 0 = CHR ''}'' \<and> sp_blocks p \<noteq> []
         then if sp_at_end q \<or> sp_peek q 0 = NL
              then eat_nl q\<lparr>sp_blocks := butlast (sp_blocks q)\<rparr>
              else parse_rule (q\<lparr>sp_rest := sp_rest p\<rparr>)
         else if has_prefix p then section2_prefixed p
         else parse_rule p)"

definition section2_verbatim :: "sparser \<Rightarrow> sparser" where
  "section2_verbatim p =
     (let p = (if lf_section2 (sp_out p) = [] then p\<lparr>sp_out := (sp_out p)\<lparr>lf_section2_loc := sp_loc p\<rparr>\<rparr> else p);
          (s, p) = verbatim_block p
      in p\<lparr>sp_out := (sp_out p)\<lparr>lf_section2 := lf_section2 (sp_out p) @ s\<rparr>\<rparr>)"

text \<open>
  Indented code at the top level: before the first rule it joins the prologue, whose location
  is then the one after the line; later it is dropped.
\<close>

definition section2_code :: "sparser \<Rightarrow> sparser" where
  "section2_code p =
     (let (l, p) = read_line_keep_nl p
      in if lf_rules (sp_out p) \<noteq> [] then p
         else let p = (if lf_section2 (sp_out p) = [] then p\<lparr>sp_out := (sp_out p)\<lparr>lf_section2_loc := sp_loc p\<rparr>\<rparr> else p)
              in p\<lparr>sp_out := (sp_out p)\<lparr>lf_section2 := lf_section2 (sp_out p) @ l\<rparr>\<rparr>)"

definition section2_indented :: "sparser \<Rightarrow> sparser" where
  "section2_indented p =
     (let q = skip_blanks p
      in if sp_at_end q \<or> sp_peek q 0 = NL then eat_nl q
         else if sp_peek q 0 = CHR ''/'' \<and> sp_peek q 1 = CHR ''*'' then skip_comment (sp_skip (sp_skip q))
         else if sp_peek q 0 = CHR ''<'' \<or> (sp_peek q 0 = CHR ''}'' \<and> sp_blocks q \<noteq> []) then section2_line q
         else if sp_blocks q \<noteq> [] then parse_rule q
         else section2_code p)"

definition section2_step :: "sparser \<Rightarrow> bool \<times> sparser" where
  "section2_step p =
     (let c = sp_peek p 0
      in if c = NL then (False, sp_skip p)
         else if c = CHR ''%'' \<and> sp_peek p 1 = CHR ''%'' then (True, eat_nl (to_eol (sp_skip (sp_skip p))))
         else if c = CHR ''%'' \<and> sp_peek p 1 = CHR ''{'' then (False, section2_verbatim p)
         else if c = CHR ''/'' \<and> sp_peek p 1 = CHR ''*'' then (False, skip_comment (sp_skip (sp_skip p)))
         else if c = CHR '' '' \<or> c = TAB then (False, section2_indented p)
         else (False, section2_line p))"


section \<open>Every step reads on\<close>

lemma left_get [simp]: "sp_rest p \<noteq> [] \<Longrightarrow> left_to_read (sp_skip p) < left_to_read p"
  by simp

lemma left_le:
  "left_to_read (skip_while P p) \<le> left_to_read p" "left_to_read (skip_blanks p) \<le> left_to_read p"
  "left_to_read (to_eol p) \<le> left_to_read p" "left_to_read (eat_nl p) \<le> left_to_read p"
  "left_to_read (snd (read_line p)) \<le> left_to_read p"
  "left_to_read (snd (read_line_keep_nl p)) \<le> left_to_read p"
  "left_to_read (skip_blank_line p) \<le> left_to_read p" "left_to_read (snd (sp_get_n n p)) \<le> left_to_read p"
proof -
  have dw: "length (dropWhile P t) \<le> length t" "length (dropWhile P t) - Suc 0 \<le> length t" for P and t :: string
    using length_dropWhile_le[of P t] by simp_all
  show "left_to_read (skip_while P p) \<le> left_to_read p" by (rule read_while_le)
  show "left_to_read (skip_blanks p) \<le> left_to_read p"
    "left_to_read (to_eol p) \<le> left_to_read p" "left_to_read (eat_nl p) \<le> left_to_read p"
    "left_to_read (snd (read_line p)) \<le> left_to_read p"
    "left_to_read (snd (read_line_keep_nl p)) \<le> left_to_read p"
    "left_to_read (skip_blank_line p) \<le> left_to_read p" "left_to_read (snd (sp_get_n n p)) \<le> left_to_read p"
    by (simp_all add: rest_steps dw)
qed

lemma skip_comment_le: "left_to_read (skip_comment p) \<le> left_to_read p"
proof (induction p rule: skip_comment.induct)
  case (1 p)
  then show ?case by (subst skip_comment.simps) (auto intro: le_trans)
qed

lemma skip_comment_in_line_le: "left_to_read (skip_comment_in_line p) \<le> left_to_read p"
proof (induction p rule: skip_comment_in_line.induct)
  case (1 p)
  then show ?case by (subst skip_comment_in_line.simps) (auto intro: le_trans)
qed

lemma verbatim_loop_le: "left_to_read (snd (verbatim_loop p)) \<le> left_to_read p"
proof (induction p rule: verbatim_loop.induct)
  case (1 p)
  obtain l q where q: "read_line_keep_nl p = (l, q)" by fastforce
  have "left_to_read q \<le> left_to_read p" using left_le(6)[of p] by (simp add: q)
  moreover have "left_to_read (eat_nl (to_eol (sp_skip (sp_skip p)))) \<le> left_to_read p"
    using left_le(4)[of "to_eol (sp_skip (sp_skip p))"] left_le(3)[of "sp_skip (sp_skip p)"] by simp
  ultimately show ?case
    using 1[OF _ _ q[symmetric] refl] by (subst verbatim_loop.simps) (auto simp: q split_def Let_def)
qed

lemma top_loop_le: "left_to_read (snd (top_loop d p)) \<le> left_to_read p"
proof (induction d p rule: top_loop.induct)
  case (1 d p)
  obtain c q where q: "sp_get p = (c, q)" by fastforce
  have "left_to_read q \<le> left_to_read p" using get_le[of p] by (simp add: q)
  then show ?case
    using 1[OF _ _ refl q[symmetric] refl] get_le[of p]
    by (subst top_loop.simps) (auto simp: q split_def Let_def)
qed

lemma pattern_loop_le: "left_to_read (snd (pattern_loop st p)) \<le> left_to_read p"
proof (induction st p rule: pattern_loop.induct)
  case (1 st p)
  show ?case
  proof (cases "sp_at_end p")
    case False
    show ?thesis
    proof (cases "pattern_step (sp_peek p 0) (1 < left_to_read p) st")
      case (Some x)
      obtain n st' where x: "x = (n, st')" by (metis surj_pair)
      obtain s q where q: "sp_get_n n p = (s, q)" by fastforce
      have "left_to_read q \<le> left_to_read p" using left_le(8)[of n p] by (simp add: q)
      with 1[OF False Some x[symmetric] refl q[symmetric]] Some False show ?thesis
        by (subst pattern_loop.simps) (auto simp: q x split_def Let_def)
    qed (subst pattern_loop.simps, simp)
  qed (subst pattern_loop.simps, simp)
qed

lemma brace_loop_le: "left_to_read (snd (brace_loop st p)) \<le> left_to_read p"
proof (induction st p rule: brace_loop.induct)
  case (1 st p)
  show ?case
  proof (cases "sp_at_end p \<or> fst st = 0")
    case False
    obtain n st' where x: "brace_step (sp_peek p 0) (sp_peek p 1) (1 < left_to_read p) st = (n, st')" by (metis surj_pair)
    obtain s q where q: "sp_get_n n p = (s, q)" by fastforce
    have "left_to_read q \<le> left_to_read p" using left_le(8)[of n p] by (simp add: q)
    with 1[OF False refl x[symmetric] refl q[symmetric]] False x show ?thesis
      by (subst brace_loop.simps) (auto simp: q split_def Let_def)
  qed (subst brace_loop.simps, simp)
qed


lemma read_sc_prefix_le: "left_to_read (snd (read_sc_prefix p)) \<le> left_to_read (sp_skip p)"
proof -
  obtain t q where q: "read_while (\<lambda>c. c \<noteq> CHR ''>'' \<and> c \<noteq> NL) (sp_skip p) = (t, q)" by fastforce
  have "left_to_read q \<le> left_to_read (sp_skip p)"
    using read_while_le[of "\<lambda>c. c \<noteq> CHR ''>'' \<and> c \<noteq> NL" "sp_skip p"] by (simp only: q snd_conv)
  then show ?thesis by (auto simp: read_sc_prefix_def q Let_def)
qed

lemma read_brace_block_le: "left_to_read (snd (read_brace_block p)) \<le> left_to_read p"
proof -
  have "left_to_read (eat_nl (snd (brace_loop (1, Code) (sp_skip p)))) \<le> left_to_read p"
    using left_le(4)[of "snd (brace_loop (1, Code) (sp_skip p))"] brace_loop_le[of "(1, Code)" "sp_skip p"] by simp
  then show ?thesis by (simp add: read_brace_block_def split_def Let_def)
qed

lemma read_action_le: "left_to_read (snd (read_action p)) \<le> left_to_read p"
proof -
  let ?a = "skip_blanks (sp_skip p)" and ?p = "skip_blanks (sp_skip p)\<lparr>sp_rest := sp_rest p\<rparr>"
  have "left_to_read (eat_nl ?a) \<le> left_to_read p"
    using left_le(4)[of ?a] left_le(2)[of "sp_skip p"] by simp
  moreover have "left_to_read (snd (read_brace_block ?p)) \<le> left_to_read p" "left_to_read (snd (read_line ?p)) \<le> left_to_read p"
    using read_brace_block_le[of ?p] left_le(5)[of ?p] by simp_all
  ultimately show ?thesis
    using read_brace_block_le[of p] left_le(5)[of p] by (auto simp: read_action_def Let_def)
qed

lemma add_rule_le: "left_to_read (add_rule loc sites pat eof p) \<le> left_to_read p"
  using read_action_le[of "skip_blanks p"] left_le(2)[of p] by (simp add: add_rule_def split_def Let_def)

lemma pattern_empty:
  assumes "read_pattern p = ([], q)" "\<not> sp_at_end p"
  shows "q = p \<and> (hd (sp_rest p) = CHR '' '' \<or> hd (sp_rest p) = TAB \<or> hd (sp_rest p) = NL)"
proof -
  obtain c cs where p: "sp_rest p = c # cs" using assms(2) by (auto simp: sp_at_end_def neq_Nil_conv)
  show ?thesis
  proof (cases "pattern_step c (1 < left_to_read p) (0, False, False)")
    case None
    with assms p show ?thesis
      by (auto simp: read_pattern_def pattern_loop.simps[of _ p] pattern_step_def split: if_splits)
  next
    case (Some x)
    obtain n st' where x: "x = (n, st')" by (metis surj_pair)
    with Some have "0 < n" using pattern_step_takes by blast
    then obtain m where "n = Suc m" by (cases n) auto
    with assms p Some x show ?thesis
      by (simp add: read_pattern_def pattern_loop.simps[of _ p] split_def Let_def)
  qed
qed

lemma pattern_shrinks:
  assumes "read_pattern p = (pat, q)" "pat \<noteq> []"
  shows "left_to_read q < left_to_read p"
proof -
  from assms have "\<not> sp_at_end p"
    by (auto simp: read_pattern_def pattern_loop.simps[of _ p])
  with assms obtain n st' where x: "pattern_step (sp_peek p 0) (1 < left_to_read p) (0, False, False) = Some (n, st')"
    by (auto simp: read_pattern_def pattern_loop.simps[of _ p] split: option.splits)
  obtain s r where r: "sp_get_n n p = (s, r)" by fastforce
  have "left_to_read r < left_to_read p"
    using pattern_step_takes[OF x] rest_steps(8)[of n p] \<open>\<not> sp_at_end p\<close> r by (simp add: sp_at_end_def)
  moreover have "q = snd (pattern_loop st' r)"
    using assms x r \<open>\<not> sp_at_end p\<close> by (simp add: read_pattern_def pattern_loop.simps[of _ p] split_def Let_def)
  ultimately show ?thesis using pattern_loop_le[of st' r] by simp
qed

lemma parse_rule_shrinks:
  assumes "\<not> sp_at_end p"
  shows "left_to_read (parse_rule p) < left_to_read p"
proof -
  obtain c cs where c: "sp_rest p = c # cs" using assms by (auto simp: sp_at_end_def neq_Nil_conv)
  obtain sites q where q: "(if has_prefix p then read_sc_prefix p else (inherited_conds p, p)) = (sites, q)"
    by fastforce
  have le: "left_to_read q \<le> left_to_read p" and less: "has_prefix p \<Longrightarrow> left_to_read q < left_to_read p"
    and same: "\<not> has_prefix p \<Longrightarrow> q = p"
    using q read_sc_prefix_le[of p] c by (auto split: if_splits)
  show ?thesis
  proof (cases "sp_looking_at q ''<<EOF>>''")
    case True
    then have "left_to_read (snd (sp_get_n 7 q)) < left_to_read q"
      by (cases "sp_rest q") (auto simp: sp_looking_at_def rest_steps)
    then have "left_to_read (add_rule (sp_loc p) sites [] True (snd (sp_get_n 7 q))) < left_to_read p"
      using add_rule_le le by (meson le_less_trans less_le_trans)
    with True q show ?thesis by (simp add: parse_rule_def Let_def)
  next
    case False
    obtain pat r where r: "read_pattern q = (pat, r)" by fastforce
    have rq: "left_to_read r \<le> left_to_read q" using pattern_loop_le[of "(0, False, False)" q] r by (simp add: read_pattern_def)
    let ?e = "r\<lparr>sp_diag := diag_error (sp_loc p) ''empty pattern'' (sp_diag r)\<rparr>"
    have e: "left_to_read (eat_nl (to_eol ?e)) \<le> left_to_read r"
      using left_le(4)[of "to_eol ?e"] left_le(3)[of ?e] by simp
    show ?thesis
    proof (cases "pat = []")
      case True
      have "left_to_read (eat_nl (to_eol ?e)) < left_to_read p"
      proof (cases "has_prefix p")
        case True
        with e rq less show ?thesis by simp
      next
        case False
        with r \<open>pat = []\<close> same assms have "r = p" and hd: "c = CHR '' '' \<or> c = TAB \<or> c = NL"
          using pattern_empty[of p r] c by auto
        from hd have "length (dropWhile (\<lambda>c. c \<noteq> NL) cs) \<le> length cs" by (simp add: length_dropWhile_le)
        with hd \<open>r = p\<close> c show ?thesis
          by (auto simp: rest_steps le_imp_less_Suc intro: order_le_less_trans[OF diff_le_self])
      qed
      with True \<open>\<not> sp_looking_at q ''<<EOF>>''\<close> q r show ?thesis by (simp add: parse_rule_def Let_def)
    next
      case False
      with r have "left_to_read r < left_to_read q" by (rule pattern_shrinks)
      then have "left_to_read (add_rule (sp_loc p) sites pat False r) < left_to_read p"
        using add_rule_le le by (meson le_less_trans less_le_trans)
      with False \<open>\<not> sp_looking_at q ''<<EOF>>''\<close> q r show ?thesis by (simp add: parse_rule_def Let_def)
    qed
  qed
qed

end
