(* ===== verification/Source_File.thy ===== *)
theory Source_File
  imports Source_Parse
begin

text \<open>
  The loops of the two sections that are read line by line, and \<open>parse_lex_file\<close>. Every turn
  of a loop reads at least one character (the lemmas \<open>section1_shrinks\<close> and
  \<open>section2_shrinks\<close>), although several branches go back to an earlier position, so the loops
  end on every text.
\<close>

lemma if_eqE: "(if b then x else y) = z \<Longrightarrow> (b \<Longrightarrow> x = z \<Longrightarrow> R) \<Longrightarrow> (\<not> b \<Longrightarrow> y = z \<Longrightarrow> R) \<Longrightarrow> R"
  by (simp split: if_splits)

lemma parse_options_rest: "sp_rest (parse_options s p) = sp_rest p"
proof (induction s p rule: parse_options.induct)
  case (1 s p)
  let ?t = "dropWhile is_blank s"
  obtain tok u where t: "option_token ?t = (tok, u)" by fastforce
  have "sp_rest (apply_option tok p) = sp_rest p"
    by (simp add: apply_option_def Let_def split: option.split)
  with 1[OF refl _ refl t[symmetric]] show ?case
    by (subst parse_options.simps) (simp add: t)
qed

lemma add_start_conds_rest: "sp_rest (add_start_conds s excl p) = sp_rest p"
proof (induction s excl p rule: add_start_conds.induct)
  case (1 s excl p)
  then show ?case by (subst add_start_conds.simps) (simp add: Let_def)
qed

lemma verbatim_block_shrinks: "sp_rest p \<noteq> [] \<Longrightarrow> left_to_read (snd (verbatim_block p)) < left_to_read p"
  using verbatim_loop_le[of "eat_nl (to_eol (sp_skip (sp_skip p)))"] left_le(4)[of "to_eol (sp_skip (sp_skip p))"]
    left_le(3)[of "sp_skip (sp_skip p)"]
  by (cases "sp_rest p") (simp_all add: verbatim_block_def)

lemma comment_shrinks: "sp_rest p \<noteq> [] \<Longrightarrow> left_to_read (skip_comment (sp_skip (sp_skip p))) < left_to_read p"
  using skip_comment_le[of "sp_skip (sp_skip p)"] by (cases "sp_rest p") simp_all

lemma section1_shrinks:
  assumes "\<not> sp_at_end p" "section1_step p = (False, q)"
  shows "left_to_read q < left_to_read p"
proof -
  obtain c cs where p: "sp_rest p = c # cs" using assms(1) by (auto simp: sp_at_end_def neq_Nil_conv)
  then have ne: "sp_rest p \<noteq> []" by simp
  have keep: "left_to_read (snd (read_line_keep_nl r)) < left_to_read p" if "sp_rest r = sp_rest p" for r
    using that ne read_line_keep_nl_shrinks[of r] by (simp add: sp_at_end_def)
  have divider: "fst (section1_divider p) \<or> left_to_read (snd (section1_divider p)) < left_to_read p"
    using keep[of "skip_blanks (sp_skip (sp_skip p))\<lparr>sp_rest := sp_rest p, sp_line := 1\<rparr>"]
    by (simp add: section1_divider_def Let_def split_def add_verbatim1_def)
  let ?t = "skip_blanks (snd (sp_get_n 4 p))"
  have top: "left_to_read (section1_top ?t) < left_to_read p"
  proof -
    let ?u = "if lf_section_top (sp_out ?t) = [] then ?t\<lparr>sp_out := (sp_out ?t)\<lparr>lf_section_top_loc := sp_loc ?t\<rparr>\<rparr> else ?t"
    let ?v = "snd (top_loop 1 (sp_skip ?u))"
    let ?w = "?v\<lparr>sp_out := (sp_out ?v)\<lparr>lf_section_top := lf_section_top (sp_out ?v) @ fst (top_loop 1 (sp_skip ?u))\<rparr>\<rparr>"
    have "left_to_read (eat_nl (to_eol ?w)) \<le> left_to_read ?v"
      using left_le(4)[of "to_eol ?w"] left_le(3)[of ?w] by simp
    also have "\<dots> \<le> left_to_read (sp_skip ?u)" by (rule top_loop_le)
    also have "\<dots> \<le> left_to_read ?t" by (cases "lf_section_top (sp_out ?t) = []") simp_all
    also have "\<dots> < left_to_read p"
      using left_le(2)[of "snd (sp_get_n 4 p)"] ne by (simp add: rest_steps)
        (metis diff_less length_dropWhile_le length_drop length_greater_0_conv order_le_less_trans zero_less_numeral)
    finally show ?thesis by (simp add: section1_top_def Let_def split_def)
  qed
  have verb: "left_to_read (section1_verbatim p) < left_to_read p"
  proof -
    let ?u = "if lf_section1 (sp_out p) = [] then p\<lparr>sp_out := (sp_out p)\<lparr>lf_section1_loc := sp_loc p\<rparr>\<rparr> else p"
    have "sp_rest ?u = sp_rest p" by simp
    with verbatim_block_shrinks[of ?u] ne show ?thesis
      by (simp only: section1_verbatim_def Let_def split_def add_verbatim1_def) simp
  qed
  have opts: "left_to_read (section1_options p) < left_to_read p" if "c = CHR ''%''"
  proof -
    let ?u = "skip_while (\<lambda>c. c \<noteq> CHR '' '' \<and> c \<noteq> TAB \<and> c \<noteq> NL) p"
    have "left_to_read ?u < left_to_read p"
      using that p by (simp add: read_while_text le_imp_less_Suc length_dropWhile_le)
    with left_le(5)[of ?u] show ?thesis
      by (simp add: section1_options_def split_def Let_def parse_options_rest)
  qed
  have conds: "left_to_read (section1_conds p) < left_to_read p"
    using left_le(5)[of "sp_skip (sp_skip p)"] p
    by (simp add: section1_conds_def split_def Let_def add_start_conds_rest)
  have defn: "left_to_read (section1_definition p) < left_to_read p" if "is_ident_start c"
  proof -
    let ?u = "skip_while is_ident_cont p"
    have "is_ident_cont c" using that by (auto simp: is_ident_start_def is_ident_cont_def isalnum_def)
    then have "left_to_read ?u < left_to_read p"
      using p by (simp add: read_while_text le_imp_less_Suc length_dropWhile_le)
    with left_le(5)[of "skip_blanks ?u"] left_le(2)[of ?u] show ?thesis
      by (simp add: section1_definition_def split_def Let_def)
  qed
  have blank: "left_to_read (skip_blank_line r) < left_to_read p" if "sp_rest r = sp_rest p" for r
    using that p length_dropWhile_le[of "\<lambda>c. c \<noteq> NL" cs]
    by (auto simp: rest_steps le_imp_less_Suc)
  have c0: "sp_peek p 0 = c" using p by simp
  have d: "section1_divider p = (False, q) \<Longrightarrow> left_to_read q < left_to_read p"
    using divider by simp
  note less = top verb conds comment_shrinks[OF ne] get_shrinks[OF assms(1)]
  from assms(2) show ?thesis
    unfolding section1_step_def Let_def split_def c0
  proof (elim if_eqE)
    assume "section1_divider p = (False, q)"
    then show ?thesis by (rule d)
  next
    assume "is_ident_start c" "(False, section1_definition p) = (False, q)"
    then show ?thesis using defn by simp
  next
    assume "(False, skip_blank_line (p\<lparr>sp_diag := diag_warn (sp_loc p) ''ignoring unrecognised section-1 line'' (sp_diag p)\<rparr>)) = (False, q)"
    then show ?thesis using blank by auto
  next
    assume "(False, add_verbatim1 (fst (read_line_keep_nl p)) (snd (read_line_keep_nl p))) = (False, q)"
    then show ?thesis using keep[OF refl] by (auto simp: add_verbatim1_def)
  next
    assume "c = CHR ''%'' \<and> (sp_looking_at p ''%option'' \<or> sp_looking_at p ''%options'')" "(False, section1_options p) = (False, q)"
    then show ?thesis using opts by simp
  qed (use less in simp_all)
qed

lemma block_line_end_le: "left_to_read (block_line_end p) \<le> left_to_read p"
proof -
  let ?q = "skip_blanks p" and ?c = "skip_comment_in_line (sp_skip (sp_skip (skip_blanks p)))"
  have "left_to_read (skip_blanks ?c) \<le> left_to_read ?q"
    using left_le(2)[of ?c] skip_comment_in_line_le[of "sp_skip (sp_skip ?q)"] by simp
  with left_le(2)[of p] show ?thesis by (auto simp: block_line_end_def Let_def)
qed

lemma section2_prefixed_shrinks:
  assumes "\<not> sp_at_end p"
  shows "left_to_read (section2_prefixed p) < left_to_read p"
proof -
  let ?q = "skip_while (\<lambda>c. c = CHR '' '' \<or> c = TAB \<or> c = NL) (snd (read_sc_prefix p))"
  let ?r = "block_line_end (sp_skip ?q)"
  let ?s = "?r\<lparr>sp_blocks := sp_blocks ?r @ [\<lparr>sb_conds = fst (fst (read_sc_prefix p)),
    sb_any_state = snd (fst (read_sc_prefix p))\<rparr>]\<rparr>"
  have "left_to_read (eat_nl ?s) \<le> left_to_read ?r" using left_le(4)[of ?s] by simp
  also have "\<dots> \<le> left_to_read (sp_skip ?q)" by (rule block_line_end_le)
  also have "\<dots> \<le> left_to_read ?q" by (rule get_le)
  also have "\<dots> \<le> left_to_read (snd (read_sc_prefix p))" by (rule read_while_le)
  also have "\<dots> \<le> left_to_read (sp_skip p)" by (rule read_sc_prefix_le)
  also have "\<dots> < left_to_read p" by (rule get_shrinks[OF assms])
  finally show ?thesis
    using parse_rule_shrinks[OF assms] by (simp add: section2_prefixed_def split_def Let_def)
qed

lemma section2_line_shrinks:
  assumes "\<not> sp_at_end p"
  shows "left_to_read (section2_line p) < left_to_read p"
proof -
  let ?q = "skip_blanks (sp_skip p)" and ?p = "skip_blanks (sp_skip p)\<lparr>sp_rest := sp_rest p\<rparr>"
  have "left_to_read (eat_nl ?q) < left_to_read p"
    using left_le(4)[of ?q] left_le(2)[of "sp_skip p"] get_shrinks[OF assms] by linarith
  moreover have "left_to_read (parse_rule ?p) < left_to_read p"
    using parse_rule_shrinks[of ?p] assms by (simp add: sp_at_end_def)
  ultimately show ?thesis
    using section2_prefixed_shrinks[OF assms] parse_rule_shrinks[OF assms]
    by (simp add: section2_line_def Let_def)
qed

lemma section2_shrinks:
  assumes "\<not> sp_at_end p" "section2_step p = (False, q)"
  shows "left_to_read q < left_to_read p"
proof -
  have ne: "sp_rest p \<noteq> []" using assms(1) by (simp add: sp_at_end_def)
  have verb: "left_to_read (section2_verbatim p) < left_to_read p"
  proof -
    let ?u = "if lf_section2 (sp_out p) = [] then p\<lparr>sp_out := (sp_out p)\<lparr>lf_section2_loc := sp_loc p\<rparr>\<rparr> else p"
    have "sp_rest ?u = sp_rest p" by simp
    with verbatim_block_shrinks[of ?u] ne show ?thesis
      by (simp only: section2_verbatim_def Let_def split_def) simp
  qed
  have code: "left_to_read (section2_code p) < left_to_read p"
    using read_line_keep_nl_shrinks[OF assms(1)] by (simp add: section2_code_def split_def Let_def)
  have indented: "left_to_read (section2_indented p) < left_to_read p" if "is_blank (sp_peek p 0)"
  proof -
    let ?q = "skip_blanks p"
    obtain c cs where p: "sp_rest p = c # cs" using ne by (cases "sp_rest p") simp
    with that have "is_blank c" by simp
    with p have q: "left_to_read ?q < left_to_read p"
      by (simp add: rest_steps le_imp_less_Suc length_dropWhile_le)
    have "left_to_read (eat_nl ?q) < left_to_read p" using left_le(4)[of ?q] q by simp
    moreover have "left_to_read (skip_comment (sp_skip (sp_skip ?q))) < left_to_read p"
      using skip_comment_le[of "sp_skip (sp_skip ?q)"] q by simp
    moreover have "\<not> sp_at_end ?q \<Longrightarrow> left_to_read (section2_line ?q) < left_to_read p"
      using section2_line_shrinks[of ?q] q by simp
    moreover have "\<not> sp_at_end ?q \<Longrightarrow> left_to_read (parse_rule ?q) < left_to_read p"
      using parse_rule_shrinks[of ?q] q by simp
    ultimately show ?thesis using code by (simp add: section2_indented_def Let_def)
  qed
  from assms(2) show ?thesis
    using verb indented comment_shrinks[OF ne] section2_line_shrinks[OF assms(1)] get_shrinks[OF assms(1)]
    by (auto simp: section2_step_def is_blank_def Let_def split: if_splits)
qed

section \<open>The loops\<close>

function parse_section1 :: "sparser \<Rightarrow> sparser" where
  "parse_section1 p =
     (if sp_at_end p then p
      else case section1_step p of (ended, q) \<Rightarrow> if ended then q else parse_section1 q)"
  by pat_completeness auto
termination
  by (relation "measure left_to_read") (simp_all add: section1_shrinks)

function parse_section2 :: "sparser \<Rightarrow> sparser" where
  "parse_section2 p =
     (if sp_at_end p then p
      else case section2_step p of (ended, q) \<Rightarrow> if ended then q else parse_section2 q)"
  by pat_completeness auto
termination
  by (relation "measure left_to_read") (simp_all add: section2_shrinks)

declare parse_section1.simps [simp del] parse_section2.simps [simp del]

definition parse_section3 :: "sparser \<Rightarrow> sparser" where
  "parse_section3 p =
     (let p = p\<lparr>sp_out := (sp_out p)\<lparr>lf_section3_loc := sp_loc p\<rparr>\<rparr>;
          (s, p) = read_while (\<lambda>c. True) p
      in p\<lparr>sp_out := (sp_out p)\<lparr>lf_section3 := lf_section3 (sp_out p) @ s\<rparr>\<rparr>)"

definition sp_parse :: "sparser \<Rightarrow> sparser" where
  "sp_parse p =
     (let p = parse_section1 p;
          p = (if sp_at_end p then p else parse_section2 p)
      in if sp_at_end p then p else parse_section3 p)"

definition parse_lex_file :: "string \<Rightarrow> string \<Rightarrow> diagnostics \<Rightarrow> lex_file option \<times> diagnostics" where
  "parse_lex_file path contents diag =
     (let p = sp_parse (sp_start contents path diag)
      in (if \<not> diag_ok (sp_diag p) then None else Some (sp_out p), sp_diag p))"

end
