(* ===== verification/Source_Actions.thy ===== *)
theory Source_Actions
  imports Source_File "HOL-Library.Sublist"
begin

text \<open>
  Reading an action: the text of a brace block as C has it (\<open>c_code\<close>), and the proof that
  \<open>read_brace_block\<close> stops exactly at the brace that closes the block. Braces in string and
  character literals and in comments do not count.
\<close>

section \<open>The text of a block\<close>

fun literal_body :: "char \<Rightarrow> string \<Rightarrow> bool" where
  "literal_body q [] \<longleftrightarrow> True"
| "literal_body q (c # t) \<longleftrightarrow>
     (if c = CHR 0x5C then (case t of [] \<Rightarrow> False | d # u \<Rightarrow> literal_body q u)
      else c \<noteq> q \<and> literal_body q t)"

inductive c_code :: "string \<Rightarrow> bool" where
  c_Nil: "c_code []"
| c_Plain: "c \<notin> {CHR ''{'', CHR ''}'', CHR 0x22, CHR 0x27, CHR ''/''} \<Longrightarrow> c_code s \<Longrightarrow> c_code (c # s)"
| c_Slash: "s = [] \<or> hd s \<notin> {CHR ''/'', CHR ''*''} \<Longrightarrow> c_code s \<Longrightarrow> c_code (CHR ''/'' # s)"
| c_Braces: "c_code s \<Longrightarrow> c_code t \<Longrightarrow> c_code (CHR ''{'' # s @ CHR ''}'' # t)"
| c_String: "literal_body CHR 0x22 b \<Longrightarrow> c_code t \<Longrightarrow> c_code (CHR 0x22 # b @ CHR 0x22 # t)"
| c_Char: "literal_body CHR 0x27 b \<Longrightarrow> c_code t \<Longrightarrow> c_code (CHR 0x27 # b @ CHR 0x27 # t)"
| c_Line: "NL \<notin> set b \<Longrightarrow> c_code t \<Longrightarrow> c_code (CHR ''/'' # CHR ''/'' # b @ NL # t)"
| c_Block: "\<not> sublist ''*/'' b \<Longrightarrow> c_code t \<Longrightarrow> c_code (CHR ''/'' # CHR ''*'' # b @ CHR ''*'' # CHR ''/'' # t)"

section \<open>One turn of the loop\<close>

lemma get_n_text: "n \<le> left_to_read p \<Longrightarrow> fst (sp_get_n n p) = take n (sp_rest p)"
proof (induction n arbitrary: p)
  case (Suc n)
  obtain c cs where c: "sp_rest p = c # cs" using Suc.prems by (cases "sp_rest p") auto
  with Suc.IH[of "sp_skip p"] Suc.prems show ?case by (simp add: split_def Let_def)
qed simp

text \<open>\<open>eats s st p st' q\<close>: the loop reads \<open>s\<close> and is then at \<open>q\<close> in state \<open>st'\<close>.\<close>

definition eats :: "string \<Rightarrow> nat \<times> c_mode \<Rightarrow> sparser \<Rightarrow> nat \<times> c_mode \<Rightarrow> sparser \<Rightarrow> bool" where
  "eats s st p st' q \<longleftrightarrow> goes p q \<and> sp_rest p = s @ sp_rest q \<and>
     brace_loop st p = (s @ fst (brace_loop st' q), snd (brace_loop st' q))"

lemma eats_Nil: "eats [] st p st p"
  by (simp add: eats_def)

lemma eats_trans: "eats s st p st' q \<Longrightarrow> eats t st' q st'' r \<Longrightarrow> eats (s @ t) st p st'' r"
  by (auto simp: eats_def intro: goes_trans)

lemma eats_step:
  assumes "0 < fst st" "sp_rest p = s @ t" "s \<noteq> []"
    and "brace_step (sp_peek p 0) (sp_peek p 1) (1 < left_to_read p) st = (length s, st')"
  shows "eats s st p st' (snd (sp_get_n (length s) p))"
proof -
  have "\<not> sp_at_end p" using assms(2,3) by (simp add: sp_at_end_def)
  moreover have "fst (sp_get_n (length s) p) = s" using get_n_text[of "length s" p] assms(2) by simp
  ultimately show ?thesis
    using assms goes_steps(7)[of p "length s"]
    by (simp add: eats_def rest_steps brace_loop.simps[of st p] split_def Let_def)
qed

lemma eats_1:
  assumes "0 < d" "sp_rest p = c # t" "brace_step c (if t = [] then NUL else hd t) (t \<noteq> []) (d, m) = (Suc 0, st')"
  shows "\<exists>q. eats [c] (d, m) p st' q \<and> sp_rest q = t"
proof -
  have "sp_peek p 1 = (if t = [] then NUL else hd t)" "sp_peek p 0 = c"
    using assms(2) by (cases t; simp add: sp_peek_def)+
  then have "eats [c] (d, m) p st' (snd (sp_get_n (length [c]) p))"
    using assms by (intro eats_step) auto
  moreover have "sp_rest (snd (sp_get_n (length [c]) p)) = t" using assms(2) by (simp only: rest_steps) simp
  ultimately show ?thesis by blast
qed

lemma eats_2:
  assumes "0 < d" "sp_rest p = c # c' # t" "brace_step c c' True (d, m) = (2, st')"
  shows "\<exists>q. eats [c, c'] (d, m) p st' q \<and> sp_rest q = t"
proof -
  have "sp_peek p 1 = c'" "sp_peek p 0 = c" using assms(2) by (simp_all add: sp_peek_def)
  then have "eats [c, c'] (d, m) p st' (snd (sp_get_n (length [c, c']) p))"
    using assms by (intro eats_step) (auto simp: eval_nat_numeral)
  moreover have "sp_rest (snd (sp_get_n (length [c, c']) p)) = t" using assms(2) by (simp only: rest_steps) simp
  ultimately show ?thesis by blast
qed

lemma eats_then:
  assumes "eats s st p st' q" "\<exists>r. eats t st' q st'' r \<and> sp_rest r = u"
  shows "\<exists>r. eats (s @ t) st p st'' r \<and> sp_rest r = u"
  using assms eats_trans by blast

section \<open>Literals and comments\<close>

lemma literal_read:
  assumes "literal_body q b" "0 < d" "sp_rest p = b @ q # t"
    and "m = Str \<and> q = CHR 0x22 \<or> m = Chr \<and> q = CHR 0x27"
  shows "\<exists>r. eats (b @ [q]) (d, m) p (d, Code) r \<and> sp_rest r = t"
  using assms(1,3,4)
proof (induction q b arbitrary: p rule: literal_body.induct)
  case (1 q)
  have "brace_step q (if t = [] then NUL else hd t) (t \<noteq> []) (d, m) = (Suc 0, d, Code)"
    using 1(3) by (auto simp: brace_step_def)
  with eats_1[OF assms(2)] 1(2) show ?case by simp
next
  case (2 q c b)
  show ?case
  proof (cases "c = CHR 0x5C")
    case True
    with 2(3) obtain e u where b: "b = e # u" "literal_body q u" by (auto split: list.splits)
    have "sp_rest p = c # e # u @ q # t" using 2(4) b by simp
    moreover have "brace_step c e True (d, m) = (2, d, m)" using True 2(5) by (auto simp: brace_step_def)
    ultimately obtain r where r: "eats [c, e] (d, m) p (d, m) r" "sp_rest r = u @ q # t"
      using eats_2[OF assms(2), of p c e "u @ q # t" m "(d, m)"] by blast
    from eats_then[OF r(1) 2(1)[OF True b(1) b(2) r(2) 2(5)]] show ?thesis by (simp add: b)
  next
    case False
    then have c: "c \<noteq> q" "literal_body q b" using 2(3) by auto
    have "sp_rest p = c # b @ q # t" using 2(4) by simp
    moreover have "brace_step c (if b @ q # t = [] then NUL else hd (b @ q # t)) (b @ q # t \<noteq> []) (d, m) = (Suc 0, d, m)"
      using False c(1) 2(5) by (elim disjE) (simp_all add: brace_step_def)
    ultimately obtain r where r: "eats [c] (d, m) p (d, m) r" "sp_rest r = b @ q # t"
      using eats_1[OF assms(2), of p c "b @ q # t" m "(d, m)"] by blast
    from eats_then[OF r(1) 2(2)[OF False c(2) r(2) 2(5)]] show ?thesis by simp
  qed
qed

lemma line_comment_read:
  assumes "0 < d" "NL \<notin> set b" "sp_rest p = b @ NL # t"
  shows "\<exists>r. eats (b @ [NL]) (d, LineComment) p (d, Code) r \<and> sp_rest r = t"
  using assms(2,3)
proof (induction b arbitrary: p)
  case Nil
  then show ?case using eats_1[OF assms(1), of p NL t LineComment "(d, Code)"] by (simp add: brace_step_def)
next
  case (Cons c b)
  have "brace_step c (if b @ NL # t = [] then NUL else hd (b @ NL # t)) (b @ NL # t \<noteq> []) (d, LineComment) = (Suc 0, d, LineComment)"
    using Cons.prems(1) by (auto simp: brace_step_def)
  then obtain r where r: "eats [c] (d, LineComment) p (d, LineComment) r" "sp_rest r = b @ NL # t"
    using eats_1[OF assms(1), of p c "b @ NL # t" LineComment "(d, LineComment)"] Cons.prems(2) by auto
  from eats_then[OF r(1) Cons.IH[OF _ r(2)]] Cons.prems(1) show ?case by simp
qed

lemma block_comment_read:
  assumes "0 < d" "\<not> sublist ''*/'' b" "sp_rest p = b @ CHR ''*'' # CHR ''/'' # t"
  shows "\<exists>r. eats (b @ ''*/'') (d, BlockComment) p (d, Code) r \<and> sp_rest r = t"
  using assms(2,3)
proof (induction b arbitrary: p)
  case Nil
  then show ?case
    using eats_2[OF assms(1), of p "CHR ''*''" "CHR ''/''" t BlockComment "(d, Code)"] by (simp add: brace_step_def)
next
  case (Cons c b)
  have no: "\<not> sublist ''*/'' b" "\<not> prefix ''*/'' (c # b)" using Cons.prems(1) by (auto simp: sublist_Cons_right)
  let ?u = "b @ CHR ''*'' # CHR ''/'' # t"
  have "\<not> (c = CHR ''*'' \<and> hd ?u = CHR ''/'')" using no(2) by (cases b) auto
  then have "brace_step c (if ?u = [] then NUL else hd ?u) (?u \<noteq> []) (d, BlockComment) = (Suc 0, d, BlockComment)"
    by (auto simp: brace_step_def)
  then obtain r where r: "eats [c] (d, BlockComment) p (d, BlockComment) r" "sp_rest r = ?u"
    using eats_1[OF assms(1), of p c ?u BlockComment "(d, BlockComment)"] Cons.prems(2) by auto
  from eats_then[OF r(1) Cons.IH[OF no(1) r(2)]] show ?case by simp
qed

section \<open>Blocks\<close>

lemma code_1:
  assumes "0 < d" "sp_rest p = c # t" "c \<notin> {CHR 0x22, CHR 0x27, CHR ''/'', CHR ''{'', CHR ''}''}"
  shows "\<exists>q. eats [c] (d, Code) p (d, Code) q \<and> sp_rest q = t"
  by (rule eats_1[OF assms(1,2)]) (use assms(3) in \<open>simp add: brace_step_def\<close>)

lemma c_code_read:
  assumes "c_code s" "0 < d" "sp_rest p = s @ CHR ''}'' # t"
  shows "\<exists>q. eats s (d, Code) p (d, Code) q \<and> sp_rest q = CHR ''}'' # t"
  using assms
proof (induction s arbitrary: d p t rule: c_code.induct)
  case c_Nil
  then show ?case using eats_Nil by auto
next
  case (c_Plain c s)
  obtain r where r: "eats [c] (d, Code) p (d, Code) r" "sp_rest r = s @ CHR ''}'' # t"
    using code_1[of d p c "s @ CHR ''}'' # t"] c_Plain.hyps(1) c_Plain.prems by auto
  from eats_then[OF r(1) c_Plain.IH[OF c_Plain.prems(1) r(2)]] show ?case by simp
next
  case (c_Slash s)
  let ?u = "s @ CHR ''}'' # t"
  have "hd ?u \<noteq> CHR ''/'' \<and> hd ?u \<noteq> CHR ''*''" using c_Slash.hyps(1) by (cases s) auto
  then have "brace_step (CHR ''/'') (if ?u = [] then NUL else hd ?u) (?u \<noteq> []) (d, Code) = (Suc 0, d, Code)"
    by (simp add: brace_step_def)
  then obtain r where r: "eats ''/'' (d, Code) p (d, Code) r" "sp_rest r = ?u"
    using eats_1[OF c_Slash.prems(1), of p "CHR ''/''" ?u Code "(d, Code)"] c_Slash.prems(2) by auto
  from eats_then[OF r(1) c_Slash.IH[OF c_Slash.prems(1) r(2)]] show ?case by simp
next
  case (c_Braces s u)
  let ?v = "u @ CHR ''}'' # t"
  have "sp_rest p = CHR ''{'' # s @ CHR ''}'' # ?v" using c_Braces.prems(2) by simp
  then obtain a where a: "eats ''{'' (d, Code) p (d + 1, Code) a" "sp_rest a = s @ CHR ''}'' # ?v"
    using eats_1[OF c_Braces.prems(1), of p "CHR ''{''" "s @ CHR ''}'' # ?v" Code "(d + 1, Code)"] by (auto simp: brace_step_def)
  have "0 < d + 1" by simp
  from c_Braces.IH(1)[OF this a(2)] obtain b where b: "eats s (d + 1, Code) a (d + 1, Code) b" "sp_rest b = CHR ''}'' # ?v"
    by blast
  from eats_1[OF \<open>0 < d + 1\<close> b(2), of Code "(d, Code)"] obtain e where
    e: "eats ''}'' (d + 1, Code) b (d, Code) e" "sp_rest e = ?v" by (auto simp: brace_step_def)
  from c_Braces.IH(2)[OF c_Braces.prems(1) e(2)] eats_trans[OF eats_trans[OF a(1) b(1)] e(1)] eats_then
  show ?case by fastforce
next
  case (c_String b u)
  let ?v = "u @ CHR ''}'' # t"
  have "sp_rest p = CHR 0x22 # b @ CHR 0x22 # ?v" using c_String.prems(2) by simp
  then obtain a where a: "eats [CHR 0x22] (d, Code) p (d, Str) a" "sp_rest a = b @ CHR 0x22 # ?v"
    using eats_1[OF c_String.prems(1), of p "CHR 0x22" "b @ CHR 0x22 # ?v" Code "(d, Str)"] by (auto simp: brace_step_def)
  from literal_read[OF c_String.hyps(1) c_String.prems(1) a(2)] obtain e where
    e: "eats (b @ [CHR 0x22]) (d, Str) a (d, Code) e" "sp_rest e = ?v" by blast
  from c_String.IH[OF c_String.prems(1) e(2)] eats_trans[OF a(1) e(1)] eats_then
  show ?case by fastforce
next
  case (c_Char b u)
  let ?v = "u @ CHR ''}'' # t"
  have "sp_rest p = CHR 0x27 # b @ CHR 0x27 # ?v" using c_Char.prems(2) by simp
  then obtain a where a: "eats [CHR 0x27] (d, Code) p (d, Chr) a" "sp_rest a = b @ CHR 0x27 # ?v"
    using eats_1[OF c_Char.prems(1), of p "CHR 0x27" "b @ CHR 0x27 # ?v" Code "(d, Chr)"] by (auto simp: brace_step_def)
  from literal_read[OF c_Char.hyps(1) c_Char.prems(1) a(2)] obtain e where
    e: "eats (b @ [CHR 0x27]) (d, Chr) a (d, Code) e" "sp_rest e = ?v" by blast
  from c_Char.IH[OF c_Char.prems(1) e(2)] eats_trans[OF a(1) e(1)] eats_then
  show ?case by fastforce
next
  case (c_Line b u)
  let ?v = "u @ CHR ''}'' # t"
  have "sp_rest p = CHR ''/'' # CHR ''/'' # b @ NL # ?v" using c_Line.prems(2) by simp
  then obtain a where a: "eats ''//'' (d, Code) p (d, LineComment) a" "sp_rest a = b @ NL # ?v"
    using eats_2[OF c_Line.prems(1), of p "CHR ''/''" "CHR ''/''" "b @ NL # ?v" Code "(d, LineComment)"] by (auto simp: brace_step_def)
  from line_comment_read[OF c_Line.prems(1) c_Line.hyps(1) a(2)] obtain e where
    e: "eats (b @ [NL]) (d, LineComment) a (d, Code) e" "sp_rest e = ?v" by blast
  from c_Line.IH[OF c_Line.prems(1) e(2)] eats_trans[OF a(1) e(1)] eats_then
  show ?case by fastforce
next
  case (c_Block b u)
  let ?v = "u @ CHR ''}'' # t"
  have "sp_rest p = CHR ''/'' # CHR ''*'' # b @ CHR ''*'' # CHR ''/'' # ?v" using c_Block.prems(2) by simp
  then obtain a where a: "eats ''/*'' (d, Code) p (d, BlockComment) a" "sp_rest a = b @ CHR ''*'' # CHR ''/'' # ?v"
    using eats_2[OF c_Block.prems(1), of p "CHR ''/''" "CHR ''*''" "b @ CHR ''*'' # CHR ''/'' # ?v" Code "(d, BlockComment)"]
    by (auto simp: brace_step_def)
  from block_comment_read[OF c_Block.prems(1) c_Block.hyps(1) a(2)] obtain e where
    e: "eats (b @ ''*/'') (d, BlockComment) a (d, Code) e" "sp_rest e = ?v" by blast
  from c_Block.IH[OF c_Block.prems(1) e(2)] eats_trans[OF a(1) e(1)] eats_then
  show ?case by fastforce
qed

lemma brace_block_text:
  assumes "c_code s" "sp_rest p = CHR ''{'' # s @ CHR ''}'' # t"
  shows "\<exists>q. read_brace_block p = (CHR ''{'' # s @ ''}'', q) \<and> goes p q \<and>
    sp_rest q = (if t \<noteq> [] \<and> hd t = NL then tl t else t)"
proof -
  obtain a where g: "sp_get p = (CHR ''{'', a)" "goes p a" "sp_rest a = s @ CHR ''}'' # t"
    using assms(2) goes_get[of p] rest_get[of p] fst_get[OF assms(2)] by (metis list.sel(3) prod.collapse)
  from c_code_read[OF assms(1) _ g(3), of 1] obtain b where
    b: "eats s (1, Code) a (1, Code) b" "sp_rest b = CHR ''}'' # t" by auto
  from eats_1[OF _ b(2), of 1 Code "(0, Code)"] obtain e where
    e: "eats ''}'' (1, Code) b (0, Code) e" "sp_rest e = t" by (auto simp: brace_step_def)
  from eats_trans[OF b(1) e(1)] have "goes a e" "brace_loop (1, Code) a = (s @ ''}'', e)"
    by (simp_all add: eats_def brace_loop.simps[of "(0, Code)" e])
  with g e(2) show ?thesis
    using goes_trans[OF g(2)] goes_trans[OF _ goes_steps(3)]
    by (intro exI[of _ "eat_nl e"]) (auto simp: read_brace_block_def rest_steps)
qed


lemma action_block_text:
  assumes "c_code s" "sp_rest p = CHR ''{'' # s @ CHR ''}'' # t"
  shows "\<exists>q. read_action p = (CHR ''{'' # s @ ''}'', q) \<and> goes p q \<and>
    sp_rest q = (if t \<noteq> [] \<and> hd t = NL then tl t else t)"
  using brace_block_text[OF assms] peek_0[OF assms(2)] by (simp add: read_action_def Let_def)

section \<open>Properties\<close>

text \<open>C15. The action of a rule in braces is read up to the brace that closes it: whatever well
nested C text is inside, with braces in string and character literals and in comments not
counted, the action is exactly the block, and reading goes on behind it and its line end.\<close>

theorem action_block_exact:
  assumes "c_code s" "sp_rest p = CHR ''{'' # s @ CHR ''}'' # t"
  shows "\<exists>q. read_action p = (CHR ''{'' # s @ ''}'', q) \<and> goes p q \<and>
    sp_rest q = (if t \<noteq> [] \<and> hd t = NL then tl t else t)"
  by (rule action_block_text[OF assms])

lemma action_block_exact_witness:
  "fst (read_action (sp_start ([CHR ''{'', CHR 0x22, CHR ''}'', CHR 0x22, CHR ''}'', NL, CHR ''x'']) [] no_diag))
     = [CHR ''{'', CHR 0x22, CHR ''}'', CHR 0x22, CHR ''}'']"
proof -
  have "c_code [CHR 0x22, CHR ''}'', CHR 0x22]"
    using c_String[of "''}''" "[]"] c_Nil by simp
  from action_block_exact[OF this, of "sp_start ([CHR ''{'', CHR 0x22, CHR ''}'', CHR 0x22, CHR ''}'', NL, CHR ''x'']) [] no_diag"]
  show ?thesis by (auto simp: sp_start_def)
qed

end
