(* ===== verification/Source_Text.thy ===== *)
theory Source_Text
  imports Source_Actions
begin

text \<open>
  Specifications as text: \<open>spec_text\<close> writes definitions, start conditions, rules and user
  code the way a flex file has them, and \<open>parse_lex_file\<close> reads them back.
\<close>

section \<open>Patterns\<close>

text \<open>
  A pattern that ends where \<open>read_pattern\<close> ends it: no space outside quotes, classes and
  parentheses, all of which are closed, and no backslash at the end.
\<close>

fun closed_pattern :: "nat \<times> bool \<times> bool \<Rightarrow> string \<Rightarrow> bool" where
  "closed_pattern st [] \<longleftrightarrow> st = (0, False, False)"
| "closed_pattern st (c # t) \<longleftrightarrow>
     (if c = CHR 0x5C then (case t of [] \<Rightarrow> False | d # u \<Rightarrow> closed_pattern st u)
      else (case pattern_step c True st of None \<Rightarrow> False | Some (n, st') \<Rightarrow> closed_pattern st' t))"

lemma pattern_loop_turn:
  assumes "pattern_step (sp_peek p 0) (1 < left_to_read p) st = Some (length s, st')" "sp_rest p = s @ t" "s \<noteq> []"
  shows "\<exists>q. goes p q \<and> sp_rest q = t \<and>
    pattern_loop st p = (s @ fst (pattern_loop st' q), snd (pattern_loop st' q))"
proof -
  have "\<not> sp_at_end p" using assms by (simp add: sp_at_end_def)
  moreover have "fst (sp_get_n (length s) p) = s" using get_n_text[of "length s" p] assms(2) by simp
  ultimately show ?thesis
    using assms goes_steps(7)[of p "length s"]
    by (intro exI[of _ "snd (sp_get_n (length s) p)"])
      (simp add: rest_steps pattern_loop.simps[of st p] split_def Let_def)
qed

lemma closed_pattern_read:
  assumes "closed_pattern st pat" "sp_rest p = pat @ c # t" "c = CHR '' '' \<or> c = TAB \<or> c = NL"
  shows "\<exists>q. pattern_loop st p = (pat, q) \<and> goes p q \<and> sp_rest q = c # t"
  using assms(1,2)
proof (induction st pat arbitrary: p rule: closed_pattern.induct)
  case (1 st)
  then have "pattern_step c (1 < left_to_read p) st = None" "\<not> sp_at_end p" "sp_peek p 0 = c"
    using assms(3) by (auto simp: pattern_step_def sp_at_end_def sp_peek_def)
  with 1 show ?case by (intro exI[of _ p]) (simp add: pattern_loop.simps[of "(0, False, False)" p])
next
  case (2 st d pat)
  have d: "sp_peek p 0 = d" using 2(4) by simp
  show ?case
  proof (cases "d = CHR 0x5C")
    case True
    with 2(3) obtain e u where u: "pat = e # u" "closed_pattern st u" by (auto split: list.splits)
    have "pattern_step (sp_peek p 0) (1 < left_to_read p) st = Some (length [d, e], st)"
      using True d 2(4) by (cases st) (simp add: pattern_step_def u)
    then obtain q where q: "goes p q" "sp_rest q = u @ c # t"
      "pattern_loop st p = ([d, e] @ fst (pattern_loop st q), snd (pattern_loop st q))"
      using pattern_loop_turn[of p st "[d, e]" st "u @ c # t"] 2(4) u by auto
    from 2(1)[OF True u(1) u(2) q(2)] q show ?thesis by (auto simp: u intro: goes_trans)
  next
    case False
    with 2(3) obtain n st' where st': "pattern_step d True st = Some (n, st')" "closed_pattern st' pat"
      by (auto split: option.splits)
    have "pattern_step (sp_peek p 0) (1 < left_to_read p) st = Some (length [d], st')"
      using False d st'(1) by (auto simp: pattern_step_def split: prod.splits if_splits)
    then obtain q where q: "goes p q" "sp_rest q = pat @ c # t"
      "pattern_loop st p = ([d] @ fst (pattern_loop st' q), snd (pattern_loop st' q))"
      using pattern_loop_turn[of p st "[d]" st' "pat @ c # t"] 2(4) by auto
    from 2(2)[OF False st'(1) refl st'(2) q(2)] q show ?thesis by (auto intro: goes_trans)
  qed
qed

section \<open>Rules as text\<close>

fun join_names :: "string list \<Rightarrow> string" where
  "join_names [] = []"
| "join_names [n] = n"
| "join_names (n # ns) = n @ CHR '','' # join_names ns"

definition sites_text :: "lex_rule \<Rightarrow> string" where
  "sites_text r =
     (if r_any_state r then ''<*>'' else if r_conds r = [] then [] else ''<'' @ join_names (r_conds r) @ ''>'')"

definition rule_text :: "lex_rule \<Rightarrow> string" where
  "rule_text r =
     sites_text r @ (if r_eof r then ''<<EOF>>'' else r_pattern r) @ '' '' @ r_action r @ [NL]"

definition name_ok :: "string \<Rightarrow> bool" where
  "name_ok n \<longleftrightarrow> n \<noteq> [] \<and> list_all is_name_char n"

definition action_ok :: "string \<Rightarrow> bool" where
  "action_ok a \<longleftrightarrow> a = ''|'' \<or> (\<exists>s. a = CHR ''{'' # s @ ''}'' \<and> c_code s) \<or>
     (a \<noteq> [] \<and> NL \<notin> set a \<and> hd a \<notin> {CHR '' '', TAB, CHR ''|'', CHR ''{''})"

definition pattern_ok :: "string \<Rightarrow> bool" where
  "pattern_ok pat \<longleftrightarrow> pat \<noteq> [] \<and> closed_pattern (0, False, False) pat \<and>
     hd pat \<notin> {CHR ''%'', CHR ''/'', CHR ''}'', CHR ''{'', CHR ''<''}"

definition rule_text_ok :: "lex_rule \<Rightarrow> bool" where
  "rule_text_ok r \<longleftrightarrow> list_all name_ok (r_conds r) \<and> (r_any_state r \<longrightarrow> r_conds r = []) \<and>
     (if r_eof r then r_pattern r = [] else pattern_ok (r_pattern r)) \<and> action_ok (r_action r)"

lemma name_char_plain:
  "is_name_char c \<Longrightarrow> c \<notin> {CHR '','', CHR ''>'', CHR ''*'', CHR ''<'', NL} \<and> \<not> isspace c"
  by (auto simp: is_name_char_def ctype_defs)

lemma sc_loop_name:
  "list_all is_name_char n \<Longrightarrow> sc_loop (n @ t) cur conds = sc_loop t (cur @ n) conds"
  by (induction n arbitrary: cur) (use name_char_plain in auto)

lemma sc_loop_names:
  "ns \<noteq> [] \<Longrightarrow> list_all name_ok ns \<Longrightarrow> sc_loop (join_names ns) [] conds = conds @ ns"
proof (induction ns arbitrary: conds rule: join_names.induct)
  case (2 n)
  then show ?case using sc_loop_name[of n "[]" "[]" conds] by (simp add: name_ok_def)
next
  case (3 n m ns)
  then show ?case
    using sc_loop_name[of n "CHR '','' # join_names (m # ns)" "[]" conds] by (simp add: name_ok_def)
qed simp

lemma join_names_chars: "list_all name_ok ns \<Longrightarrow> \<forall>c\<in>set (join_names ns). is_name_char c \<or> c = CHR '',''"
  by (induction ns rule: join_names.induct) (auto simp: name_ok_def list_all_iff)

lemma prefix_read:
  assumes r: "list_all name_ok (r_conds r)" "r_any_state r \<longrightarrow> r_conds r = []" "sites_text r \<noteq> []"
    and p: "sp_rest p = sites_text r @ t"
  shows "\<exists>q. read_sc_prefix p = ((r_conds r, r_any_state r), q) \<and> goes p q \<and> sp_rest q = t"
proof (cases "r_any_state r")
  case True
  with r p show ?thesis
    using goes_trans[OF goes_get goes_trans[OF goes_get goes_get]]
    by (simp add: sites_text_def read_sc_prefix_def sp_peek_def Let_def)
next
  case False
  let ?ns = "join_names (r_conds r)"
  have ns: "r_conds r \<noteq> []" "sp_rest (sp_skip p) = ?ns @ CHR ''>'' # t"
    using False r p by (auto simp: sites_text_def split: if_splits)
  have chars: "\<forall>c\<in>set ?ns. c \<noteq> CHR ''>'' \<and> c \<noteq> NL \<and> c \<noteq> CHR ''*''"
    using join_names_chars[OF r(1)] name_char_plain by blast
  obtain w u where w: "read_while (\<lambda>c. c \<noteq> CHR ''>'' \<and> c \<noteq> NL) (sp_skip p) = (w, u)" by fastforce
  have wu: "w = ?ns" "sp_rest u = CHR ''>'' # t" "goes p u"
    using read_while_text[of "\<lambda>c. c \<noteq> CHR ''>'' \<and> c \<noteq> NL" "sp_skip p"] ns(2) chars
      goes_trans[OF goes_get read_while_goes[of "sp_skip p" "\<lambda>c. c \<noteq> CHR ''>'' \<and> c \<noteq> NL"]]
    by (simp_all add: w takeWhile_append2 dropWhile_append2)
  have "sp_peek (sp_skip p) 0 \<noteq> CHR ''*''"
    using ns chars by (cases ?ns) (auto simp: sp_peek_def)
  with w wu False sc_loop_names[OF ns(1) r(1), of "[]"] goes_trans[OF wu(3) goes_get]
  show ?thesis by (simp add: read_sc_prefix_def Let_def)
qed


declare sp_get_n.simps [simp del]

lemma action_read:
  assumes "action_ok a" "sp_rest p = a @ NL # t"
  shows "\<exists>q. read_action p = (a, q) \<and> goes p q \<and> sp_rest q = t"
proof -
  consider "a = ''|''" | s where "a = CHR ''{'' # s @ ''}''" "c_code s"
    | "a \<noteq> []" "NL \<notin> set a" "hd a \<notin> {CHR '' '', TAB, CHR ''|'', CHR ''{''}"
    using assms(1) by (auto simp: action_ok_def)
  then show ?thesis
  proof cases
    case 1
    let ?a = "skip_blanks (sp_skip p)"
    have r: "sp_rest ?a = NL # t" "sp_peek p 0 = CHR ''|''"
      using assms(2) 1 by (simp_all add: rest_steps is_blank_def)
    then have "sp_peek ?a 0 = NL" by simp
    with r 1 have "read_action p = (a, eat_nl ?a)" by (simp add: read_action_def Let_def)
    moreover have "goes p (eat_nl ?a)" by (meson goes_get goes_steps(1,3) goes_trans)
    ultimately show ?thesis using r(1) by (simp add: rest_steps)
  next
    case 2
    with action_block_text[OF 2(2), of p "NL # t"] assms(2) show ?thesis by simp
  next
    case 3
    then obtain c cs where c: "a = c # cs" by (cases a) auto
    have "sp_peek p 0 = c" using assms(2) c by simp
    moreover have "c \<noteq> NL" using 3(2) c by auto
    ultimately have r: "read_action p = read_line p" using 3(3) c by (simp add: read_action_def Let_def)
    have t: "takeWhile (\<lambda>c. c \<noteq> NL) (a @ NL # t) = a" "dropWhile (\<lambda>c. c \<noteq> NL) (a @ NL # t) = NL # t"
      using 3(2) by (subst takeWhile_append2 dropWhile_append2; auto)+
    have "fst (read_line p) = a" "sp_rest (snd (read_line p)) = t"
      by (simp_all only: rest_steps assms(2) t list.sel)
    with r goes_steps(4)[of p] show ?thesis by (metis prod.collapse)
  qed
qed

section \<open>The second section\<close>

text \<open>\<open>updates p f q\<close>: the text was read without a diagnostic, and the file is changed by \<open>f\<close>.\<close>

definition updates :: "sparser \<Rightarrow> (lex_file \<Rightarrow> lex_file) \<Rightarrow> sparser \<Rightarrow> bool" where
  "updates p f q \<longleftrightarrow> sp_file q = sp_file p \<and> sp_diag q = sp_diag p \<and> sp_blocks q = sp_blocks p \<and>
     sp_out q = f (sp_out p)"

definition put_rule_in :: "source_loc \<Rightarrow> lex_rule \<Rightarrow> lex_file \<Rightarrow> lex_file" where
  "put_rule_in loc r f = f\<lparr>lf_rules := lf_rules f @ [r\<lparr>r_loc := loc\<rparr>]\<rparr>"

lemma add_rule_read:
  assumes "action_ok (r_action r)" "sp_rest p = '' '' @ r_action r @ NL # t"
    and "sites = (r_conds r, r_any_state r)" "pat = r_pattern r" "eof = r_eof r"
  shows "sp_rest (add_rule loc sites pat eof p) = t \<and> updates p (put_rule_in loc r) (add_rule loc sites pat eof p)"
proof -
  have "r_action r = c # cs \<Longrightarrow> \<not> is_blank c" for c cs
    using assms(1) by (auto simp: action_ok_def is_blank_def)
  moreover have "r_action r \<noteq> []" using assms(1) by (auto simp: action_ok_def)
  ultimately have "sp_rest (skip_blanks p) = r_action r @ NL # t"
    using assms(2) by (cases "r_action r") (auto simp: rest_steps is_blank_def)
  from action_read[OF assms(1) this] obtain q where
    q: "read_action (skip_blanks p) = (r_action r, q)" "goes (skip_blanks p) q" "sp_rest q = t" by blast
  have "goes p q" using goes_trans[OF goes_steps(1) q(2)] .
  then show ?thesis
    by (cases r) (simp add: add_rule_def q assms(3-5) updates_def put_rule_in_def goes_fields[OF \<open>goes p q\<close>])
qed

lemma pattern_head:
  assumes "pattern_ok pat"
  obtains c cs where "pat = c # cs" "c \<notin> {CHR '' '', TAB, NL, CHR ''%'', CHR ''/'', CHR ''}'', CHR ''{'', CHR ''<''}"
proof (cases pat)
  case (Cons c cs)
  have "\<not> closed_pattern (0, False, False) (c # cs)" if "c \<in> {CHR '' '', TAB, NL}"
    using that by (elim insertE emptyE) (simp_all add: pattern_step_def)
  with assms Cons have "c \<notin> {CHR '' '', TAB, NL}" unfolding pattern_ok_def by blast
  moreover have "c \<notin> {CHR ''%'', CHR ''/'', CHR ''}'', CHR ''{'', CHR ''<''}" using assms Cons by (simp add: pattern_ok_def)
  ultimately show thesis using that[OF Cons] by blast
qed (use assms in \<open>simp add: pattern_ok_def\<close>)

lemma rule_body_read:
  assumes ok: "rule_text_ok r" and q: "sp_rest q = (if r_eof r then ''<<EOF>>'' else r_pattern r) @ '' '' @ r_action r @ NL # t"
    and s: "sites = (r_conds r, r_any_state r)"
  shows "let p' = (if sp_looking_at q ''<<EOF>>'' then add_rule loc sites [] True (snd (sp_get_n 7 q))
         else let (pat, p) = read_pattern q
              in if pat = []
                 then eat_nl (to_eol (p\<lparr>sp_diag := diag_error loc ''empty pattern'' (sp_diag p)\<rparr>))
                 else add_rule loc sites pat False p)
    in sp_rest p' = t \<and> updates q (put_rule_in loc r) p'"
proof (cases "r_eof r")
  case True
  then have "sp_looking_at q ''<<EOF>>''" "sp_rest (snd (sp_get_n 7 q)) = '' '' @ r_action r @ NL # t"
    using q by (simp_all add: sp_looking_at_def rest_steps eval_nat_numeral)
  with add_rule_read[OF _ this(2) s, of "[]" True loc] ok True goes_fields[OF goes_steps(7)[of q 7]]
  show ?thesis by (simp add: rule_text_ok_def updates_def)
next
  case False
  with ok have pat: "pattern_ok (r_pattern r)" by (simp add: rule_text_ok_def)
  then obtain c cs where c: "r_pattern r = c # cs" "c \<noteq> CHR ''<''" by (rule pattern_head) auto
  then have eof: "\<not> sp_looking_at q ''<<EOF>>''" using q False by (simp add: sp_looking_at_def)
  have "sp_rest q = r_pattern r @ CHR '' '' # r_action r @ NL # t" using q False by simp
  then obtain u where u: "read_pattern q = (r_pattern r, u)" "goes q u" "sp_rest u = '' '' @ r_action r @ NL # t"
    using closed_pattern_read[of "(0, False, False)" "r_pattern r" q "CHR '' ''" "r_action r @ NL # t"] pat
    by (auto simp: pattern_ok_def read_pattern_def)
  from add_rule_read[OF _ u(3) s refl, of False loc] ok False eof u c goes_fields[OF u(2)]
  show ?thesis by (simp add: rule_text_ok_def updates_def)
qed

lemma sites_start:
  assumes "rule_text_ok r" "sp_rest p = rule_text r @ t"
  shows "has_prefix p \<longleftrightarrow> sites_text r \<noteq> []"
proof (cases "r_any_state r \<or> r_conds r \<noteq> []")
  case True
  then show ?thesis
  proof (cases "r_any_state r")
    case False
    with True assms(1) obtain n ns where n: "r_conds r = n # ns" "name_ok n"
      by (cases "r_conds r") (auto simp: rule_text_ok_def)
    then obtain c cs where "n = c # cs" "c \<noteq> CHR ''<''"
      using name_char_plain by (cases n) (auto simp: name_ok_def)
    then have "join_names (r_conds r) \<noteq> []" "hd (join_names (r_conds r)) \<noteq> CHR ''<''" using n by (cases ns; simp)+
    with False n assms(2) show ?thesis
      by (cases "join_names (r_conds r)") (auto simp: rule_text_def sites_text_def has_prefix_def sp_peek_def)
  qed (use assms(2) in \<open>simp add: rule_text_def sites_text_def has_prefix_def sp_peek_def\<close>)
next
  case False
  show ?thesis
  proof (cases "r_eof r")
    case True
    with False assms(2) show ?thesis by (simp add: rule_text_def sites_text_def has_prefix_def sp_peek_def)
  next
    case f: False
    with assms(1) have "pattern_ok (r_pattern r)" by (simp add: rule_text_ok_def)
    then obtain c cs where "r_pattern r = c # cs" "c \<noteq> CHR ''<''" by (rule pattern_head) auto
    with f False assms(2) show ?thesis by (simp add: rule_text_def sites_text_def has_prefix_def sp_peek_def)
  qed
qed


lemma updates_trans: "updates p f q \<Longrightarrow> updates q g r \<Longrightarrow> updates p (g \<circ> f) r"
  by (simp add: updates_def)

lemma goes_updates: "goes p q \<Longrightarrow> updates q f r \<Longrightarrow> updates p f r"
  by (simp add: goes_def updates_def)

lemma parse_rule_read:
  assumes ok: "rule_text_ok r" and p: "sp_rest p = rule_text r @ t" "sp_blocks p = []"
  shows "sp_rest (parse_rule p) = t \<and> updates p (put_rule_in (sp_loc p) r) (parse_rule p)"
proof -
  let ?body = "(if r_eof r then ''<<EOF>>'' else r_pattern r) @ '' '' @ r_action r @ NL # t"
  obtain q where q: "(if has_prefix p then read_sc_prefix p else (inherited_conds p, p)) = ((r_conds r, r_any_state r), q)"
    "goes p q" "sp_rest q = ?body"
  proof (cases "sites_text r = []")
    case True
    then have "\<not> r_any_state r" "r_conds r = []" by (auto simp: sites_text_def split: if_splits)
    with that[of p] True p sites_start[OF ok p(1)] show thesis by (simp add: inherited_conds_def rule_text_def)
  next
    case False
    from p(1) have "sp_rest p = sites_text r @ ?body" by (simp add: rule_text_def)
    with prefix_read[of r p ?body] ok False obtain q where
      "read_sc_prefix p = ((r_conds r, r_any_state r), q)" "goes p q" "sp_rest q = ?body"
      by (auto simp: rule_text_ok_def)
    with that[of q] False sites_start[OF ok p(1)] show thesis by simp
  qed
  from rule_body_read[OF ok q(3) refl, of "sp_loc p"] goes_updates[OF q(2)] show ?thesis
    by (simp add: parse_rule_def Let_def q(1))
qed

lemma rule_head:
  assumes "rule_text_ok r" "sp_rest p = rule_text r @ t"
  obtains c cs where "sp_rest p = c # cs"
    "c = CHR ''<'' \<or> c \<notin> {CHR '' '', TAB, NL, CHR ''%'', CHR ''/'', CHR ''}'', CHR ''{'', CHR ''<''}"
proof (cases "sites_text r = []")
  case True
  show thesis
  proof (cases "r_eof r")
    case False
    with assms(1) have "pattern_ok (r_pattern r)" by (simp add: rule_text_ok_def)
    then obtain c cs where c: "r_pattern r = c # cs"
        "c \<notin> {CHR '' '', TAB, NL, CHR ''%'', CHR ''/'', CHR ''}'', CHR ''{'', CHR ''<''}" by (rule pattern_head)
    from c(1) True False assms(2) have "sp_rest p = c # cs @ '' '' @ r_action r @ NL # t" by (simp add: rule_text_def)
    from that[OF this disjI2[OF c(2)]] show thesis .
  qed (use that True assms(2) in \<open>simp add: rule_text_def\<close>)
qed (use that assms(2) in \<open>auto simp: rule_text_def sites_text_def split: if_splits\<close>)

lemma section2_rule:
  assumes ok: "rule_text_ok r" and p: "sp_rest p = rule_text r @ t" "sp_blocks p = []"
  shows "\<exists>q. section2_step p = (False, q) \<and> sp_rest q = t \<and> updates p (put_rule_in (sp_loc p) r) q"
proof -
  obtain c cs where c: "sp_rest p = c # cs" "c \<notin> {CHR '' '', TAB, NL, CHR ''%'', CHR ''/'', CHR ''}''}"
    by (rule rule_head[OF ok p(1)]) auto
  have line: "section2_line p = parse_rule p"
  proof (cases "has_prefix p")
    case True
    let ?body = "(if r_eof r then ''<<EOF>>'' else r_pattern r) @ '' '' @ r_action r @ NL # t"
    have "sp_rest p = sites_text r @ ?body" using p(1) by (simp add: rule_text_def)
    then obtain q where q: "read_sc_prefix p = ((r_conds r, r_any_state r), q)" "sp_rest q = ?body"
      using prefix_read[OF _ _ _ \<open>sp_rest p = sites_text r @ ?body\<close>] ok sites_start[OF ok p(1)] True
      unfolding rule_text_ok_def by blast
    let ?B = "\<lambda>c. c = CHR '' '' \<or> c = TAB \<or> c = NL"
    obtain d ds where d: "?body = d # ds" "d \<notin> {CHR '' '', TAB, NL, CHR ''{''}"
    proof (cases "r_eof r")
      case False
      with ok have "pattern_ok (r_pattern r)" by (simp add: rule_text_ok_def)
      then obtain e es where e: "r_pattern r = e # es"
          "e \<notin> {CHR '' '', TAB, NL, CHR ''%'', CHR ''/'', CHR ''}'', CHR ''{'', CHR ''<''}" by (rule pattern_head)
      with that[of e "es @ '' '' @ r_action r @ NL # t"] False show thesis by simp
    qed (use that in simp)
    have "sp_rest (skip_while ?B q) = dropWhile ?B ?body" by (simp only: read_while_text q(2))
    also have "\<dots> = d # ds" using d by simp
    finally have "sp_peek (skip_while ?B q) 0 = d" by (rule peek_0)
    with d(2) q(1) True c show ?thesis by (simp add: section2_line_def section2_prefixed_def p(2) Let_def)
  qed (simp add: section2_line_def p(2) Let_def)
  from parse_rule_read[OF ok p] c show ?thesis by (simp add: section2_step_def line Let_def)
qed

fun put_rules_at :: "source_loc list \<Rightarrow> lex_rule list \<Rightarrow> lex_file \<Rightarrow> lex_file" where
  "put_rules_at (l # ls) (r # rs) f = put_rules_at ls rs (put_rule_in l r f)"
| "put_rules_at _ _ f = f"

lemma section2_text:
  assumes "list_all rule_text_ok rs" "sp_rest p = concat (map rule_text rs) @ ''%%'' @ NL # t" "sp_blocks p = []"
  shows "\<exists>ls. length ls = length rs \<and> sp_rest (parse_section2 p) = t \<and>
    updates p (put_rules_at ls rs) (parse_section2 p)"
  using assms
proof (induction rs arbitrary: p)
  case Nil
  let ?q = "eat_nl (to_eol (sp_skip (sp_skip p)))"
  have r: "sp_rest p = ''%%'' @ NL # t" using Nil.prems(2) by simp
  then have "section2_step p = (True, ?q)" "\<not> sp_at_end p"
    by (simp_all add: section2_step_def sp_peek_def sp_at_end_def)
  then have "parse_section2 p = ?q" by (simp add: parse_section2.simps[of p])
  moreover have "sp_rest ?q = t" using r by (simp add: rest_steps)
  moreover have "goes p ?q" by (meson goes_get goes_steps(2,3) goes_trans)
  ultimately show ?case by (simp add: updates_def goes_fields)
next
  case (Cons r rs)
  let ?t = "concat (map rule_text rs) @ ''%%'' @ NL # t"
  have p: "sp_rest p = rule_text r @ ?t" "rule_text_ok r" using Cons.prems by simp_all
  from section2_rule[OF p(2,1) Cons.prems(3)] obtain q where
    q: "section2_step p = (False, q)" "sp_rest q = ?t" "updates p (put_rule_in (sp_loc p) r) q" by blast
  have "\<not> sp_at_end p" using rule_head[OF p(2,1)] by (metis list.distinct(1) sp_at_end_def)
  with q(1) have e: "parse_section2 p = parse_section2 q" by (simp add: parse_section2.simps[of p])
  have "sp_blocks q = []" using q(3) Cons.prems(3) by (simp add: updates_def)
  from Cons.IH[OF _ q(2) this] Cons.prems(1) obtain ls where
    ls: "length ls = length rs" "sp_rest (parse_section2 q) = t" "updates q (put_rules_at ls rs) (parse_section2 q)" by auto
  from updates_trans[OF q(3) ls(3)] have "updates p (put_rules_at (sp_loc p # ls) (r # rs)) (parse_section2 q)"
    by (simp add: updates_def)
  with ls(1,2) e show ?case
    by (intro exI[of _ "sp_loc p # ls"] conjI) (simp_all del: put_rules_at.simps)
qed

end
