(* ===== verification/Source_Roundtrip.thy ===== *)
theory Source_Roundtrip
  imports Source_Text
begin

text \<open>
  The first section as text, and the whole file: writing a specification and parsing it.
\<close>

section \<open>The first section\<close>

definition def_text :: "string \<times> string \<Rightarrow> string" where
  "def_text d = fst d @ '' '' @ snd d @ [NL]"

definition def_ok :: "string \<times> string \<Rightarrow> bool" where
  "def_ok d \<longleftrightarrow> fst d \<noteq> [] \<and> is_ident_start (hd (fst d)) \<and> list_all is_ident_cont (fst d) \<and>
     snd d \<noteq> [] \<and> NL \<notin> set (snd d) \<and> \<not> is_blank (hd (snd d)) \<and> last (snd d) \<notin> {CHR 0x0D, CHR '' '', TAB}"

definition cond_text :: "start_cond \<Rightarrow> string" where
  "cond_text sc = (if sc_exclusive sc then ''%x '' else ''%s '') @ sc_name sc @ [NL]"

definition put_def :: "string \<times> string \<Rightarrow> lex_file \<Rightarrow> lex_file" where
  "put_def d f = f\<lparr>lf_defs := lf_defs f @ [d]\<rparr>"

definition put_cond :: "start_cond \<Rightarrow> lex_file \<Rightarrow> lex_file" where
  "put_cond sc f = f\<lparr>lf_conds := lf_conds f @ [sc]\<rparr>"

lemma read_line_text:
  assumes "sp_rest p = s @ NL # t" "NL \<notin> set s"
  shows "\<exists>q. read_line p = (s, q) \<and> goes p q \<and> sp_rest q = t"
proof -
  have "takeWhile (\<lambda>c. c \<noteq> NL) (s @ NL # t) = s" "dropWhile (\<lambda>c. c \<noteq> NL) (s @ NL # t) = NL # t"
    using assms(2) by (subst takeWhile_append2 dropWhile_append2; auto)+
  then have "fst (read_line p) = s" "sp_rest (snd (read_line p)) = t"
    by (simp_all only: rest_steps assms(1) list.sel)
  with goes_steps(4)[of p] show ?thesis by (metis prod.collapse)
qed

lemma rstrip_id: "s = [] \<or> last s \<notin> {NL, CHR 0x0D, CHR '' '', TAB} \<Longrightarrow> rstrip s = s"
  by (cases s rule: rev_cases) (auto simp: rstrip_def)

lemma ident_not_special: "is_ident_start c \<Longrightarrow> c \<notin> {NL, CHR ''%'', CHR ''/'', CHR '' '', TAB}"
  by (auto simp: is_ident_start_def ctype_defs)

lemma section1_def:
  assumes ok: "def_ok d" and p: "sp_rest p = def_text d @ t"
  shows "\<exists>q. section1_step p = (False, q) \<and> sp_rest q = t \<and> updates p (put_def d) q"
proof -
  obtain name pat where d: "d = (name, pat)" by fastforce
  have r: "sp_rest p = name @ CHR '' '' # pat @ NL # t" using p by (simp add: def_text_def d)
  obtain c cs where c: "name = c # cs" "is_ident_start c" using ok by (cases name) (auto simp: def_ok_def d)
  have "takeWhile is_ident_cont (name @ CHR '' '' # pat @ NL # t) = name"
    "dropWhile is_ident_cont (name @ CHR '' '' # pat @ NL # t) = CHR '' '' # pat @ NL # t"
    using ok by (subst takeWhile_append2 dropWhile_append2;
        auto simp: def_ok_def d list_all_iff is_ident_cont_def ctype_defs)+
  then obtain q where q: "read_while is_ident_cont p = (name, q)" "sp_rest q = CHR '' '' # pat @ NL # t" "goes p q"
    using read_while_text[of is_ident_cont p] read_while_goes[of p is_ident_cont] r by (metis prod.collapse)
  have "pat \<noteq> []" "\<not> is_blank (hd pat)" using ok by (simp_all add: def_ok_def d)
  then have "sp_rest (skip_blanks q) = pat @ NL # t"
    using q(2) by (cases pat) (simp_all add: rest_steps is_blank_def)
  moreover have "NL \<notin> set pat" using ok by (simp add: def_ok_def d)
  ultimately obtain u where u: "read_line (skip_blanks q) = (pat, u)" "goes (skip_blanks q) u" "sp_rest u = t"
    using read_line_text by blast
  have g: "goes p u" using goes_trans[OF q(3) goes_trans[OF goes_steps(1) u(2)]] .
  have "last pat \<noteq> NL" using last_in_set[OF \<open>pat \<noteq> []\<close>] \<open>NL \<notin> set pat\<close> by metis
  then have "rstrip pat = pat" using ok by (intro rstrip_id) (simp add: def_ok_def d)
  with q u g have "sp_rest (section1_definition p) = t \<and> updates p (put_def d) (section1_definition p)"
    using \<open>pat \<noteq> []\<close> by (simp add: section1_definition_def Let_def updates_def put_def_def d goes_fields[OF g])
  moreover have "section1_step p = (False, section1_definition p)"
  proof -
    have "sp_peek p 0 = c" using r c by simp
    with ident_not_special[OF c(2)] c(2) show ?thesis by (simp add: section1_step_def Let_def)
  qed
  ultimately show ?thesis by blast
qed

lemma name_chars: "name_ok n \<Longrightarrow> \<forall>c\<in>set n. is_name_char c \<and> \<not> isspace c \<and> c \<noteq> NL"
  using name_char_plain by (auto simp: name_ok_def list_all_iff)

lemma section1_cond:
  assumes ok: "name_ok (sc_name sc)" and p: "sp_rest p = cond_text sc @ t"
  shows "\<exists>q. section1_step p = (False, q) \<and> sp_rest q = t \<and> updates p (put_cond sc) q"
proof -
  let ?n = "sc_name sc"
  have r: "sp_rest p = CHR ''%'' # (if sc_exclusive sc then CHR ''x'' else CHR ''s'') # CHR '' '' # ?n @ NL # t"
    using p by (simp add: cond_text_def)
  have pk: "sp_peek p 0 = CHR ''%''" "sp_peek p 1 = (if sc_exclusive sc then CHR ''x'' else CHR ''s'')" "sp_peek p 2 = CHR '' ''"
    using r by (simp_all add: sp_peek_def)
  have step: "section1_step p = (False, section1_conds p)"
    using pk r by (simp add: section1_step_def sp_looking_at_def Let_def)
  have "sp_rest (sp_skip (sp_skip p)) = (CHR '' '' # ?n) @ NL # t" using r by simp
  moreover have "NL \<notin> set (CHR '' '' # ?n)" using name_chars[OF ok] by auto
  ultimately obtain u where u: "read_line (sp_skip (sp_skip p)) = (CHR '' '' # ?n, u)"
    "goes (sp_skip (sp_skip p)) u" "sp_rest u = t" using read_line_text by blast
  have g: "goes p u" using goes_trans[OF goes_get goes_trans[OF goes_get u(2)]] .
  obtain c cs where c: "?n = c # cs" using ok by (cases ?n) (auto simp: name_ok_def)
  have n: "dropWhile isspace (CHR '' '' # ?n) = ?n" using name_chars[OF ok] c by (simp add: isspace_def)
  have w: "takeWhile is_name_char ?n = ?n" "dropWhile is_name_char ?n = []"
    using name_chars[OF ok] by (simp_all add: takeWhile_eq_all_conv dropWhile_eq_Nil_conv)
  have "add_start_conds (CHR '' '' # ?n) (sc_exclusive sc) u = u\<lparr>sp_out := put_cond sc (sp_out u)\<rparr>"
  proof -
    have "?n \<noteq> []" using c by simp
    then have "add_start_conds (CHR '' '' # ?n) (sc_exclusive sc) u = add_start_conds [] (sc_exclusive sc)
        (u\<lparr>sp_out := (sp_out u)\<lparr>lf_conds := lf_conds (sp_out u) @ [\<lparr>sc_name = ?n, sc_exclusive = sc_exclusive sc\<rparr>]\<rparr>\<rparr>)"
      by (simp only: add_start_conds.simps[of "CHR '' '' # ?n"] Let_def n w if_False)
    then show ?thesis by (simp add: add_start_conds.simps[of "[]"] put_cond_def)
  qed
  with u have e: "section1_conds p = u\<lparr>sp_out := put_cond sc (sp_out u)\<rparr>"
    by (cases "sc_exclusive sc") (simp_all add: section1_conds_def Let_def pk(2)[unfolded One_nat_def])
  show ?thesis using step u(3) goes_fields[OF g] by (simp add: e updates_def)
qed

text \<open>A list of lines that the first section takes one by one.\<close>

lemma section1_lines:
  assumes "\<And>x p t. x \<in> set xs \<Longrightarrow> sp_rest p = txt x @ t \<Longrightarrow>
      \<exists>q. section1_step p = (False, q) \<and> sp_rest q = t \<and> updates p (put x) q"
    and "\<And>x. x \<in> set xs \<Longrightarrow> txt x \<noteq> []" "sp_rest p = concat (map txt xs) @ t"
  shows "\<exists>q. parse_section1 p = parse_section1 q \<and> sp_rest q = t \<and> updates p (fold put xs) q"
  using assms
proof (induction xs arbitrary: p)
  case Nil
  then show ?case by (intro exI[of _ p]) (simp add: updates_def)
next
  case (Cons x xs)
  have "sp_rest p = txt x @ concat (map txt xs) @ t" using Cons.prems(3) by simp
  with Cons.prems(1)[of x p] obtain q where
    q: "section1_step p = (False, q)" "sp_rest q = concat (map txt xs) @ t" "updates p (put x) q" by auto
  have "\<not> sp_at_end p" using Cons.prems(2)[of x] Cons.prems(3) by (simp add: sp_at_end_def)
  with q(1) have e: "parse_section1 p = parse_section1 q" by (simp add: parse_section1.simps[of p])
  from Cons.IH[OF Cons.prems(1,2) q(2)] obtain r where
    r: "parse_section1 q = parse_section1 r" "sp_rest r = t" "updates q (fold put xs) r" by auto
  from updates_trans[OF q(3) r(3)] r(1,2) e show ?case by (intro exI[of _ r]) (simp add: updates_def)
qed

section \<open>Whole files\<close>

definition spec_text :: "(string \<times> string) list \<Rightarrow> start_cond list \<Rightarrow> lex_rule list \<Rightarrow> string \<Rightarrow> string" where
  "spec_text defs conds rules code =
     concat (map def_text defs) @ concat (map cond_text conds) @ ''%%'' @ [NL] @
     concat (map rule_text rules) @ ''%%'' @ [NL] @ code"

definition spec_text_ok :: "(string \<times> string) list \<Rightarrow> start_cond list \<Rightarrow> lex_rule list \<Rightarrow> bool" where
  "spec_text_ok defs conds rules \<longleftrightarrow>
     list_all def_ok defs \<and> list_all (\<lambda>sc. name_ok (sc_name sc)) conds \<and> list_all rule_text_ok rules"

lemma fold_put_def: "fold put_def ds f = f\<lparr>lf_defs := lf_defs f @ ds\<rparr>"
  by (induction ds arbitrary: f) (simp_all add: put_def_def)

lemma fold_put_cond: "fold put_cond cs f = f\<lparr>lf_conds := lf_conds f @ cs\<rparr>"
  by (induction cs arbitrary: f) (simp_all add: put_cond_def)

text \<open>A rule without its location.\<close>

definition placeless :: "lex_rule \<Rightarrow> lex_rule" where
  "placeless r = r\<lparr>r_loc := empty_loc\<rparr>"

lemma placeless_loc [simp]: "placeless (r\<lparr>r_loc := l\<rparr>) = placeless r"
  by (simp add: placeless_def)

lemma put_rules_at_all:
  "length ls = length rs \<Longrightarrow>
   \<exists>rs'. put_rules_at ls rs f = f\<lparr>lf_rules := lf_rules f @ rs'\<rparr> \<and> map placeless rs' = map placeless rs"
proof (induction ls rs arbitrary: f rule: list_induct2)
  case (Cons l ls r rs)
  from Cons.IH[of "put_rule_in l r f"] obtain rs' where
    "put_rules_at ls rs (put_rule_in l r f) = (put_rule_in l r f)\<lparr>lf_rules := lf_rules (put_rule_in l r f) @ rs'\<rparr>"
    "map placeless rs' = map placeless rs" by blast
  then show ?case
    by (intro exI[of _ "r\<lparr>r_loc := l\<rparr> # rs'"]) (simp add: put_rule_in_def)
qed (intro exI[of _ "[]"], simp)

lemma section3_text:
  "sp_rest (parse_section3 p) = [] \<and> sp_diag (parse_section3 p) = sp_diag p \<and>
   sp_out (parse_section3 p) = (sp_out p)\<lparr>lf_section3_loc := sp_loc p, lf_section3 := lf_section3 (sp_out p) @ sp_rest p\<rparr>"
proof -
  let ?q = "p\<lparr>sp_out := (sp_out p)\<lparr>lf_section3_loc := sp_loc p\<rparr>\<rparr>"
  have w: "takeWhile (\<lambda>_. True) t = t" "dropWhile (\<lambda>_. True) t = []" for t :: string by simp_all
  show ?thesis
    using read_while_text[of "\<lambda>c. True" ?q] goes_fields[OF read_while_goes[of ?q "\<lambda>c. True"]]
    by (simp add: parse_section3_def split_def Let_def w)
qed

lemma spec_parse:
  assumes "spec_text_ok defs conds rules"
  shows "\<exists>f loc rs. parse_lex_file path (spec_text defs conds rules code) no_diag = (Some f, no_diag) \<and>
    map placeless rs = map placeless rules \<and>
    f = (empty_file \<lparr>sl_file = path, sl_line = 1, sl_col = 1\<rparr>)\<lparr>lf_defs := defs, lf_conds := conds, lf_rules := rs,
      lf_section3_loc := loc, lf_section3 := code\<rparr>"
proof -
  define p where "p = sp_start (spec_text defs conds rules code) path no_diag"
  let ?t2 = "concat (map rule_text rules) @ ''%%'' @ NL # code"
  let ?t1 = "concat (map cond_text conds) @ ''%%'' @ NL # ?t2"
  have p: "sp_rest p = concat (map def_text defs) @ ?t1" by (simp add: p_def sp_start_def spec_text_def)
  have "\<exists>q. parse_section1 p = parse_section1 q \<and> sp_rest q = ?t1 \<and> updates p (fold put_def defs) q"
    by (rule section1_lines[OF _ _ p])
      (use assms section1_def in \<open>auto simp: spec_text_ok_def list_all_iff def_text_def\<close>)
  then obtain a where a: "parse_section1 p = parse_section1 a" "sp_rest a = ?t1" "updates p (fold put_def defs) a" by blast
  have "\<exists>q. parse_section1 a = parse_section1 q \<and> sp_rest q = ''%%'' @ NL # ?t2 \<and> updates a (fold put_cond conds) q"
    by (rule section1_lines[OF _ _ a(2)])
      (use assms section1_cond in \<open>auto simp: spec_text_ok_def list_all_iff cond_text_def\<close>)
  then obtain b where b: "parse_section1 a = parse_section1 b" "sp_rest b = ''%%'' @ NL # ?t2"
    "updates a (fold put_cond conds) b" by blast
  let ?d = "skip_blanks (sp_skip (sp_skip b))"
  have "sp_rest ?d = NL # ?t2" using b(2) by (simp add: rest_steps is_blank_def)
  then have "section1_divider b = (True, sp_skip ?d)" "sp_rest (sp_skip ?d) = ?t2" by (simp_all add: section1_divider_def Let_def)
  moreover have "section1_step b = section1_divider b" "\<not> sp_at_end b"
    using b(2) by (simp_all add: section1_step_def sp_peek_def sp_at_end_def Let_def)
  ultimately have s1: "parse_section1 p = sp_skip ?d" "sp_rest (sp_skip ?d) = ?t2"
    using a(1) b(1) by (simp_all add: parse_section1.simps[of b])
  have "goes b (sp_skip ?d)" by (meson goes_get goes_steps(1) goes_trans)
  then have u1: "updates p (fold put_cond conds \<circ> fold put_def defs) (sp_skip ?d)"
    using updates_trans[OF a(3) b(3)] by (simp add: updates_def goes_fields)
  have "sp_blocks (sp_skip ?d) = []" using u1 by (simp add: updates_def p_def sp_start_def)
  with section2_text[OF _ s1(2)] assms obtain ls where
    ls: "length ls = length rules" "sp_rest (parse_section2 (sp_skip ?d)) = code"
      "updates (sp_skip ?d) (put_rules_at ls rules) (parse_section2 (sp_skip ?d))"
    by (auto simp: spec_text_ok_def)
  let ?e = "parse_section2 (sp_skip ?d)"
  have u2: "updates p (put_rules_at ls rules \<circ> (fold put_cond conds \<circ> fold put_def defs)) ?e"
    by (rule updates_trans[OF u1 ls(3)])
  obtain rs where rs: "map placeless rs = map placeless rules"
    "put_rules_at ls rules (fold put_cond conds (fold put_def defs (sp_out p)))
     = (fold put_cond conds (fold put_def defs (sp_out p)))\<lparr>lf_rules := lf_rules (fold put_cond conds (fold put_def defs (sp_out p))) @ rs\<rparr>"
    using put_rules_at_all[OF ls(1)] by blast
  have out: "sp_out ?e = (sp_out p)\<lparr>lf_defs := defs, lf_conds := conds, lf_rules := rs\<rparr>" "sp_diag ?e = no_diag"
    using u2 rs(2) by (simp_all add: updates_def fold_put_def fold_put_cond p_def sp_start_def empty_file_def)
  have "\<not> sp_at_end (sp_skip ?d)" using s1(2) by (simp add: sp_at_end_def)
  then have pe: "sp_parse p = (if sp_at_end ?e then ?e else parse_section3 ?e)"
    by (simp add: sp_parse_def s1(1) Let_def)
  have ok: "diag_ok no_diag" by (simp add: diag_ok_def no_diag_def)
  have result: "parse_lex_file path (spec_text defs conds rules code) no_diag = (Some (sp_out (sp_parse p)), no_diag)"
    if "sp_diag (sp_parse p) = no_diag"
    using that ok by (simp add: parse_lex_file_def p_def[symmetric] Let_def)
  have start: "sp_out p = empty_file \<lparr>sl_file = path, sl_line = 1, sl_col = 1\<rparr>" by (simp add: p_def sp_start_def)
  show ?thesis
  proof (cases "code = []")
    case True
    with ls(2) pe have "sp_parse p = ?e" by (simp add: sp_at_end_def)
    with result out have "parse_lex_file path (spec_text defs conds rules code) no_diag = (Some (sp_out ?e), no_diag)" by simp
    with rs(1) True out(1) show ?thesis
      by (intro exI[of _ "sp_out ?e"] exI[of _ empty_loc] exI[of _ rs]) (simp add: start empty_file_def)
  next
    case False
    with ls(2) pe have e: "sp_parse p = parse_section3 ?e" by (simp add: sp_at_end_def)
    with result out section3_text[of ?e]
    have "parse_lex_file path (spec_text defs conds rules code) no_diag = (Some (sp_out (parse_section3 ?e)), no_diag)" by simp
    with rs(1) out(1) ls(2) section3_text[of ?e] show ?thesis
      by (intro exI[of _ "sp_out (parse_section3 ?e)"] exI[of _ "sp_loc ?e"] exI[of _ rs]) (simp add: start empty_file_def)
  qed
qed

section \<open>Properties\<close>

text \<open>C9. Writing a specification and parsing it gives the specification back: its definitions, its
  start conditions with their kinds, its rules with their conditions, patterns, actions (C
  blocks, lines or \<open>|\<close>) and end-of-file marks, in order, and the user code, without an error.
  Only the locations are those of the text.\<close>

theorem spec_file_roundtrip:
  assumes "spec_text_ok defs conds rules"
  shows "\<exists>f loc rs. parse_lex_file path (spec_text defs conds rules code) no_diag = (Some f, no_diag) \<and>
    map placeless rs = map placeless rules \<and>
    f = (empty_file \<lparr>sl_file = path, sl_line = 1, sl_col = 1\<rparr>)\<lparr>lf_defs := defs, lf_conds := conds, lf_rules := rs,
      lf_section3_loc := loc, lf_section3 := code\<rparr>"
  by (rule spec_parse[OF assms])

text \<open>A definition, a condition, and two rules, one with its action in braces.\<close>

definition sample_rules :: "lex_rule list" where
  "sample_rules = [empty_rule\<lparr>r_conds := [''X''], r_pattern := ''ab+'', r_action := ''{;}''\<rparr>,
     empty_rule\<lparr>r_any_state := True, r_eof := True, r_action := ''return 0;''\<rparr>]"

lemma sample_spec_ok: "spec_text_ok [(''D'', ''[0-9]'')] [\<lparr>sc_name = ''X'', sc_exclusive = True\<rparr>] sample_rules"
proof -
  have "c_code '';''" using c_Plain[OF _ c_Nil] by simp
  then show ?thesis
    by (simp add: spec_text_ok_def sample_rules_def empty_rule_def rule_text_ok_def action_ok_def pattern_ok_def
        name_ok_def pattern_step_def def_ok_def is_name_char_def is_ident_start_def is_ident_cont_def is_blank_def ctype_defs)
qed

lemma spec_file_roundtrip_witness:
  "\<exists>f. parse_lex_file ''a.l'' (spec_text [(''D'', ''[0-9]'')] [\<lparr>sc_name = ''X'', sc_exclusive = True\<rparr>] sample_rules ''x'') no_diag
     = (Some f, no_diag) \<and> map r_pattern (lf_rules f) = [''ab+'', []] \<and> lf_defs f = [(''D'', ''[0-9]'')]"
proof -
  obtain f loc rs where f: "parse_lex_file ''a.l'' (spec_text [(''D'', ''[0-9]'')] [\<lparr>sc_name = ''X'', sc_exclusive = True\<rparr>]
      sample_rules ''x'') no_diag = (Some f, no_diag)" "map placeless rs = map placeless sample_rules"
    "lf_defs f = [(''D'', ''[0-9]'')]" "lf_rules f = rs"
    using spec_file_roundtrip[OF sample_spec_ok, of "''a.l''" "''x''"] by auto
  have "map r_pattern rs = map r_pattern (map placeless rs)" by (simp add: placeless_def)
  with f show ?thesis by (intro exI[of _ f]) (simp add: sample_rules_def empty_rule_def placeless_def)
qed

end
