(* ===== verification/Generate.thy ===== *)
theory Generate
  imports Source_Roundtrip Front_End Regex_Text
begin

text \<open>
  The generator as a whole, from the text of a specification to the table: \<open>parse_lex_file\<close>,
  \<open>parse_pattern\<close> for each rule, the automaton and the subset construction, composed as
  \<open>core_main\<close> in \<open>src/src/main.cpp\<close> composes them.
\<close>

section \<open>A written pattern ends where it ends\<close>

lemma closed_byte:
  "b < 256 \<Longrightarrow> closed_pattern (k, True, False) (byte_text b @ ys) = closed_pattern (k, True, False) ys"
  using hex_char_scan[of "b div 16"] hex_char_scan[of "b mod 16"]
  by (simp add: byte_text_def pattern_step_def)

lemma closed_items:
  "\<forall>it\<in>set items. item_ok it \<and> (\<forall>n. it \<noteq> Posix n) \<Longrightarrow>
   closed_pattern (k, True, False) (concat (map item_text items) @ CHR '']'' # ys) = closed_pattern (k, False, False) ys"
proof (induction items)
  case (Cons it items)
  then show ?case by (cases it) (simp_all add: closed_byte pattern_step_def)
qed (simp add: pattern_step_def)

lemma closed_class: "closed_pattern (k, False, False) (print_class s @ ys) = closed_pattern (k, False, False) ys"
proof -
  have "closed_pattern (k, True, False) (concat (map item_text items) @ CHR '']'' # ys) = closed_pattern (k, False, False) ys"
    if "items = class_items s \<or> items = [Range 0 255]" for items
    using that by (intro closed_items) (auto simp: class_items_def)
  from this[of "class_items s"] this[of "[Range 0 255]"] show ?thesis
    by (simp add: print_class_def class_text_def pattern_step_def)
qed

lemma digit_not_blank: "isdigit c \<Longrightarrow> c \<notin> {CHR '' '', TAB, NL}"
  by (auto simp: isdigit_def)

lemma closed_digits:
  "\<forall>c\<in>set ds. isdigit c \<Longrightarrow> closed_pattern (k, False, False) (ds @ ys) = closed_pattern (k, False, False) ys"
proof (induction ds)
  case (Cons d ds)
  then have "d \<notin> {CHR 0x5C, CHR ''['', CHR 0x22, CHR ''('', CHR '')''}" "d \<notin> {CHR '' '', TAB, NL}"
    using digit_not_special[of d] digit_not_blank[of d] by simp_all
  then have "pattern_step d True (k, False, False) = Some (1, k, False, False)" "d \<noteq> CHR 0x5C"
    by (simp_all add: pattern_step_def)
  with Cons show ?case by simp
qed simp

lemma closed_print:
  "plain n \<Longrightarrow> closed_pattern (k, False, False) (print n @ ys) = closed_pattern (k, False, False) ys"
proof (induction n arbitrary: k ys)
  case (Repeat a lo hi)
  then show ?case by (simp add: closed_digits[OF dec_digits] pattern_step_def)
next
  case (Class s)
  then show ?case by (simp add: closed_class)
qed (simp_all add: pattern_step_def)

lemma written_pattern_ok:
  assumes "plain n"
  shows "pattern_ok (print_top bol n eol)"
proof -
  obtain c cs where c: "print n = c # cs" "c = CHR ''('' \<or> c = CHR ''[''" using print_start[OF assms] by blast
  have "closed_pattern (0, False, False) (print n @ (if eol then ''$'' else []))"
    by (simp add: closed_print[OF assms] pattern_step_def)
  with c show ?thesis by (auto simp: pattern_ok_def print_top_def pattern_step_def)
qed

section \<open>Specifications by their trees\<close>

text \<open>
  A rule by its meaning: where it is active, the tree of its pattern with its anchors and its
  action; \<open>ur_eof\<close> for \<open><<EOF>>\<close>. \<open>file_rule\<close> is the rule of the file, \<open>machine_rule\<close> that of
  the automaton.
\<close>

record user_rule =
  ur_conds :: "string list"
  ur_any :: bool
  ur_bol :: bool
  ur_tree :: node
  ur_eol :: bool
  ur_eof :: bool
  ur_action :: string

definition file_rule :: "user_rule \<Rightarrow> lex_rule" where
  "file_rule u = \<lparr>r_loc = empty_loc, r_conds = ur_conds u, r_any_state = ur_any u,
     r_pattern = (if ur_eof u then [] else print_top (ur_bol u) (ur_tree u) (ur_eol u)),
     r_action = ur_action u, r_eof = ur_eof u\<rparr>"

definition machine_rule :: "start_cond list \<Rightarrow> user_rule \<Rightarrow> pattern_rule" where
  "machine_rule conds u = (anchored (ur_bol u) (ur_tree u) (ur_eol u),
     \<lparr>rs_conds = map (the \<circ> cond_id conds) (ur_conds u), rs_any_state = ur_any u\<rparr>, 0)"

definition machine_rules :: "start_cond list \<Rightarrow> user_rule list \<Rightarrow> pattern_rule list" where
  "machine_rules conds us = map (machine_rule conds) (filter (\<lambda>u. \<not> ur_eof u) us)"

definition user_rule_ok :: "start_cond list \<Rightarrow> user_rule \<Rightarrow> bool" where
  "user_rule_ok conds u \<longleftrightarrow> plain (ur_tree u) \<and> proper (ur_tree u) \<and> list_all name_ok (ur_conds u) \<and>
     set (ur_conds u) \<subseteq> set (cond_names conds) \<and> (ur_any u \<longrightarrow> ur_conds u = []) \<and> action_ok (ur_action u)"

definition user_spec_ok :: "(string \<times> string) list \<Rightarrow> start_cond list \<Rightarrow> user_rule list \<Rightarrow> bool" where
  "user_spec_ok defs conds us \<longleftrightarrow>
     list_all def_ok defs \<and> list_all (\<lambda>sc. name_ok (sc_name sc)) conds \<and> list_all (user_rule_ok conds) us"

lemma user_spec_text: "user_spec_ok defs conds us \<Longrightarrow> spec_text_ok defs conds (map file_rule us)"
  using written_pattern_ok
  by (auto simp: user_spec_ok_def spec_text_ok_def list_all_iff user_rule_ok_def rule_text_ok_def file_rule_def)

lemma resolve_declared:
  assumes "set cns \<subseteq> set (cond_names conds)"
  shows "resolve_conds conds cns = Inr (map (the \<circ> cond_id conds) cns)"
  using assms
proof (induction cns)
  case (Cons cn cns)
  have "dom (cond_id conds) = set (cond_names conds)"
    by (simp add: cond_id_def dom_map_of_conv_image_fst image_set cond_names_def del: upt_Suc set_map)
  then have "cn \<in> dom (cond_id conds)" using Cons.prems by simp
  with Cons show ?case by auto
qed simp

lemma proper_anchored: "proper n \<Longrightarrow> clean (anchored bol n eol) = anchored bol n eol"
  by (intro clean_proper) (simp add: anchored_def Let_def)

lemma add_user_rules:
  assumes "map placeless rs = map file_rule us" "list_all (user_rule_ok (lf_conds file)) us"
    and "\<not> o_case_insensitive (lf_options file)"
    and "carries (cond_names (lf_conds file)) excl ps nfa"
  shows "\<exists>nfa'. add_rules file rs i (length ps) nfa diag = Some (Inr (nfa', diag)) \<and>
    carries (cond_names (lf_conds file)) excl (ps @ machine_rules (lf_conds file) us) nfa'"
  using assms
proof (induction us arbitrary: rs i ps nfa)
  case Nil
  then show ?case by (simp add: machine_rules_def)
next
  case (Cons u us)
  then obtain r rs' where r: "rs = r # rs'" "placeless r = file_rule u" "map placeless rs' = map file_rule us" by auto
  have f: "r_conds r = ur_conds u" "r_any_state r = ur_any u" "r_eof r = ur_eof u"
    "r_pattern r = (if ur_eof u then [] else print_top (ur_bol u) (ur_tree u) (ur_eol u))"
    using r(2) unfolding placeless_def file_rule_def by (cases r; simp)+
  have u: "plain (ur_tree u)" "proper (ur_tree u)" "set (ur_conds u) \<subseteq> set (cond_names (lf_conds file))"
    using Cons.prems(2) by (simp_all add: user_rule_ok_def)
  let ?cs = "map (the \<circ> cond_id (lf_conds file)) (ur_conds u)"
  let ?sites = "\<lparr>rs_conds = ?cs, rs_any_state = ur_any u\<rparr>"
  have cs: "resolve_conds (lf_conds file) (r_conds r) = Inr ?cs" using resolve_declared[OF u(3)] f by simp
  note less = resolve_conds_less[OF cs]
  show ?case
  proof (cases "ur_eof u")
    case True
    from Cons.IH[OF r(3) _ Cons.prems(3) carries_eof[OF Cons.prems(4)], of "Suc i"] Cons.prems(2) cs f True
    show ?thesis by (simp add: r(1) machine_rules_def)
  next
    case False
    let ?t = "anchored (ur_bol u) (ur_tree u) (ur_eol u)"
    have pp: "parse_pattern (pattern_fuel (lf_defs file) (r_pattern r)) (r_pattern r) (resolver_of (lf_defs file))
        False diag (r_loc r) = Some (\<lparr>pp_tree = ?t, pp_trail_len = 0, pp_eol_anchored = peek_is_eol_anchor ?t\<rparr>, diag)"
      using print_parse_text[OF u(1) resolver_bounded] pattern_fuel_enough f False by simp
    have "carries (cond_names (lf_conds file)) excl (ps @ [machine_rule (lf_conds file) u])
        (add_rule_to_nfa nfa ?t (length ps) ?sites 0)"
      using carries_rule[OF Cons.prems(4), of ?sites ?t 0] less by (simp add: machine_rule_def proper_anchored[OF u(2)])
    from Cons.IH[OF r(3) _ Cons.prems(3) this, of "Suc i"] Cons.prems(2) cs f False pp Cons.prems(3) anchored_not_Null[OF u(1)]
    show ?thesis by (simp add: r(1) machine_rules_def Let_def)
  qed
qed

lemma no_trails:
  assumes "\<forall>t\<in>set (nfa_rule_trail nfa). t = 0"
  shows "reject_check file nfa diag = None"
proof -
  have "\<not> nfa_rule_trail nfa ! i < 0" if "i < length (nfa_rule_trail nfa)" for i
    using bspec[OF assms nth_mem[OF that]] by simp
  then have "List.find (\<lambda>i. nfa_rule_trail nfa ! i < 0) [0..<length (nfa_rule_trail nfa)] = None"
    by (simp add: find_None_iff)
  then show ?thesis by (simp add: reject_check_def)
qed

lemma front_end_user_rules:
  assumes "map placeless (lf_rules file) = map file_rule us" "list_all (user_rule_ok (lf_conds file)) us"
    and "\<not> o_case_insensitive (apply_args a (lf_options file))" "diag_ok diag"
  shows "\<exists>fe. front_end a file diag = Some (Inr fe) \<and> fe_diag fe = diag \<and>
    carries (cond_names (lf_conds file)) (cond_excl (lf_conds file)) (machine_rules (lf_conds file) us) (fe_nfa fe) \<and>
    build_dfa (fe_nfa fe) (a_compress a \<noteq> Full) (a_compress a = Compress) = Some (fe_dfa fe)"
proof -
  define opt where "opt = the (reject_loop (lf_rules file) (apply_args a (lf_options file)))"
  have opt: "reject_loop (lf_rules file) (apply_args a (lf_options file)) = Some opt" "\<not> o_case_insensitive opt"
    using assms(3) by (simp_all add: reject_loop_exact opt_def)
  let ?F = "file\<lparr>lf_options := opt\<rparr>"
  let ?N = "init_nfa empty_nfa (cond_names (lf_conds file)) (cond_excl (lf_conds file))"
  have "carries (cond_names (lf_conds file)) (cond_excl (lf_conds file)) [] ?N"
    by (rule carries_init) (simp add: cond_names_def cond_excl_def)
  with add_user_rules[of "lf_rules file" us ?F "cond_excl (lf_conds file)" "[]" ?N 0 diag] assms(1,2) opt(2)
  obtain nfa where nfa: "add_rules ?F (lf_rules file) 0 0 ?N diag = Some (Inr (nfa, diag))"
    "carries (cond_names (lf_conds file)) (cond_excl (lf_conds file)) (machine_rules (lf_conds file) us) nfa" by auto
  obtain dfa where dfa: "build_dfa nfa (a_compress a \<noteq> Full) (a_compress a = Compress) = Some dfa"
    using build_dfa_built[OF carriesD(1)[OF nfa(2)]] by metis
  have "\<forall>t\<in>set (nfa_rule_trail nfa). t = 0"
    using carriesD(6)[OF nfa(2)] by (simp add: machine_rules_def machine_rule_def)
  with opt(1) nfa dfa assms(4) no_trails show ?thesis
    by (simp add: front_end_def Let_def)
qed

lemma generate_user_spec:
  assumes "user_spec_ok defs conds us" "\<not> a_case_insensitive a"
  shows "\<exists>file fe. parse_lex_file file_path (spec_text defs conds (map file_rule us) code) no_diag = (Some file, no_diag) \<and>
    front_end a file no_diag = Some (Inr fe) \<and> fe_diag fe = no_diag \<and>
    carries (cond_names conds) (cond_excl conds) (machine_rules conds us) (fe_nfa fe) \<and>
    build_dfa (fe_nfa fe) (a_compress a \<noteq> Full) (a_compress a = Compress) = Some (fe_dfa fe)"
proof -
  obtain lf rs where f: "parse_lex_file file_path (spec_text defs conds (map file_rule us) code) no_diag = (Some lf, no_diag)"
    "map placeless rs = map placeless (map file_rule us)" "lf_rules lf = rs" "lf_conds lf = conds"
    "lf_options lf = default_options"
    using spec_parse[OF user_spec_text[OF assms(1)], of file_path code] by (auto simp: empty_file_def)
  have "map placeless (map file_rule us) = map file_rule us" by (simp add: placeless_def file_rule_def)
  moreover have "\<not> o_case_insensitive (apply_args a (lf_options lf))"
    using assms(2) by (simp add: apply_args_def f(5) default_options_def Let_def)
  ultimately show ?thesis
    using front_end_user_rules[of lf us a no_diag] f assms(1)
    by (auto simp: user_spec_ok_def diag_ok_def no_diag_def)
qed

end
