(* ===== verification/Scanner.thy ===== *)
theory Scanner
  imports Match_Turn Generate
begin

text \<open>
  The generated scanner as a program: from the specification to the texts its actions see. The
  rules are those of the parsed file, the tables those \<open>emit_c\<close> writes in the mode of the
  command line.
\<close>

section \<open>The scanner of a specification\<close>

definition scanner_tables :: "args \<Rightarrow> front_end \<Rightarrow> scan_tables" where
  "scanner_tables a fe = emitted_tables (a_compress a) (fe_nfa fe) (fe_dfa fe)"

abbreviation code_turn :: "string list \<Rightarrow> nat list \<Rightarrow> pattern_rule list \<Rightarrow> options \<Rightarrow> scanner \<Rightarrow> turn \<Rightarrow> bool" where
  "code_turn names excl rs opt s \<equiv>
     right_turn opt (code_candidate names excl rs (ys_start s) (ys_at_bol s) (ys_buf s) (ys_pos s))
       (taken names excl rs (ys_start s) (ys_at_bol s) (ys_buf s) (ys_pos s)) s"

lemma front_end_scans_rules:
  assumes "front_end a file diag = Some (Inr fe)"
  shows "\<exists>ps. pattern_rules (fe_file fe) (lf_rules file) ps \<and>
    scans_rules (cond_names (lf_conds file)) (cond_excl (lf_conds file)) ps (a_compress a) (fe_nfa fe) (fe_dfa fe)"
  using assms
proof (rule front_endE)
  fix opt
  assume F: "fe_file fe = file\<lparr>lf_options := opt\<rparr>"
    and r: "add_rules (fe_file fe) (lf_rules file) 0 0
      (init_nfa empty_nfa (cond_names (lf_conds file)) (cond_excl (lf_conds file))) diag = Some (Inr (fe_nfa fe, fe_diag fe))"
    and d: "build_dfa (fe_nfa fe) (a_compress a \<noteq> Full) (a_compress a = Compress) = Some (fe_dfa fe)"
  have "lf_conds (fe_file fe) = lf_conds file" by (simp add: F)
  with r d show ?thesis
    using add_rules_from_start[of "fe_file fe" "lf_rules file" diag "fe_nfa fe" "fe_diag fe"]
    unfolding scans_rules_def by metis
qed

section \<open>Progress\<close>

text \<open>A rule with a trailing context takes at least one byte if its head is never empty.\<close>

definition head_nonempty :: "pattern_rule \<Rightarrow> bool" where
  "head_nonempty r \<longleftrightarrow>
     (0 < snd (snd r) \<longrightarrow> (\<forall>w\<in>rule_lang r. int (length w) \<noteq> snd (snd r))) \<and>
     (snd (snd r) < 0 \<longrightarrow> [] \<notin> rule_head r)"

lemma taken_positive:
  assumes "candidate names excl rs c bol buf mb l r" "taken names excl rs c bol buf mb l r n" "\<forall>r\<in>set rs. head_nonempty r"
  shows "0 < n"
proof -
  let ?w = "take l (drop mb buf)" and ?t = "snd (snd (rs ! r))"
  have w: "rs ! r \<in> set rs" "?w \<in> rule_lang (rs ! r)" "length ?w = l" "0 < l"
    using assms(1) by (auto simp: candidate_def text_matches_def rule_matches_def)
  then have "0 < ?t \<longrightarrow> int l \<noteq> ?t" "?t < 0 \<longrightarrow> [] \<notin> rule_head (rs ! r)"
    using bspec[OF assms(3) w(1)] w(2,3) unfolding head_nonempty_def by metis+
  moreover have "?t < 0 \<Longrightarrow> \<not> text_marks names excl rs c bol buf mb 0 r"
    using calculation(2) by (simp add: text_marks_def rule_marks_def)
  ultimately show ?thesis
    using assms(2) w(4) by (cases "n = 0") (auto simp: taken_def Let_def split: if_splits)
qed

text \<open>
  What the loop asks of actions: that they leave the bytes of the buffer alone, do not go back
  behind the text they were given and choose a start condition that exists.
\<close>

definition goes_on :: "nat \<Rightarrow> action \<Rightarrow> bool" where
  "goes_on n act \<longleftrightarrow> (\<forall>rule text s s' ret. act rule text s = (s', ret) \<longrightarrow>
     ys_buf s' = ys_buf s \<and> ys_pos s \<le> ys_pos s' \<and> (ys_start s < n \<longrightarrow> ys_start s' < n))"

lemma take_text_fields:
  "take_text opt mb len s = (text, s') \<Longrightarrow>
   ys_buf s' = ys_buf s \<and> ys_pos s' = mb + len \<and> ys_start s' = ys_start s \<and> ys_out s' = ys_out s \<and>
   ys_more_offset s' = ys_more_offset s \<and> \<not> ys_more_flag s' \<and>
   text = take (len + ys_more_offset s) (drop (mb - ys_more_offset s) (ys_buf s))"
  by (auto simp: take_text_def Let_def)

lemma turn_advances:
  assumes R: "scans_rules names excl rs mode nfa dfa" and rs: "\<forall>r\<in>set rs. head_nonempty r"
    and s: "ys_pos s < length (ys_buf s)" "ys_start s < length names"
  shows "case yy_turn opt (emitted_tables mode nfa dfa) s of
      AtEof s' \<Rightarrow> False | Jammed s' \<Rightarrow> s' = s \<and> o_nodefault opt
    | Echoed s' \<Rightarrow> s' = echo_byte opt s
    | Matched rule text s' \<Rightarrow> \<exists>n. 0 < n \<and> ys_pos s + n \<le> length (ys_buf s) \<and> take_text opt (ys_pos s) n s = (text, s')"
proof -
  have t: "code_turn names excl rs opt s (yy_turn opt (emitted_tables mode nfa dfa) s)"
    by (rule turn_is_right[OF R s])
  show ?thesis
  proof (cases "yy_turn opt (emitted_tables mode nfa dfa) s")
    case (Matched k bs s')
    with t obtain l n where ln: "k \<ge> 0"
      "best_match (code_candidate names excl rs (ys_start s) (ys_at_bol s) (ys_buf s) (ys_pos s)) (k, l)"
      "taken names excl rs (ys_start s) (ys_at_bol s) (ys_buf s) (ys_pos s) l (nat k) n"
      "take_text opt (ys_pos s) n s = (bs, s')"
      by (auto simp: right_turn_def)
    then have c: "candidate names excl rs (ys_start s) (ys_at_bol s) (ys_buf s) (ys_pos s) l (nat k)"
      by (simp add: best_match_def code_candidate_def)
    have "n \<le> l" using ln(3) by (auto simp: taken_def Let_def split: if_splits)
    with c have "ys_pos s + n \<le> length (ys_buf s)" by (simp add: candidate_def text_matches_def)
    with taken_positive[OF c ln(3) rs] ln(4) show ?thesis unfolding Matched by auto
  qed (use t in \<open>auto simp: right_turn_def\<close>)
qed

lemma yylex_ends:
  assumes R: "scans_rules names excl rs mode nfa dfa" and rs: "\<forall>r\<in>set rs. head_nonempty r"
    and act: "goes_on (length names) act" and s: "ys_start s < length names"
  shows "\<exists>ms e s'. yylex opt (emitted_tables mode nfa dfa) act s = Some (ms, e, s') \<and>
    (e = Eof \<longrightarrow> length (ys_buf s') \<le> ys_pos s')"
  using s
proof (induction "length (ys_buf s) - ys_pos s" arbitrary: s rule: less_induct)
  case less
  let ?T = "emitted_tables mode nfa dfa"
  show ?case
  proof (cases "ys_pos s < length (ys_buf s)")
    case False
    then have "yylex opt ?T act s = Some ([], Eof, s)" by (subst yylex.simps) (simp add: yy_turn_def)
    with False show ?thesis by simp
  next
    case True
    note t = turn_advances[OF R rs True less.prems, of opt]
    show ?thesis
    proof (cases "yy_turn opt ?T s")
      case (Matched k bs s')
      with t obtain n where n: "0 < n" "ys_pos s + n \<le> length (ys_buf s)" "take_text opt (ys_pos s) n s = (bs, s')"
        by auto
      note f = take_text_fields[OF n(3)]
      obtain s2 ret where a: "act k bs s' = (s2, ret)" by fastforce
      with act f have s2: "ys_buf s2 = ys_buf s" "ys_pos s + n \<le> ys_pos s2" "ys_start s2 < length names"
        using less.prems unfolding goes_on_def by metis+
      show ?thesis
      proof (cases ret)
        case True
        with Matched a show ?thesis by (subst yylex.simps) simp
      next
        case False
        let ?s3 = "after_action bs s2"
        have s3: "ys_buf ?s3 = ys_buf s" "ys_pos ?s3 = ys_pos s2" "ys_start ?s3 < length names"
          using s2 by (simp_all add: after_action_def)
        then have "length (ys_buf ?s3) - ys_pos ?s3 < length (ys_buf s) - ys_pos s" using s2(2) n(1) True by auto
        from less.hyps[OF this s3(3)] Matched a False show ?thesis by (subst yylex.simps) auto
      qed
    next
      case (Echoed s')
      with t have s': "s' = echo_byte opt s" by simp
      then have "length (ys_buf s') - ys_pos s' < length (ys_buf s) - ys_pos s" "ys_start s' < length names"
        using True less.prems by (auto simp: echo_byte_def Let_def)
      from less.hyps[OF this] Echoed show ?thesis by (subst yylex.simps) simp
    next
      case (Jammed s')
      then show ?thesis by (subst yylex.simps) simp
    qed (use t in simp)
  qed
qed

text \<open>The action \<open>ECHO\<close>, with \<open>BEGIN\<close> to a condition that depends on the rule.\<close>

definition echo_action :: "(int \<Rightarrow> nat \<Rightarrow> nat) \<Rightarrow> action" where
  "echo_action begin_at k bs s = (s\<lparr>ys_out := ys_out s @ bs, ys_start := begin_at k (ys_start s)\<rparr>, False)"

lemma yylex_copies:
  assumes R: "scans_rules names excl rs mode nfa dfa" and rs: "\<forall>r\<in>set rs. snd (snd r) = 0"
    and f: "\<forall>k c. c < length names \<longrightarrow> begin_at k c < length names"
    and opt: "\<not> o_nodefault opt" and s: "ys_start s < length names" "ys_more_offset s = 0"
  shows "\<exists>ms s'. yylex opt (emitted_tables mode nfa dfa) (echo_action begin_at) s = Some (ms, Eof, s') \<and>
    ys_out s' = ys_out s @ drop (ys_pos s) (ys_buf s)"
  using s
proof (induction "length (ys_buf s) - ys_pos s" arbitrary: s rule: less_induct)
  case less
  let ?T = "emitted_tables mode nfa dfa" and ?act = "echo_action begin_at"
  show ?case
  proof (cases "ys_pos s < length (ys_buf s)")
    case False
    then have "yylex opt ?T ?act s = Some ([], Eof, s)" by (subst yylex.simps) (simp add: yy_turn_def)
    with False show ?thesis by simp
  next
    case True
    have "\<forall>r\<in>set rs. head_nonempty r" using rs by (simp add: head_nonempty_def)
    note t = turn_advances[OF R this True less.prems(1), of opt]
    show ?thesis
    proof (cases "yy_turn opt ?T s")
      case (Matched k bs s')
      with t obtain n where n: "0 < n" "ys_pos s + n \<le> length (ys_buf s)" "take_text opt (ys_pos s) n s = (bs, s')"
        by auto
      let ?s3 = "after_action bs (fst (?act k bs s'))"
      have s3: "ys_buf ?s3 = ys_buf s" "ys_pos ?s3 = ys_pos s + n" "ys_start ?s3 < length names" "ys_more_offset ?s3 = 0"
        "ys_out ?s3 = ys_out s @ take n (drop (ys_pos s) (ys_buf s))"
        using take_text_fields[OF n(3)] less.prems f by (simp_all add: echo_action_def after_action_def)
      then have "length (ys_buf ?s3) - ys_pos ?s3 < length (ys_buf s) - ys_pos s" using n(1) True by auto
      from less.hyps[OF this s3(3,4)] obtain ms s2 where
        "yylex opt ?T ?act ?s3 = Some (ms, Eof, s2)" "ys_out s2 = ys_out ?s3 @ drop (ys_pos ?s3) (ys_buf ?s3)" by blast
      moreover have "take n (drop (ys_pos s) (ys_buf s)) @ drop (ys_pos s + n) (ys_buf s) = drop (ys_pos s) (ys_buf s)"
        by (metis add.commute append_take_drop_id drop_drop)
      moreover have "yylex opt ?T ?act s = do { (ms, e, s) \<leftarrow> yylex opt ?T ?act ?s3; Some ((k, bs) # ms, e, s) }"
        using Matched by (subst yylex.simps) (simp add: echo_action_def)
      ultimately show ?thesis using s3 by simp
    next
      case (Echoed s')
      with t have s': "s' = echo_byte opt s" by simp
      then have f: "ys_buf s' = ys_buf s" "ys_pos s' = Suc (ys_pos s)" "ys_out s' = ys_out s @ [ys_buf s ! ys_pos s]"
        "ys_start s' < length names" "ys_more_offset s' = 0"
        using less.prems by (simp_all add: echo_byte_def Let_def)
      then have "length (ys_buf s') - ys_pos s' < length (ys_buf s) - ys_pos s" using True by auto
      from less.hyps[OF this f(4,5)] Echoed f(1-3) Cons_nth_drop_Suc[OF True] show ?thesis
        by (subst yylex.simps) auto
    qed (use t opt in simp_all)
  qed
qed

section \<open>Properties\<close>

text \<open>C2. At every position of every buffer, the scanner of any parsed specification picks the longest
  of its candidates and the first rule of that length; without a candidate the default rule
  applies. The candidates are the non-empty matches of the active rules, those of \<open>$\<close> rules only
  where a line ends and only at the longest length at which any \<open>$\<close> rule matches; this last
  condition changes nothing when no \<open>$\<close> rule can match a newline, but else it hides matches. The
  text handed out is the match without its trailing context: of a fixed length, or from the
  last place on where the head of the rule matches; when the head matches again behind the end
  of the match, nothing is cut off.\<close>

theorem longest_match:
  assumes "front_end a file diag = Some (Inr fe)"
  shows "\<exists>ps. pattern_rules (fe_file fe) (lf_rules file) ps \<and>
    (\<forall>opt s. ys_pos s < length (ys_buf s) \<and> ys_start s < Suc (length (lf_conds file)) \<longrightarrow>
       code_turn (cond_names (lf_conds file)) (cond_excl (lf_conds file)) ps opt s (yy_turn opt (scanner_tables a fe) s)) \<and>
    ((\<forall>r\<in>set ps. rule_is_eol r \<longrightarrow> single_line r) \<longrightarrow>
       code_candidate (cond_names (lf_conds file)) (cond_excl (lf_conds file)) ps
       = candidate (cond_names (lf_conds file)) (cond_excl (lf_conds file)) ps)"
proof -
  obtain ps where ps: "pattern_rules (fe_file fe) (lf_rules file) ps"
    "scans_rules (cond_names (lf_conds file)) (cond_excl (lf_conds file)) ps (a_compress a) (fe_nfa fe) (fe_dfa fe)"
    using front_end_scans_rules[OF assms] by blast
  have "length (cond_names (lf_conds file)) = Suc (length (lf_conds file))" by (simp add: cond_names_def)
  with ps(1) turn_is_right[OF ps(2)] code_candidate_single_line show ?thesis
    unfolding scanner_tables_def by (intro exI[of _ ps]) (auto intro!: ext)
qed

text \<open>C3. When no rule with a trailing context can match with an empty head, every call of \<open>yylex\<close>
  returns, on every buffer, and it reports the end of the file only when the buffer is used up.
  The actions may do anything that leaves the bytes of the buffer alone, does not move the
  position back behind the text they were given, and chooses an existing start condition, and
  may return or not. An action that gives everything back, with \<open>yyless(0)\<close> or \<open>unput\<close>, is
  outside of this, and a scanner with one need not return.\<close>

theorem yylex_returns:
  assumes "front_end a file diag = Some (Inr fe)"
  shows "\<exists>ps. pattern_rules (fe_file fe) (lf_rules file) ps \<and>
    ((\<forall>r\<in>set ps. head_nonempty r) \<longrightarrow>
     (\<forall>opt act s. goes_on (Suc (length (lf_conds file))) act \<and> ys_start s < Suc (length (lf_conds file)) \<longrightarrow>
       (\<exists>ms e s'. yylex opt (scanner_tables a fe) act s = Some (ms, e, s') \<and>
          (e = Eof \<longrightarrow> length (ys_buf s') \<le> ys_pos s'))))"
proof -
  obtain ps where ps: "pattern_rules (fe_file fe) (lf_rules file) ps"
    "scans_rules (cond_names (lf_conds file)) (cond_excl (lf_conds file)) ps (a_compress a) (fe_nfa fe) (fe_dfa fe)"
    using front_end_scans_rules[OF assms] by blast
  have "length (cond_names (lf_conds file)) = Suc (length (lf_conds file))" by (simp add: cond_names_def)
  with ps(1) yylex_ends[OF ps(2)] show ?thesis unfolding scanner_tables_def by (intro exI[of _ ps]) auto
qed

text \<open>C17. No byte is lost, read twice or reordered: when no rule has a trailing context, the default
  rule is on (no \<open>nodefault\<close>) and no prefix of \<open>yymore\<close> is pending, a scanner whose actions are
  \<open>ECHO\<close>, each with a change to any existing start condition, reaches the end of its buffer and
  has then copied the rest of it to its output, whatever its patterns are.\<close>

theorem echo_copies:
  assumes "front_end a file diag = Some (Inr fe)"
  shows "\<exists>ps. pattern_rules (fe_file fe) (lf_rules file) ps \<and>
    ((\<forall>r\<in>set ps. snd (snd r) = 0) \<longrightarrow>
     (\<forall>opt begin_at s. (\<forall>k c. c \<le> length (lf_conds file) \<longrightarrow> begin_at k c \<le> length (lf_conds file)) \<and>
       \<not> o_nodefault opt \<and> ys_start s \<le> length (lf_conds file) \<and> ys_more_offset s = 0 \<longrightarrow>
       (\<exists>ms s'. yylex opt (scanner_tables a fe) (echo_action begin_at) s = Some (ms, Eof, s') \<and>
          ys_out s' = ys_out s @ drop (ys_pos s) (ys_buf s))))"
proof -
  obtain ps where ps: "pattern_rules (fe_file fe) (lf_rules file) ps"
    "scans_rules (cond_names (lf_conds file)) (cond_excl (lf_conds file)) ps (a_compress a) (fe_nfa fe) (fe_dfa fe)"
    using front_end_scans_rules[OF assms] by blast
  have "length (cond_names (lf_conds file)) = Suc (length (lf_conds file))" by (simp add: cond_names_def)
  with ps(1) yylex_copies[OF ps(2)] show ?thesis
    unfolding scanner_tables_def by (intro exI[of _ ps]) (auto simp: less_Suc_eq_le)
qed

text \<open>The scanner of \<open>sample_file\<close>, at the beginning of the text \<open>abc\<close> in the condition \<open>X\<close>.\<close>

definition at_abc :: scanner where
  "at_abc = \<lparr>ys_buf = [97, 98, 99], ys_pos = 0, ys_start = 1, ys_at_bol = True, ys_more_flag = False,
     ys_more_offset = 0, ys_lineno = 1, ys_out = []\<rparr>"

lemma sample_file_size: "length (lf_conds sample_file) = 1"
  by (simp add: sample_file_def)

lemma sample_trails:
  assumes "front_end no_args sample_file no_diag = Some (Inr fe)" "pattern_rules (fe_file fe) (lf_rules sample_file) ps"
  shows "\<forall>r\<in>set ps. snd (snd r) = 0"
proof -
  have "find_top_level_slash ''ab'' = -1" by code_simp
  then have "parse_pattern f ''ab'' macros ci d loc = Some (pp, d') \<Longrightarrow> pp_trail_len pp = 0" for f macros ci d loc pp d'
    by (auto simp: parse_pattern_def bind_eq_Some_conv Let_def)
  then show ?thesis
    using assms(2) by (auto simp: pattern_rules_def sample_file_def empty_rule_def list_all2_Cons1 rule_from_def)
qed

lemma longest_match_witness:
  "\<exists>fe ps. front_end no_args sample_file no_diag = Some (Inr fe) \<and> length ps = 1 \<and>
     code_turn [''INITIAL'', ''X''] [0, 1] ps default_options at_abc
       (yy_turn default_options (scanner_tables no_args fe) at_abc)"
proof -
  obtain fe where fe: "front_end no_args sample_file no_diag = Some (Inr fe)" using sample_front_end by blast
  obtain ps where ps: "pattern_rules (fe_file fe) (lf_rules sample_file) ps" and
    h: "\<forall>opt s. ys_pos s < length (ys_buf s) \<and> ys_start s < Suc (length (lf_conds sample_file)) \<longrightarrow>
       code_turn (cond_names (lf_conds sample_file)) (cond_excl (lf_conds sample_file)) ps opt s
         (yy_turn opt (scanner_tables no_args fe) s)"
    using longest_match[OF fe] by blast
  have at: "ys_pos at_abc < length (ys_buf at_abc) \<and> ys_start at_abc < Suc (length (lf_conds sample_file))"
    by (simp add: at_abc_def sample_file_size)
  have "cond_names (lf_conds sample_file) = [''INITIAL'', ''X'']" "cond_excl (lf_conds sample_file) = [0, 1]"
    by (simp_all add: sample_file_def cond_names_def cond_excl_def)
  with h[rule_format, OF at, of default_options]
  have "code_turn [''INITIAL'', ''X''] [0, 1] ps default_options at_abc
    (yy_turn default_options (scanner_tables no_args fe) at_abc)" by simp
  moreover have "length ps = 1"
    using ps(1) by (auto simp: pattern_rules_def sample_file_def empty_rule_def dest!: list_all2_lengthD)
  ultimately show ?thesis using fe by blast
qed

lemma yylex_returns_witness:
  "\<exists>fe ms e s'. front_end no_args sample_file no_diag = Some (Inr fe) \<and>
     yylex default_options (scanner_tables no_args fe) (\<lambda>k bs s. (s, k = 0)) at_abc = Some (ms, e, s')"
proof -
  obtain fe where fe: "front_end no_args sample_file no_diag = Some (Inr fe)" using sample_front_end by blast
  obtain ps where "pattern_rules (fe_file fe) (lf_rules sample_file) ps" and
    h: "(\<forall>r\<in>set ps. head_nonempty r) \<longrightarrow>
      (\<forall>opt act s. goes_on (Suc (length (lf_conds sample_file))) act \<and> ys_start s < Suc (length (lf_conds sample_file)) \<longrightarrow>
       (\<exists>ms e s'. yylex opt (scanner_tables no_args fe) act s = Some (ms, e, s') \<and>
          (e = Eof \<longrightarrow> length (ys_buf s') \<le> ys_pos s')))"
    using yylex_returns[OF fe] by blast
  then have "\<forall>r\<in>set ps. head_nonempty r" using sample_trails[OF fe] by (simp add: head_nonempty_def)
  moreover have "goes_on (Suc (length (lf_conds sample_file))) (\<lambda>k bs s. (s, k = 0))" by (simp add: goes_on_def)
  moreover have "ys_start at_abc < Suc (length (lf_conds sample_file))" by (simp add: at_abc_def sample_file_size)
  ultimately show ?thesis using h fe by blast
qed

lemma echo_copies_witness:
  "\<exists>fe ms s'. front_end no_args sample_file no_diag = Some (Inr fe) \<and>
     yylex default_options (scanner_tables no_args fe) (echo_action (\<lambda>k c. 0)) at_abc = Some (ms, Eof, s') \<and>
     ys_out s' = [97, 98, 99]"
proof -
  obtain fe where fe: "front_end no_args sample_file no_diag = Some (Inr fe)" using sample_front_end by blast
  obtain ps where ps: "pattern_rules (fe_file fe) (lf_rules sample_file) ps" and
    h: "(\<forall>r\<in>set ps. snd (snd r) = 0) \<longrightarrow>
     (\<forall>opt begin_at s. (\<forall>k c. c \<le> length (lf_conds sample_file) \<longrightarrow> begin_at k c \<le> length (lf_conds sample_file)) \<and>
       \<not> o_nodefault opt \<and> ys_start s \<le> length (lf_conds sample_file) \<and> ys_more_offset s = 0 \<longrightarrow>
       (\<exists>ms s'. yylex opt (scanner_tables no_args fe) (echo_action begin_at) s = Some (ms, Eof, s') \<and>
          ys_out s' = ys_out s @ drop (ys_pos s) (ys_buf s)))"
    using echo_copies[OF fe] by blast
  obtain ms s' where "yylex default_options (scanner_tables no_args fe) (echo_action (\<lambda>k c. 0)) at_abc = Some (ms, Eof, s')"
    "ys_out s' = ys_out at_abc @ drop (ys_pos at_abc) (ys_buf at_abc)"
    using h[rule_format, OF sample_trails[OF fe ps, rule_format], of "\<lambda>k c. 0" default_options at_abc]
    by (auto simp: at_abc_def sample_file_size default_options_def)
  with fe show ?thesis by (intro exI[of _ fe]) (auto simp: at_abc_def)
qed

section \<open>From the text to the tokens\<close>

text \<open>The turn of a scanner whose rules have no trailing context.\<close>

definition munches :: "(nat \<Rightarrow> nat \<Rightarrow> bool) \<Rightarrow> options \<Rightarrow> scanner \<Rightarrow> turn \<Rightarrow> bool" where
  "munches C opt s t \<longleftrightarrow>
     (case t of
        AtEof s' \<Rightarrow> False
      | Jammed s' \<Rightarrow> s' = s \<and> o_nodefault opt \<and> (\<forall>l r. \<not> C l r)
      | Echoed s' \<Rightarrow> s' = echo_byte opt s \<and> \<not> o_nodefault opt \<and> (\<forall>l r. \<not> C l r)
      | Matched rule bs s' \<Rightarrow> rule \<ge> 0 \<and> best_match C (rule, length bs) \<and>
          bs = take (length bs) (drop (ys_pos s) (ys_buf s)) \<and> ys_pos s' = ys_pos s + length bs)"

lemma right_turn_munches:
  assumes t: "right_turn opt (candidate names excl rs c bol (ys_buf s) (ys_pos s))
      (taken names excl rs c bol (ys_buf s) (ys_pos s)) s t"
    and rs: "\<forall>r\<in>set rs. snd (snd r) = 0" and s: "ys_more_offset s = 0"
  shows "munches (candidate names excl rs c bol (ys_buf s) (ys_pos s)) opt s t"
proof (cases t)
  case (Matched k bs s')
  with t obtain l n where ln: "k \<ge> 0" "best_match (candidate names excl rs c bol (ys_buf s) (ys_pos s)) (k, l)"
    "taken names excl rs c bol (ys_buf s) (ys_pos s) l (nat k) n" "take_text opt (ys_pos s) n s = (bs, s')"
    by (auto simp: right_turn_def)
  then have c: "candidate names excl rs c bol (ys_buf s) (ys_pos s) l (nat k)" by (simp add: best_match_def)
  then have "rs ! nat k \<in> set rs" "ys_pos s + l \<le> length (ys_buf s)"
    by (simp_all add: candidate_def text_matches_def rule_matches_def)
  with rs ln(3) have n: "n = l" "ys_pos s + l \<le> length (ys_buf s)" by (auto simp: taken_def Let_def)
  with take_text_fields[OF ln(4)] s have "bs = take l (drop (ys_pos s) (ys_buf s))" "ys_pos s' = ys_pos s + l" by simp_all
  moreover from this n have "length bs = l" by simp
  ultimately show ?thesis using ln(1,2) by (simp add: Matched munches_def)
qed (use t in \<open>simp_all add: munches_def right_turn_def\<close>)

definition user_single_line :: "user_rule \<Rightarrow> bool" where
  "user_single_line u \<longleftrightarrow> (ur_eol u \<longrightarrow> (\<forall>w\<in>lang (ur_tree u). 10 \<notin> set w))"

lemma machine_rules_facts:
  assumes "list_all (user_rule_ok conds) us"
  shows "\<forall>r\<in>set (machine_rules conds us). snd (snd r) = 0"
    and "list_all user_single_line us \<Longrightarrow> \<forall>r\<in>set (machine_rules conds us). rule_is_eol r \<longrightarrow> single_line r"
  using assms
  by (auto simp: machine_rules_def machine_rule_def list_all_iff user_rule_ok_def user_single_line_def single_line_def
      rule_is_eol_def rule_lang_def anchored_unwrap)

text \<open>From the text to the tokens, in one statement about the program as it is composed: write
  a specification whose rules are given by their trees, anchors, conditions and actions, the
  trees of \<open>$\<close> rules without newline. The file parser and the pattern parser read the text
  without a diagnostic, the generator succeeds in every table mode, and its scanner finds at
  every position of every buffer the longest string that matches a rule of the specification
  there, and the first such rule; where no rule matches it copies one byte, or jams under
  \<open>nodefault\<close>.\<close>

theorem spec_to_scanner:
  assumes "user_spec_ok defs conds us" "\<not> a_case_insensitive a" "list_all user_single_line us"
  shows "\<exists>file fe. parse_lex_file file_path (spec_text defs conds (map file_rule us) code) no_diag = (Some file, no_diag) \<and>
    front_end a file no_diag = Some (Inr fe) \<and> fe_diag fe = no_diag \<and>
    (\<forall>opt s. ys_pos s < length (ys_buf s) \<and> ys_start s < Suc (length conds) \<and> ys_more_offset s = 0 \<longrightarrow>
       munches (candidate (cond_names conds) (cond_excl conds) (machine_rules conds us) (ys_start s) (ys_at_bol s) (ys_buf s) (ys_pos s))
         opt s (yy_turn opt (scanner_tables a fe) s))"
proof -
  from generate_user_spec[OF assms(1,2), of file_path code] obtain lf fe where
    f: "parse_lex_file file_path (spec_text defs conds (map file_rule us) code) no_diag = (Some lf, no_diag)"
      "front_end a lf no_diag = Some (Inr fe)" "fe_diag fe = no_diag" and
    R: "scans_rules (cond_names conds) (cond_excl conds) (machine_rules conds us) (a_compress a) (fe_nfa fe) (fe_dfa fe)"
    unfolding scans_rules_def by blast
  have us: "list_all (user_rule_ok conds) us" using assms(1) by (simp add: user_spec_ok_def)
  have n: "length (cond_names conds) = Suc (length conds)" by (simp add: cond_names_def)
  have "munches (candidate (cond_names conds) (cond_excl conds) (machine_rules conds us) (ys_start s) (ys_at_bol s) (ys_buf s) (ys_pos s))
      opt s (yy_turn opt (scanner_tables a fe) s)"
    if s: "ys_pos s < length (ys_buf s)" "ys_start s < Suc (length conds)" "ys_more_offset s = 0" for opt s
  proof (rule right_turn_munches[OF _ machine_rules_facts(1)[OF us] s(3)])
    have "ys_start s < length (cond_names conds)" using s(2) n by simp
    from turn_is_right[OF R s(1) this, of opt]
    show "right_turn opt (candidate (cond_names conds) (cond_excl conds) (machine_rules conds us) (ys_start s) (ys_at_bol s) (ys_buf s) (ys_pos s))
        (taken (cond_names conds) (cond_excl conds) (machine_rules conds us) (ys_start s) (ys_at_bol s) (ys_buf s) (ys_pos s)) s
        (yy_turn opt (scanner_tables a fe) s)"
      by (simp add: scanner_tables_def code_candidate_single_line[OF machine_rules_facts(2)[OF us assms(3)]])
  qed
  with f show ?thesis by blast
qed

text \<open>The rule \<open>[\x61]+  return 1;\<close> in the exclusive condition \<open>X\<close>, on the text \<open>aab\<close>.\<close>

definition byte_a :: node where
  "byte_a = Class (bs_add bs_clear 97)"

definition sample_user_rule :: user_rule where
  "sample_user_rule = \<lparr>ur_conds = [''X''], ur_any = False, ur_bol = False, ur_tree = Plus byte_a, ur_eol = False,
     ur_eof = False, ur_action = ''return 1;''\<rparr>"

definition cond_X :: start_cond where
  "cond_X = \<lparr>sc_name = ''X'', sc_exclusive = True\<rparr>"

definition at_aab :: scanner where
  "at_aab = at_abc\<lparr>ys_buf := [97, 97, 98]\<rparr>"

lemma lang_byte_a: "lang byte_a = {[97]}"
proof -
  have "bs_test (bs_add bs_clear 97) (ub b) \<longleftrightarrow> b = 97" for b using ub_inj[of b 97] by (simp add: bs_test_add bs_test_clear)
  then show ?thesis by (auto simp: byte_a_def)
qed

lemma lang_plus_a: "w \<in> lang (Plus byte_a) \<longleftrightarrow> w \<noteq> [] \<and> set w \<subseteq> {97}"
proof
  have star: "v \<in> lstar {[97]} \<Longrightarrow> set v \<subseteq> {97}" for v :: "byte list" by (erule lstar_induct) auto
  show "w \<in> lang (Plus byte_a) \<Longrightarrow> w \<noteq> [] \<and> set w \<subseteq> {97}" using star by (auto simp: lang_byte_a elim!: concE)
  have "set v \<subseteq> {97} \<Longrightarrow> v \<in> lstar {[97]}" for v :: "byte list"
    by (induction v) (use lstar_step[of "[97]" "{[97]}"] in auto)
  then show "w \<noteq> [] \<and> set w \<subseteq> {97} \<Longrightarrow> w \<in> lang (Plus byte_a)"
    using concI[of "[97]" "{[97]}"] by (cases w) (auto simp: lang_byte_a)
qed

lemma sample_user_spec_ok: "user_spec_ok [] [cond_X] [sample_user_rule]"
proof -
  have "bs_test (bs_add bs_clear 97) 97" by (simp add: bs_test_add)
  then have "\<not> bs_empty (bs_add bs_clear 97)" using bs_empty_iff[of "bs_add bs_clear 97"] by auto
  then show ?thesis
    by (simp add: user_spec_ok_def user_rule_ok_def sample_user_rule_def name_ok_def is_name_char_def ctype_defs
        cond_names_def action_ok_def cond_X_def byte_a_def)
qed

lemma sample_candidates:
  "candidate (cond_names [cond_X]) (cond_excl [cond_X]) (machine_rules [cond_X] [sample_user_rule]) 1 bol buf mb l r \<longleftrightarrow>
   r = 0 \<and> 0 < l \<and> mb + l \<le> length buf \<and> set (take l (drop mb buf)) \<subseteq> {97}"
proof -
  have rules: "machine_rules [cond_X] [sample_user_rule] = [(Plus byte_a, \<lparr>rs_conds = [1], rs_any_state = False\<rparr>, 0)]"
    by (simp add: machine_rules_def machine_rule_def sample_user_rule_def anchored_def cond_id_def cond_names_def cond_X_def)
  have "rule_matches (cond_names [cond_X]) (cond_excl [cond_X]) (machine_rules [cond_X] [sample_user_rule]) 1 bol w r
      \<longleftrightarrow> r = 0 \<and> w \<in> lang (Plus byte_a)" for w
    unfolding rules
    by (auto simp: rule_matches_def rule_active_def active_in_def rule_lang_def unwrap_anchors_def unwrap_bol_def
        unwrap_eol_def linked_conds_def init_conds_frame init_nfa_conds cond_names_def cond_excl_def cond_X_def
        simp del: lang.simps)
  then show ?thesis
    by (auto simp: candidate_def text_matches_def lang_plus_a rules rule_is_eol_def unwrap_anchors_def unwrap_bol_def
        unwrap_eol_def simp del: lang.simps)
qed

lemma spec_to_scanner_witness:
  "\<exists>fe s'. front_end no_args (the (fst (parse_lex_file ''a.l'' (spec_text [] [cond_X] (map file_rule [sample_user_rule]) ''x'') no_diag)))
     no_diag = Some (Inr fe) \<and> yy_turn default_options (scanner_tables no_args fe) at_aab = Matched 0 [97, 97] s'"
proof -
  have "\<not> a_case_insensitive no_args" "list_all user_single_line [sample_user_rule]"
    by (simp_all add: no_args_def user_single_line_def sample_user_rule_def)
  from spec_to_scanner[OF sample_user_spec_ok this, of "''a.l''" "''x''"] obtain lf fe where
    f: "parse_lex_file ''a.l'' (spec_text [] [cond_X] (map file_rule [sample_user_rule]) ''x'') no_diag = (Some lf, no_diag)"
      "front_end no_args lf no_diag = Some (Inr fe)" and
    h: "\<forall>opt s. ys_pos s < length (ys_buf s) \<and> ys_start s < Suc (length [cond_X]) \<and> ys_more_offset s = 0 \<longrightarrow>
       munches (candidate (cond_names [cond_X]) (cond_excl [cond_X]) (machine_rules [cond_X] [sample_user_rule]) (ys_start s)
         (ys_at_bol s) (ys_buf s) (ys_pos s)) opt s (yy_turn opt (scanner_tables no_args fe) s)" by blast
  let ?C = "candidate (cond_names [cond_X]) (cond_excl [cond_X]) (machine_rules [cond_X] [sample_user_rule]) 1 True [97, 97, 98] 0"
  let ?t = "yy_turn default_options (scanner_tables no_args fe) at_aab"
  have m: "munches ?C default_options at_aab ?t"
    using h[rule_format, of at_aab default_options] by (simp add: at_aab_def at_abc_def)
  have C: "?C 2 0" "\<not> ?C 3 r" "?C l r \<Longrightarrow> r = 0 \<and> l \<le> 3" for l r
    unfolding sample_candidates by (auto simp: numeral_eq_Suc)
  show ?thesis
  proof (cases ?t)
    case (Matched k bs s')
    with m have b: "k \<ge> 0" "best_match ?C (k, length bs)" "bs = take (length bs) [97, 97, 98]"
      by (simp_all add: munches_def at_aab_def at_abc_def)
    then have c: "?C (length bs) (nat k)" "\<And>l r. ?C l r \<Longrightarrow> l < length bs \<or> l = length bs \<and> nat k \<le> r"
      unfolding best_match_def by (simp_all del: One_nat_def)
    have "2 \<le> length bs" using c(2)[OF C(1)] by linarith
    moreover have "length bs \<noteq> 3" using c(1) C(2) by metis
    ultimately have "length bs = 2" "k = 0" using C(3)[OF c(1)] b(1) by simp_all
    with b(3) have "?t = Matched 0 [97, 97] s'" using Matched by (metis numeral_2_eq_2 take0 take_Suc_Cons)
    with f show ?thesis by (intro exI[of _ fe] exI[of _ s']) simp
  qed (use m C(1) in \<open>auto simp: munches_def\<close>)
qed

end
