(* ===== verification/Reject_Loop.thy ===== *)
theory Reject_Loop
  imports Scanner
begin

text \<open>
  The loop that \<open>yy_lex_body_reject\<close> in \<open>src/src/codegen.cpp\<close> writes for scanners that use
  \<open>REJECT\<close>: it keeps, for each rule, the length of its longest match, hands out the best one,
  and goes to the next best when the action rejects. Such scanners have no trailing context of
  variable length.
\<close>

section \<open>The lengths\<close>

record reject_match =
  rj_state :: nat
  rj_scan :: nat
  rj_lens :: "int list"

definition note_lens :: "scan_tables \<Rightarrow> bool \<Rightarrow> int \<Rightarrow> int list \<Rightarrow> int list \<Rightarrow> int list" where
  "note_lens T at_eol cur found lens =
     fold (\<lambda>r lens. if st_rule_eol T ! nat r \<noteq> 0 \<and> \<not> at_eol then lens
       else if lens ! nat r < cur then lens[nat r := cur] else lens) found lens"

definition collect_accepts :: "scan_tables \<Rightarrow> byte list \<Rightarrow> nat \<Rightarrow> reject_match \<Rightarrow> reject_match" where
  "collect_accepts T buf mb m =
     (let at_eol = rj_scan m \<ge> length buf \<or> buf ! rj_scan m = 10; cur = int (rj_scan m - mb)
      in m\<lparr>rj_lens := note_lens T at_eol cur (pool_slice (st_accept T) (rj_state m)) (rj_lens m)\<rparr>)"

definition reject_start :: "scan_tables \<Rightarrow> byte list \<Rightarrow> nat \<Rightarrow> nat \<Rightarrow> bool \<Rightarrow> reject_match" where
  "reject_start T buf mb c at_bol =
     collect_accepts T buf mb
       \<lparr>rj_state = nat (if at_bol then yy_cond_bol (st_tabs T) ! c else yy_cond_normal (st_tabs T) ! c), rj_scan = mb,
        rj_lens = replicate (st_nrules T) (-1)\<rparr>"

lemma collect_scan [simp]: "rj_scan (collect_accepts T buf mb m) = rj_scan m"
  by (simp add: collect_accepts_def Let_def)

function reject_scan :: "scan_tables \<Rightarrow> byte list \<Rightarrow> nat \<Rightarrow> reject_match \<Rightarrow> reject_match" where
  "reject_scan T buf mb m =
     (if rj_scan m < length buf then
        let n = next_state T (rj_state m) (buf ! rj_scan m)
        in if n < 0 then m
           else reject_scan T buf mb (collect_accepts T buf mb (m\<lparr>rj_state := nat n, rj_scan := rj_scan m + 1\<rparr>))
      else m)"
  by pat_completeness auto
termination
  by (relation "measure (\<lambda>(T, buf, mb, m). length buf - rj_scan m)") auto

declare reject_scan.simps [simp del]

text \<open>The loop at \<open>yy_find_best\<close>.\<close>

definition find_best :: "int list \<Rightarrow> int \<times> nat" where
  "find_best lens =
     fold (\<lambda>r (rule, len). if lens ! r \<ge> 0 \<and> (rule < 0 \<or> nat (lens ! r) > len) then (int r, nat (lens ! r)) else (rule, len))
       [0..<length lens] (-1, 0)"

section \<open>The loop\<close>

datatype verdict = GoOn | Return | Reject

type_synonym reject_action = "int \<Rightarrow> byte list \<Rightarrow> scanner \<Rightarrow> scanner \<times> verdict"

datatype reject_turn = RJammed scanner | REchoed scanner | RDone int "byte list" scanner verdict

text \<open>The text without a trailing context of fixed length.\<close>

definition trim_fixed :: "scan_tables \<Rightarrow> int \<Rightarrow> nat \<Rightarrow> nat" where
  "trim_fixed T rule len =
     (let trail = yy_rule_trail_len (st_tabs T) ! nat rule
      in if trail > 0 \<and> nat trail \<le> len then len - nat trail else len)"

lemma find_best_chosen:
  "fst (find_best lens) \<ge> 0 \<longrightarrow> nat (fst (find_best lens)) < length lens \<and>
     lens ! nat (fst (find_best lens)) = int (snd (find_best lens)) \<and>
     (\<forall>r<length lens. lens ! r \<ge> 0 \<longrightarrow> lens ! r < int (snd (find_best lens)) \<or>
        lens ! r = int (snd (find_best lens)) \<and> nat (fst (find_best lens)) \<le> r)"
  "fst (find_best lens) < 0 \<longrightarrow> (\<forall>r<length lens. lens ! r < 0)"
proof -
  let ?f = "\<lambda>r (rule, len). if lens ! r \<ge> 0 \<and> (rule < 0 \<or> nat (lens ! r) > len) then (int r, nat (lens ! r)) else (rule, len)"
  have "(fst (fold ?f [0..<k] (-1, 0)) \<ge> 0 \<longrightarrow> nat (fst (fold ?f [0..<k] (-1, 0))) < k \<and>
      lens ! nat (fst (fold ?f [0..<k] (-1, 0))) = int (snd (fold ?f [0..<k] (-1, 0))) \<and>
      (\<forall>r<k. lens ! r \<ge> 0 \<longrightarrow> lens ! r < int (snd (fold ?f [0..<k] (-1, 0))) \<or>
        lens ! r = int (snd (fold ?f [0..<k] (-1, 0))) \<and> nat (fst (fold ?f [0..<k] (-1, 0))) \<le> r)) \<and>
    (fst (fold ?f [0..<k] (-1, 0)) < 0 \<longrightarrow> (\<forall>r<k. lens ! r < 0))" for k
  proof (induction k)
    case (Suc k)
    obtain v n where f: "fold ?f [0..<k] (-1, 0) = (v, n)" by fastforce
    have "fold ?f [0..<Suc k] (-1, 0) = ?f k (v, n)" using f by simp
    with Suc show ?case unfolding f by (auto simp: less_Suc_eq)
  qed simp
  from this[of "length lens"]
  show "fst (find_best lens) \<ge> 0 \<longrightarrow> nat (fst (find_best lens)) < length lens \<and>
     lens ! nat (fst (find_best lens)) = int (snd (find_best lens)) \<and>
     (\<forall>r<length lens. lens ! r \<ge> 0 \<longrightarrow> lens ! r < int (snd (find_best lens)) \<or>
        lens ! r = int (snd (find_best lens)) \<and> nat (fst (find_best lens)) \<le> r)"
    "fst (find_best lens) < 0 \<longrightarrow> (\<forall>r<length lens. lens ! r < 0)"
    unfolding find_best_def by blast+
qed

definition open_rules :: "int list \<Rightarrow> nat" where
  "open_rules lens = length (filter (\<lambda>l. l \<ge> 0) lens)"

lemma open_rules_less:
  "r < length lens \<Longrightarrow> lens ! r \<ge> 0 \<Longrightarrow> open_rules (lens[r := -1]) < open_rules lens"
  unfolding open_rules_def by (induction lens arbitrary: r) (auto simp: nth_Cons' split: nat.splits)

lemma find_best_closes:
  assumes "(k, n) = find_best lens" "\<not> (k < 0 \<or> n = 0)"
  shows "open_rules (lens[nat k := -1]) < open_rules lens"
proof -
  have "nat k < length lens" "lens ! nat k \<ge> 0"
    using assms(2) find_best_chosen(1)[of lens, folded assms(1)] by simp_all
  then show ?thesis by (rule open_rules_less)
qed

text \<open>The picks in the order \<open>REJECT\<close> goes through them.\<close>

function reject_choices :: "int list \<Rightarrow> (nat \<times> nat) list" where
  "reject_choices lens =
     (case find_best lens of (rule, len) \<Rightarrow>
        if rule < 0 \<or> len = 0 then [] else (nat rule, len) # reject_choices (lens[nat rule := -1]))"
  by pat_completeness auto
termination
  by (relation "measure open_rules") (simp_all add: find_best_closes)

declare reject_choices.simps [simp del]

text \<open>
  From \<open>yy_find_best\<close> to the end of the \<open>switch\<close>. When the action rejects, the position is that
  of the beginning of the match again; the other changes of the action stay.
\<close>

function try_rules :: "options \<Rightarrow> scan_tables \<Rightarrow> reject_action \<Rightarrow> nat \<Rightarrow> int list \<Rightarrow> scanner \<Rightarrow> reject_turn" where
  "try_rules opt T act mb lens s =
     (case find_best lens of (rule, len) \<Rightarrow>
        if rule < 0 \<or> len = 0
        then (if o_nodefault opt then RJammed s
              else REchoed (if ys_pos s < length (ys_buf s) then echo_byte opt s else s))
        else case take_text opt mb (trim_fixed T rule len) s of (text, s) \<Rightarrow>
          case act rule text s of (s, v) \<Rightarrow>
            if v = Reject then try_rules opt T act mb (lens[nat rule := -1]) (s\<lparr>ys_pos := mb\<rparr>)
            else RDone rule text s v)"
  by pat_completeness auto
termination
  by (relation "measure (\<lambda>(opt, T, act, mb, lens, s). open_rules lens)") (simp_all add: find_best_closes)

declare try_rules.simps [simp del]

text \<open>The whole loop.\<close>

definition reject_lens :: "scan_tables \<Rightarrow> scanner \<Rightarrow> int list" where
  "reject_lens T s =
     rj_lens (reject_scan T (ys_buf s) (ys_pos s) (reject_start T (ys_buf s) (ys_pos s) (ys_start s) (ys_at_bol s)))"

partial_function (option) yylex_reject ::
    "options \<Rightarrow> scan_tables \<Rightarrow> reject_action \<Rightarrow> scanner \<Rightarrow> (lex_end \<times> scanner) option" where
  "yylex_reject opt T act s =
     (if ys_pos s \<ge> length (ys_buf s) then Some (Eof, s)
      else case try_rules opt T act (ys_pos s) (reject_lens T s) s of
        RJammed s \<Rightarrow> Some (Jam, s)
      | REchoed s \<Rightarrow> yylex_reject opt T act s
      | RDone rule text s v \<Rightarrow>
          if v = Return then Some (LexReturned rule, s) else yylex_reject opt T act (after_action text s))"

section \<open>The order of the picks\<close>

lemma nth_closed: "k < length lens \<Longrightarrow> lens[k := -1] ! r = int l \<longleftrightarrow> r \<noteq> k \<and> lens ! r = int l"
  by (cases "r = k") simp_all

lemma choices_set:
  "set (reject_choices lens) = {(r, l). r < length lens \<and> 0 < l \<and> lens ! r = int l}"
proof (induction lens rule: reject_choices.induct)
  case (1 lens)
  obtain k n where b: "find_best lens = (k, n)" by fastforce
  note c = find_best_chosen[of lens, unfolded b, simplified]
  show ?case
  proof (cases "k < 0 \<or> n = 0")
    case True
    have "\<not> (r < length lens \<and> 0 < l \<and> lens ! r = int l)" for r l
      using True c by (cases "k < 0") force+
    with True b show ?thesis by (subst reject_choices.simps) auto
  next
    case False
    then have k: "nat k < length lens" "lens ! nat k = int n" "0 < n" using c by auto
    have "set (reject_choices lens) = insert (nat k, n) (set (reject_choices (lens[nat k := -1])))"
      using False b by (subst reject_choices.simps) simp
    also have "\<dots> = insert (nat k, n) {(r, l). r < length lens \<and> 0 < l \<and> lens[nat k := -1] ! r = int l}"
      using 1[OF b[symmetric] False] by simp
    also have "\<dots> = {(r, l). r < length lens \<and> 0 < l \<and> lens ! r = int l}"
      using k by (auto simp: nth_closed)
    finally show ?thesis .
  qed
qed

text \<open>Longer matches first; of the same length, the first rule first.\<close>

definition before :: "nat \<times> nat \<Rightarrow> nat \<times> nat \<Rightarrow> bool" where
  "before p q \<longleftrightarrow> snd q < snd p \<or> snd q = snd p \<and> fst p < fst q"

lemma choices_sorted: "sorted_wrt before (reject_choices lens)"
proof (induction lens rule: reject_choices.induct)
  case (1 lens)
  obtain k n where b: "find_best lens = (k, n)" by fastforce
  note c = find_best_chosen[of lens, unfolded b, simplified]
  show ?case
  proof (cases "k < 0 \<or> n = 0")
    case True
    with b show ?thesis by (subst reject_choices.simps) auto
  next
    case False
    have k: "nat k < length lens" using False c by simp
    have "before (nat k, n) (r, l)" if "(r, l) \<in> set (reject_choices (lens[nat k := -1]))" for r l
    proof -
      have "r < length lens" "r \<noteq> nat k" "lens ! r = int l" "0 < l"
        using that k by (simp_all add: choices_set nth_closed)
      moreover have "lens ! r \<ge> 0 \<longrightarrow> lens ! r < int n \<or> lens ! r = int n \<and> nat k \<le> r"
        using c(1) False \<open>r < length lens\<close> by simp
      ultimately show ?thesis by (simp add: before_def) linarith
    qed
    with 1[OF b[symmetric] False] False b show ?thesis by (subst reject_choices.simps) auto
  qed
qed

section \<open>The lengths are those of the longest matches\<close>

lemma length_note_lens [simp]: "length (note_lens T e cur xs lens) = length lens"
  unfolding note_lens_def by (induction xs arbitrary: lens) auto

lemma note_lens_Cons:
  "note_lens T e cur (x # xs) lens = note_lens T e cur xs
     (if st_rule_eol T ! nat x \<noteq> 0 \<and> \<not> e then lens else if lens ! nat x < cur then lens[nat x := cur] else lens)"
  by (simp add: note_lens_def)

lemma note_lens_nth:
  "i < length lens \<Longrightarrow> note_lens T e cur xs lens ! i =
     (if (\<exists>r\<in>set xs. nat r = i) \<and> (st_rule_eol T ! i = 0 \<or> e) \<and> lens ! i < cur then cur else lens ! i)"
proof (induction xs arbitrary: lens)
  case Nil
  then show ?case by (simp add: note_lens_def)
next
  case (Cons x xs)
  show ?case
  proof (cases "nat x = i")
    case True
    with Cons show ?thesis by (auto simp: note_lens_Cons)
  next
    case False
    with Cons show ?thesis by (auto simp: note_lens_Cons)
  qed
qed

primrec lens_at :: "scan_tables \<Rightarrow> byte list \<Rightarrow> nat \<Rightarrow> (nat \<Rightarrow> nat) \<Rightarrow> nat \<Rightarrow> int list" where
  "lens_at T buf mb q 0 =
     note_lens T (line_end buf mb) 0 (pool_slice (st_accept T) (q 0)) (replicate (st_nrules T) (-1))"
| "lens_at T buf mb q (Suc k) =
     note_lens T (line_end buf (mb + Suc k)) (int (Suc k)) (pool_slice (st_accept T) (q (Suc k))) (lens_at T buf mb q k)"

lemma length_lens_at [simp]: "length (lens_at T buf mb q k) = st_nrules T"
  by (induction k) auto

lemma reject_scan_run:
  assumes n: "steps_exact T d s0 buf mb" and j: "alive d s0 buf mb j" "\<not> alive d s0 buf mb (Suc j)" and k: "k \<le> j"
  shows "rj_lens (reject_scan T buf mb
      \<lparr>rj_state = state_at d s0 buf mb k, rj_scan = mb + k, rj_lens = lens_at T buf mb (state_at d s0 buf mb) k\<rparr>)
    = lens_at T buf mb (state_at d s0 buf mb) j"
  using k
proof (induction "j - k" arbitrary: k)
  case 0
  then have "mb + j < length buf \<Longrightarrow> next_state T (state_at d s0 buf mb j) (buf ! (mb + j)) = -1"
    using run_step[OF n j(1)] j(2) by simp
  with 0 show ?case by (subst reject_scan.simps) (auto simp: Let_def)
next
  case (Suc x)
  let ?q = "state_at d s0 buf mb"
  have a: "alive d s0 buf mb k" "alive d s0 buf mb (Suc k)" using Suc.hyps(2) by (auto intro: alive_before[OF j(1)])
  then have l: "mb + k < length buf" by (auto simp: alive_def)
  have "reject_scan T buf mb \<lparr>rj_state = ?q k, rj_scan = mb + k, rj_lens = lens_at T buf mb ?q k\<rparr>
      = reject_scan T buf mb \<lparr>rj_state = ?q (Suc k), rj_scan = mb + Suc k, rj_lens = lens_at T buf mb ?q (Suc k)\<rparr>"
    using run_step[OF n a(1) l] a(2) l
    by (subst reject_scan.simps) (simp add: Let_def collect_accepts_def line_end_def)
  with Suc.hyps(1)[of "Suc k"] Suc.hyps(2) show ?case by simp
qed

lemma lens_last:
  fixes q :: "nat \<Rightarrow> nat"
  defines "L \<equiv> \<lambda>T buf mb i l. (\<exists>r\<in>set (pool_slice (st_accept T) (q l)). nat r = i) \<and> (st_rule_eol T ! i = 0 \<or> line_end buf (mb + l))"
  assumes "i < st_nrules T"
  shows "lens_at T buf mb q k ! i = -1 \<and> (\<forall>l\<le>k. \<not> L T buf mb i l) \<or>
    (\<exists>l\<le>k. lens_at T buf mb q k ! i = int l \<and> L T buf mb i l \<and> (\<forall>l'\<le>k. L T buf mb i l' \<longrightarrow> l' \<le> l))"
proof (induction k)
  case 0
  show ?case using assms(2) by (auto simp: L_def note_lens_nth)
next
  case (Suc k)
  have le: "lens_at T buf mb q k ! i < int (Suc k)" using Suc.IH by auto
  show ?case
  proof (cases "L T buf mb i (Suc k)")
    case True
    then have "lens_at T buf mb q (Suc k) ! i = int (Suc k)"
      using assms(2) le by (simp add: L_def note_lens_nth del: of_nat_Suc)
    with True show ?thesis by (auto intro!: exI[of _ "Suc k"])
  next
    case False
    then have "lens_at T buf mb q (Suc k) ! i = lens_at T buf mb q k ! i"
      using assms(2) by (auto simp: L_def note_lens_nth)
    with Suc.IH False show ?thesis by (auto simp: le_Suc_eq)
  qed
qed

definition longest_candidate :: "(nat \<Rightarrow> nat \<Rightarrow> bool) \<Rightarrow> nat \<Rightarrow> nat \<Rightarrow> bool" where
  "longest_candidate C r l \<longleftrightarrow> C l r \<and> (\<forall>l'. C l' r \<longrightarrow> l' \<le> l)"

lemma last_longest:
  assumes "v = -1 \<and> (\<forall>l\<le>j. \<not> P l) \<or> (\<exists>l\<le>j. v = int l \<and> P l \<and> (\<forall>l'\<le>j. P l' \<longrightarrow> l' \<le> l))"
  shows "0 < l \<and> v = int l \<longleftrightarrow> (0 < l \<and> l \<le> j \<and> P l) \<and> (\<forall>l'. 0 < l' \<and> l' \<le> j \<and> P l' \<longrightarrow> l' \<le> l)"
  using assms
proof (elim disjE exE conjE)
  fix m
  assume m: "m \<le> j" "v = int m" "P m" "\<forall>l'\<le>j. P l' \<longrightarrow> l' \<le> m"
  then show ?thesis by (cases "0 < l \<and> l \<le> j \<and> P l") (force intro: le_antisym)+
qed auto

lemma reject_lens_longest:
  assumes R: "scans_rules names excl rs mode nfa dfa" and s: "ys_pos s < length (ys_buf s)" "ys_start s < length names"
  defines "C \<equiv> candidate names excl rs (ys_start s) (ys_at_bol s) (ys_buf s) (ys_pos s)"
    and "lens \<equiv> reject_lens (emitted_tables mode nfa dfa) s"
  shows "r < length lens \<and> 0 < l \<and> lens ! r = int l \<longleftrightarrow> longest_candidate C r l"
proof -
  let ?T = "emitted_tables mode nfa dfa" and ?c = "ys_start s" and ?bol = "ys_at_bol s" and ?buf = "ys_buf s" and ?mb = "ys_pos s"
  have N: "carries names excl rs nfa" using R by (simp add: scans_rules_def)
  obtain d s0 j where
    t: "nat (if ?bol then yy_cond_bol (st_tabs ?T) ! ?c else yy_cond_normal (st_tabs ?T) ! ?c) = state_at d s0 ?buf ?mb 0"
      "steps_exact ?T d s0 ?buf ?mb" "alive d s0 ?buf ?mb j" "\<not> alive d s0 ?buf ?mb (Suc j)"
      "run_reports names excl rs ?c ?bol ?buf ?mb dfa (state_at d s0 ?buf ?mb) j"
    by (rule table_states[OF R s(2) less_imp_le[OF s(1)]])
  let ?q = "state_at d s0 ?buf ?mb"
  have "reject_start ?T ?buf ?mb ?c ?bol = \<lparr>rj_state = ?q 0, rj_scan = ?mb + 0, rj_lens = lens_at ?T ?buf ?mb ?q 0\<rparr>"
    unfolding reject_start_def t(1) by (simp add: collect_accepts_def Let_def line_end_def)
  then have lens: "lens = lens_at ?T ?buf ?mb ?q j"
    using reject_scan_run[OF t(2-4), of 0] by (simp add: lens_def reject_lens_def)
  have acc: "set (pool_slice (st_accept ?T) (?q l)) = {int r |r. text_matches names excl rs ?c ?bol ?buf ?mb l r}" if "l \<le> j" for l
    using run_entries(3)[OF t(5) that] t(5) that by (simp add: emitted_tables_def pool_slice_state run_reports_def)
  have eol: "st_rule_eol ?T ! r = 0 \<longleftrightarrow> \<not> rule_is_eol (rs ! r)" if "r < length rs" for r
    using carriesD(5)[OF N] that by (auto simp: emitted_tables_def)
  have n: "st_nrules ?T = max 1 (length rs)" using carriesD(6)[OF N] by (cases rs) (simp_all add: emitted_tables_def)
  let ?L = "\<lambda>r l. (\<exists>x\<in>set (pool_slice (st_accept ?T) (?q l)). nat x = r) \<and> (st_rule_eol ?T ! r = 0 \<or> line_end ?buf (?mb + l))"
  have L: "?L r l \<longleftrightarrow> text_matches names excl rs ?c ?bol ?buf ?mb l r \<and> (rule_is_eol (rs ! r) \<longrightarrow> line_end ?buf (?mb + l))"
    if "l \<le> j" for r l
    using acc[OF that] eol[of r] by (auto simp: text_matches_def rule_matches_def)
  have C: "C l r \<longleftrightarrow> 0 < l \<and> l \<le> j \<and> ?L r l" for l r
    using L[of l r] t(5) by (auto simp: C_def candidate_def run_reports_def)
  show ?thesis
  proof (cases "r < st_nrules ?T")
    case True
    have "0 < l \<and> lens ! r = int l \<longleftrightarrow> (0 < l \<and> l \<le> j \<and> ?L r l) \<and> (\<forall>l'. 0 < l' \<and> l' \<le> j \<and> ?L r l' \<longrightarrow> l' \<le> l)"
      unfolding lens by (rule last_longest[OF lens_last[OF True]])
    with True show ?thesis unfolding longest_candidate_def C lens by simp
  next
    case False
    then have "\<not> C l r" using n by (auto simp: C_def candidate_def text_matches_def rule_matches_def)
    with False show ?thesis by (simp add: lens longest_candidate_def)
  qed
qed

section \<open>The action that runs\<close>

text \<open>
  What the loop does with a list of picks: the action of the first one runs on its text; when it
  rejects, the position goes back and the next one has its turn, on the state the action left;
  behind the last one stands the default rule.
\<close>

fun try_picks :: "options \<Rightarrow> (nat \<Rightarrow> nat \<Rightarrow> nat) \<Rightarrow> reject_action \<Rightarrow> nat \<Rightarrow> (nat \<times> nat) list \<Rightarrow> scanner \<Rightarrow> reject_turn" where
  "try_picks opt kept act mb [] s =
     (if o_nodefault opt then RJammed s else REchoed (if ys_pos s < length (ys_buf s) then echo_byte opt s else s))"
| "try_picks opt kept act mb ((r, l) # picks) s =
     (case take_text opt mb (kept r l) s of (text, s) \<Rightarrow>
        case act (int r) text s of (s, v) \<Rightarrow>
          if v = Reject then try_picks opt kept act mb picks (s\<lparr>ys_pos := mb\<rparr>) else RDone (int r) text s v)"

text \<open>The length without the trailing context of a fixed length.\<close>

definition fixed_cut :: "pattern_rule list \<Rightarrow> nat \<Rightarrow> nat \<Rightarrow> nat" where
  "fixed_cut rs r l = (let t = snd (snd (rs ! r)) in if 0 < t \<and> nat t \<le> l then l - nat t else l)"

lemma choices_step:
  assumes "find_best lens = (k, n)"
  shows "k < 0 \<or> n = 0 \<Longrightarrow> reject_choices lens = []"
    "\<not> (k < 0 \<or> n = 0) \<Longrightarrow> reject_choices lens = (nat k, n) # reject_choices (lens[nat k := -1])"
  using assms by (subst reject_choices.simps, auto)+

lemma try_rules_picks:
  assumes "\<forall>(r, l)\<in>set (reject_choices lens). trim_fixed T (int r) l = kept r l"
  shows "try_rules opt T act mb lens s = try_picks opt kept act mb (reject_choices lens) s"
  using assms
proof (induction lens arbitrary: s rule: reject_choices.induct)
  case (1 lens)
  obtain k n where b: "find_best lens = (k, n)" by fastforce
  show ?case
  proof (cases "k < 0 \<or> n = 0")
    case True
    with b show ?thesis by (subst try_rules.simps) (auto simp: choices_step(1)[OF b True])
  next
    case False
    note c = choices_step(2)[OF b False]
    with 1(2) have kept: "trim_fixed T k n = kept (nat k) n" 
      and rest: "\<forall>(r, l)\<in>set (reject_choices (lens[nat k := -1])). trim_fixed T (int r) l = kept r l"
      using False by auto
    note IH = 1(1)[OF b[symmetric] False rest]
    obtain bs s1 where t: "take_text opt mb (kept (nat k) n) s = (bs, s1)" by fastforce
    obtain s2 v where a: "act k bs s1 = (s2, v)" by fastforce
    have "int (nat k) = k" using False by simp
    then have "try_picks opt kept act mb (reject_choices lens) s = (if v = Reject
        then try_picks opt kept act mb (reject_choices (lens[nat k := -1])) (s2\<lparr>ys_pos := mb\<rparr>) else RDone k bs s2 v)"
      by (simp add: c t a)
    moreover have "try_rules opt T act mb lens s = (if v = Reject
        then try_rules opt T act mb (lens[nat k := -1]) (s2\<lparr>ys_pos := mb\<rparr>) else RDone k bs s2 v)"
      using False by (subst try_rules.simps) (simp add: b kept t a)
    ultimately show ?thesis by (simp add: IH)
  qed
qed

lemma trim_fixed_cut:
  assumes "carries names excl rs nfa" "r < length rs"
  shows "trim_fixed (emitted_tables mode nfa dfa) (int r) l = fixed_cut rs r l"
proof -
  have "nfa_rule_trail nfa = map (\<lambda>r. snd (snd r)) rs" "nfa_rule_trail nfa \<noteq> []"
    using carriesD(6)[OF assms(1)] assms(2) by auto
  with assms(2) have "yy_rule_trail_len (st_tabs (emitted_tables mode nfa dfa)) ! nat (int r) = snd (snd (rs ! r))"
    by (simp add: emitted_tables_def compiled_tables_def Let_def)
  then show ?thesis by (simp add: trim_fixed_def fixed_cut_def)
qed

text \<open>With \<open>REJECT\<close> no rule has a trailing context of variable length.\<close>

lemma reject_trails:
  assumes "reject_check file nfa d = None" "o_uses_reject (lf_options file)" "carries names excl rs nfa"
  shows "\<forall>r\<in>set rs. 0 \<le> snd (snd r)"
proof -
  have "0 \<le> snd (snd (rs ! i))" if "i < length rs" for i
  proof -
    have "\<not> nfa_rule_trail nfa ! i < 0"
      using assms(1,2) carriesD(6)[OF assms(3)] that by (auto simp: reject_check_def find_None_iff)
    with carriesD(6)[OF assms(3)] that show ?thesis by simp
  qed
  then show ?thesis by (metis in_set_conv_nth)
qed

text \<open>An action that decides by the rule alone.\<close>

definition judge :: "(int \<Rightarrow> verdict) \<Rightarrow> reject_action" where
  "judge f k bs s = (s, f k)"

definition first_kept :: "(int \<Rightarrow> verdict) \<Rightarrow> (nat \<times> nat) list \<Rightarrow> (nat \<times> nat) option" where
  "first_kept f = List.find (\<lambda>(r, l). f (int r) \<noteq> Reject)"

lemma try_picks_judge:
  assumes "ys_more_offset s = 0"
  shows "case first_kept f picks of
      None \<Rightarrow> \<exists>s'. try_picks opt kept (judge f) mb picks s = (if o_nodefault opt then RJammed s' else REchoed s')
    | Some (r, l) \<Rightarrow> \<exists>s'. try_picks opt kept (judge f) mb picks s =
        RDone (int r) (take (kept r l) (drop mb (ys_buf s))) s' (f (int r))"
  using assms
proof (induction picks arbitrary: s)
  case (Cons p picks)
  obtain r l where p: "p = (r, l)" by fastforce
  obtain bs s1 where t: "take_text opt mb (kept r l) s = (bs, s1)" by fastforce
  note fields = take_text_fields[OF t]
  show ?case
  proof (cases "f (int r) = Reject")
    case True
    then have "try_picks opt kept (judge f) mb (p # picks) s = try_picks opt kept (judge f) mb picks (s1\<lparr>ys_pos := mb\<rparr>)"
      "first_kept f (p # picks) = first_kept f picks"
      by (simp_all add: p t judge_def first_kept_def)
    with Cons.IH[of "s1\<lparr>ys_pos := mb\<rparr>"] Cons.prems fields show ?thesis by (auto split: option.splits)
  next
    case False
    with t fields Cons.prems show ?thesis by (simp add: p judge_def first_kept_def)
  qed
qed (simp add: first_kept_def)

text \<open>The set of the picks determines their order.\<close>

lemma before_unique:
  "sorted_wrt before xs \<Longrightarrow> sorted_wrt before ys \<Longrightarrow> set xs = set ys \<Longrightarrow> xs = ys"
proof (induction xs arbitrary: ys)
  case (Cons x xs)
  then obtain y zs where ys: "ys = y # zs" by (cases ys) auto
  have asym: "\<not> (before p q \<and> before q p)" for p q by (auto simp: before_def)
  have "x = y \<or> x \<in> set zs" "x = y \<or> y \<in> set xs" using Cons.prems(3) unfolding ys by auto
  then have "x = y" using Cons.prems(1,2) asym[of x y] unfolding ys by auto
  have "x \<notin> set xs" "x \<notin> set zs" using Cons.prems(1,2) asym[of x x] \<open>x = y\<close> unfolding ys by auto
  then have "set xs = set zs" using Cons.prems(3) \<open>x = y\<close> unfolding ys by auto
  then have "xs = zs" using Cons.IH[of zs] Cons.prems(1,2) unfolding ys by simp
  with \<open>x = y\<close> show ?case by (simp add: ys)
qed simp

section \<open>Properties\<close>

text \<open>C16. A scanner with \<open>REJECT\<close> tries every rule that matches at the position once, at the longest
  of its matches: longer ones first and of the same length the earlier rule first, \<open>$\<close> rules
  only where a line ends. Whatever the actions do, the loop is the run through this list: each
  action gets the text of its pick without the trailing context (which has a fixed length), one
  that rejects hands over to the next pick, and behind the last one the default rule applies.
  With actions that only decide, the text handed out is that of the first pick whose action does
  not reject. A shorter match of a rule that was rejected is not tried.\<close>

theorem reject_order:
  assumes "front_end a file diag = Some (Inr fe)"
    and "ys_pos s < length (ys_buf s)" "ys_start s < Suc (length (lf_conds file))"
  shows "\<exists>ps. pattern_rules (fe_file fe) (lf_rules file) ps \<and>
    (o_uses_reject (lf_options (fe_file fe)) \<longrightarrow> (\<forall>r\<in>set ps. 0 \<le> snd (snd r))) \<and>
    (let T = scanner_tables a fe; lens = reject_lens T s; picks = reject_choices lens;
         C = candidate (cond_names (lf_conds file)) (cond_excl (lf_conds file)) ps (ys_start s) (ys_at_bol s) (ys_buf s) (ys_pos s)
     in set picks = {(r, l). longest_candidate C r l} \<and> sorted_wrt before picks \<and>
       (\<forall>opt act. try_rules opt T act (ys_pos s) lens s = try_picks opt (fixed_cut ps) act (ys_pos s) picks s) \<and>
       (\<forall>opt f. ys_more_offset s = 0 \<longrightarrow>
         (case first_kept f picks of
            None \<Rightarrow> \<exists>s'. try_rules opt T (judge f) (ys_pos s) lens s = (if o_nodefault opt then RJammed s' else REchoed s')
          | Some (r, l) \<Rightarrow> \<exists>s'. try_rules opt T (judge f) (ys_pos s) lens s =
              RDone (int r) (take (fixed_cut ps r l) (drop (ys_pos s) (ys_buf s))) s' (f (int r)))))"
proof -
  obtain ps where ps: "pattern_rules (fe_file fe) (lf_rules file) ps"
    "scans_rules (cond_names (lf_conds file)) (cond_excl (lf_conds file)) ps (a_compress a) (fe_nfa fe) (fe_dfa fe)"
    using front_end_scans_rules[OF assms(1)] by blast
  then have N: "carries (cond_names (lf_conds file)) (cond_excl (lf_conds file)) ps (fe_nfa fe)" by (simp add: scans_rules_def)
  have trails: "o_uses_reject (lf_options (fe_file fe)) \<longrightarrow> (\<forall>r\<in>set ps. 0 \<le> snd (snd r))"
    using assms(1) by (rule front_endE) (use reject_trails[OF _ _ N] in blast)
  have "ys_start s < length (cond_names (lf_conds file))" using assms(3) by (simp add: cond_names_def)
  note l = reject_lens_longest[OF ps(2) assms(2) this]
  let ?T = "scanner_tables a fe" and ?lens = "reject_lens (scanner_tables a fe) s"
  have set: "set (reject_choices ?lens) = {(r, l). longest_candidate (candidate (cond_names (lf_conds file))
      (cond_excl (lf_conds file)) ps (ys_start s) (ys_at_bol s) (ys_buf s) (ys_pos s)) r l}"
    using l by (simp add: choices_set scanner_tables_def)
  then have "\<forall>(r, l)\<in>set (reject_choices ?lens). trim_fixed ?T (int r) l = fixed_cut ps r l"
    using trim_fixed_cut[OF N]
    by (auto simp: longest_candidate_def candidate_def text_matches_def rule_matches_def scanner_tables_def)
  note run = try_rules_picks[OF this]
  have "case first_kept f (reject_choices ?lens) of
      None \<Rightarrow> \<exists>s'. try_rules opt ?T (judge f) (ys_pos s) ?lens s = (if o_nodefault opt then RJammed s' else REchoed s')
    | Some (r, l) \<Rightarrow> \<exists>s'. try_rules opt ?T (judge f) (ys_pos s) ?lens s =
        RDone (int r) (take (fixed_cut ps r l) (drop (ys_pos s) (ys_buf s))) s' (f (int r))"
    if "ys_more_offset s = 0" for opt f
    unfolding run by (rule try_picks_judge[OF that])
  with ps(1) trails set choices_sorted run show ?thesis
    unfolding Let_def by (intro exI[of _ ps] conjI allI impI) simp_all
qed

text \<open>The rules \<open>a\<close>, \<open>ab\<close> and \<open>ab\<close> again, with an action that rejects, on the text \<open>abc\<close>.\<close>

definition reject_file :: lex_file where
  "reject_file = (empty_file empty_loc)\<lparr>lf_rules := [empty_rule\<lparr>r_pattern := ''a''\<rparr>,
     empty_rule\<lparr>r_pattern := ''ab'', r_action := ''REJECT;''\<rparr>, empty_rule\<lparr>r_pattern := ''ab''\<rparr>]\<rparr>"

definition reject_rules :: "pattern_rule list" where
  "reject_rules = (let sites = \<lparr>rs_conds = [], rs_any_state = False\<rparr>; A = Class (bs_add bs_clear 97); B = Class (bs_add bs_clear 98)
     in [(A, sites, 0), (Concat A B, sites, 0), (Concat A B, sites, 0)])"

lemma reject_parse:
  "parse_pattern (pattern_fuel [] ''ab'') ''ab'' (\<lambda>name. None) False d empty_loc =
     Some (\<lparr>pp_tree = Concat (Class (bs_add bs_clear 97)) (Class (bs_add bs_clear 98)), pp_trail_len = 0,
       pp_eol_anchored = False\<rparr>, d)"
  "parse_pattern (pattern_fuel [] ''a'') ''a'' (\<lambda>name. None) False d empty_loc =
     Some (\<lparr>pp_tree = Class (bs_add bs_clear 97), pp_trail_len = 0, pp_eol_anchored = False\<rparr>, d)"
  by code_simp+

lemma reject_file_rules:
  assumes "pattern_rules file (lf_rules reject_file) ps" "lf_defs file = []" "\<not> o_case_insensitive (lf_options file)"
  shows "ps = reject_rules"
proof -
  have "bs_test (bs_add bs_clear 97) 97" "bs_test (bs_add bs_clear 98) 98" by (simp_all add: bs_test_add)
  then have "\<not> bs_empty (bs_add bs_clear 97)" "\<not> bs_empty (bs_add bs_clear 98)"
    using bs_empty_iff[of "bs_add bs_clear 97"] bs_empty_iff[of "bs_add bs_clear 98"] by auto
  moreover have "resolver_of [] = (\<lambda>name. None)" by (simp add: resolver_of_def fun_eq_iff)
  ultimately show ?thesis
    using assms by (auto simp: pattern_rules_def reject_file_def empty_rule_def list_all2_Cons1 rule_from_def reject_parse
        reject_rules_def Let_def)
qed

lemma reject_front_end:
  "\<exists>fe. front_end no_args reject_file no_diag = Some (Inr fe) \<and>
     fe_file fe = reject_file\<lparr>lf_options := default_options\<lparr>o_uses_reject := True\<rparr>\<rparr>"
proof -
  let ?f = "reject_file\<lparr>lf_options := default_options\<lparr>o_uses_reject := True\<rparr>\<rparr>"
  have res: "resolver_of [] = (\<lambda>name. None)" by (simp add: resolver_of_def fun_eq_iff)
  have "whole_word_at ''REJECT;'' ''REJECT'' 0" by code_simp
  then have opt: "reject_loop (lf_rules reject_file) (apply_args no_args (lf_options reject_file)) =
      Some (default_options\<lparr>o_uses_reject := True\<rparr>)"
    unfolding reject_loop_exact
    by (auto simp: reject_file_def empty_file_def empty_rule_def apply_args_def no_args_def)
  have "\<exists>nfa. add_rules ?f (lf_rules reject_file) 0 0
      (init_nfa empty_nfa (cond_names (lf_conds ?f)) (cond_excl (lf_conds ?f))) no_diag = Some (Inr (nfa, no_diag))"
    by (simp add: reject_file_def empty_file_def empty_rule_def default_options_def res reject_parse)
  then obtain nfa where nfa: "add_rules ?f (lf_rules reject_file) 0 0
      (init_nfa empty_nfa (cond_names (lf_conds ?f)) (cond_excl (lf_conds ?f))) no_diag = Some (Inr (nfa, no_diag))" ..
  obtain ps where ps: "pattern_rules ?f (lf_rules reject_file) ps" "carries (cond_names (lf_conds ?f)) (cond_excl (lf_conds ?f)) ps nfa"
    using add_rules_from_start[OF nfa] by blast
  have "ps = reject_rules"
    by (rule reject_file_rules[OF ps(1)]) (simp_all add: reject_file_def empty_file_def default_options_def)
  then have "nfa_rule_trail nfa = [0, 0, 0]" using carriesD(6)[OF ps(2)] by (simp add: reject_rules_def Let_def)
  then have "reject_check ?f nfa no_diag = None" by (simp add: reject_check_def find_None_iff nth_Cons' split: if_splits)
  with opt nfa front_end_terminates[of no_args reject_file no_diag] show ?thesis
    by (auto simp: front_end_def Let_def bind_eq_Some_conv diag_ok_def no_diag_def)
qed

lemma reject_rules_size: "length reject_rules = 3"
  by (simp add: reject_rules_def Let_def)

lemma reject_candidates:
  "candidate (cond_names []) (cond_excl []) reject_rules 0 True [97, 98, 99] 0 l r \<longleftrightarrow>
     r = 0 \<and> l = 1 \<or> (r = 1 \<or> r = 2) \<and> l = 2"
proof -
  have t: "bs_test (bs_add bs_clear 97) (ub b) \<longleftrightarrow> b = 97" "bs_test (bs_add bs_clear 98) (ub b) \<longleftrightarrow> b = 98" for b
    using ub_inj[of b 97] ub_inj[of b 98] by (simp_all add: bs_test_add bs_test_clear)
  have langs: "lang (Class (bs_add bs_clear 97)) = {[97]}" "lang (Class (bs_add bs_clear 98)) = {[98]}" using t by auto
  then have lang2: "lang (Concat (Class (bs_add bs_clear 97)) (Class (bs_add bs_clear 98))) = {[97, 98]}"
    by (auto simp: conc_def)
  have three: "k < 3 \<longleftrightarrow> k = 0 \<or> k = 1 \<or> k = 2" for k :: nat by arith
  have rule: "snd (snd (unwrap_anchors (fst (reject_rules ! r)))) = False" "fst (snd (unwrap_anchors (fst (reject_rules ! r)))) = False"
    "fst (snd (reject_rules ! r)) = \<lparr>rs_conds = [], rs_any_state = False\<rparr>" if "r < 3" for r
    using that unfolding three
    by (auto simp: reject_rules_def Let_def unwrap_anchors_def unwrap_bol_def unwrap_eol_def)
  have "rule_active (init_nfa empty_nfa (cond_names []) (cond_excl [])) (reject_rules ! r) 0 True" if "r < 3" for r
    using rule[OF that]
    by (auto simp: rule_active_def active_in_def linked_conds_def init_conds_frame init_nfa_conds cond_names_def cond_excl_def split: prod.splits)
  then have all: "rule_matches (cond_names []) (cond_excl []) reject_rules 0 True w r \<longleftrightarrow> r < 3 \<and> w \<in> rule_lang (reject_rules ! r)"
    "r < 3 \<Longrightarrow> \<not> rule_is_eol (reject_rules ! r)" for w r
    using rule[of r] by (auto simp: rule_matches_def rule_is_eol_def reject_rules_size)
  have "rule_lang (reject_rules ! 0) = {[97]}" "rule_lang (reject_rules ! 1) = {[97, 98]}" "rule_lang (reject_rules ! 2) = {[97, 98]}"
    by (simp_all add: reject_rules_def Let_def rule_lang_def langs(1) lang2 del: lang.simps)
  then have m: "rule_matches (cond_names []) (cond_excl []) reject_rules 0 True w r \<longleftrightarrow> r = 0 \<and> w = [97] \<or> (r = 1 \<or> r = 2) \<and> w = [97, 98]" for w
    unfolding all(1) three by auto
  have t: "take l [97, 98, 99] = [97 :: byte] \<longleftrightarrow> l = 1" "take l [97, 98, 99] = [97 :: byte, 98] \<longleftrightarrow> l = 2" for l
    by (auto dest!: arg_cong[where f = length] simp: min_def split: if_splits)
  have "candidate (cond_names []) (cond_excl []) reject_rules 0 True [97, 98, 99] 0 l r \<longleftrightarrow>
      0 < l \<and> l \<le> 3 \<and> (r = 0 \<and> l = 1 \<or> (r = 1 \<or> r = 2) \<and> l = 2) \<and> (rule_is_eol (reject_rules ! r) \<longrightarrow> line_end [97, 98, 99] l)"
    by (simp only: candidate_def text_matches_def m t drop_0 add_0 list.size) (auto simp: numeral_3_eq_3)
  with all(2)[of 0] all(2)[of 1] all(2)[of 2] show ?thesis by auto
qed

lemma reject_order_witness:
  "\<exists>fe s'. front_end no_args reject_file no_diag = Some (Inr fe) \<and> o_uses_reject (lf_options (fe_file fe)) \<and>
     (let T = scanner_tables no_args fe; s = at_abc\<lparr>ys_start := 0\<rparr>; lens = reject_lens T s
      in reject_choices lens = [(1, 2), (2, 2), (0, 1)] \<and>
        try_rules default_options T (judge (\<lambda>k. if k = 0 then Return else Reject)) 0 lens s = RDone 0 [97] s' Return)"
proof -
  obtain fe where fe: "front_end no_args reject_file no_diag = Some (Inr fe)"
    "fe_file fe = reject_file\<lparr>lf_options := default_options\<lparr>o_uses_reject := True\<rparr>\<rparr>"
    using reject_front_end by blast
  obtain s where s: "s = at_abc\<lparr>ys_start := 0\<rparr>" by simp
  have f: "ys_buf s = [97, 98, 99]" "ys_pos s = 0" "ys_start s = 0" "ys_at_bol s = True" "ys_more_offset s = 0"
    by (simp_all add: s at_abc_def)
  have no: "lf_conds reject_file = []" by (simp add: reject_file_def empty_file_def)
  have at: "ys_pos s < length (ys_buf s)" "ys_start s < Suc (length (lf_conds reject_file))" by (simp_all add: f no)
  let ?f = "\<lambda>k. if k = 0 then Return else Reject" and ?lens = "reject_lens (scanner_tables no_args fe) s" and
    ?C = "\<lambda>ps. candidate (cond_names []) (cond_excl []) ps 0 True [97, 98, 99] 0"
  obtain ps where ps: "pattern_rules (fe_file fe) (lf_rules reject_file) ps" and
    h: "set (reject_choices ?lens) = {(r, l). longest_candidate (?C ps) r l}" "sorted_wrt before (reject_choices ?lens)"
      "\<And>opt f. case first_kept f (reject_choices ?lens) of
         None \<Rightarrow> \<exists>s'. try_rules opt (scanner_tables no_args fe) (judge f) 0 ?lens s = (if o_nodefault opt then RJammed s' else REchoed s')
       | Some (r, l) \<Rightarrow> \<exists>s'. try_rules opt (scanner_tables no_args fe) (judge f) 0 ?lens s =
           RDone (int r) (take (fixed_cut ps r l) (drop 0 [97, 98, 99])) s' (f (int r))"
    using reject_order[OF fe(1) at, unfolded Let_def f no] by blast
  have rules: "ps = reject_rules"
    by (rule reject_file_rules[OF ps]) (simp_all add: fe(2) reject_file_def empty_file_def default_options_def)
  have "reject_choices ?lens = [(1, 2), (2, 2), (0, 1)]"
    by (rule before_unique[OF h(2)]) (auto simp: h(1) rules reject_candidates longest_candidate_def before_def)
  moreover from this have "first_kept ?f (reject_choices ?lens) = Some (0, 1)" by (simp add: first_kept_def)
  moreover have "fixed_cut ps 0 1 = 1" by (simp add: rules fixed_cut_def reject_rules_def Let_def)
  ultimately show ?thesis using h(3)[of default_options ?f] fe
    unfolding s[symmetric] by (intro exI[of _ fe]) (simp add: Let_def)
qed

end
