(* ===== verification/Scanner_Limits.thy ===== *)
theory Scanner_Limits
  imports Scanner
begin

text \<open>
  Where the generated scanner differs from what its rules say: three properties of the code
  shown on small scanners.
\<close>

section \<open>Scanners of fixed strings\<close>

definition byte_class :: "nat \<Rightarrow> node" where
  "byte_class b = Class (bs_add bs_clear b)"

primrec string_tree :: "nat list \<Rightarrow> node" where
  "string_tree [] = Empty"
| "string_tree (b # bs) = Concat (byte_class b) (string_tree bs)"

lemma byte_class_lang: "b < 256 \<Longrightarrow> lang (byte_class b) = {[of_nat b]}"
proof -
  assume "b < 256"
  then have b: "ub (of_nat b) = b" by (simp add: ub_of_nat)
  have "ub x = b \<longleftrightarrow> x = of_nat b" for x using ub_inj[of x "of_nat b"] unfolding b .
  then show ?thesis by (simp add: byte_class_def bs_test_add bs_test_clear \<open>b < 256\<close>)
qed

lemma string_tree_lang: "\<forall>b\<in>set bs. b < 256 \<Longrightarrow> lang (string_tree bs) = {map of_nat bs}"
  by (induction bs) (auto simp: byte_class_lang conc_def)

lemma byte_class_proper: "b < 256 \<Longrightarrow> proper (byte_class b)"
proof -
  assume "b < 256"
  then have "bs_test (bs_add bs_clear b) b" by (simp add: bs_test_add)
  then show ?thesis using bs_empty_iff[of "bs_add bs_clear b"] \<open>b < 256\<close> by (auto simp: byte_class_def)
qed

lemma string_tree_proper: "\<forall>b\<in>set bs. b < 256 \<Longrightarrow> proper (string_tree bs)"
  by (induction bs) (auto simp: byte_class_proper)

text \<open>A rule of the condition \<open>INITIAL\<close>, without \<open>^\<close>.\<close>

definition initial_rule :: "node \<Rightarrow> int \<Rightarrow> pattern_rule" where
  "initial_rule root t = (root, \<lparr>rs_conds = [], rs_any_state = False\<rparr>, t)"

lemma initial_active:
  "\<not> fst (snd (unwrap_anchors root)) \<Longrightarrow> rule_active (init_nfa empty_nfa [''INITIAL''] [0]) (initial_rule root t) 0 bol"
  by (simp add: initial_rule_def rule_active_def active_in_def linked_conds_def init_conds_frame init_nfa_conds split: prod.splits)

lemma initial_texts:
  assumes "\<forall>x\<in>set rs. \<exists>root t. x = initial_rule root t \<and> \<not> fst (snd (unwrap_anchors root))"
  shows "text_matches [''INITIAL''] [0] rs 0 bol buf mb l r \<longleftrightarrow>
      mb + l \<le> length buf \<and> r < length rs \<and> take l (drop mb buf) \<in> lang (fst (rs ! r))"
    "text_marks [''INITIAL''] [0] rs 0 bol buf mb l r \<longleftrightarrow>
      mb + l \<le> length buf \<and> r < length rs \<and> take l (drop mb buf) \<in> head_lang (fst (rs ! r))"
proof -
  have "rule_active (init_nfa empty_nfa [''INITIAL''] [0]) (rs ! r) 0 bol" if "r < length rs"
    using assms nth_mem[OF that] initial_active by metis
  then show "text_matches [''INITIAL''] [0] rs 0 bol buf mb l r \<longleftrightarrow>
      mb + l \<le> length buf \<and> r < length rs \<and> take l (drop mb buf) \<in> lang (fst (rs ! r))"
    "text_marks [''INITIAL''] [0] rs 0 bol buf mb l r \<longleftrightarrow>
      mb + l \<le> length buf \<and> r < length rs \<and> take l (drop mb buf) \<in> head_lang (fst (rs ! r))"
    by (auto simp: text_matches_def text_marks_def rule_matches_def rule_marks_def rule_lang_def rule_head_def)
qed

text \<open>The scanner of such rules, in any table mode.\<close>

lemma initial_scanner:
  assumes "\<forall>x\<in>set rs. \<exists>root t. x = initial_rule root t \<and> proper root"
  obtains dfa where "scans_rules [''INITIAL''] [0] rs mode (spec_nfa [''INITIAL''] [0] rs) dfa"
proof -
  have "spec_ok [''INITIAL''] [0] rs"
    using assms by (auto simp: spec_ok_def rule_ok_def initial_rule_def list_all_iff)
  then have N: "carries [''INITIAL''] [0] rs (spec_nfa [''INITIAL''] [0] rs)" by (rule spec_nfa_carries)
  obtain dfa bd where "build_dfa (spec_nfa [''INITIAL''] [0] rs) (mode \<noteq> Full) (mode = Compress) = Some dfa"
    by (rule build_dfa_built[OF carriesD(1)[OF N]])
  with N that show thesis by (simp add: scans_rules_def)
qed

definition scan_from :: "byte list \<Rightarrow> nat \<Rightarrow> scanner" where
  "scan_from buf pos = \<lparr>ys_buf = buf, ys_pos = pos, ys_start = 0, ys_at_bol = False, ys_more_flag = False,
     ys_more_offset = 0, ys_lineno = 1, ys_out = []\<rparr>"

lemma less_2: "r < 2 \<longleftrightarrow> r = 0 \<or> r = (1 :: nat)" by auto

lemma le_4: "l \<le> 4 \<longleftrightarrow> l = 0 \<or> l = 1 \<or> l = 2 \<or> l = 3 \<or> l = (4 :: nat)" by auto

section \<open>A longer match of another \<open>$\<close> rule hides a match\<close>

text \<open>The rules \<open>a$\<close> and \<open>a\nb$\<close> on the text \<open>a\nbc\<close>.\<close>

definition dollar_rules :: "pattern_rule list" where
  "dollar_rules = [initial_rule (Concat (string_tree [97]) AnchorEOL) 0, initial_rule (Concat (string_tree [97, 10, 98]) AnchorEOL) 0]"

lemma dollar_langs:
  "lang (fst (dollar_rules ! 0)) = {[97]}" "lang (fst (dollar_rules ! Suc 0)) = {[97, 10, 98]}"
  by (simp_all add: dollar_rules_def initial_rule_def conc_def string_tree_lang del: string_tree.simps)

lemma dollar_eol: "r < 2 \<Longrightarrow> rule_is_eol (dollar_rules ! r)"
  by (auto simp: less_2 dollar_rules_def initial_rule_def rule_is_eol_def unwrap_anchors_def unwrap_bol_def unwrap_eol_def)

lemma dollar_texts:
  "text_matches [''INITIAL''] [0] dollar_rules 0 bol [97, 10, 98, 99] 0 l r \<longleftrightarrow> l = 1 \<and> r = 0 \<or> l = 3 \<and> r = 1"
proof -
  have "text_matches [''INITIAL''] [0] dollar_rules 0 bol [97, 10, 98, 99] 0 l r \<longleftrightarrow>
      l \<le> 4 \<and> r < 2 \<and> take l [97, 10, 98, 99] \<in> lang (fst (dollar_rules ! r))"
    by (subst initial_texts(1)) (auto simp: dollar_rules_def unwrap_anchors_def unwrap_bol_def unwrap_eol_def)
  also have "\<dots> \<longleftrightarrow> l = 1 \<and> r = 0 \<or> l = 3 \<and> r = 1"
    unfolding le_4 less_2 by (auto simp: dollar_langs)
  finally show ?thesis .
qed

lemma dollar_hidden_at:
  assumes R: "scans_rules [''INITIAL''] [0] dollar_rules mode nfa dfa"
  shows "candidate [''INITIAL''] [0] dollar_rules 0 False [97, 10, 98, 99] 0 1 0 \<and>
    yy_turn default_options (emitted_tables mode nfa dfa) (scan_from [97, 10, 98, 99] 0)
      = Echoed (echo_byte default_options (scan_from [97, 10, 98, 99] 0))"
proof
  let ?s = "scan_from [97, 10, 98, 99] 0"
  let ?M = "text_matches [''INITIAL''] [0] dollar_rules 0 False [97, 10, 98, 99] 0"
  show "candidate [''INITIAL''] [0] dollar_rules 0 False [97, 10, 98, 99] 0 1 0"
    by (simp add: candidate_def dollar_texts line_end_def)
  have "\<not> code_candidate [''INITIAL''] [0] dollar_rules 0 False [97, 10, 98, 99] 0 l r" for l r
  proof
    assume c: "code_candidate [''INITIAL''] [0] dollar_rules 0 False [97, 10, 98, 99] 0 l r"
    then have m: "?M l r" "line_end [97, 10, 98, 99] (0 + l)" "\<forall>l' r'. ?M l' r' \<and> rule_is_eol (dollar_rules ! r') \<longrightarrow> l' \<le> l"
      using dollar_eol[of r] unfolding code_candidate_def candidate_def by (auto simp: dollar_texts)
    have "?M 3 1" "rule_is_eol (dollar_rules ! 1)" using dollar_eol[of 1] by (simp_all add: dollar_texts)
    with m(3) have "3 \<le> l" by blast
    with m(1) have "l = 3" by (auto simp: dollar_texts)
    with m(2) show False by (simp add: line_end_def)
  qed
  then have none: "code_candidate [''INITIAL''] [0] dollar_rules 0 False [97, 10, 98, 99] 0 = (\<lambda>l r. False)" by (intro ext) simp
  have "right_turn default_options (\<lambda>l r. False)
      (taken [''INITIAL''] [0] dollar_rules 0 False [97, 10, 98, 99] 0) ?s (yy_turn default_options (emitted_tables mode nfa dfa) ?s)"
    using turn_is_right[OF R, of ?s default_options] by (simp add: scan_from_def none)
  then show "yy_turn default_options (emitted_tables mode nfa dfa) ?s = Echoed (echo_byte default_options ?s)"
    by (auto simp: right_turn_def best_match_def default_options_def split: turn.splits)
qed

section \<open>A boundary behind the match hides the right one\<close>

text \<open>The rule \<open>(ab|abcd)/(c|cx)\<close>, that is, a head and a tail of several lengths, on \<open>abcde\<close>.\<close>

definition split_rules :: "pattern_rule list" where
  "split_rules = [initial_rule (Concat (Alt (string_tree [97, 98]) (string_tree [97, 98, 99, 100]))
     (Concat TrailBoundary (Alt (string_tree [99]) (string_tree [99, 120])))) (-1)]"

lemma conc_image: "conc A B = (\<lambda>(u, v). u @ v) ` (A \<times> B)"
  by (auto simp: conc_def)

lemma string_tree_head: "head_lang (string_tree bs) = {}"
  by (induction bs) (simp_all add: byte_class_def)

lemma split_langs:
  "lang (fst (split_rules ! 0)) = {[97, 98, 99], [97, 98, 99, 120], [97, 98, 99, 100, 99], [97, 98, 99, 100, 99, 120]}"
  "head_lang (fst (split_rules ! 0)) = {[97, 98], [97, 98, 99, 100]}"
  by (auto simp: split_rules_def initial_rule_def conc_image string_tree_lang string_tree_head simp del: string_tree.simps)

lemma at_most_5: "0 + l \<le> length [97, 98, 99, 100, 101 :: byte] \<longleftrightarrow> l = 0 \<or> l = 1 \<or> l = 2 \<or> l = 3 \<or> l = 4 \<or> l = 5"
  by auto

lemma split_texts:
  "text_matches [''INITIAL''] [0] split_rules 0 bol [97, 98, 99, 100, 101] 0 l r \<longleftrightarrow> l = 3 \<and> r = 0"
  "text_marks [''INITIAL''] [0] split_rules 0 bol [97, 98, 99, 100, 101] 0 l r \<longleftrightarrow> (l = 2 \<or> l = 4) \<and> r = 0"
proof -
  have ok: "\<forall>x\<in>set split_rules. \<exists>root t. x = initial_rule root t \<and> \<not> fst (snd (unwrap_anchors root))"
    by (auto simp: split_rules_def unwrap_anchors_def unwrap_bol_def unwrap_eol_def)
  have r: "r < length split_rules \<longleftrightarrow> r = 0" by (simp add: split_rules_def)
  show "text_matches [''INITIAL''] [0] split_rules 0 bol [97, 98, 99, 100, 101] 0 l r \<longleftrightarrow> l = 3 \<and> r = 0"
    unfolding initial_texts(1)[OF ok] r at_most_5 by (auto simp: split_langs)
  show "text_marks [''INITIAL''] [0] split_rules 0 bol [97, 98, 99, 100, 101] 0 l r \<longleftrightarrow> (l = 2 \<or> l = 4) \<and> r = 0"
    unfolding initial_texts(2)[OF ok] r at_most_5 by (auto simp: split_langs)
qed

lemma split_turn:
  assumes R: "scans_rules [''INITIAL''] [0] split_rules mode nfa dfa"
  shows "\<exists>s'. yy_turn default_options (emitted_tables mode nfa dfa) (scan_from [97, 98, 99, 100, 101] 0)
    = Matched 0 [97, 98, 99] s'"
proof -
  let ?s = "scan_from [97, 98, 99, 100, 101] 0" and ?buf = "[97, 98, 99, 100, 101] :: byte list"
  let ?C = "code_candidate [''INITIAL''] [0] split_rules 0 False ?buf 0"
  have "\<not> rule_is_eol (split_rules ! 0)"
    by (simp add: split_rules_def initial_rule_def rule_is_eol_def unwrap_anchors_def unwrap_bol_def unwrap_eol_def)
  then have C: "?C l r \<longleftrightarrow> l = 3 \<and> r = 0" for l r by (auto simp: code_candidate_def candidate_def split_texts)
  have t: "snd (snd (split_rules ! 0)) = -1" by (simp add: split_rules_def initial_rule_def)
  have "taken [''INITIAL''] [0] split_rules 0 False ?buf 0 3 0 n \<Longrightarrow> n = 3" for n
    by (auto simp: taken_def t split_texts Let_def split: if_splits)
  moreover have "?C = (\<lambda>l r. l = 3 \<and> r = 0)" using C by (intro ext) simp
  moreover have turn: "right_turn default_options ?C (taken [''INITIAL''] [0] split_rules 0 False ?buf 0) ?s
      (yy_turn default_options (emitted_tables mode nfa dfa) ?s)"
    using turn_is_right[OF R, of ?s default_options] by (simp add: scan_from_def)
  ultimately show ?thesis
  proof (cases "yy_turn default_options (emitted_tables mode nfa dfa) ?s")
    case (Matched k bs s')
    with turn C obtain l n where k: "k = 0" "l = 3" "taken [''INITIAL''] [0] split_rules 0 False ?buf 0 l (nat k) n"
      "take_text default_options 0 n ?s = (bs, s')"
      by (auto simp: right_turn_def best_match_def scan_from_def)
    then have "n = 3" using \<open>\<And>n. taken [''INITIAL''] [0] split_rules 0 False ?buf 0 3 0 n \<Longrightarrow> n = 3\<close> by simp
    with take_text_fields[OF k(4)] have "bs = [97, 98, 99]" by (simp add: scan_from_def)
    with k Matched show ?thesis by blast
  qed (auto simp: right_turn_def)
qed

section \<open>A return keeps the length of the text that \<open>yymore\<close> kept\<close>

lemma turn_fields:
  assumes "yy_turn opt T s = Matched k bs s'"
  obtains n where "take_text opt (ys_pos s) n s = (bs, s')"
  using assms by (auto simp: yy_turn_def Let_def split: if_splits prod.splits)

text \<open>The rule \<open>a\<close>.\<close>

definition single_rule :: "pattern_rule list" where
  "single_rule = [initial_rule (string_tree [97]) 0]"

lemma single_turn:
  assumes R: "scans_rules [''INITIAL''] [0] single_rule mode nfa dfa"
    and s: "ys_pos s < length (ys_buf s)" "ys_start s = 0" "ys_buf s ! ys_pos s = 97"
  shows "\<exists>bs s'. yy_turn default_options (emitted_tables mode nfa dfa) s = Matched 0 bs s' \<and>
    take_text default_options (ys_pos s) 1 s = (bs, s')"
proof -
  let ?C = "code_candidate [''INITIAL''] [0] single_rule 0 (ys_at_bol s) (ys_buf s) (ys_pos s)"
  have "\<not> fst (snd (unwrap_anchors (string_tree [97])))" by (simp add: unwrap_anchors_def unwrap_bol_def unwrap_eol_def byte_class_def)
  then have ok: "\<forall>x\<in>set single_rule. \<exists>root t. x = initial_rule root t \<and> \<not> fst (snd (unwrap_anchors root))"
    by (auto simp: single_rule_def simp del: string_tree.simps)
  have ne: "single_rule \<noteq> []" and r: "r < length single_rule \<longleftrightarrow> r = 0" and t: "snd (snd (single_rule ! 0)) = 0" and e: "\<not> rule_is_eol (single_rule ! 0)" for r
    by (simp_all add: single_rule_def initial_rule_def rule_is_eol_def unwrap_anchors_def unwrap_bol_def unwrap_eol_def)
  have lang: "lang (fst (single_rule ! 0)) = {[97]}"
    by (simp add: single_rule_def initial_rule_def string_tree_lang del: string_tree.simps)
  have "take l (drop (ys_pos s) (ys_buf s)) = [97] \<longleftrightarrow> l = 1" if "ys_pos s + l \<le> length (ys_buf s)" for l
  proof
    assume "take l (drop (ys_pos s) (ys_buf s)) = [97]"
    then have "length (take l (drop (ys_pos s) (ys_buf s))) = 1" by simp
    with that show "l = 1" by simp
  next
    assume "l = 1"
    then show "take l (drop (ys_pos s) (ys_buf s)) = [97]" using Cons_nth_drop_Suc[OF s(1)] s(3) by (metis One_nat_def take0 take_Suc_Cons)
  qed
  then have C: "?C = (\<lambda>l r. l = 1 \<and> r = 0)"
    using s(1) by (intro ext) (auto simp: code_candidate_def candidate_def initial_texts(1)[OF ok] r lang e ne)
  have turn: "right_turn default_options ?C (taken [''INITIAL''] [0] single_rule 0 (ys_at_bol s) (ys_buf s) (ys_pos s)) s
      (yy_turn default_options (emitted_tables mode nfa dfa) s)"
    using turn_is_right[OF R s(1), of default_options] s(2) by simp
  show ?thesis
  proof (cases "yy_turn default_options (emitted_tables mode nfa dfa) s")
    case (Matched k bs s')
    with turn C obtain l n where k: "k = 0" "l = 1" "taken [''INITIAL''] [0] single_rule 0 (ys_at_bol s) (ys_buf s) (ys_pos s) l (nat k) n"
      "take_text default_options (ys_pos s) n s = (bs, s')"
      by (auto simp: right_turn_def best_match_def)
    then have "n = 1" by (simp add: taken_def t)
    with k Matched show ?thesis by blast
  qed (use turn C in \<open>auto simp: right_turn_def\<close>)
qed

section \<open>Properties\<close>

text \<open>Rules that end in \<open>$\<close> can hide each other: with \<open>a$\<close> and \<open>a\nb$\<close> on the text
  \<open>a\nbc\<close>, the first rule matches the first line, but the loop only asks whether a line ends
  behind the longest match of a \<open>$\<close> rule, so no rule is picked and \<open>a\<close> is copied to the output.\<close>

theorem dollar_hidden:
  "\<exists>nfa dfa. scans_rules [''INITIAL''] [0] dollar_rules mode nfa dfa \<and>
    candidate [''INITIAL''] [0] dollar_rules 0 False [97, 10, 98, 99] 0 1 0 \<and>
    yy_turn default_options (emitted_tables mode nfa dfa) (scan_from [97, 10, 98, 99] 0)
      = Echoed (echo_byte default_options (scan_from [97, 10, 98, 99] 0))"
proof -
  have "\<forall>x\<in>set dollar_rules. \<exists>root t. x = initial_rule root t \<and> proper root"
    by (auto simp: dollar_rules_def byte_class_proper)
  then obtain dfa where "scans_rules [''INITIAL''] [0] dollar_rules mode (spec_nfa [''INITIAL''] [0] dollar_rules) dfa"
    by (rule initial_scanner)
  with dollar_hidden_at show ?thesis by blast
qed

text \<open>A trailing context of variable length can be cut in the wrong place: with
  \<open>(ab|abcd)/(c|cx)\<close> on \<open>abcde\<close> the match is \<open>abc\<close>, whose only split is \<open>ab\<close> and \<open>c\<close>, but the
  boundary noted behind \<open>abcd\<close>, beyond the match, replaces the one behind \<open>ab\<close>, and the action
  sees \<open>abc\<close> with its trailing context.\<close>

theorem late_boundary_hides_split:
  "\<exists>nfa dfa s'. scans_rules [''INITIAL''] [0] split_rules mode nfa dfa \<and>
    yy_turn default_options (emitted_tables mode nfa dfa) (scan_from [97, 98, 99, 100, 101] 0) = Matched 0 [97, 98, 99] s' \<and>
    [97, 98, 99] \<notin> rule_head (split_rules ! 0) \<and> [97, 98] \<in> rule_head (split_rules ! 0)"
proof -
  have "\<forall>x\<in>set split_rules. \<exists>root t. x = initial_rule root t \<and> proper root"
    by (auto simp: split_rules_def byte_class_proper)
  then obtain dfa where R: "scans_rules [''INITIAL''] [0] split_rules mode (spec_nfa [''INITIAL''] [0] split_rules) dfa"
    by (rule initial_scanner)
  with split_turn[OF R] split_langs(2) show ?thesis unfolding rule_head_def by auto
qed

text \<open>When the action of a text that was lengthened by \<open>yymore\<close> returns, the length of the kept
  part is not cleared: the next call of \<open>yylex\<close> hands its rule a text that begins as many bytes
  before the position, with the end of the text already delivered.\<close>

theorem more_offset_survives_return:
  assumes "yy_turn opt T s = Matched r t s1" "act r t s1 = (s1, True)" "yy_turn opt T s1 = Matched r' t' s2"
  shows "yylex opt T act s = Some ([(r, t)], LexReturned r, s1) \<and>
    (\<exists>n. ys_pos s2 = ys_pos s1 + n \<and>
       t' = take (n + ys_more_offset s) (drop (ys_pos s1 - ys_more_offset s) (ys_buf s)))"
proof -
  obtain n where n: "take_text opt (ys_pos s) n s = (t, s1)" by (rule turn_fields[OF assms(1)])
  obtain m where m: "take_text opt (ys_pos s1) m s1 = (t', s2)" by (rule turn_fields[OF assms(3)])
  from take_text_fields[OF n] take_text_fields[OF m] assms(1,2) show ?thesis
    by (subst yylex.simps) (auto intro!: exI[of _ m])
qed

lemma more_offset_survives_return_witness:
  "\<exists>nfa dfa s1 s2. scans_rules [''INITIAL''] [0] single_rule Compress nfa dfa \<and>
     yylex default_options (emitted_tables Compress nfa dfa) (\<lambda>k bs s. (s, True))
       (scan_from [97, 97, 97] 1\<lparr>ys_more_offset := 1\<rparr>) = Some ([(0, [97, 97])], LexReturned 0, s1) \<and>
     yy_turn default_options (emitted_tables Compress nfa dfa) s1 = Matched 0 [97, 97] s2 \<and> ys_pos s2 = ys_pos s1 + 1"
proof -
  have "\<forall>x\<in>set single_rule. \<exists>root t. x = initial_rule root t \<and> proper root"
    by (auto simp: single_rule_def byte_class_proper)
  then obtain dfa where R: "scans_rules [''INITIAL''] [0] single_rule Compress (spec_nfa [''INITIAL''] [0] single_rule) dfa"
    by (rule initial_scanner)
  let ?T = "emitted_tables Compress (spec_nfa [''INITIAL''] [0] single_rule) dfa"
  let ?s = "scan_from [97, 97, 97] 1\<lparr>ys_more_offset := 1\<rparr>" and ?act = "\<lambda>k bs s. (s, True)"
  obtain bs s1 where 1: "yy_turn default_options ?T ?s = Matched 0 bs s1" "take_text default_options 1 1 ?s = (bs, s1)"
    using single_turn[OF R, of ?s] by (auto simp: scan_from_def)
  note f = take_text_fields[OF 1(2)]
  have s1: "ys_buf s1 = [97, 97, 97]" "ys_pos s1 = 2" "ys_start s1 = 0" "bs = [97, 97]"
    using f by (simp_all add: scan_from_def)
  obtain bs' s2 where 2: "yy_turn default_options ?T s1 = Matched 0 bs' s2" "take_text default_options 2 1 s1 = (bs', s2)"
    using single_turn[OF R, of s1] s1 by auto
  have "ys_pos s2 = ys_pos s1 + 1" using take_text_fields[OF 2(2)] s1 by simp
  moreover from more_offset_survives_return[OF 1(1) _ 2(1), of ?act] have y:
    "yylex default_options ?T ?act ?s = Some ([(0, bs)], LexReturned 0, s1)"
    "\<exists>n. ys_pos s2 = ys_pos s1 + n \<and> bs' = take (n + ys_more_offset ?s) (drop (ys_pos s1 - ys_more_offset ?s) (ys_buf ?s))"
    by simp_all
  moreover from y(2) calculation(1) have "bs' = [97, 97]" using s1 by (auto simp: scan_from_def)
  ultimately have "yy_turn default_options ?T s1 = Matched 0 [97, 97] s2" "ys_pos s2 = ys_pos s1 + 1"
    "yylex default_options ?T ?act ?s = Some ([(0, [97, 97])], LexReturned 0, s1)"
    using 2(1) y(1) s1(4) by simp_all
  with R show ?thesis by blast
qed

end
