(* ===== verification/Emit_Text.thy ===== *)
theory Emit_Text
  imports Front_End Source_Lex
begin

text \<open>
  The pieces of C text that the helpers of \<open>src/src/codegen.cpp\<close> append to the output: line
  directives, arrays, names, and the two \<open>switch\<close> statements that run the actions. \<open>out\<close> is the
  text so far, as in the code.
\<close>

section \<open>Line directives\<close>

definition count_lines :: "string \<Rightarrow> nat" where
  "count_lines s = length (filter (\<lambda>c. c = NL) s)"

definition directive_text :: "nat \<Rightarrow> string \<Rightarrow> string" where
  "directive_text line file_name =
     ''#line '' @ dec line @ '' '' @ [CHR 0x22] @
     concat (map (\<lambda>c. if c = CHR 0x5C \<or> c = CHR 0x22 then [CHR 0x5C, c] else [c]) file_name) @ [CHR 0x22, NL]"

definition emit_line_directive :: "string \<Rightarrow> string \<Rightarrow> nat \<Rightarrow> bool \<Rightarrow> string" where
  "emit_line_directive out file_name line enabled = (if enabled then out @ directive_text line file_name else out)"

definition restore_line_directive :: "string \<Rightarrow> string \<Rightarrow> bool \<Rightarrow> string" where
  "restore_line_directive out gen_file enabled =
     (if enabled then out @ directive_text (count_lines out + 2) gen_file else out)"

section \<open>Arrays\<close>

definition storage_class :: "bool \<Rightarrow> string" where
  "storage_class loadable = (if loadable then ''static '' else ''static const '')"

text \<open>The values, sixteen on a line.\<close>

fun value_lines :: "nat \<Rightarrow> int list \<Rightarrow> string" where
  "value_lines i [] = []"
| "value_lines i (v # vs) =
     (if i mod 16 = 0 then NL # ''    '' else []) @ dec_int v @ '','' @ value_lines (i + 1) vs"

definition append_int_array :: "bool \<Rightarrow> string \<Rightarrow> string \<Rightarrow> string \<Rightarrow> int list \<Rightarrow> string" where
  "append_int_array loadable out name ctype vals =
     out @ storage_class loadable @ ctype @ '' '' @ name @ ''['' @ dec (if vals = [] then 1 else length vals) @ ''] = {'' @
     value_lines 0 vals @ (if vals = [] then ''0'' else []) @ NL # ''};'' @ [NL]"

definition row_text :: "nat \<Rightarrow> int list \<Rightarrow> nat \<Rightarrow> string" where
  "row_text cols vals r =
     NL # ''    {'' @ concat (map (\<lambda>c. dec_int (vals ! (r * cols + c)) @ '','') [0..<cols]) @ ''},''"

definition append_2d_array :: "bool \<Rightarrow> string \<Rightarrow> string \<Rightarrow> string \<Rightarrow> nat \<Rightarrow> nat \<Rightarrow> int list \<Rightarrow> string" where
  "append_2d_array loadable out name ctype rows cols vals =
     out @ storage_class loadable @ ctype @ '' '' @ name @
     ''['' @ dec (if rows = 0 then 1 else rows) @ '']['' @ dec (if cols = 0 then 1 else cols) @ ''] = {'' @
     concat (map (row_text cols vals) [0..<rows]) @ NL # ''};'' @ [NL]"

section \<open>Names\<close>

definition kPrefixSyms :: "string list" where
  "kPrefixSyms =
     [''yytext'', ''yyleng'', ''yylineno'', ''yyin'', ''yyout'', ''yylex'', ''yywrap'', ''yyrestart'',
      ''yylex_init'', ''yylex_init_extra'', ''yylex_destroy'', ''yy_scan_string'', ''yy_scan_buffer'',
      ''yy_scan_bytes'', ''yy_create_buffer'', ''yy_delete_buffer'', ''yy_init_buffer'', ''yy_flush_buffer'',
      ''yy_load_buffer_state'', ''yy_switch_to_buffer'', ''yypush_buffer_state'', ''yypop_buffer_state'',
      ''yyensure_buffer_stack'', ''yyget_debug'', ''yyset_debug'', ''yyget_extra'', ''yyset_extra'', ''yyget_in'',
      ''yyset_in'', ''yyget_out'', ''yyset_out'', ''yyget_leng'', ''yyget_text'', ''yyget_lineno'', ''yyset_lineno'',
      ''yyget_column'', ''yyset_column'', ''yyget_lval'', ''yyset_lval'', ''yyget_lloc'', ''yyset_lloc'',
      ''yy_push_state'', ''yy_pop_state'', ''yy_top_state'', ''yyalloc'', ''yyrealloc'', ''yyfree'', ''yy_flex_debug'']"

definition is_reentrant_only_global :: "string \<Rightarrow> bool" where
  "is_reentrant_only_global name \<longleftrightarrow> name \<in> set [''yytext'', ''yyleng'', ''yylineno'', ''yyin'', ''yyout'']"

definition emit_prefix_defines :: "string \<Rightarrow> lex_file \<Rightarrow> string" where
  "emit_prefix_defines out f =
     (let pfx = o_prefix (lf_options f)
      in if pfx = ''yy'' then out
         else fold (\<lambda>sym out. if o_reentrant (lf_options f) \<and> is_reentrant_only_global sym then out
                              else out @ ''#define '' @ sym @ '' '' @ pfx @ drop 2 sym @ [NL]) kPrefixSyms out @ [NL])"

definition emit_cond_defines :: "string \<Rightarrow> lex_file \<Rightarrow> string" where
  "emit_cond_defines out f =
     fold (\<lambda>i out. out @ ''#define '' @ sc_name (lf_conds f ! i) @ '' '' @ dec (i + 1) @ [NL]) [0..<length (lf_conds f)]
       (out @ ''#define INITIAL 0'' @ [NL]) @ [NL]"

definition yylex_signature :: "lex_file \<Rightarrow> string" where
  "yylex_signature f =
     (let add = (\<lambda>a (s, first). (s @ (if first then [] else '', '') @ a, False));
          p = (''int yylex('', True);
          p = (if o_bison_bridge (lf_options f) then add ''YYSTYPE *yylval_param'' p else p);
          p = (if o_bison_locations (lf_options f) then add ''YYLTYPE *yylloc_param'' p else p);
          p = (if o_reentrant (lf_options f) then add ''yyscan_t yyscanner'' p else p)
      in fst p @ (if snd p then ''void'' else []) @ '')'')"

section \<open>The actions\<close>

record rule_map =
  nfa_id :: "int list"
  total_nfa_rules :: nat

definition make_rule_map :: "lex_file \<Rightarrow> rule_map" where
  "make_rule_map f =
     fold (\<lambda>r m. if r_eof r then m\<lparr>nfa_id := nfa_id m @ [-1]\<rparr>
                 else m\<lparr>nfa_id := nfa_id m @ [int (total_nfa_rules m)], total_nfa_rules := total_nfa_rules m + 1\<rparr>)
       (lf_rules f) \<lparr>nfa_id = [], total_nfa_rules = 0\<rparr>"

text \<open>One \<open>case\<close> of the \<open>switch\<close> over the rules, and of that over the conditions.\<close>

definition action_case :: "lex_file \<Rightarrow> rule_map \<Rightarrow> bool \<Rightarrow> nat \<Rightarrow> string \<Rightarrow> string" where
  "action_case f rm line_directives i out =
     (let r = lf_rules f ! i
      in if r_eof r then out
         else let out = out @ ''    case '' @ dec_int (nfa_id rm ! i) @ '':''
              in if r_action r = ''|'' then out @ '' /* fall through */'' @ [NL]
                 else let out = out @ '' {'' @ [NL];
                          out = emit_line_directive out (sl_file (r_loc r)) (sl_line (r_loc r)) line_directives
                      in out @ r_action r @ NL # ''    } break;'' @ [NL])"

definition emit_action_dispatch :: "string \<Rightarrow> lex_file \<Rightarrow> rule_map \<Rightarrow> bool \<Rightarrow> string" where
  "emit_action_dispatch out f rm line_directives =
     fold (action_case f rm line_directives) [0..<length (lf_rules f)] (out @ ''switch (yy_rule) {'' @ [NL]) @
     ''    default: break;'' @ [NL] @ ''}'' @ [NL]"

definition eof_rule_of :: "nfa \<Rightarrow> nat \<Rightarrow> nat option" where
  "eof_rule_of nfa c = (case nfa_eof_rules nfa ! c of [] \<Rightarrow> None | r # _ \<Rightarrow> Some r)"

definition eof_case :: "lex_file \<Rightarrow> nfa \<Rightarrow> nat \<Rightarrow> string \<Rightarrow> string" where
  "eof_case f nfa c out =
     (let out = out @ ''    case '' @ dec c @ '':''
      in case eof_rule_of nfa c of
           None \<Rightarrow> out @ '' yyterminate();'' @ [NL]
         | Some i \<Rightarrow> out @ '' {'' @ [NL] @ r_action (lf_rules f ! i) @ NL # ''    } break;'' @ [NL])"

definition emit_eof_dispatch :: "string \<Rightarrow> lex_file \<Rightarrow> nfa \<Rightarrow> string" where
  "emit_eof_dispatch out f nfa =
     fold (eof_case f nfa) [0..<length (nfa_cond_starts nfa)] (out @ ''switch (yy_start) {'' @ [NL]) @
     ''    default: yyterminate();'' @ [NL] @ ''}'' @ [NL]"

section \<open>Reading the text back\<close>

text \<open>The numbers of an initialiser: what stands behind the first brace.\<close>

definition c_int :: "string \<Rightarrow> int" where
  "c_int s = (if take 1 s = ''-'' then - int (number 0 (drop 1 s)) else int (number 0 s))"

fun c_values :: "string \<Rightarrow> string \<Rightarrow> int list" where
  "c_values s [] = []"
| "c_values s (c # cs) =
     (if isdigit c \<or> c = CHR ''-'' then c_values (s @ [c]) cs
      else if s = [] then c_values [] cs else c_int s # c_values [] cs)"

definition initialiser :: "string \<Rightarrow> int list" where
  "initialiser decl = c_values [] (dropWhile (\<lambda>c. c \<noteq> CHR ''{'') decl)"

lemma c_values_token:
  "\<forall>c\<in>set w. isdigit c \<or> c = CHR ''-'' \<Longrightarrow> c_values s (w @ t) = c_values (s @ w) t"
  by (induction w arbitrary: s) auto

lemma digit_not_minus: "isdigit c \<Longrightarrow> c \<noteq> CHR ''-''"
  by (auto simp: isdigit_def)

lemma c_int_dec: "c_int (dec_int v) = v"
proof (cases "v < 0")
  case True
  then show ?thesis by (simp add: c_int_def dec_int_def number_dec)
next
  case False
  have "hd (dec (nat v)) \<noteq> CHR ''-''" using dec_digits[of "nat v"] digit_not_minus by (cases "dec (nat v)") auto
  then have "take 1 (dec (nat v)) \<noteq> ''-''" by (cases "dec (nat v)") auto
  with False show ?thesis by (simp add: c_int_def dec_int_def number_dec)
qed

lemma c_values_dec: "c_values [] (dec_int v @ CHR '','' # t) = v # c_values [] t"
proof -
  have "\<forall>c\<in>set (dec_int v). isdigit c \<or> c = CHR ''-''" "dec_int v \<noteq> []"
    using dec_digits by (auto simp: dec_int_def)
  then show ?thesis using c_values_token[of "dec_int v" "[]" "CHR '','' # t"] c_int_dec by (simp add: isdigit_def)
qed

lemma c_values_skip: "\<forall>c\<in>set w. \<not> isdigit c \<and> c \<noteq> CHR ''-'' \<Longrightarrow> c_values [] (w @ t) = c_values [] t"
  by (induction w) auto

lemma value_lines_read: "c_values [] (value_lines i vs @ t) = vs @ c_values [] t"
proof (induction vs arbitrary: i)
  case (Cons v vs)
  have "c_values [] (NL # ''    '' @ u) = c_values [] u" for u by (simp add: isdigit_def)
  with Cons c_values_dec[of v "value_lines (i + 1) vs @ t"] show ?case by simp
qed simp

lemma dropWhile_brace:
  "CHR ''{'' \<notin> set w \<Longrightarrow> dropWhile (\<lambda>c. c \<noteq> CHR ''{'') (w @ CHR ''{'' # t) = CHR ''{'' # t"
  by (induction w) auto

lemma digits_no_brace: "CHR ''{'' \<notin> set (dec n)"
  using dec_digits[of n] by (auto simp: isdigit_def)

lemma array_text:
  assumes "CHR ''{'' \<notin> set name" "CHR ''{'' \<notin> set ctype"
  shows "initialiser (append_int_array loadable [] name ctype vals) = (if vals = [] then [0] else vals)"
proof -
  have "dropWhile (\<lambda>c. c \<noteq> CHR ''{'') (append_int_array loadable [] name ctype vals)
      = CHR ''{'' # value_lines 0 vals @ (if vals = [] then ''0'' else []) @ NL # ''};'' @ [NL]"
    using assms digits_no_brace dropWhile_brace[of "storage_class loadable @ ctype @ '' '' @ name @ ''['' @
      dec (if vals = [] then 1 else length vals) @ ''] = ''" "value_lines 0 vals @ (if vals = [] then ''0'' else []) @ NL # ''};'' @ [NL]"]
    by (simp add: append_int_array_def storage_class_def)
  then show ?thesis
    using value_lines_read[of 0 vals "NL # ''};'' @ [NL]"]
    by (auto simp: initialiser_def isdigit_def c_int_def number_def digit_value_def)
qed

lemma row_read:
  "c_values [] (row_text cols vals r @ t) = map (\<lambda>c. vals ! (r * cols + c)) [0..<cols] @ c_values [] t"
proof -
  have "c_values [] (concat (map (\<lambda>c. dec_int (f c) @ '','') cs) @ u) = map f cs @ c_values [] u" for f :: "nat \<Rightarrow> int" and cs u
    by (induction cs) (simp_all add: c_values_dec)
  from this[of "\<lambda>c. vals ! (r * cols + c)" "[0..<cols]" "''},'' @ t"] show ?thesis
    by (simp add: row_text_def isdigit_def)
qed

lemma rows_concat: "concat (map (\<lambda>r. map (\<lambda>c. f (r * cols + c)) [0..<cols]) [0..<rows]) = map f [0..<rows * cols]"
proof (induction rows)
  case (Suc rows)
  have "map f [rows * cols..<rows * cols + cols] = map (\<lambda>c. f (rows * cols + c)) [0..<cols]"
  proof -
    have "[rows * cols..<rows * cols + cols] = map (\<lambda>i. i + rows * cols) [0..<cols]"
      using map_add_upt[of "rows * cols" cols] by (simp add: add.commute)
    then show ?thesis by (simp add: o_def add.commute)
  qed
  moreover have "[0..<Suc rows * cols] = [0..<rows * cols] @ [rows * cols..<rows * cols + cols]"
    using upt_add_eq_append[of 0 "rows * cols" cols] by (simp add: add.commute)
  ultimately show ?case using Suc by simp
qed simp

lemma array_2d_text:
  assumes "CHR ''{'' \<notin> set name" "CHR ''{'' \<notin> set ctype" "length vals = rows * cols"
  shows "initialiser (append_2d_array loadable [] name ctype rows cols vals) = vals"
proof -
  let ?body = "concat (map (row_text cols vals) [0..<rows]) @ NL # ''};'' @ [NL]"
  have "dropWhile (\<lambda>c. c \<noteq> CHR ''{'') (append_2d_array loadable [] name ctype rows cols vals) = CHR ''{'' # ?body"
    using assms(1,2) digits_no_brace dropWhile_brace[of "storage_class loadable @ ctype @ '' '' @ name @ ''['' @
      dec (if rows = 0 then 1 else rows) @ '']['' @ dec (if cols = 0 then 1 else cols) @ ''] = ''" ?body]
    by (simp add: append_2d_array_def storage_class_def)
  moreover have "c_values [] (concat (map (row_text cols vals) rs) @ t)
      = concat (map (\<lambda>r. map (\<lambda>c. vals ! (r * cols + c)) [0..<cols]) rs) @ c_values [] t" for rs t
    by (induction rs) (simp_all add: row_read)
  ultimately show ?thesis
    using rows_concat[of "\<lambda>i. vals ! i" cols rows] assms(3) map_nth[of vals]
    by (simp add: initialiser_def isdigit_def)
qed

section \<open>Which action runs\<close>

text \<open>The \<open>switch\<close> as a list of labels, a body where the case is not empty, and what C does with it.\<close>

type_synonym switch = "(int \<times> string option) list"

definition case_text :: "int \<times> string option \<Rightarrow> string" where
  "case_text c = ''    case '' @ dec_int (fst c) @ '':'' @
     (case snd c of None \<Rightarrow> '' /* fall through */'' @ [NL] | Some body \<Rightarrow> '' {'' @ [NL] @ body @ NL # ''    } break;'' @ [NL])"

definition first_body :: "switch \<Rightarrow> string option" where
  "first_body cs = (case dropWhile (\<lambda>c. snd c = None) cs of [] \<Rightarrow> None | c # _ \<Rightarrow> snd c)"

definition run_switch :: "switch \<Rightarrow> int \<Rightarrow> string option" where
  "run_switch cs k = first_body (dropWhile (\<lambda>c. fst c \<noteq> k) cs)"

definition rule_body :: "bool \<Rightarrow> lex_rule \<Rightarrow> string option" where
  "rule_body line_directives r =
     (if r_action r = ''|'' then None
      else Some (emit_line_directive [] (sl_file (r_loc r)) (sl_line (r_loc r)) line_directives @ r_action r))"

definition rule_switch :: "bool \<Rightarrow> lex_rule list \<Rightarrow> nat \<Rightarrow> switch" where
  "rule_switch ld rs k = map (\<lambda>(i, r). (int i, rule_body ld r)) (enumerate k (filter (\<lambda>r. \<not> r_eof r) rs))"

lemma make_rule_map_eq:
  "make_rule_map f = \<lparr>nfa_id = map (\<lambda>i. if r_eof (lf_rules f ! i) then -1 else int (length (filter (\<lambda>r. \<not> r_eof r) (take i (lf_rules f)))))
     [0..<length (lf_rules f)], total_nfa_rules = length (filter (\<lambda>r. \<not> r_eof r) (lf_rules f))\<rparr>"
proof -
  let ?step = "\<lambda>r m. if r_eof r then m\<lparr>nfa_id := nfa_id m @ [-1]\<rparr>
     else m\<lparr>nfa_id := nfa_id m @ [int (total_nfa_rules m)], total_nfa_rules := total_nfa_rules m + 1\<rparr>"
  have "fold ?step rs \<lparr>nfa_id = [], total_nfa_rules = 0\<rparr> =
      \<lparr>nfa_id = map (\<lambda>i. if r_eof (rs ! i) then -1 else int (length (filter (\<lambda>r. \<not> r_eof r) (take i rs)))) [0..<length rs],
       total_nfa_rules = length (filter (\<lambda>r. \<not> r_eof r) rs)\<rparr>" for rs
    by (induction rs rule: rev_induct) (auto simp: nth_append)
  then show ?thesis by (simp add: make_rule_map_def)
qed

lemma action_cases:
  assumes "n \<le> length (lf_rules f)"
  shows "fold (action_case f (make_rule_map f) ld) [0..<n] out =
    out @ concat (map case_text (rule_switch ld (take n (lf_rules f)) 0))"
  using assms
proof (induction n)
  case 0
  then show ?case by (simp add: rule_switch_def)
next
  case (Suc n)
  let ?r = "lf_rules f ! n" and ?k = "length (filter (\<lambda>r. \<not> r_eof r) (take n (lf_rules f)))"
  have id: "nfa_id (make_rule_map f) ! n = (if r_eof ?r then -1 else int ?k)" using Suc.prems by (simp add: make_rule_map_eq)
  have t: "take (Suc n) (lf_rules f) = take n (lf_rules f) @ [?r]" using Suc.prems by (simp add: take_Suc_conv_app_nth)
  show ?case
  proof (cases "r_eof ?r")
    case True
    with Suc t show ?thesis by (simp add: action_case_def rule_switch_def)
  next
    case False
    then have "rule_switch ld (take (Suc n) (lf_rules f)) 0 = rule_switch ld (take n (lf_rules f)) 0 @ [(int ?k, rule_body ld ?r)]"
      by (simp add: rule_switch_def t enumerate_append_eq)
    moreover have "action_case f (make_rule_map f) ld n o' = o' @ case_text (int ?k, rule_body ld ?r)" for o'
      using False id by (simp add: action_case_def case_text_def rule_body_def emit_line_directive_def Let_def)
    ultimately show ?thesis using Suc by simp
  qed
qed

lemma switch_from:
  "dropWhile (\<lambda>c. fst c \<noteq> int k) (map (\<lambda>(i, r). (int i, b r)) (enumerate n rs)) =
     (if n \<le> k then map (\<lambda>(i, r). (int i, b r)) (drop (k - n) (enumerate n rs)) else [])"
proof (induction rs arbitrary: n)
  case (Cons r rs)
  show ?case
  proof (cases "n = k")
    case False
    have "k - n = Suc (k - Suc n)" if "n < k" using that by simp
    with False Cons[of "Suc n"] show ?thesis by auto
  qed simp
qed simp

lemma drop_enumerate: "drop m (enumerate n xs) = enumerate (n + m) (drop m xs)"
proof (induction xs arbitrary: m n)
  case (Cons x xs)
  then show ?case by (cases m) auto
qed simp

lemma first_body_rules:
  "first_body (map (\<lambda>(i, r). (int i, rule_body ld r)) (enumerate n rs)) =
     (case dropWhile (\<lambda>r. r_action r = ''|'') rs of [] \<Rightarrow> None | r # _ \<Rightarrow> rule_body ld r)"
  unfolding first_body_def by (induction rs arbitrary: n) (auto simp: rule_body_def)

lemma run_rule_switch:
  "run_switch (rule_switch ld rs 0) (int k) =
     (case dropWhile (\<lambda>r. r_action r = ''|'') (drop k (filter (\<lambda>r. \<not> r_eof r) rs)) of [] \<Rightarrow> None | r # _ \<Rightarrow> rule_body ld r)"
  unfolding run_switch_def rule_switch_def switch_from by (simp add: drop_enumerate first_body_rules)

section \<open>The rules for the end of the file\<close>

definition eof_in :: "start_cond list \<Rightarrow> lex_rule \<Rightarrow> nat \<Rightarrow> bool" where
  "eof_in conds r c \<longleftrightarrow> r_eof r \<and>
     (if r_any_state r then True else if r_conds r = [] then c = 0 \<or> cond_excl conds ! c = 0
      else \<exists>n\<in>set (r_conds r). cond_id conds n = Some c)"

lemma resolve_conds_set:
  "resolve_conds conds cns = Inr cs \<Longrightarrow> set cs = {c. \<exists>n\<in>set cns. cond_id conds n = Some c} \<and> (cs = [] \<longleftrightarrow> cns = [])"
proof (induction cns arbitrary: cs)
  case (Cons cn cns)
  then show ?case by (auto split: option.splits sum.splits)
qed simp

lemma linked_rule:
  assumes "carries (cond_names conds) (cond_excl conds) ps nfa" "resolve_conds conds (r_conds r) = Inr cs" "c < length (cond_names conds)"
  shows "r_eof r \<and> c \<in> set (linked_conds nfa \<lparr>rs_conds = cs, rs_any_state = r_any_state r\<rparr>) \<longleftrightarrow> eof_in conds r c"
proof -
  let ?s = "\<lparr>rs_conds = cs, rs_any_state = r_any_state r\<rparr>"
  have "linked_conds nfa ?s = linked_conds (init_nfa empty_nfa (cond_names conds) (cond_excl conds)) ?s"
    using carriesD(2)[OF assms(1)] by (intro linked_conds_cong) (simp_all add: same_conds_def)
  then show ?thesis
    using resolve_conds_set[OF assms(2)] assms(3)
    by (auto simp: linked_conds_def init_conds_frame init_nfa_conds eof_in_def Let_def)
qed

lemma add_rules_eofs:
  assumes "add_rules file rs i (length ps) nfa diag = Some (Inr (nfa', diag'))"
    and "carries (cond_names (lf_conds file)) (cond_excl (lf_conds file)) ps nfa" and "c < length (cond_names (lf_conds file))"
    and "sorted (nfa_eof_rules nfa ! c)" "\<forall>j\<in>set (nfa_eof_rules nfa ! c). j < i"
  shows "sorted (nfa_eof_rules nfa' ! c) \<and>
    set (nfa_eof_rules nfa' ! c) = set (nfa_eof_rules nfa ! c) \<union> {i + j |j. j < length rs \<and> eof_in (lf_conds file) (rs ! j) c}"
  using assms
proof (induction rs arbitrary: i ps nfa diag)
  case (Cons r rs)
  let ?N = "cond_names (lf_conds file)" and ?E = "\<lambda>r. eof_in (lf_conds file) r c"
  from Cons.prems(1) obtain cs where cs: "resolve_conds (lf_conds file) (r_conds r) = Inr cs"
    by (auto split: sum.splits)
  let ?sites = "\<lparr>rs_conds = cs, rs_any_state = r_any_state r\<rparr>"
  have split: "{i + j |j. j < length (r # rs) \<and> ?E ((r # rs) ! j)} =
      (if ?E r then {i} else {}) \<union> {Suc i + j |j. j < length rs \<and> ?E (rs ! j)}"
  proof -
    have "{i + j |j. j < length (r # rs) \<and> ?E ((r # rs) ! j)} = (+) i ` ({j. j = 0 \<and> ?E r} \<union> Suc ` {j. j < length rs \<and> ?E (rs ! j)})"
      by (auto simp: less_Suc_eq_0_disj)
    then show ?thesis by auto
  qed
  have less: "list_all (\<lambda>c. c < length ?N) cs" by (rule resolve_conds_less[OF cs])
  show ?case
  proof (cases "r_eof r")
    case True
    let ?nfa = "add_eof_rule nfa i ?sites"
    have ok: "nfa_ok nfa" "nfa_cond_names nfa = ?N" by (rule carriesD(1,3)[OF Cons.prems(2)])+
    have "d < length (nfa_eof_rules nfa)" if "d \<in> set (linked_conds nfa ?sites)" for d
      using linked_conds_less[OF ok(1) _ that] less ok by (auto simp: list_all_iff nfa_ok_def)
    then have L: "nfa_eof_rules ?nfa ! c = nfa_eof_rules nfa ! c @ replicate (count_list (linked_conds nfa ?sites) c) i"
      unfolding add_eof_rule_def using ok Cons.prems(3) by (intro fold_eof) (auto simp: nfa_ok_def)
    have "set (replicate (count_list (linked_conds nfa ?sites) c) i) = (if ?E r then {i} else {})"
      using linked_rule[OF Cons.prems(2) cs Cons.prems(3)] True by (auto simp: set_replicate_conv_if count_list_0_iff)
    with L Cons.prems(4,5) have s: "set (nfa_eof_rules ?nfa ! c) = set (nfa_eof_rules nfa ! c) \<union> (if ?E r then {i} else {})"
      "sorted (nfa_eof_rules ?nfa ! c)" "\<forall>j\<in>set (nfa_eof_rules ?nfa ! c). j < Suc i"
      by (auto simp: sorted_append less_SucI split: if_splits)
    from Cons.prems(1) cs True have "add_rules file rs (Suc i) (length ps) ?nfa diag = Some (Inr (nfa', diag'))" by simp
    from Cons.IH[OF this carries_eof[OF Cons.prems(2)] Cons.prems(3) s(2,3)] s(1) show ?thesis unfolding split by auto
  next
    case False
    with Cons.prems(1) cs obtain pp d where pp: "parse_pattern (pattern_fuel (lf_defs file) (r_pattern r))
        (r_pattern r) (resolver_of (lf_defs file)) (o_case_insensitive (lf_options file)) diag (r_loc r) = Some (pp, d)"
      "add_rules file rs (Suc i) (Suc (length ps)) (add_rule_to_nfa nfa (pp_tree pp) (length ps) ?sites (pp_trail_len pp)) d
        = Some (Inr (nfa', diag'))"
      by (auto simp: bind_eq_Some_conv Let_def split: if_splits)
    let ?nfa = "add_rule_to_nfa nfa (pp_tree pp) (length ps) ?sites (pp_trail_len pp)"
    have C: "carries ?N (cond_excl (lf_conds file)) (ps @ [(clean (pp_tree pp), ?sites, pp_trail_len pp)]) ?nfa"
      by (rule carries_rule[OF Cons.prems(2)]) (simp add: less)
    obtain body bol eol where un: "unwrap_anchors (clean (pp_tree pp)) = (body, bol, eol)" by (rule prod_cases3)
    have "nfa_eof_rules (add_rule_to_nfa nfa (clean (pp_tree pp)) (length ps) ?sites (pp_trail_len pp)) = nfa_eof_rules nfa"
      by (rule add_rule_frame(2)[OF carriesD(1)[OF Cons.prems(2)] proper_clean un])
        (use less carriesD(3)[OF Cons.prems(2)] in \<open>auto simp: list_all_iff\<close>)
    then have e: "nfa_eof_rules ?nfa = nfa_eof_rules nfa" by (simp add: add_rule_clean)
    have "\<not> ?E r" using False by (simp add: eof_in_def)
    with Cons.IH[of "Suc i" "ps @ [(clean (pp_tree pp), ?sites, pp_trail_len pp)]" ?nfa d] pp(2) C Cons.prems(3-5) e
    show ?thesis unfolding split by (auto simp: less_SucI)
  qed
qed simp

section \<open>Properties\<close>

text \<open>C31. The rule the scanner picks runs its action: rule number \<open>k\<close> of the automaton is the case
  \<open>k\<close> of the emitted \<open>switch\<close>, and C, falling through the empty cases, runs there the action of
  the first rule from the \<open>k\<close>-th on, end-of-file rules not counted, whose action is not \<open>|\<close>,
  behind a line directive for its place in the specification.\<close>

theorem action_dispatch_exact:
  "emit_action_dispatch out f (make_rule_map f) ld =
     out @ ''switch (yy_rule) {'' @ [NL] @ concat (map case_text (rule_switch ld (lf_rules f) 0)) @
     ''    default: break;'' @ [NL] @ ''}'' @ [NL] \<and>
   run_switch (rule_switch ld (lf_rules f) 0) (int k) =
     (case dropWhile (\<lambda>r. r_action r = ''|'') (drop k (filter (\<lambda>r. \<not> r_eof r) (lf_rules f))) of
        [] \<Rightarrow> None | r # _ \<Rightarrow> rule_body ld r)"
  by (simp add: emit_action_dispatch_def action_cases run_rule_switch del: upt_Suc)

text \<open>At the end of the input, the action is that of the first \<open><<EOF>>\<close> rule of the file that
  is active in the current start condition, and \<open>yyterminate\<close> if there is none.\<close>

theorem eof_dispatch_exact:
  assumes "front_end a file diag = Some (Inr fe)" "c \<le> length (lf_conds file)"
  shows "eof_rule_of (fe_nfa fe) c =
    List.find (\<lambda>j. eof_in (lf_conds file) (lf_rules file ! j) c) [0..<length (lf_rules file)]"
  using assms(1)
proof (rule front_endE)
  fix opt
  assume F: "fe_file fe = file\<lparr>lf_options := opt\<rparr>"
    and r: "add_rules (fe_file fe) (lf_rules file) 0 0
      (init_nfa empty_nfa (cond_names (lf_conds file)) (cond_excl (lf_conds file))) diag = Some (Inr (fe_nfa fe, fe_diag fe))"
  let ?I = "init_nfa empty_nfa (cond_names (lf_conds file)) (cond_excl (lf_conds file))"
  let ?P = "\<lambda>j. eof_in (lf_conds file) (lf_rules file ! j) c"
  have c: "c < length (cond_names (lf_conds file))" using assms(2) by (simp add: cond_names_def)
  have "carries (cond_names (lf_conds file)) (cond_excl (lf_conds file)) [] ?I"
    by (rule carries_init) (simp add: cond_names_def cond_excl_def)
  moreover have e: "nfa_eof_rules ?I ! c = []" using c by (simp add: init_nfa_def init_conds_eq empty_nfa_def)
  ultimately have L: "sorted (nfa_eof_rules (fe_nfa fe) ! c)"
    "set (nfa_eof_rules (fe_nfa fe) ! c) = {j. j < length (lf_rules file) \<and> ?P j}"
    using add_rules_eofs[of "fe_file fe" "lf_rules file" 0 "[]" ?I diag "fe_nfa fe" "fe_diag fe" c] r c by (simp_all add: F)
  show ?thesis
  proof (cases "nfa_eof_rules (fe_nfa fe) ! c")
    case Nil
    with L(2) have "List.find ?P [0..<length (lf_rules file)] = None" by (auto simp: find_None_iff)
    with Nil show ?thesis by (simp add: eof_rule_of_def)
  next
    case (Cons j js)
    with L have j: "j < length (lf_rules file)" "?P j" "\<And>i. i < length (lf_rules file) \<Longrightarrow> ?P i \<Longrightarrow> j \<le> i"
      by (auto simp: set_eq_iff)
    then have "\<forall>i<j. \<not> ?P i" by (meson less_trans not_le)
    with j(1,2) have "List.find ?P [0..<length (lf_rules file)] = Some j"
      by (auto simp: find_Some_iff intro!: exI[of _ j])
    with Cons show ?thesis by (simp add: eof_rule_of_def)
  qed
qed

lemma eof_dispatch_exact_witness:
  "\<exists>fe. front_end no_args sample_file no_diag = Some (Inr fe) \<and>
     eof_rule_of (fe_nfa fe) 1 = Some 0 \<and> eof_rule_of (fe_nfa fe) 0 = None"
proof -
  obtain fe where fe: "front_end no_args sample_file no_diag = Some (Inr fe)" using sample_front_end by blast
  have "eof_rule_of (fe_nfa fe) c =
      List.find (\<lambda>j. eof_in (lf_conds sample_file) (lf_rules sample_file ! j) c) [0..<length (lf_rules sample_file)]"
    if "c \<le> length (lf_conds sample_file)" for c
    by (rule eof_dispatch_exact[OF fe that])
  from this[of 0] this[of 1] have "eof_rule_of (fe_nfa fe) 1 = Some 0" "eof_rule_of (fe_nfa fe) 0 = None"
    by (simp_all add: sample_file_def eof_in_def empty_rule_def cond_id_def cond_names_def cond_excl_def upt_rec)
  with fe show ?thesis by blast
qed

text \<open>After user code has been copied, the line directive that returns to the generated file
  names the line that follows it.\<close>

theorem line_restored:
  assumes "NL \<notin> set gen_file"
  shows "restore_line_directive out gen_file True =
    out @ directive_text (count_lines (restore_line_directive out gen_file True) + 1) gen_file"
proof -
  have "count_lines (concat (map (\<lambda>c. if c = CHR 0x5C \<or> c = CHR 0x22 then [CHR 0x5C, c] else [c]) s)) = 0" if "NL \<notin> set s" for s
    using that by (induction s) (auto simp: count_lines_def)
  moreover have "count_lines (dec n) = 0" for n
    using dec_digits[of n] by (auto simp: count_lines_def filter_empty_conv isdigit_def)
  ultimately have "count_lines (directive_text n gen_file) = 1" for n
    using assms by (simp add: directive_text_def count_lines_def)
  then show ?thesis by (simp add: restore_line_directive_def) (simp add: count_lines_def)
qed

lemma line_restored_witness:
  "restore_line_directive ''x'' ''a.c'' True = ''x'' @ directive_text (count_lines (restore_line_directive ''x'' ''a.c'' True) + 1) ''a.c''"
  by (rule line_restored) simp

end
