(* ===== verification/Emit_Tables.thy ===== *)
theory Emit_Tables
  imports Emit_Text Match_Loop
begin

text \<open>
  The table section of the generated file: which arrays \<open>emit_c\<close> in \<open>src/src/codegen.cpp\<close> writes,
  in which mode and order. The values are those of \<open>compiled_tables\<close> and \<open>emitted_tables\<close>.
\<close>

datatype array_decl =
    Arr string string "int list"
  | Arr2 string string nat nat "int list"

fun append_decl :: "bool \<Rightarrow> array_decl \<Rightarrow> string \<Rightarrow> string" where
  "append_decl loadable (Arr name ctype vals) out = append_int_array loadable out name ctype vals"
| "append_decl loadable (Arr2 name ctype rows cols vals) out = append_2d_array loadable out name ctype rows cols vals"

text \<open>The line each rule stands in, for the trace of \<open>%option debug\<close>.\<close>

definition rule_lines :: "lex_file \<Rightarrow> int list" where
  "rule_lines f =
     (let rl = map (\<lambda>r. int (sl_line (r_loc r))) (filter (\<lambda>r. \<not> r_eof r) (lf_rules f)) in if rl = [] then [0] else rl)"

definition byte_values :: "byte list \<Rightarrow> int list" where
  "byte_values bs = map (\<lambda>b. int (ub b)) bs"

definition table_arrays :: "compress_mode \<Rightarrow> lex_file \<Rightarrow> nfa \<Rightarrow> dfa \<Rightarrow> array_decl list" where
  "table_arrays mode f nfa dfa =
     (let T = emitted_tables mode nfa dfa; t = st_tabs T
      in [Arr ''yy_ec'' ''unsigned char'' (byte_values (yy_ec t))] @
         (if mode = Compress
          then [Arr ''yy_base'' ''int'' (yy_base t), Arr ''yy_def'' ''int'' (yy_def t),
                Arr ''yy_nxt'' ''int'' (yy_nxt t), Arr ''yy_chk'' ''int'' (yy_chk t)]
          else [Arr2 ''yy_nxt'' ''int'' (length (dfa_states dfa)) (dfa_nclasses dfa) (yy_nxt t)]) @
         (if mode = Compress then [Arr ''yy_meta'' ''unsigned char'' (byte_values (yy_meta t))] else []) @
         [Arr ''yy_accept_normal'' ''int'' (yy_accept_normal t), Arr ''yy_accept_eol'' ''int'' (yy_accept_eol t),
          Arr ''yy_cond_normal'' ''int'' (yy_cond_normal t), Arr ''yy_cond_bol'' ''int'' (yy_cond_bol t),
          Arr ''yy_rule_trail_len'' ''int'' (yy_rule_trail_len t)] @
         (if o_uses_reject (lf_options f) then [Arr ''yy_rule_eol'' ''int'' (map int (st_rule_eol T))] else []) @
         [Arr ''yy_rule_line'' ''int'' (rule_lines f)] @
         (case st_boundary T of None \<Rightarrow> []
          | Some (os, ps) \<Rightarrow> [Arr ''yy_boundary_off'' ''int'' os, Arr ''yy_boundary_pool'' ''int'' ps]) @
         (if o_uses_reject (lf_options f)
          then [Arr ''yy_accept_off'' ''int'' (fst (st_accept T)), Arr ''yy_accept_pool'' ''int'' (snd (st_accept T))] else []))"

definition emit_tables :: "bool \<Rightarrow> compress_mode \<Rightarrow> lex_file \<Rightarrow> nfa \<Rightarrow> dfa \<Rightarrow> string \<Rightarrow> string" where
  "emit_tables loadable mode f nfa dfa out = fold (append_decl loadable) (table_arrays mode f nfa dfa) out @ [NL]"

section \<open>Reading them back\<close>

text \<open>What C takes the array for: an initialiser that would be empty is written as one zero.\<close>

fun decl_values :: "array_decl \<Rightarrow> int list" where
  "decl_values (Arr name ctype vals) = (if vals = [] then [0] else vals)"
| "decl_values (Arr2 name ctype rows cols vals) = vals"

fun decl_ok :: "array_decl \<Rightarrow> bool" where
  "decl_ok (Arr name ctype vals) \<longleftrightarrow> CHR ''{'' \<notin> set name \<and> CHR ''{'' \<notin> set ctype"
| "decl_ok (Arr2 name ctype rows cols vals) \<longleftrightarrow>
     CHR ''{'' \<notin> set name \<and> CHR ''{'' \<notin> set ctype \<and> length vals = rows * cols"

lemma append_decl_eq: "append_decl loadable d out = out @ append_decl loadable d []"
  by (cases d) (simp_all add: append_int_array_def append_2d_array_def)

lemma fold_append_decl: "fold (append_decl loadable) ds out = out @ concat (map (\<lambda>d. append_decl loadable d []) ds)"
proof (induction ds arbitrary: out)
  case (Cons d ds)
  then show ?case using append_decl_eq[of loadable d out] by simp
qed simp

lemma decl_read: "decl_ok d \<Longrightarrow> initialiser (append_decl loadable d []) = decl_values d"
  by (cases d) (simp_all add: array_text array_2d_text)

lemma rows_length: "\<forall>r\<in>set rows. length r = n \<Longrightarrow> length (concat rows) = length rows * n"
  by (induction rows) auto

lemma table_arrays_ok: "list_all decl_ok (table_arrays mode f nfa dfa)"
proof -
  have "mode \<noteq> Compress \<Longrightarrow> length (yy_nxt (compiled_tables mode nfa dfa)) = length (dfa_states dfa) * dfa_nclasses dfa"
    using rows_length[of "map (\<lambda>st. map (\<lambda>i. d_next st ! i) [0..<dfa_nclasses dfa]) (dfa_states dfa)" "dfa_nclasses dfa"]
    by (simp add: compiled_tables_def Let_def)
  then show ?thesis
    by (auto simp: table_arrays_def Let_def emitted_tables_def split: option.split prod.split)
qed

section \<open>Properties\<close>

text \<open>C32. The tables in the generated C file are the tables of the automaton: the section is the
  text of its arrays, and reading the numbers of each initialiser gives back exactly the
  values that were to be written, negative numbers, rows of the dense table and empty arrays
  included.\<close>

theorem emitted_arrays_exact:
  "emit_tables loadable mode f nfa dfa out =
     out @ concat (map (\<lambda>d. append_decl loadable d []) (table_arrays mode f nfa dfa)) @ [NL] \<and>
   map (\<lambda>d. initialiser (append_decl loadable d [])) (table_arrays mode f nfa dfa) =
     map decl_values (table_arrays mode f nfa dfa)"
proof
  show "emit_tables loadable mode f nfa dfa out =
      out @ concat (map (\<lambda>d. append_decl loadable d []) (table_arrays mode f nfa dfa)) @ [NL]"
    by (simp add: emit_tables_def fold_append_decl)
  show "map (\<lambda>d. initialiser (append_decl loadable d [])) (table_arrays mode f nfa dfa) =
      map decl_values (table_arrays mode f nfa dfa)"
    using table_arrays_ok by (intro map_cong refl decl_read) (auto simp: list_all_iff)
qed

end
