(* ===== verification/Emit_Body.thy ===== *)
theory Emit_Body
  imports Emit_Tables
begin

text \<open>
  The text of \<open>yylex\<close> as \<open>yy_lex_body\<close> and \<open>yy_lex_body_reject\<close> in \<open>src/src/codegen.cpp\<close> print it,
  piece by piece in the order of the code. What the printed loop does when it runs is modelled in
  \<open>Match_Loop\<close> and \<open>Reject_Loop\<close>; here are its characters, and where the options and the code of
  the user go.
\<close>

section \<open>Text\<close>

abbreviation SQ :: char where "SQ \<equiv> CHR 0x27"
abbreviation DQ :: char where "DQ \<equiv> CHR 0x22"
abbreviation BS :: char where "BS \<equiv> CHR 0x5C"

definition lines :: "string list \<Rightarrow> string" where
  "lines ls = concat (map (\<lambda>l. l @ [NL]) ls)"

definition if_set :: "bool \<Rightarrow> string \<Rightarrow> string" where
  "if_set b s = (if b then s else [])"

text \<open>Code of the user, closed by a newline.\<close>

definition closed_text :: "string \<Rightarrow> string" where
  "closed_text s = (if s \<noteq> [] \<and> last s \<noteq> NL then s @ [NL] else s)"

section \<open>What both bodies share\<close>

definition body_open :: "options \<Rightarrow> string" where
  "body_open opt =
     lines [''YY_DECL'', ''{''] @
     if_set (o_reentrant opt) (lines
      [''    struct yyguts_t *yyg = (struct yyguts_t *)yyscanner;'']) @
     if_set (o_bison_bridge opt) (lines
      [''    yyg->yylval_r = yylval_param;'']) @
     if_set (o_bison_locations opt) (lines
      [''    yyg->yylloc_r = yylloc_param;'']) @
     lines
      [''    if (!yyin) yyin = stdin;'',
       ''    if (!yyout) yyout = stdout;'',
       ''    int yy_first = !yy_init_done;'',
       ''    yy_init_default_buffer(YY_CALLPM);'',
       ''    if (yy_first) {'',
       ''        #ifdef YY_USER_INIT'',
       ''        YY_USER_INIT'',
       ''        #endif'',
       ''    }'']"

definition section2_text :: "lex_file \<Rightarrow> bool \<Rightarrow> string" where
  "section2_text f ld =
     (if lf_section2 f = [] then []
      else emit_line_directive [] (sl_file (lf_section2_loc f)) (sl_line (lf_section2_loc f)) ld @
           closed_text (lf_section2 f))"

definition turn_open :: string where
  "turn_open =
     lines
      [''    for (;;) {'',
       ''        yy_text_unseal(YY_CALLPM);'',
       ''        /* Buffer exhausted on a file-backed buffer? Auto-restart'',
       ''         * from yyin. flex does the same. yyin may have been'',
       ''         * reassigned by the user (typical: gengtype'' @ [SQ] @ ''s parse_file).'',
       ''         * Comparing FILE* pointers is unreliable -- fclose+fopen'',
       ''         * often reuses the same slot -- so we retry the read'',
       ''         * unconditionally and let yyrestart -> yy_slurp report 0'',
       ''         * bytes when the underlying stream is truly at EOF. */'',
       ''        if (yy_buf_pos >= yy_buf_end &&'',
       ''            YY_CURRENT_BUFFER->yy_input_file && yyin) {'',
       ''            yyrestart(yyin YY_CALLPM_C);'',
       ''        }'',
       ''        if (yy_buf_pos >= yy_buf_end) {'']"

definition eof_text :: "lex_file \<Rightarrow> nfa \<Rightarrow> string" where
  "eof_text f nfa =
     (if o_array (lf_options f) then lines
      [''            yytext[0] = 0;'']
      else lines
      [''            yytext = yy_buf + yy_buf_pos;'']) @
     lines
      [''            yyleng = 0;'',
       ''            yy_text_save = 0;'',
       ''            yy_text_active = 1;''] @
     ''            '' @ emit_eof_dispatch [] f nfa"

definition text_start :: "options \<Rightarrow> string" where
  "text_start opt =
     (if o_array opt then
     lines
      [''        {'',
       ''            size_t yy_cp = yy_len < YYLMAX - 1 ? yy_len : YYLMAX - 1;'',
       ''            memcpy(yytext, yy_buf + yy_mb, yy_cp);'',
       ''            yytext[yy_cp] = 0;'',
       ''        }'']
      else lines
      [''        yytext = yy_buf + yy_mb;''])"

definition more_text :: "options \<Rightarrow> string" where
  "more_text opt =
     lines
      [''        yy_buf_pos = yy_mb + yy_len;'',
       ''        if (yy_more_offset > 0) {''] @
     (if o_array opt then lines
      [''            /* yymore is unsupported with %option array */'']
      else lines
      [''            yytext = yy_buf + yy_mb - (size_t)yy_more_offset;'']) @
     lines
      [''            yy_len += (size_t)yy_more_offset;'',
       ''        }'',
       ''        yy_more_flag = 0;'',
       ''        yyleng = (int)yy_len;'',
       ''        yy_text_save = yytext[yy_len];'',
       ''        yytext[yy_len] = 0;'',
       ''        yy_text_active = 1;''] @
     if_set (o_yylineno opt)
     (lines
      [''        for (size_t yy_i = 0; yy_i < yy_len; ++yy_i)'',
       ''            if (yytext[yy_i] == '' @ [SQ, BS] @ ''n'' @ [SQ] @ '') yylineno++;'']) @
     lines
      [''        yy_at_bol = (yy_len > 0 && yytext[yy_len - 1] == '' @ [SQ, BS] @ ''n'' @ [SQ] @ '');''] @
     if_set (o_debug opt)
     (lines
      [''        if (yy_flex_debug) fprintf(stderr,'',
       ''            '' @ [DQ] @ ''--accepting rule at line %d ('' @ [BS, DQ] @ ''%s'' @ [BS, DQ] @ '')'' @ [BS] @ ''n'' @ [DQ] @ '','',
       ''            yy_rule_line[yy_rule], yytext);'']) @
     lines
      [''        #ifdef YY_USER_ACTION'',
       ''        YY_USER_ACTION'',
       ''        #endif'']"

section \<open>The body without \<open>REJECT\<close>\<close>

definition rule_count :: "rule_map \<Rightarrow> nat" where
  "rule_count rm = (if total_nfa_rules rm = 0 then 1 else total_nfa_rules rm)"

definition boundary_vars :: "nat \<Rightarrow> string" where
  "boundary_vars n =
     ''        size_t yy_boundary_pos['' @ dec n @ ''];'' @ [NL] @
     ''        for (int yy_bi = 0; yy_bi < '' @ dec n @ ''; ++yy_bi) yy_boundary_pos[yy_bi] = (size_t)-1;'' @ [NL] @
     lines
      [''        { int yy_off = yy_boundary_off[yy_state];'',
       ''          int yy_n   = yy_boundary_off[yy_state + 1] - yy_off;'',
       ''          for (int yy_bi = 0; yy_bi < yy_n; ++yy_bi)'',
       ''              yy_boundary_pos[yy_boundary_pool[yy_off + yy_bi]] = yy_mb;'',
       ''        }'']"

definition match_vars :: "bool \<Rightarrow> nat \<Rightarrow> string" where
  "match_vars any_var n =
     lines
      [''        int yy_state = yy_at_bol'',
       ''            ? yy_cond_bol[yy_start]'',
       ''            : yy_cond_normal[yy_start];'',
       ''        size_t yy_mb = yy_buf_pos;'',
       ''        size_t yy_scan = yy_mb;'',
       ''        int    yy_acc_n = -1;'',
       ''        size_t yy_acc_n_len = 0;'',
       ''        int    yy_acc_e = -1;'',
       ''        size_t yy_acc_e_len = 0;''] @
     if_set any_var (boundary_vars n) @
     lines
      [''        if (yy_accept_normal[yy_state] >= 0) {'',
       ''            yy_acc_n = yy_accept_normal[yy_state]; yy_acc_n_len = 0;'',
       ''        }'',
       ''        if (yy_accept_eol[yy_state] >= 0) {'',
       ''            yy_acc_e = yy_accept_eol[yy_state]; yy_acc_e_len = 0;'',
       ''        }'']"

definition match_text :: "bool \<Rightarrow> string" where
  "match_text any_var =
     lines
      [''        while (yy_scan < yy_buf_end) {'',
       ''            unsigned char yy_c = (unsigned char)yy_buf[yy_scan];'',
       ''            int yy_next = YY_TRANSITION(yy_state, yy_c);'',
       ''            if (yy_next < 0) break;'',
       ''            yy_state = yy_next;'',
       ''            yy_scan++;''] @
     if_set any_var
     (lines
      [''            { int yy_off = yy_boundary_off[yy_state];'',
       ''              int yy_n   = yy_boundary_off[yy_state + 1] - yy_off;'',
       ''              for (int yy_bi = 0; yy_bi < yy_n; ++yy_bi)'',
       ''                  yy_boundary_pos[yy_boundary_pool[yy_off + yy_bi]] = yy_scan;'',
       ''            }'']) @
     lines
      [''            int yy_an = yy_accept_normal[yy_state];'',
       ''            int yy_ae = yy_accept_eol[yy_state];'',
       ''            if (yy_an >= 0) { yy_acc_n = yy_an; yy_acc_n_len = yy_scan - yy_mb; }'',
       ''            if (yy_ae >= 0) { yy_acc_e = yy_ae; yy_acc_e_len = yy_scan - yy_mb; }'',
       ''        }'']"

definition pick_text :: string where
  "pick_text =
     lines
      [''        int    yy_rule = -1;'',
       ''        size_t yy_len = 0;'',
       ''        if (yy_acc_e >= 0 && yy_acc_e_len > 0) {'',
       ''            size_t yy_after = yy_mb + yy_acc_e_len;'',
       ''            int    yy_eol_ok = (yy_after >= yy_buf_end) ||'',
       ''                               (yy_buf[yy_after] == '' @ [SQ, BS] @ ''n'' @ [SQ] @ '');'',
       ''            if (yy_eol_ok) {'',
       ''                if (yy_acc_n_len > yy_acc_e_len) {'',
       ''                    yy_rule = yy_acc_n; yy_len = yy_acc_n_len;'',
       ''                } else if (yy_acc_n_len == yy_acc_e_len && yy_acc_n >= 0 && yy_acc_n < yy_acc_e) {'',
       ''                    yy_rule = yy_acc_n; yy_len = yy_acc_n_len;'',
       ''                } else {'',
       ''                    yy_rule = yy_acc_e; yy_len = yy_acc_e_len;'',
       ''                }'',
       ''            }'',
       ''        }'',
       ''        if (yy_rule < 0 && yy_acc_n >= 0 && yy_acc_n_len > 0) {'',
       ''            yy_rule = yy_acc_n; yy_len = yy_acc_n_len;'',
       ''        }'',
       ''        if (yy_rule < 0) {'']"

definition default_text :: "options \<Rightarrow> string" where
  "default_text opt =
     (if o_nodefault opt then lines
      [''            yy_jam_report(YY_CALLPM); yyterminate();'']
      else lines
      [''            unsigned char yy_d = (unsigned char)yy_buf[yy_buf_pos++];'',
       ''            (void)fputc((int)yy_d, yyout);''] @
           if_set (o_yylineno opt) (lines
      [''            if (yy_d == '' @ [SQ, BS] @ ''n'' @ [SQ] @ '') yylineno++;'']) @
           lines
      [''            yy_at_bol = (yy_d == '' @ [SQ, BS] @ ''n'' @ [SQ] @ '');'',
       ''            continue;'']) @
     lines
      [''        }'']"

definition trail_text :: "bool \<Rightarrow> string" where
  "trail_text any_var =
     lines
      [''        {'',
       ''            int yy_trail = yy_rule_trail_len[yy_rule];'',
       ''            if (yy_trail > 0 && (size_t)yy_trail <= yy_len) {'',
       ''                yy_len -= (size_t)yy_trail;'',
       ''            }''] @
     if_set any_var
     (lines
      [''            else if (yy_trail < 0) {'',
       ''                size_t yy_bp = yy_boundary_pos[yy_rule];'',
       ''                if (yy_bp != (size_t)-1 && yy_bp >= yy_mb && yy_bp <= yy_mb + yy_len) {'',
       ''                    yy_len = yy_bp - yy_mb;'',
       ''                }'',
       ''            }'']) @
     lines
      [''        }'']"

text \<open>The loop that indents the \<open>switch\<close>: it changes the text of the actions too.\<close>

definition indent :: "string \<Rightarrow> string" where
  "indent s = concat (map (\<lambda>c. if c = NL then c # ''        '' else [c]) s)"

definition yy_lex_body :: "lex_file \<Rightarrow> nfa \<Rightarrow> rule_map \<Rightarrow> bool \<Rightarrow> string" where
  "yy_lex_body f nfa rm ld =
     (let opt = lf_options f; any_var = any_var_trail nfa
      in body_open opt @ section2_text f ld @
         turn_open @
         lines
         [''            int yy_rule = -1;''] @
         eof_text f nfa @
         lines
         [''            (void)yy_rule;'',
          ''            yyterminate();'',
          ''        }''] @
         match_vars any_var (rule_count rm) @ match_text any_var @ pick_text @ default_text opt @
         text_start opt @ trail_text any_var @ more_text opt @
         ''        '' @ indent (emit_action_dispatch [] f rm ld) @
         lines
         [[],
          ''        yy_more_offset = yy_more_flag ? yyleng : 0;'',
          ''    }'',
          ''}''])"

section \<open>The body with \<open>REJECT\<close>\<close>

definition reject_vars :: "nat \<Rightarrow> string" where
  "reject_vars n =
     ''    int yy_match_lens['' @ dec n @ ''];'' @ [NL] @
     lines
      [''    int yy_rule = -1;'',
       ''    size_t yy_len = 0;'',
       ''    size_t yy_mb = 0;'']"

definition reject_scan_text :: "nat \<Rightarrow> string" where
  "reject_scan_text n =
     ''        for (int r = 0; r < '' @ dec n @ ''; ++r) yy_match_lens[r] = -1;'' @ [NL] @
     lines
      [''        yy_mb = yy_buf_pos;'',
       ''        size_t yy_scan = yy_mb;'',
       ''        int yy_state = yy_at_bol ? yy_cond_bol[yy_start] : yy_cond_normal[yy_start];'',
       ''        {'',
       ''            int yy_off = yy_accept_off[yy_state];'',
       ''            int yy_n   = yy_accept_off[yy_state + 1] - yy_off;'',
       ''            int yy_at_eol = (yy_scan >= yy_buf_end || yy_buf[yy_scan] == '' @ [SQ, BS] @ ''n'' @ [SQ] @ '');'',
       ''            for (int i = 0; i < yy_n; ++i) {'',
       ''                int r = yy_accept_pool[yy_off + i];'',
       ''                if (yy_rule_eol[r] && !yy_at_eol) continue;'',
       ''                if (yy_match_lens[r] < 0) yy_match_lens[r] = 0;'',
       ''            }'',
       ''        }'',
       ''        while (yy_scan < yy_buf_end) {'',
       ''            unsigned char yy_c = (unsigned char)yy_buf[yy_scan];'',
       ''            int yy_next = YY_TRANSITION(yy_state, yy_c);'',
       ''            if (yy_next < 0) break;'',
       ''            yy_state = yy_next;'',
       ''            yy_scan++;'',
       ''            int yy_off = yy_accept_off[yy_state];'',
       ''            int yy_n   = yy_accept_off[yy_state + 1] - yy_off;'',
       ''            int yy_at_eol = (yy_scan >= yy_buf_end || yy_buf[yy_scan] == '' @ [SQ, BS] @ ''n'' @ [SQ] @ '');'',
       ''            for (int i = 0; i < yy_n; ++i) {'',
       ''                int r = yy_accept_pool[yy_off + i];'',
       ''                if (yy_rule_eol[r] && !yy_at_eol) continue;'',
       ''                int cur = (int)(yy_scan - yy_mb);'',
       ''                if (yy_match_lens[r] < cur) yy_match_lens[r] = cur;'',
       ''            }'',
       ''        }'']"

definition reject_best_text :: "nat \<Rightarrow> string" where
  "reject_best_text n =
     lines
      [''    yy_find_best:'',
       ''        yy_rule = -1; yy_len = 0;''] @
     ''        for (int r = 0; r < '' @ dec n @ ''; ++r) {'' @ [NL] @
     lines
      [''            if (yy_match_lens[r] >= 0) {'',
       ''                size_t L = (size_t)yy_match_lens[r];'',
       ''                if (yy_rule < 0 || L > yy_len) { yy_rule = r; yy_len = L; }'',
       ''            }'',
       ''        }'',
       ''        if (yy_rule < 0 || yy_len == 0) {'']"

definition reject_default_text :: "options \<Rightarrow> string" where
  "reject_default_text opt =
     (if o_nodefault opt then lines
      [''            yy_jam_report(YY_CALLPM); yyterminate();'']
      else lines
      [''            if (yy_buf_pos < yy_buf_end) {'',
       ''                unsigned char yy_d = (unsigned char)yy_buf[yy_buf_pos++];'',
       ''                (void)fputc((int)yy_d, yyout);''] @
           if_set (o_yylineno opt) (lines
      [''                if (yy_d == '' @ [SQ, BS] @ ''n'' @ [SQ] @ '') yylineno++;'']) @
           lines
      [''                yy_at_bol = (yy_d == '' @ [SQ, BS] @ ''n'' @ [SQ] @ '');'',
       ''            }'',
       ''            continue;'']) @
     lines
      [''        }'']"

definition reject_macro :: string where
  "reject_macro =
     lines
      [''#define REJECT  do {                                                  '' @ [BS],
       ''    yy_match_lens[yy_rule] = -1;                                       '' @ [BS],
       ''    yytext[yyleng] = yy_text_save;                                     '' @ [BS],
       ''    yy_text_active = 0;                                                '' @ [BS],
       ''    yy_buf_pos = yy_mb;                                              '' @ [BS],
       ''    goto yy_find_best;                                                 '' @ [BS],
       ''} while (0)'']"

definition reject_case :: "lex_file \<Rightarrow> rule_map \<Rightarrow> bool \<Rightarrow> nat \<Rightarrow> string" where
  "reject_case f rm ld i =
     (let r = lf_rules f ! i
      in if r_eof r then []
         else ''            case '' @ dec_int (nfa_id rm ! i) @ '':'' @
              (if r_action r = ''|'' then '' /* fall through */'' @ [NL]
               else '' {'' @ [NL] @ emit_line_directive [] (sl_file (r_loc r)) (sl_line (r_loc r)) ld @
                    r_action r @ [NL] @ ''            } break;'' @ [NL]))"

definition reject_dispatch :: "lex_file \<Rightarrow> rule_map \<Rightarrow> bool \<Rightarrow> string" where
  "reject_dispatch f rm ld =
     lines
      [''        switch (yy_rule) {''] @
     concat (map (reject_case f rm ld) [0..<length (lf_rules f)]) @
     lines
      [''            default: break;'',
       ''        }'',
       ''#undef REJECT'']"

definition yy_lex_body_reject :: "lex_file \<Rightarrow> nfa \<Rightarrow> rule_map \<Rightarrow> bool \<Rightarrow> string" where
  "yy_lex_body_reject f nfa rm ld =
     (let opt = lf_options f; n = rule_count rm
      in body_open opt @ section2_text f ld @ reject_vars n @
         turn_open @ eof_text f nfa @
         lines
         [''            (void)yy_rule; yyterminate();'',
          ''        }''] @
         reject_scan_text n @ reject_best_text n @ reject_default_text opt @
         text_start opt @
         lines
         [''        {'',
          ''            int yy_trail = yy_rule_trail_len[yy_rule];'',
          ''            if (yy_trail > 0 && (size_t)yy_trail <= yy_len) yy_len -= (size_t)yy_trail;'',
          ''        }''] @
         more_text opt @ reject_macro @ reject_dispatch f rm ld @
         lines
         [''        yy_more_offset = yy_more_flag ? yyleng : 0;'',
          ''    }'',
          ''}''])"

end
