(* ===== verification/Emit_C.thy ===== *)
theory Emit_C
  imports Emit_Body
begin

text \<open>
  The two outputs of \<open>src/src/codegen.cpp\<close> as whole texts: \<open>emit_c\<close>, the C file, and \<open>emit_h\<close>, its
  header. The runtime template is a file the build generates from \<open>src/runtime/runtime.c.in\<close>: a
  parameter.
\<close>

record codegen_input =
  cg_file :: lex_file
  cg_nfa :: nfa
  cg_dfa :: dfa
  cg_output_path :: string
  cg_line_directives :: bool
  cg_compress :: compress_mode
  cg_tables_loader :: bool
  cg_runtime_override :: string

definition zero_one :: "bool \<Rightarrow> string" where
  "zero_one b = (if b then ''1'' else ''0'')"

section \<open>The head of the file\<close>

definition gen_file :: "codegen_input \<Rightarrow> string" where
  "gen_file ci = (if cg_output_path ci = [] then ''lex.yy.c'' else cg_output_path ci)"

definition top_text :: "codegen_input \<Rightarrow> string" where
  "top_text ci =
     (let f = cg_file ci
      in if lf_section_top f = [] then []
         else emit_line_directive [] (sl_file (lf_section_top_loc f)) (sl_line (lf_section_top_loc f)) (cg_line_directives ci) @
              closed_text (lf_section_top f))"

definition includes_text :: "options \<Rightarrow> string" where
  "includes_text opt =
     lines
      [''#include <stdio.h>'',
       ''#include <stdlib.h>'',
       ''#include <string.h>'',
       ''#include <errno.h>'',
       []] @
     ''#define YY_REENTRANT '' @ zero_one (o_reentrant opt) @ [NL] @
     lines
      [''typedef struct yy_buffer_state *YY_BUFFER_STATE;''] @
     if_set (o_reentrant opt) (lines
      [''typedef void *yyscan_t;'']) @
     [NL] @
     lines
      [''#include <stdlib.h>'',
       ''static void *('' @ ''*yy_libc_malloc_p)(size_t) = malloc;'',
       ''static void *('' @ ''*yy_libc_realloc_p)(void *, size_t) = realloc;'',
       ''static void  ('' @ ''*yy_libc_free_p)(void *) = free;'',
       []]"

definition emit_head :: "codegen_input \<Rightarrow> string" where
  "emit_head ci =
     lines
      [''/* Generated by lex.cpp -- do not edit. */''] @
     top_text ci @ includes_text (lf_options (cg_file ci))"

definition emit_prologue :: "codegen_input \<Rightarrow> string \<Rightarrow> string" where
  "emit_prologue ci out =
     (let f = cg_file ci; ld = cg_line_directives ci
      in if lf_section1 f = [] then out
         else let out = out @ lines
      [''/* user prologue */''];
                  out = emit_line_directive out (sl_file (lf_section1_loc f)) (sl_line (lf_section1_loc f)) ld;
                  out = out @ closed_text (lf_section1 f)
              in restore_line_directive out (gen_file ci) ld)"

definition toggles_text :: "options \<Rightarrow> string" where
  "toggles_text opt =
     ''#define YY_TRACK_LINENO '' @ zero_one (o_yylineno opt) @ [NL] @
     if_set (o_noyyalloc opt) (lines
      [''#define YY_NO_YYALLOC 1'']) @
     if_set (o_noyyrealloc opt) (lines
      [''#define YY_NO_YYREALLOC 1'']) @
     if_set (o_noyyfree opt) (lines
      [''#define YY_NO_YYFREE 1'']) @
     ''#define YY_ARRAY '' @ zero_one (o_array opt) @ [NL] @
     lines
      [''#ifndef YY_EXTRA_TYPE''] @
     ''#define YY_EXTRA_TYPE '' @ (if o_extra_type opt = [] then ''void *'' else o_extra_type opt) @ [NL] @
     lines [''#endif'', []]"

section \<open>The text between the tables and \<open>yylex\<close>\<close>

definition debug_text :: "options \<Rightarrow> string" where
  "debug_text opt = ''int yy_flex_debug = '' @ zero_one (o_debug opt) @ lines ['';'', []]"

definition yywrap_text :: "options \<Rightarrow> string" where
  "yywrap_text opt =
     if_set (o_noyywrap opt)
       (lines
          [''#ifdef yywrap'',
           ''/* yywrap is already a macro (typically from a'',
           '' * `#define <prefix>wrap()` in section 1 after a'',
           '' * prefix= rename); skip our default function. */'',
           ''#define YY_SKIP_YYWRAP'',
           ''#else''] @
        (if o_reentrant opt
         then lines
      [''int yywrap(yyscan_t s) { (void)s; return 1; }'']
         else lines
      [''int yywrap(void) { return 1; }'']) @
        lines
      [''#endif'',
       []])"

definition runtime_text :: "string \<Rightarrow> codegen_input \<Rightarrow> string" where
  "runtime_text kRuntimeTemplate ci =
     lines
      [''/* runtime helpers (from runtime/runtime.c.in) */''] @
     closed_text (if cg_runtime_override ci \<noteq> [] then cg_runtime_override ci else kRuntimeTemplate) @ [NL]"

definition transition_text :: "compress_mode \<Rightarrow> string" where
  "transition_text mode =
     (if mode = Compress
      then lines
      [''#define YY_TRANSITION(s, b) (yy_chk[yy_base[(s)] + yy_ec[(unsigned char)(b)]] == (s) ? yy_nxt[yy_base[(s)] + yy_ec[(unsigned char)(b)]] : -1)'']
      else lines
      [''#define YY_TRANSITION(s, b) (yy_nxt[(s)][yy_ec[(unsigned char)(b)]])'']) @ [NL]"

definition bridge_text :: "options \<Rightarrow> string" where
  "bridge_text opt =
     if_set (o_bison_bridge opt) (lines
      [''#define yylval ((YYSTYPE*)YY_G->yylval_r)'']) @
     if_set (o_bison_locations opt) (lines
      [''#define yylloc ((YYLTYPE*)YY_G->yylloc_r)''])"

definition decl_text :: "lex_file \<Rightarrow> string" where
  "decl_text f = lines [''#ifndef YY_DECL''] @ ''#define YY_DECL '' @ yylex_signature f @ [NL] @ lines [''#endif'', []]"

section \<open>The loader of table files\<close>

definition check_array :: "string \<Rightarrow> nat \<Rightarrow> string" where
  "check_array dst n = ''    if (yy_read_int_array(f, '' @ dst @ dec n @ '')) goto bad;''"

definition loader_head :: string where
  "loader_head =
     lines
      [''static int yy_read_be32(FILE *f, int *out_v) {'',
       ''    unsigned char b[4];'',
       ''    if (fread(b, 1, 4, f) != 4) return -1;'',
       ''    *out_v = (int)((unsigned)b[0]<<24 | (unsigned)b[1]<<16 |'',
       ''                    (unsigned)b[2]<<8  | (unsigned)b[3]);'',
       ''    return 0;'',
       ''}'',
       [],
       ''static int yy_read_int_array(FILE *f, int *dst, size_t n) {'',
       ''    for (size_t i = 0; i < n; ++i)'',
       ''        if (yy_read_be32(f, dst + i) != 0) return -1;'',
       ''    return 0;'',
       ''}'',
       [],
       ''int yytables_fload(const char *path) {'',
       ''    FILE *f = fopen(path, '' @ [DQ] @ ''rb'' @ [DQ] @ '');'',
       ''    if (!f) return -1;'',
       ''    int magic, version, name_len, flags;'',
       ''    int got_nclasses, got_nstates, got_nrules, got_pool;'',
       ''    if (yy_read_be32(f, &magic) || magic != (int)0xF13C57B1) goto bad;'',
       ''    if (yy_read_be32(f, &version) || version != 1) goto bad;'',
       ''    if (yy_read_be32(f, &name_len)) goto bad;'',
       ''    if (fseek(f, name_len, SEEK_CUR) != 0) goto bad;'',
       ''    if (yy_read_be32(f, &flags)) goto bad;'',
       ''    if (yy_read_be32(f, &got_nclasses)) goto bad;'',
       ''    if (yy_read_be32(f, &got_nstates))  goto bad;'',
       ''    if (yy_read_be32(f, &got_nrules))   goto bad;'',
       ''    if (yy_read_be32(f, &got_pool))     goto bad;'']"

definition loader_text :: "codegen_input \<Rightarrow> string" where
  "loader_text ci =
     (let dfa = cg_dfa ci; compressed = (cg_compress ci = Compress);
          ncls = dfa_nclasses dfa; ns = length (dfa_states dfa); ncs = length (dfa_cond_starts dfa);
          nr = (if nfa_rule_trail (cg_nfa ci) = [] then 1 else length (nfa_rule_trail (cg_nfa ci)));
          pool_size = (if compressed then cd_pool_size (compress_dfa dfa) else 0)
      in loader_head @
         lines
           [''    if (got_nclasses != '' @ dec ncls @ '') goto bad;'',
            ''    if (got_nstates  != '' @ dec ns @ '') goto bad;'',
            ''    if (fread(yy_ec, 1, 256, f) != 256) goto bad;''] @
         (if compressed
          then lines [''    if (fread(yy_meta, 1, '' @ dec ncls @ '', f) != '' @ dec ncls @ '') goto bad;'']
          else lines [''    { unsigned char yy_skip['' @ dec ncls @ '']; if (fread(yy_skip, 1, '' @ dec ncls @
                      '', f) != '' @ dec ncls @ '') goto bad; }'']) @
         (if compressed
          then lines
           [''    if (got_pool != '' @ dec pool_size @ '') goto bad;'',
            check_array ''yy_base, '' ns, check_array ''yy_def , '' ns, check_array ''yy_nxt, '' pool_size, check_array ''yy_chk, '' pool_size]
          else lines [check_array ''(int*)yy_nxt, '' (ns * ncls)]) @
         lines
           [check_array ''yy_accept_normal, '' ns,
            check_array ''yy_accept_eol,    '' ns,
            ''    int got_ncond;'',
            ''    if (yy_read_be32(f, &got_ncond) || got_ncond != '' @ dec ncs @ '') goto bad;'',
            check_array ''yy_cond_normal, '' ncs,
            check_array ''yy_cond_bol,    '' ncs,
            check_array ''yy_rule_trail_len, '' nr] @
         lines
           [''    fclose(f);'',
            ''    return 0;'',
            ''bad:'',
            ''    fclose(f);'',
            ''    return -1;'',
            ''}'',
            []])"

section \<open>The C file\<close>

definition epilogue_text :: "codegen_input \<Rightarrow> string" where
  "epilogue_text ci =
     (let f = cg_file ci
      in if lf_section3 f = [] then []
         else lines
      [''/* user epilogue */''] @
              emit_line_directive [] (sl_file (lf_section3_loc f)) (sl_line (lf_section3_loc f)) (cg_line_directives ci) @
              closed_text (lf_section3 f))"

definition emit_c :: "string \<Rightarrow> codegen_input \<Rightarrow> string" where
  "emit_c kRuntimeTemplate ci =
     (let f = cg_file ci; opt = lf_options f; nfa = cg_nfa ci; ld = cg_line_directives ci;
          rm = make_rule_map f;
          out = emit_prologue ci (emit_head ci);
          out = emit_cond_defines (emit_prefix_defines out f) f;
          out = emit_tables (cg_tables_loader ci) (cg_compress ci) f nfa (cg_dfa ci) (out @ toggles_text opt)
      in out @ debug_text opt @ yywrap_text opt @ runtime_text kRuntimeTemplate ci @ transition_text (cg_compress ci) @
         bridge_text opt @ decl_text f @
         (if o_uses_reject opt then yy_lex_body_reject f nfa rm ld else yy_lex_body f nfa rm ld) @ [NL] @
         if_set (cg_tables_loader ci) (loader_text ci) @ epilogue_text ci)"

section \<open>The header\<close>

definition header_yylex :: "options \<Rightarrow> string" where
  "header_yylex opt =
     (if o_bison_bridge opt \<and> o_bison_locations opt
      then lines
      [''int   yylex(void *yylval, void *yylloc, yyscan_t scanner);'']
      else if o_bison_bridge opt
      then lines
      [''int   yylex(void *yylval, yyscan_t scanner);'']
      else lines
      [''int   yylex(yyscan_t scanner);''])"

definition header_conds :: "start_cond list \<Rightarrow> string" where
  "header_conds conds =
     lines
      [''/* start conditions */'',
       ''#define INITIAL 0''] @
     concat (map (\<lambda>i. ''#define '' @ sc_name (conds ! i) @ '' '' @ dec (i + 1) @ [NL]) [0..<length conds]) @ [NL]"

definition emit_h :: "codegen_input \<Rightarrow> string" where
  "emit_h ci =
     (let f = cg_file ci; opt = lf_options f; guard = ''LEX_GENERATED_HEADER_H''
      in ''#ifndef '' @ guard @ [NL] @ ''#define '' @ guard @ lines [[], []] @
         lines
         [''#include <stdio.h>'',
          ''#include <stddef.h>'',
          []] @
         ''#define YY_REENTRANT '' @ zero_one (o_reentrant opt) @ [NL] @
         lines
         [''typedef struct yy_buffer_state *YY_BUFFER_STATE;''] @
         if_set (o_reentrant opt) (lines
         [''typedef void *yyscan_t;'']) @ [NL] @
         header_conds (lf_conds f) @
         (if o_reentrant opt
          then lines
         [''/* reentrant API */'',
          ''int   yylex_init(yyscan_t *scanner);'',
          ''int   yylex_init_extra(void *user, yyscan_t *scanner);'',
          ''int   yylex_destroy(yyscan_t scanner);''] @
            header_yylex opt @
            lines
         [''char *yyget_text(yyscan_t);  void  yyset_text(char*, yyscan_t);'',
          ''int   yyget_leng(yyscan_t);'',
          ''int   yyget_lineno(yyscan_t); void  yyset_lineno(int, yyscan_t);'',
          ''FILE *yyget_in(yyscan_t);     void  yyset_in (FILE*, yyscan_t);'',
          ''FILE *yyget_out(yyscan_t);    void  yyset_out(FILE*, yyscan_t);'',
          ''void *yyget_extra(yyscan_t);  void  yyset_extra(void*, yyscan_t);'',
          ''YY_BUFFER_STATE yy_create_buffer(FILE*, int, yyscan_t);'',
          ''void            yy_delete_buffer(YY_BUFFER_STATE, yyscan_t);'',
          ''void            yy_switch_to_buffer(YY_BUFFER_STATE, yyscan_t);'',
          ''void            yypush_buffer_state(YY_BUFFER_STATE, yyscan_t);'',
          ''void            yypop_buffer_state(yyscan_t);'',
          ''YY_BUFFER_STATE yy_scan_string(const char*, yyscan_t);'',
          ''YY_BUFFER_STATE yy_scan_bytes (const char*, int, yyscan_t);'',
          ''YY_BUFFER_STATE yy_scan_buffer(char*, size_t, yyscan_t);'',
          ''void            yyrestart    (FILE*, yyscan_t);'',
          ''void            yy_push_state(int, yyscan_t);'',
          ''void            yy_pop_state (yyscan_t);'',
          ''int             yy_top_state (yyscan_t);'']
          else lines
         [''/* non-reentrant API */'',
          ''extern char *yytext;'',
          ''extern int   yyleng;'',
          ''extern int   yylineno;'',
          ''extern FILE *yyin;'',
          ''extern FILE *yyout;'',
          ''int  yylex   (void);'',
          ''int  yywrap  (void);'',
          ''void yyrestart(FILE*);'',
          ''YY_BUFFER_STATE yy_create_buffer(FILE*, int);'',
          ''void            yy_delete_buffer(YY_BUFFER_STATE);'',
          ''void            yy_switch_to_buffer(YY_BUFFER_STATE);'',
          ''void            yypush_buffer_state(YY_BUFFER_STATE);'',
          ''void            yypop_buffer_state(void);'',
          ''YY_BUFFER_STATE yy_scan_string(const char*);'',
          ''YY_BUFFER_STATE yy_scan_bytes (const char*, int);'',
          ''YY_BUFFER_STATE yy_scan_buffer(char*, size_t);'',
          ''void            yy_push_state(int);'',
          ''void            yy_pop_state (void);'',
          ''int             yy_top_state (void);'']) @
         lines [[], ''#endif''])"

end
