(* ===== verification/Emit_Lines.thy ===== *)
theory Emit_Lines
  imports Emit_C
begin

text \<open>
  What a C compiler makes of the \<open>#line\<close> directives in the generated file: the code of the three
  sections and of \<open>%top\<close> and the actions of the rules are in the file, with the first line
  attributed to the place in the specification that the parser noted for it. The actions of
  \<open><<EOF>>\<close> rules are in the file too, but no directive stands before them, and the code of several
  \<open>%{\<close> blocks is one text under the place of the first.
\<close>

section \<open>Where a position in a text is, for a C compiler\<close>

function c_file_name :: "string \<Rightarrow> string option" where
  "c_file_name [] = None"
| "c_file_name [c] = (if c = DQ then Some [] else None)"
| "c_file_name (c # d # cs) =
     (if c = DQ then None
      else if c = BS then map_option ((#) d) (c_file_name cs)
      else map_option ((#) c) (c_file_name (d # cs)))"
  by pat_completeness auto
termination by (relation "measure length") auto

definition line_directive :: "string \<Rightarrow> (string \<times> nat) option" where
  "line_directive l =
     (let l = dropWhile (\<lambda>c. c = CHR '' '') l; n = takeWhile isdigit (drop 6 l); t = dropWhile isdigit (drop 6 l)
      in if take 6 l = ''#line '' \<and> n \<noteq> [] \<and> take 2 t = [CHR '' '', DQ]
         then map_option (\<lambda>f. (f, number 0 n)) (c_file_name (drop 2 t)) else None)"

text \<open>The file and line of the line the text ends in; \<open>cur\<close> is what has been read of the line.\<close>

fun place :: "string \<times> nat \<Rightarrow> string \<Rightarrow> string \<Rightarrow> string \<times> nat" where
  "place pos cur [] = pos"
| "place pos cur (c # cs) =
     (if c = NL then place (case line_directive cur of Some p \<Rightarrow> p | None \<Rightarrow> (fst pos, snd pos + 1)) [] cs
      else place pos (cur @ [c]) cs)"

definition ends_line :: "string \<Rightarrow> bool" where
  "ends_line s \<longleftrightarrow> s = [] \<or> last s = NL"

lemma ends_line_append: "ends_line a \<Longrightarrow> ends_line b \<Longrightarrow> ends_line (a @ b)"
  by (cases "b = []") (simp_all add: ends_line_def)

lemma ends_line_lines [simp]: "ends_line (lines ls)"
  by (induction ls) (auto simp: lines_def ends_line_def)

lemma ends_line_simps [simp]:
  "ends_line []"
  "ends_line (c # s) \<longleftrightarrow> (if s = [] then c = NL else ends_line s)"
  by (auto simp: ends_line_def)

lemma ends_line_tail: "ends_line (a @ b) \<longleftrightarrow> (if b = [] then ends_line a else ends_line b)"
  by (auto simp: ends_line_def)

lemma lines_empty [simp]: "lines ls = [] \<longleftrightarrow> ls = []"
  by (cases ls) (simp_all add: lines_def)

lemma place_line: "NL \<notin> set l \<Longrightarrow> place pos cur (l @ t) = place pos (cur @ l) t"
  by (induction l arbitrary: cur) auto

lemma place_line_end:
  "last a = NL \<Longrightarrow> a \<noteq> [] \<Longrightarrow> place pos cur (a @ t) = place (place pos cur a) [] t"
proof (induction a arbitrary: pos cur)
  case (Cons c a)
  then show ?case by (cases "a = []") simp_all
qed simp

lemma place_skips: "ends_line a \<Longrightarrow> place pos [] (a @ t) = place (place pos [] a) [] t"
  unfolding ends_line_def using place_line_end[of a pos "[]" t] by (cases "a = []") simp_all

section \<open>A directive is read back\<close>

definition escaped :: "string \<Rightarrow> string" where
  "escaped = (\<lambda>s. concat (map (\<lambda>c. if c = BS \<or> c = DQ then [BS, c] else [c]) s))"

lemma c_file_name_escaped: "c_file_name (escaped f @ [DQ]) = Some f"
proof (induction f)
  case (Cons c f)
  show ?case
  proof (cases "c = BS \<or> c = DQ")
    case True
    with Cons show ?thesis by (auto simp: escaped_def)
  next
    case False
    obtain d cs where "escaped f @ [DQ] = d # cs" by (cases "escaped f @ [DQ]") auto
    with Cons False show ?thesis by (simp add: escaped_def)
  qed
qed (simp add: escaped_def)

definition directive_line :: "nat \<Rightarrow> string \<Rightarrow> string" where
  "directive_line n f = ''#line '' @ dec n @ '' '' @ [DQ] @ escaped f @ [DQ]"

lemma directive_text_line: "directive_text n f = directive_line n f @ [NL]"
  by (simp add: directive_text_def directive_line_def escaped_def)

lemma digits_split:
  assumes "\<not> isdigit c"
  shows "takeWhile isdigit (dec n @ c # t) = dec n" "dropWhile isdigit (dec n @ c # t) = c # t"
  using dec_digits[of n] assms by (simp_all add: takeWhile_append2 dropWhile_append2)

lemma line_directive_line:
  assumes "\<forall>c\<in>set b. c = CHR '' ''"
  shows "line_directive (b @ directive_line n f) = Some (f, n)"
proof -
  have "dropWhile (\<lambda>c. c = CHR '' '') (b @ directive_line n f) = directive_line n f"
    using assms by (simp add: dropWhile_append2 directive_line_def)
  moreover have "\<not> isdigit (CHR '' '')" by (simp add: isdigit_def)
  ultimately show ?thesis
    using c_file_name_escaped[of f] digits_split[of "CHR '' ''" n "[DQ] @ escaped f @ [DQ]"] dec_nonempty[of n]
    by (simp add: line_directive_def directive_line_def number_dec)
qed

lemma no_newline_line: "NL \<notin> set f \<Longrightarrow> NL \<notin> set (directive_line n f)"
  using dec_digits[of n] by (auto simp: directive_line_def escaped_def isdigit_def)

definition blanks :: "string \<Rightarrow> bool" where
  "blanks b \<longleftrightarrow> set b \<subseteq> {CHR '' ''}"

lemma blanks_no_newline: "blanks b \<Longrightarrow> NL \<notin> set b"
  unfolding blanks_def by fastforce

lemma place_directive:
  assumes "ends_line a" "NL \<notin> set f" "blanks b" "blanks b'"
  shows "place pos [] (a @ b @ directive_text n f @ b') = (f, n)"
proof -
  let ?pos = "place pos [] a"
  have "place pos [] (a @ b @ directive_text n f @ b') = place ?pos [] (b @ directive_text n f @ b')"
    by (rule place_skips[OF assms(1)])
  also have "... = place ?pos [] ((b @ directive_line n f) @ NL # b')"
    by (simp add: directive_text_line)
  also have "... = place (f, n) [] b'"
  proof -
    have "NL \<notin> set (b @ directive_line n f)" 
      using no_newline_line[OF assms(2)] blanks_no_newline[OF assms(3)] by simp
    note place_line[OF this, of ?pos "[]" "NL # b'"]
    moreover have "line_directive (b @ directive_line n f) = Some (f, n)"
      using line_directive_line assms(3) unfolding blanks_def by blast
    ultimately show ?thesis by simp
  qed
  also have "... = (f, n)"
  proof -
    show ?thesis using place_line[OF blanks_no_newline[OF assms(4)], of "(f, n)" "[]" "[]"] by simp
  qed
  finally show ?thesis .
qed

section \<open>A piece of code at its place\<close>

definition located :: "string \<Rightarrow> string \<Rightarrow> source_loc \<Rightarrow> bool" where
  "located out code loc \<longleftrightarrow>
     (\<exists>pre post. out = pre @ code @ post \<and> (\<forall>start. place start [] pre = (sl_file loc, sl_line loc)))"

lemma locatedI:
  assumes "ends_line a" "NL \<notin> set (sl_file loc)" "blanks b" "blanks b'"
  shows "located (a @ b @ directive_text (sl_line loc) (sl_file loc) @ b' @ code @ post) code loc"
  unfolding located_def
  by (rule exI[of _ "a @ b @ directive_text (sl_line loc) (sl_file loc) @ b'"])
    (use place_directive[OF assms] in \<open>auto intro!: exI[of _ post]\<close>)

lemma located_inside:
  assumes "located out code loc" "ends_line a"
  shows "located (a @ out @ z) code loc"
proof -
  obtain pre post where p: "out = pre @ code @ post" "\<And>start. place start [] pre = (sl_file loc, sl_line loc)"
    using assms(1) by (auto simp: located_def)
  have "place start [] (a @ pre) = (sl_file loc, sl_line loc)" for start
    using place_skips[OF assms(2), of start pre] p(2) by simp
  then show ?thesis
    unfolding located_def by (intro exI[of _ "a @ pre"] exI[of _ "post @ z"]) (simp add: p(1))
qed

section \<open>The pieces of the generated file\<close>

lemma emit_directive_on: "emit_line_directive out f n True = out @ directive_text n f"
  by (simp add: emit_line_directive_def)

lemma closed_text_append: "\<exists>z. closed_text s = s @ z"
  by (simp add: closed_text_def)

lemma ends_line_closed_text [simp]: "ends_line (closed_text s)"
  by (auto simp: closed_text_def ends_line_def)

lemma located_closed:
  assumes "ends_line a" "NL \<notin> set (sl_file loc)"
  shows "located (a @ directive_text (sl_line loc) (sl_file loc) @ closed_text code) code loc"
proof -
  obtain z where "closed_text code = code @ z" using closed_text_append by blast
  then show ?thesis using locatedI[OF assms, of "[]" "[]" code z] by (simp add: blanks_def)
qed

lemma top_located:
  assumes "cg_line_directives ci" "lf_section_top f \<noteq> []" "cg_file ci = f" "NL \<notin> set (sl_file (lf_section_top_loc f))"
  shows "located (top_text ci) (lf_section_top f) (lf_section_top_loc f)"
  using located_closed[OF ends_line_simps(1) assms(4), of "lf_section_top f"] assms(1,2)
  by (simp add: top_text_def emit_directive_on assms(3))

lemma section2_located:
  assumes "lf_section2 f \<noteq> []" "NL \<notin> set (sl_file (lf_section2_loc f))"
  shows "located (section2_text f True) (lf_section2 f) (lf_section2_loc f)"
  using located_closed[OF ends_line_simps(1) assms(2), of "lf_section2 f"] assms(1)
  by (simp add: section2_text_def emit_directive_on)

lemma epilogue_located:
  assumes "cg_line_directives ci" "lf_section3 f \<noteq> []" "cg_file ci = f" "NL \<notin> set (sl_file (lf_section3_loc f))"
  shows "located (epilogue_text ci) (lf_section3 f) (lf_section3_loc f)"
  using located_closed[OF ends_line_lines assms(4), of _ "lf_section3 f"] assms(1,2)
  by (simp add: epilogue_text_def emit_directive_on assms(3))

lemma ends_line_head: "ends_line (emit_head ci)"
  by (simp add: emit_head_def includes_text_def ends_line_tail)

lemma prologue_parts:
  assumes "cg_line_directives ci" "lf_section1 f \<noteq> []" "cg_file ci = f"
  shows "emit_prologue ci out = (let a = out @ lines [''/* user prologue */''] @
      directive_text (sl_line (lf_section1_loc f)) (sl_file (lf_section1_loc f)) @ closed_text (lf_section1 f)
    in a @ directive_text (count_lines a + 2) (gen_file ci))"
  using assms by (simp add: emit_prologue_def emit_directive_on restore_line_directive_def Let_def)

lemma prologue_located:
  assumes "cg_line_directives ci" "lf_section1 f \<noteq> []" "cg_file ci = f" "NL \<notin> set (sl_file (lf_section1_loc f))"
    "ends_line out"
  shows "\<exists>z. emit_prologue ci out = out @ z \<and> located (emit_prologue ci out) (lf_section1 f) (lf_section1_loc f)"
proof -
  let ?a = "directive_text (sl_line (lf_section1_loc f)) (sl_file (lf_section1_loc f)) @ closed_text (lf_section1 f)"
  have "located ?a (lf_section1 f) (lf_section1_loc f)"
    using located_closed[OF ends_line_simps(1) assms(4)] by simp
  then have "located ((out @ lines [''/* user prologue */'']) @ ?a @ z) (lf_section1 f) (lf_section1_loc f)" for z
    by (rule located_inside) (intro ends_line_append assms(5) ends_line_lines)
  then show ?thesis by (simp add: prologue_parts[OF assms(1-3)] Let_def)
qed

lemma directive_text_count: "NL \<notin> set f \<Longrightarrow> count_lines (directive_text n f) = 1"
  using no_newline_line[of f n] by (simp add: directive_text_line count_lines_def filter_empty_conv) fastforce

lemma prologue_restores:
  assumes "cg_line_directives ci" "lf_section1 f \<noteq> []" "cg_file ci = f" "ends_line out" "NL \<notin> set (gen_file ci)"
  shows "place start [] (emit_prologue ci out) = (gen_file ci, count_lines (emit_prologue ci out) + 1)"
proof -
  define a where "a = out @ lines [''/* user prologue */''] @
    directive_text (sl_line (lf_section1_loc f)) (sl_file (lf_section1_loc f)) @ closed_text (lf_section1 f)"
  have "emit_prologue ci out = a @ directive_text (count_lines a + 2) (gen_file ci)"
    using prologue_parts[OF assms(1-3)] by (simp add: a_def Let_def)
  moreover have "ends_line a"
    by (simp add: a_def directive_text_line ends_line_tail)
  from place_directive[OF this assms(5), of "[]" "[]" start "count_lines a + 2"]
  have "place start [] (a @ directive_text (count_lines a + 2) (gen_file ci)) = (gen_file ci, count_lines a + 2)"
    by (simp add: blanks_def)
  moreover have "count_lines (a @ directive_text n (gen_file ci)) = count_lines a + 1" for n
    using directive_text_count[OF assms(5)] by (simp add: count_lines_def)
  ultimately show ?thesis by simp
qed

section \<open>The actions\<close>

definition body_of :: "lex_file \<Rightarrow> nat \<Rightarrow> bool" where
  "body_of f i \<longleftrightarrow> i < length (lf_rules f) \<and> \<not> r_eof (lf_rules f ! i) \<and> r_action (lf_rules f ! i) \<noteq> ''|''"

lemma concat_at:
  assumes "i < n"
  shows "concat (map g [0..<n]) = concat (map g [0..<i]) @ g i @ concat (map g [Suc i..<n])"
proof -
  have "[0..<n] = [0..<i] @ i # [Suc i..<n]" using assms upt_add_eq_append[of 0 i "n - i"] by (simp add: upt_conv_Cons)
  then show ?thesis by simp
qed

lemma action_case_append: "action_case f rm ld i out = out @ action_case f rm ld i []"
  by (simp add: action_case_def emit_line_directive_def Let_def)

lemma dispatch_eq:
  "emit_action_dispatch out f rm ld = out @ ''switch (yy_rule) {'' @ [NL] @
     concat (map (\<lambda>i. action_case f rm ld i []) [0..<length (lf_rules f)]) @ ''    default: break;'' @ [NL] @ ''}'' @ [NL]"
proof -
  have "fold (action_case f rm ld) is x = x @ concat (map (\<lambda>i. action_case f rm ld i []) is)" for "is" x
  proof (induction "is" arbitrary: x)
    case (Cons i "is")
    then show ?case using action_case_append[of f rm ld i x] by simp
  qed simp
  then show ?thesis by (simp add: emit_action_dispatch_def)
qed

lemma dispatch_split:
  assumes "body_of f i"
  shows "\<exists>x z. emit_action_dispatch [] f rm True =
    (x @ [NL]) @ directive_text (sl_line (r_loc (lf_rules f ! i))) (sl_file (r_loc (lf_rules f ! i))) @ r_action (lf_rules f ! i) @ z"
proof -
  let ?r = "lf_rules f ! i" and ?g = "\<lambda>i. action_case f rm True i []"
  have "?g i = (''    case '' @ dec_int (nfa_id rm ! i) @ '': {'' @ [NL]) @ directive_text (sl_line (r_loc ?r)) (sl_file (r_loc ?r)) @
      r_action ?r @ NL # ''    } break;'' @ [NL]"
    using assms by (simp add: body_of_def action_case_def Let_def emit_directive_on)
  with concat_at[of i "length (lf_rules f)" ?g] assms show ?thesis
    by (intro exI[of _ "''switch (yy_rule) {'' @ [NL] @ concat (map ?g [0..<i]) @ ''    case '' @ dec_int (nfa_id rm ! i) @ '': {''"]
        exI[of _ "(NL # ''    } break;'' @ [NL]) @ concat (map ?g [Suc i..<length (lf_rules f)]) @ ''    default: break;'' @ [NL] @ ''}'' @ [NL]"])
      (simp add: dispatch_eq body_of_def)
qed

lemma indent_append [simp]: "indent (a @ b) = indent a @ indent b"
  by (simp add: indent_def)

lemma indent_NL [simp]: "indent (NL # s) = NL # ''        '' @ indent s"
  by (simp add: indent_def)

lemma indent_line: "NL \<notin> set l \<Longrightarrow> indent l = l"
proof -
  have "NL \<notin> set l \<Longrightarrow> concat (map (\<lambda>c. if c = NL then c # ''        '' else [c]) l) = l" by (induction l) auto
  then show "NL \<notin> set l \<Longrightarrow> ?thesis" by (simp add: indent_def)
qed

lemma indented_located:
  assumes "body_of f i" "NL \<notin> set (sl_file (r_loc (lf_rules f ! i)))"
  shows "located (''        '' @ indent (emit_action_dispatch [] f rm True)) (indent (r_action (lf_rules f ! i))) (r_loc (lf_rules f ! i))"
proof -
  let ?r = "lf_rules f ! i"
  obtain x z where "emit_action_dispatch [] f rm True =
      (x @ [NL]) @ directive_text (sl_line (r_loc ?r)) (sl_file (r_loc ?r)) @ r_action ?r @ z"
    using dispatch_split[OF assms(1)] by blast
  then have "''        '' @ indent (emit_action_dispatch [] f rm True) =
      (''        '' @ indent x @ [NL]) @ ''        '' @ directive_text (sl_line (r_loc ?r)) (sl_file (r_loc ?r)) @ ''        '' @
        indent (r_action ?r) @ indent z"
    using indent_line[OF no_newline_line[OF assms(2)], of "sl_line (r_loc ?r)"]
    by (simp add: directive_text_line)
  moreover have "ends_line (''        '' @ indent x @ [NL])" by (simp only: ends_line_tail ends_line_simps) simp
  moreover have "blanks ''        ''" by (simp add: blanks_def)
  ultimately show ?thesis using locatedI[OF _ assms(2)] by metis
qed

lemma reject_located:
  assumes "body_of f i" "NL \<notin> set (sl_file (r_loc (lf_rules f ! i)))"
  shows "located (reject_dispatch f rm True) (r_action (lf_rules f ! i)) (r_loc (lf_rules f ! i))"
proof -
  let ?r = "lf_rules f ! i"
  define h where "h = ''            case '' @ dec_int (nfa_id rm ! i) @ '': {'' @ [NL]"
  obtain z where "reject_case f rm True i = h @ [] @ directive_text (sl_line (r_loc ?r)) (sl_file (r_loc ?r)) @ [] @ r_action ?r @ z"
    using assms(1) by (simp add: body_of_def reject_case_def Let_def emit_directive_on h_def)
  moreover have "ends_line h" by (simp add: h_def ends_line_tail)
  moreover have "blanks []" by (simp add: blanks_def)
  ultimately have l: "located (reject_case f rm True i) (r_action ?r) (r_loc ?r)"
    using locatedI[OF _ assms(2)] by metis
  have e: "ends_line (reject_case f rm ld j)" for ld j
    by (simp add: reject_case_def Let_def ends_line_tail)
  have "ends_line (concat (map (reject_case f rm True) js))" for js
    by (induction js) (simp_all add: e ends_line_append)
  then have "ends_line (lines ls @ concat (map (reject_case f rm True) [0..<i]))" for ls
    by (intro ends_line_append) simp_all
  from located_inside[OF l this] concat_at[of i "length (lf_rules f)" "reject_case f rm True"] assms(1)
  show ?thesis by (simp add: reject_dispatch_def body_of_def)
qed

lemma body_section2:
  assumes "lf_section2 f \<noteq> []" "NL \<notin> set (sl_file (lf_section2_loc f))"
  shows "located (if b then yy_lex_body_reject f nfa rm True else yy_lex_body f nfa rm True) (lf_section2 f) (lf_section2_loc f)"
proof -
  have "ends_line (body_open opt)" for opt by (simp add: body_open_def ends_line_tail)
  from located_inside[OF section2_located[OF assms] this] show ?thesis
    by (simp add: yy_lex_body_def yy_lex_body_reject_def Let_def)
qed

lemma body_action:
  assumes "body_of f i" "NL \<notin> set (sl_file (r_loc (lf_rules f ! i)))"
  shows "located (if b then yy_lex_body_reject f nfa rm True else yy_lex_body f nfa rm True)
    (if b then r_action (lf_rules f ! i) else indent (r_action (lf_rules f ! i))) (r_loc (lf_rules f ! i))"
proof -
  have e: "ends_line (a @ more_text opt)" "ends_line (a @ reject_macro)" for a opt
    by (simp_all add: more_text_def reject_macro_def ends_line_tail)
  note l = located_inside[OF indented_located[OF assms] e(1)] located_inside[OF reject_located[OF assms] e(2)]
  have "yy_lex_body f nfa rm True = (x @ more_text (lf_options f)) @ (''        '' @ indent (emit_action_dispatch [] f rm True)) @ z"
    if "x = body_open (lf_options f) @ section2_text f True @ turn_open @ lines [''            int yy_rule = -1;''] @ eof_text f nfa @
      lines [''            (void)yy_rule;'', ''            yyterminate();'', ''        }''] @ match_vars (any_var_trail nfa) (rule_count rm) @
      match_text (any_var_trail nfa) @ pick_text @ default_text (lf_options f) @ text_start (lf_options f) @ trail_text (any_var_trail nfa)"
      "z = lines [[], ''        yy_more_offset = yy_more_flag ? yyleng : 0;'', ''    }'', ''}'']" for x z
    unfolding that by (simp only: yy_lex_body_def Let_def append_assoc)
  moreover have "\<exists>x z. yy_lex_body_reject f nfa rm True = (x @ reject_macro) @ reject_dispatch f rm True @ z"
    unfolding yy_lex_body_reject_def Let_def append_assoc[symmetric] by blast
  ultimately show ?thesis using l by (auto simp del: append_assoc)
qed

text \<open>The actions of \<open><<EOF>>\<close> rules stand in the file without a directive.\<close>

definition stands_in :: "string \<Rightarrow> string \<Rightarrow> bool" where
  "stands_in code out \<longleftrightarrow> (\<exists>pre post. out = pre @ code @ post)"

lemma stands_here: "stands_in code (code @ post)"
  unfolding stands_in_def by (metis append_Nil)

lemma stands_left: "stands_in code a \<Longrightarrow> stands_in code (a @ b)"
  unfolding stands_in_def by (metis append_assoc)

lemma stands_right: "stands_in code b \<Longrightarrow> stands_in code (a @ b)"
  unfolding stands_in_def by (metis append_assoc)

lemmas stands_intros = stands_here stands_left stands_right

lemma stands_concat: "x \<in> set xs \<Longrightarrow> stands_in code (g x) \<Longrightarrow> stands_in code (concat (map g xs))"
  by (induction xs) (auto intro: stands_intros)

lemma eof_case_append: "eof_case f nfa c out = out @ eof_case f nfa c []"
  by (simp add: eof_case_def Let_def split: option.splits)

lemma eof_fold: "fold (eof_case f nfa) cs out = out @ concat (map (\<lambda>c. eof_case f nfa c []) cs)"
proof (induction cs arbitrary: out)
  case (Cons c cs)
  then show ?case using eof_case_append[of f nfa c out] by simp
qed simp

lemma eof_action_stands:
  assumes "c < length (nfa_cond_starts nfa)" "eof_rule_of nfa c = Some i"
  shows "stands_in (r_action (lf_rules f ! i)) (eof_text f nfa)"
proof -
  have "eof_case f nfa c [] = (''    case '' @ dec c @ '': {'' @ [NL]) @ r_action (lf_rules f ! i) @ NL # ''    } break;'' @ [NL]"
    using assms(2) by (simp add: eof_case_def Let_def)
  then have "stands_in (r_action (lf_rules f ! i)) (eof_case f nfa c [])"
    using stands_right[OF stands_here] by metis
  then have "stands_in (r_action (lf_rules f ! i)) (emit_eof_dispatch [] f nfa)"
    unfolding emit_eof_dispatch_def eof_fold using assms(1) by (intro stands_left stands_right stands_concat[of c]) simp_all
  then show ?thesis unfolding eof_text_def by (intro stands_right)
qed

lemma body_eof_action:
  assumes "c < length (nfa_cond_starts nfa)" "eof_rule_of nfa c = Some i"
  shows "stands_in (r_action (lf_rules f ! i)) (if b then yy_lex_body_reject f nfa rm ld else yy_lex_body f nfa rm ld)"
proof -
  note e = eof_action_stands[OF assms, of f]
  have "stands_in (r_action (lf_rules f ! i)) (yy_lex_body f nfa rm ld)"
    unfolding yy_lex_body_def Let_def using e by (meson stands_left stands_right)
  moreover have "stands_in (r_action (lf_rules f ! i)) (yy_lex_body_reject f nfa rm ld)"
    unfolding yy_lex_body_reject_def Let_def using e by (meson stands_left stands_right)
  ultimately show ?thesis by simp
qed

text \<open>The whole file around the prologue, the body and the epilogue.\<close>

lemma fold_appends: "fold (\<lambda>i out. if p i then out else out @ g i) xs out = out @ concat (map (\<lambda>i. if p i then [] else g i) xs)"
  by (induction xs arbitrary: out) auto

lemma defines_append: "\<exists>y. emit_tables l m f nfa dfa (emit_cond_defines (emit_prefix_defines out f) f @ t) = out @ y"
proof -
  have "\<exists>y. emit_prefix_defines x f = x @ y" for x
    using fold_appends[of "\<lambda>sym. o_reentrant (lf_options f) \<and> is_reentrant_only_global sym"
        "\<lambda>sym. ''#define '' @ sym @ '' '' @ o_prefix (lf_options f) @ drop 2 sym @ [NL]" kPrefixSyms x]
    by (simp add: emit_prefix_defines_def Let_def)
  moreover have "\<exists>y. emit_cond_defines x f = x @ y" for x
    using fold_appends[of "\<lambda>i. False" "\<lambda>i. ''#define '' @ sc_name (lf_conds f ! i) @ '' '' @ dec (i + 1) @ [NL]"
        "[0..<length (lf_conds f)]" "x @ ''#define INITIAL 0'' @ [NL]"]
    by (simp add: emit_cond_defines_def)
  moreover have "\<exists>y. emit_tables l m f nfa dfa x = x @ y" for x
    by (simp add: emit_tables_def fold_append_decl)
  ultimately show ?thesis by (metis append_assoc)
qed

lemma emit_c_parts:
  fixes ci kRuntimeTemplate
  defines "f \<equiv> cg_file ci"
  obtains y z where "emit_c kRuntimeTemplate ci = emit_prologue ci (emit_head ci) @ y @
      (if o_uses_reject (lf_options f) then yy_lex_body_reject f (cg_nfa ci) (make_rule_map f) (cg_line_directives ci)
       else yy_lex_body f (cg_nfa ci) (make_rule_map f) (cg_line_directives ci)) @ z @ epilogue_text ci"
    "y \<noteq> []" "ends_line y" "z \<noteq> []" "ends_line z"
proof -
  obtain y where y: "emit_tables (cg_tables_loader ci) (cg_compress ci) f (cg_nfa ci) (cg_dfa ci)
      (emit_cond_defines (emit_prefix_defines (emit_prologue ci (emit_head ci)) f) f @ toggles_text (lf_options f))
      = emit_prologue ci (emit_head ci) @ y"
    using defines_append by blast
  let ?y = "y @ debug_text (lf_options f) @ yywrap_text (lf_options f) @ runtime_text kRuntimeTemplate ci @
    transition_text (cg_compress ci) @ bridge_text (lf_options f) @ decl_text f"
  let ?z = "[NL] @ if_set (cg_tables_loader ci) (loader_text ci)"
  have "decl_text f \<noteq> []" "ends_line (decl_text f)" by (simp_all add: decl_text_def ends_line_tail)
  then have "?y \<noteq> []" "ends_line ?y" by (simp_all add: ends_line_tail)
  moreover have "ends_line ?z" by (simp add: if_set_def loader_text_def Let_def ends_line_tail)
  moreover have "emit_c kRuntimeTemplate ci = emit_prologue ci (emit_head ci) @ ?y @
      (if o_uses_reject (lf_options f) then yy_lex_body_reject f (cg_nfa ci) (make_rule_map f) (cg_line_directives ci)
       else yy_lex_body f (cg_nfa ci) (make_rule_map f) (cg_line_directives ci)) @ ?z @ epilogue_text ci"
    using y unfolding emit_c_def Let_def f_def by simp
  ultimately show thesis using that by blast
qed

lemma prologue_append: "\<exists>x. emit_prologue ci out = out @ x"
  by (simp add: emit_prologue_def emit_line_directive_def restore_line_directive_def Let_def)

lemma prologue_ends: "ends_line out \<Longrightarrow> ends_line (emit_prologue ci out)"
  by (auto simp: emit_prologue_def emit_line_directive_def restore_line_directive_def directive_text_line Let_def
      ends_line_tail)

section \<open>Properties\<close>

text \<open>The files the locations of a specification name; a directive cannot name a file whose name has
  a line break.\<close>

definition one_line_names :: "codegen_input \<Rightarrow> bool" where
  "one_line_names ci \<longleftrightarrow>
     (let f = cg_file ci
      in NL \<notin> set (gen_file ci) \<and> list_all (\<lambda>loc. NL \<notin> set (sl_file loc))
           ([lf_section_top_loc f, lf_section1_loc f, lf_section2_loc f, lf_section3_loc f] @ map r_loc (lf_rules f)))"

text \<open>C29. The generated file keeps the user's code and, but for \<open><<EOF>>\<close> rules, its place. With line
  directives, the code of \<open>%top\<close>, of the prologue, of section 2, the epilogue, and the action of
  every rule that is neither an \<open><<EOF>>\<close> rule nor a lone bar stand in the file, and a C compiler
  that follows the directives attributes the first line of each of these texts to the file and
  line the specification parser noted for it (for a prologue of several blocks, that of the
  first); behind the prologue the numbering is that of the generated file again. Only the
  actions of a scanner without \<open>REJECT\<close> are changed: their lines are indented. The action of
  every \<open><<EOF>>\<close> rule that is the one of some condition stands in the file as it is, without a
  directive, so nothing is said of the line it is attributed to.\<close>

theorem user_code_located:
  fixes ci :: codegen_input and kRuntimeTemplate :: string
  defines "f \<equiv> cg_file ci" and "out \<equiv> emit_c kRuntimeTemplate ci"
  assumes "cg_line_directives ci" "one_line_names ci"
  shows "(lf_section_top f \<noteq> [] \<longrightarrow> located out (lf_section_top f) (lf_section_top_loc f)) \<and>
    (lf_section1 f \<noteq> [] \<longrightarrow> located out (lf_section1 f) (lf_section1_loc f) \<and>
      (\<exists>pre post. out = pre @ post \<and> located pre (lf_section1 f) (lf_section1_loc f) \<and>
        (\<forall>start. place start [] pre = (gen_file ci, count_lines pre + 1)))) \<and>
    (lf_section2 f \<noteq> [] \<longrightarrow> located out (lf_section2 f) (lf_section2_loc f)) \<and>
    (\<forall>i. body_of f i \<longrightarrow> located out
      (if o_uses_reject (lf_options f) then r_action (lf_rules f ! i) else indent (r_action (lf_rules f ! i)))
      (r_loc (lf_rules f ! i))) \<and>
    (lf_section3 f \<noteq> [] \<longrightarrow> located out (lf_section3 f) (lf_section3_loc f)) \<and>
    (\<forall>c i. c < length (nfa_cond_starts (cg_nfa ci)) \<and> eof_rule_of (cg_nfa ci) c = Some i \<longrightarrow>
      stands_in (r_action (lf_rules f ! i)) out)"
proof -
  let ?P = "emit_prologue ci (emit_head ci)"
  let ?body = "if o_uses_reject (lf_options f) then yy_lex_body_reject f (cg_nfa ci) (make_rule_map f) True
    else yy_lex_body f (cg_nfa ci) (make_rule_map f) True"
  have ld: "cg_line_directives ci = True" using assms(3) by simp
  obtain y z where out: "out = ?P @ y @ ?body @ z @ epilogue_text ci" "y \<noteq> []" "ends_line y" "z \<noteq> []" "ends_line z"
    unfolding out_def f_def by (rule emit_c_parts[of kRuntimeTemplate ci, unfolded ld])
  have names: "NL \<notin> set (gen_file ci)" "NL \<notin> set (sl_file (lf_section_top_loc f))" "NL \<notin> set (sl_file (lf_section1_loc f))"
    "NL \<notin> set (sl_file (lf_section2_loc f))" "NL \<notin> set (sl_file (lf_section3_loc f))"
    "\<And>i. i < length (lf_rules f) \<Longrightarrow> NL \<notin> set (sl_file (r_loc (lf_rules f ! i)))"
    using assms(4) by (auto simp: one_line_names_def f_def Let_def list_all_iff)
  have body: "located out code loc" if "located ?body code loc" for code loc
    using located_inside[OF that, of "?P @ y" "z @ epilogue_text ci"] out by (simp add: ends_line_tail)
  have "located out (lf_section_top f) (lf_section_top_loc f)" if "lf_section_top f \<noteq> []"
  proof -
    obtain x where "?P = emit_head ci @ x" using prologue_append by blast
    moreover have "located (emit_head ci) (lf_section_top f) (lf_section_top_loc f)"
      using located_inside[OF top_located[OF assms(3) that _ names(2)] ends_line_lines] by (simp add: emit_head_def f_def)
    ultimately show ?thesis
      using located_inside[of "emit_head ci" _ _ "[]" "x @ y @ ?body @ z @ epilogue_text ci"] out(1) by simp
  qed
  moreover have "located out (lf_section1 f) (lf_section1_loc f) \<and> (\<exists>pre post. out = pre @ post \<and>
      located pre (lf_section1 f) (lf_section1_loc f) \<and> (\<forall>start. place start [] pre = (gen_file ci, count_lines pre + 1)))"
    if "lf_section1 f \<noteq> []"
  proof -
    have "located ?P (lf_section1 f) (lf_section1_loc f)"
      using prologue_located[OF assms(3) that _ names(3) ends_line_head] by (auto simp: f_def)
    moreover have "\<forall>start. place start [] ?P = (gen_file ci, count_lines ?P + 1)"
      using prologue_restores[OF assms(3) that _ ends_line_head names(1)] by (simp add: f_def)
    ultimately show ?thesis
      using located_inside[of ?P _ _ "[]" "y @ ?body @ z @ epilogue_text ci"] out(1) by auto
  qed
  moreover have "located out (lf_section2 f) (lf_section2_loc f)" if "lf_section2 f \<noteq> []"
    by (rule body) (rule body_section2[OF that names(4)])
  moreover have "located out (if o_uses_reject (lf_options f) then r_action (lf_rules f ! i) else indent (r_action (lf_rules f ! i)))
      (r_loc (lf_rules f ! i))" if "body_of f i" for i
    by (rule body) (rule body_action[OF that names(6)], use that in \<open>simp add: body_of_def\<close>)
  moreover have "located out (lf_section3 f) (lf_section3_loc f)" if "lf_section3 f \<noteq> []"
    using located_inside[OF epilogue_located[OF assms(3) that _ names(5)], of "?P @ y @ ?body @ z" "[]"] out
    by (simp add: ends_line_tail f_def)
  moreover have "stands_in (r_action (lf_rules f ! i)) out"
    if "c < length (nfa_cond_starts (cg_nfa ci))" "eof_rule_of (cg_nfa ci) c = Some i" for c i
    unfolding out(1) by (intro stands_right stands_left body_eof_action[OF that])
  ultimately show ?thesis by blast
qed

text \<open>The file \<open>a.l\<close> with a prologue in line 3 and a rule with the action \<open>f();\<close> in line 7.\<close>

definition line_7 :: source_loc where
  "line_7 = \<lparr>sl_file = ''a.l'', sl_line = 7, sl_col = 1\<rparr>"

definition sample_input :: codegen_input where
  "sample_input =
     \<lparr>cg_file = (empty_file empty_loc)
        \<lparr>lf_section1 := ''int x;'', lf_section1_loc := \<lparr>sl_file = ''a.l'', sl_line = 3, sl_col = 1\<rparr>,
         lf_rules := [empty_rule\<lparr>r_loc := line_7, r_pattern := ''a'', r_action := ''f();''\<rparr>]\<rparr>,
      cg_nfa = empty_nfa,
      cg_dfa = \<lparr>dfa_states = [], dfa_cond_starts = [], dfa_eclasses = identity_eclasses, dfa_nclasses = 256,
        dfa_meta = [], dfa_nmeta = 0\<rparr>,
      cg_output_path = ''a.c'', cg_line_directives = True, cg_compress = Full, cg_tables_loader = False,
      cg_runtime_override = []\<rparr>"

lemma user_code_located_witness:
  "located (emit_c ''int yywrap(void);'' sample_input) ''f();'' line_7"
proof -
  have "cg_line_directives sample_input" "one_line_names sample_input"
    by (simp_all add: sample_input_def one_line_names_def gen_file_def empty_file_def empty_loc_def line_7_def Let_def)
  from user_code_located[OF this, of "''int yywrap(void);''"]
  have "body_of (cg_file sample_input) 0 \<Longrightarrow> located (emit_c ''int yywrap(void);'' sample_input)
      (if o_uses_reject (lf_options (cg_file sample_input)) then r_action (lf_rules (cg_file sample_input) ! 0)
       else indent (r_action (lf_rules (cg_file sample_input) ! 0))) (r_loc (lf_rules (cg_file sample_input) ! 0))" by blast
  moreover have "body_of (cg_file sample_input) 0"
    by (simp add: body_of_def sample_input_def empty_rule_def)
  moreover have "\<not> o_uses_reject (lf_options (cg_file sample_input))" "lf_rules (cg_file sample_input) ! 0 =
      empty_rule\<lparr>r_loc := line_7, r_pattern := ''a'', r_action := ''f();''\<rparr>"
    by (simp_all add: sample_input_def empty_file_def default_options_def)
  ultimately show ?thesis by (simp add: indent_line)
qed

end
