(* ===== verification/Platform.thy ===== *)
theory Platform
  imports Source_Data
begin

text \<open>
  The platform layer of the generator: \<open>class File\<close>, \<open>open_read\<close>, \<open>open_write\<close> and \<open>slurp\<close> of
  \<open>src/src/platform.hpp\<close> as \<open>src/src/platform_posix.cpp\<close> implements them. Below it is the C library,
  a state \<open>host\<close> with the functions \<open>fopen\<close>, \<open>fread\<close>, \<open>fwrite\<close> and \<open>fclose\<close> that the code uses:
  streams are buffered, so what \<open>fwrite\<close> accepts need not all reach the disk.
\<close>

section \<open>The C library\<close>

text \<open>
  A stream: the characters a read will still deliver and whether a read error or the end of the
  file comes behind them; or the path and the characters written so far.
\<close>

record stream =
  st_unread :: string
  st_breaks :: bool
  st_eof :: bool
  st_error :: bool
  st_path :: "string option"
  st_written :: string

text \<open>
  The files and how they behave: which can be opened, after how many characters a read fails, how
  many characters \<open>fwrite\<close> accepts and how many of them are kept when the stream is closed. The
  streams are named by numbers; 0, 1 and 2 are the standard ones. \<open>h_misused\<close> is set when a stream
  that is not open is closed.
\<close>

record host =
  h_files :: "string \<Rightarrow> string option"
  h_can_read :: "string \<Rightarrow> bool"
  h_read_limit :: "string \<Rightarrow> nat option"
  h_can_write :: "string \<Rightarrow> bool"
  h_accepts :: "string option \<Rightarrow> nat option"
  h_keeps :: "string \<Rightarrow> nat option"
  h_streams :: "nat \<Rightarrow> stream option"
  h_next :: nat
  h_misused :: bool

definition limit :: "nat option \<Rightarrow> string \<Rightarrow> string" where
  "limit k s = (case k of None \<Rightarrow> s | Some n \<Rightarrow> take n s)"

definition new_stream :: stream where
  "new_stream = \<lparr>st_unread = [], st_breaks = False, st_eof = False, st_error = False, st_path = None, st_written = []\<rparr>"

definition add_stream :: "stream \<Rightarrow> host \<Rightarrow> nat option \<times> host" where
  "add_stream s h = (Some (h_next h), h\<lparr>h_streams := (h_streams h)(h_next h \<mapsto> s), h_next := h_next h + 1\<rparr>)"

definition fopen_rb :: "string \<Rightarrow> host \<Rightarrow> nat option \<times> host" where
  "fopen_rb p h =
     (case h_files h p of
        Some s \<Rightarrow> if h_can_read h p
                  then add_stream (new_stream\<lparr>st_unread := limit (h_read_limit h p) s, st_breaks := limit (h_read_limit h p) s \<noteq> s\<rparr>) h
                  else (None, h)
      | None \<Rightarrow> (None, h))"

definition fopen_wb :: "string \<Rightarrow> host \<Rightarrow> nat option \<times> host" where
  "fopen_wb p h =
     (if h_can_write h p then add_stream (new_stream\<lparr>st_path := Some p\<rparr>) (h\<lparr>h_files := (h_files h)(p \<mapsto> [])\<rparr>)
      else (None, h))"

definition fread_c :: "nat \<Rightarrow> nat \<Rightarrow> host \<Rightarrow> string \<times> host" where
  "fread_c n i h =
     (case h_streams h i of
        None \<Rightarrow> ([], h)
      | Some s \<Rightarrow>
          let short = n > length (st_unread s);
              s' = s\<lparr>st_unread := drop n (st_unread s), st_eof := st_eof s \<or> (short \<and> \<not> st_breaks s),
                     st_error := st_error s \<or> (short \<and> st_breaks s)\<rparr>
          in (take n (st_unread s), h\<lparr>h_streams := (h_streams h)(i \<mapsto> s')\<rparr>))"

text \<open>The number of characters it accepted.\<close>

definition fwrite_c :: "string \<Rightarrow> nat \<Rightarrow> host \<Rightarrow> nat \<times> host" where
  "fwrite_c text i h =
     (case h_streams h i of
        None \<Rightarrow> (0, h)
      | Some s \<Rightarrow>
          let w = limit (h_accepts h (st_path s)) (st_written s @ text)
          in (length w - length (st_written s), h\<lparr>h_streams := (h_streams h)(i \<mapsto> s\<lparr>st_written := w\<rparr>)\<rparr>))"

definition fclose_c :: "nat \<Rightarrow> host \<Rightarrow> host" where
  "fclose_c i h =
     (case h_streams h i of
        None \<Rightarrow> h\<lparr>h_misused := True\<rparr>
      | Some s \<Rightarrow>
          let h = h\<lparr>h_streams := (h_streams h)(i := None)\<rparr>
          in case st_path s of
               None \<Rightarrow> h
             | Some p \<Rightarrow> h\<lparr>h_files := (h_files h)(p \<mapsto> limit (h_keeps h p) (st_written s))\<rparr>)"

section \<open>\<open>class File\<close>\<close>

record file_obj =
  fl_impl :: "nat option"
  fl_owns :: bool

definition null_file :: file_obj where
  "null_file = \<lparr>fl_impl = None, fl_owns = False\<rparr>"

definition file_ok :: "file_obj \<Rightarrow> bool" where
  "file_ok f \<longleftrightarrow> fl_impl f \<noteq> None"

text \<open>The destructor, and what the assignment does to its left side first.\<close>

definition close_file :: "file_obj \<Rightarrow> host \<Rightarrow> host" where
  "close_file f h = (case fl_impl f of Some i \<Rightarrow> if fl_owns f then fclose_c i h else h | None \<Rightarrow> h)"

text \<open>The move constructor: the new object and what is left of the old one.\<close>

definition move_file :: "file_obj \<Rightarrow> file_obj \<times> file_obj" where
  "move_file f = (f, \<lparr>fl_impl = None, fl_owns = False\<rparr>)"

definition file_read :: "nat \<Rightarrow> file_obj \<Rightarrow> host \<Rightarrow> string \<times> host" where
  "file_read n f h = (case fl_impl f of None \<Rightarrow> ([], h) | Some i \<Rightarrow> fread_c n i h)"

definition write_all :: "string \<Rightarrow> file_obj \<Rightarrow> host \<Rightarrow> bool \<times> host" where
  "write_all text f h =
     (case fl_impl f of
        None \<Rightarrow> (False, h)
      | Some i \<Rightarrow> let (n, h) = fwrite_c text i h in (n = length text, h))"

definition file_eof :: "file_obj \<Rightarrow> host \<Rightarrow> bool" where
  "file_eof f h = (case fl_impl f of Some i \<Rightarrow> (case h_streams h i of Some s \<Rightarrow> st_eof s | None \<Rightarrow> False) | None \<Rightarrow> True)"

definition file_error :: "file_obj \<Rightarrow> host \<Rightarrow> bool" where
  "file_error f h = (case fl_impl f of Some i \<Rightarrow> (case h_streams h i of Some s \<Rightarrow> st_error s | None \<Rightarrow> False) | None \<Rightarrow> True)"

text \<open>A path is passed to C as a NUL-terminated string.\<close>

definition open_read :: "string \<Rightarrow> host \<Rightarrow> file_obj \<times> host" where
  "open_read p h = (let (i, h) = fopen_rb (c_str p) h in (\<lparr>fl_impl = i, fl_owns = True\<rparr>, h))"

definition open_write :: "string \<Rightarrow> host \<Rightarrow> file_obj \<times> host" where
  "open_write p h = (let (i, h) = fopen_wb (c_str p) h in (\<lparr>fl_impl = i, fl_owns = True\<rparr>, h))"

definition stdin_stream :: file_obj where
  "stdin_stream = \<lparr>fl_impl = Some 0, fl_owns = False\<rparr>"

definition stdout_stream :: file_obj where
  "stdout_stream = \<lparr>fl_impl = Some 1, fl_owns = False\<rparr>"

section \<open>\<open>slurp\<close>\<close>

definition unread :: "file_obj \<Rightarrow> host \<Rightarrow> string" where
  "unread f h = (case fl_impl f of Some i \<Rightarrow> (case h_streams h i of Some s \<Rightarrow> st_unread s | None \<Rightarrow> []) | None \<Rightarrow> [])"

lemma read_chunk: "fst (file_read n f h) = take n (unread f h)"
  by (auto simp: file_read_def unread_def fread_c_def Let_def split: option.split)

lemma read_rest: "unread f (snd (file_read n f h)) = drop n (unread f h)"
  by (auto simp: file_read_def unread_def fread_c_def Let_def split: option.split)

function slurp :: "file_obj \<Rightarrow> host \<Rightarrow> string \<times> host" where
  "slurp f h =
     (let (chunk, h) = file_read 4096 f h
      in if chunk = [] then ([], h) else (let (rest_chunks, h) = slurp f h in (chunk @ rest_chunks, h)))"
  by pat_completeness auto
termination
proof (relation "measure (\<lambda>(f, h). length (unread f h))")
  fix f h x chunk h'
  assume "x = file_read 4096 f h" "(chunk, h') = x" "chunk \<noteq> []"
  then have "chunk = take 4096 (unread f h)" "unread f h' = drop 4096 (unread f h)"
    using read_chunk[of 4096 f h] read_rest[of f 4096 h] by (metis fst_conv, metis snd_conv)
  with \<open>chunk \<noteq> []\<close> show "((f, h'), f, h) \<in> measure (\<lambda>(f, h). length (unread f h))" by simp
qed simp

declare slurp.simps [simp del]

lemma slurp_unread: "fst (slurp f h) = unread f h"
proof (induction f h rule: slurp.induct)
  case (1 f h)
  obtain c h' where r: "file_read 4096 f h = (c, h')" by fastforce
  then have c: "c = take 4096 (unread f h)" "unread f h' = drop 4096 (unread f h)"
    using read_chunk[of 4096 f h] read_rest[of f 4096 h] by simp_all
  obtain t h'' where s: "slurp f h' = (t, h'')" by fastforce
  show ?case
  proof (cases "c = []")
    case True
    with c(1) show ?thesis by (subst slurp.simps) (simp add: r)
  next
    case False
    from 1[OF r[symmetric] refl False] s c have "t = drop 4096 (unread f h)" by simp
    with False c(1) show ?thesis by (subst slurp.simps) (simp add: r s)
  qed
qed

text \<open>All that it changes is the stream it reads.\<close>

definition read_to_end :: "stream \<Rightarrow> stream" where
  "read_to_end s = s\<lparr>st_unread := [], st_eof := st_eof s \<or> \<not> st_breaks s, st_error := st_error s \<or> st_breaks s\<rparr>"

lemma slurp_stream:
  "fl_impl f = Some i \<Longrightarrow> h_streams h i = Some s \<Longrightarrow>
     slurp f h = (st_unread s, h\<lparr>h_streams := (h_streams h)(i \<mapsto> read_to_end s)\<rparr>)"
proof (induction f h arbitrary: s rule: slurp.induct)
  case (1 f h)
  let ?s = "s\<lparr>st_unread := drop 4096 (st_unread s), st_eof := st_eof s \<or> (4096 > length (st_unread s) \<and> \<not> st_breaks s),
    st_error := st_error s \<or> (4096 > length (st_unread s) \<and> st_breaks s)\<rparr>"
  let ?h = "h\<lparr>h_streams := (h_streams h)(i \<mapsto> ?s)\<rparr>"
  have r: "file_read 4096 f h = (take 4096 (st_unread s), ?h)"
    using 1(2,3) by (simp add: file_read_def fread_c_def Let_def)
  show ?case
  proof (cases "st_unread s = []")
    case True
    then have "slurp f h = ([], ?h)" by (subst slurp.simps) (simp add: r)
    moreover have "?s = read_to_end s" using True by (simp add: read_to_end_def)
    ultimately show ?thesis using True by (simp only:)
  next
    case False
    then have ne: "take 4096 (st_unread s) \<noteq> []" by simp
    have "slurp f ?h = (st_unread ?s, ?h\<lparr>h_streams := (h_streams ?h)(i \<mapsto> read_to_end ?s)\<rparr>)"
      by (rule 1(1)[OF r[symmetric] refl ne 1(2)]) simp
    moreover have "read_to_end ?s = read_to_end s" by (cases "st_breaks s") (simp_all add: read_to_end_def)
    ultimately show ?thesis by (subst slurp.simps) (simp add: r False)
  qed
qed

end
