(* ===== verification/File_Owners.thy ===== *)
theory File_Owners
  imports Platform
begin

text \<open>
  Who closes a stream: the constructors, the move assignment and the destructor of \<open>class File\<close>
  in \<open>src/src/platform_posix.cpp\<close> as a step relation over any number of objects. However they are
  created, moved and destroyed, every stream that was opened is owned by exactly one object until it
  is closed, and is closed once.
\<close>

record objects =
  ob_files :: "nat \<Rightarrow> file_obj option"
  ob_host :: host

text \<open>\<open>v = std::move(w)\<close>.\<close>

definition move_assign :: "nat \<Rightarrow> nat \<Rightarrow> objects \<Rightarrow> objects" where
  "move_assign v w s =
     (case (ob_files s v, ob_files s w) of
        (Some f, Some g) \<Rightarrow>
          if v \<noteq> w then s\<lparr>ob_host := close_file f (ob_host s), ob_files := (ob_files s)(v \<mapsto> g, w \<mapsto> null_file)\<rparr> else s
      | _ \<Rightarrow> s)"

definition destroy :: "nat \<Rightarrow> objects \<Rightarrow> objects" where
  "destroy v s =
     (case ob_files s v of
        Some f \<Rightarrow> s\<lparr>ob_host := close_file f (ob_host s), ob_files := (ob_files s)(v := None)\<rparr>
      | None \<Rightarrow> s)"

inductive file_step :: "objects \<Rightarrow> objects \<Rightarrow> bool" where
  Default: "ob_files s v = None \<Longrightarrow> file_step s (s\<lparr>ob_files := (ob_files s)(v \<mapsto> null_file)\<rparr>)"
| Read_Open: "ob_files s v = None \<Longrightarrow> open_read p (ob_host s) = (f, h) \<Longrightarrow>
    file_step s \<lparr>ob_files = (ob_files s)(v \<mapsto> f), ob_host = h\<rparr>"
| Write_Open: "ob_files s v = None \<Longrightarrow> open_write p (ob_host s) = (f, h) \<Longrightarrow>
    file_step s \<lparr>ob_files = (ob_files s)(v \<mapsto> f), ob_host = h\<rparr>"
| Move: "ob_files s v = None \<Longrightarrow> ob_files s w = Some f \<Longrightarrow> move_file f = (g, g') \<Longrightarrow>
    file_step s (s\<lparr>ob_files := (ob_files s)(v \<mapsto> g, w \<mapsto> g')\<rparr>)"
| Assign: "file_step s (move_assign v w s)"
| Destroy: "file_step s (destroy v s)"
| Input: "ob_files s v = Some f \<Longrightarrow> file_read n f (ob_host s) = (t, h) \<Longrightarrow> file_step s (s\<lparr>ob_host := h\<rparr>)"
| Output: "ob_files s v = Some f \<Longrightarrow> write_all t f (ob_host s) = (b, h) \<Longrightarrow> file_step s (s\<lparr>ob_host := h\<rparr>)"

section \<open>What the operations do to the streams that are open\<close>

definition open_ids :: "host \<Rightarrow> nat set" where
  "open_ids h = {i. h_streams h i \<noteq> None}"

lemma add_stream_effect:
  "add_stream s h = (i, h') \<Longrightarrow> i = Some (h_next h) \<and> open_ids h' = insert (h_next h) (open_ids h) \<and> h_next h' = h_next h + 1 \<and>
     h_misused h' = h_misused h"
  by (auto simp: add_stream_def open_ids_def)

definition opens :: "host \<Rightarrow> file_obj \<Rightarrow> host \<Rightarrow> bool" where
  "opens h f h' \<longleftrightarrow> fl_owns f \<and> h_misused h' = h_misused h \<and>
     (case fl_impl f of
        None \<Rightarrow> open_ids h' = open_ids h \<and> h_next h' = h_next h
      | Some i \<Rightarrow> i = h_next h \<and> open_ids h' = insert (h_next h) (open_ids h) \<and> h_next h' = h_next h + 1)"

lemma open_read_opens: "open_read p h = (f, h') \<Longrightarrow> opens h f h'"
  using add_stream_effect
  by (auto simp: open_read_def fopen_rb_def opens_def split: option.splits if_splits prod.splits) blast+

lemma open_write_opens: "open_write p h = (f, h') \<Longrightarrow> opens h f h'"
proof -
  let ?h = "h\<lparr>h_files := (h_files h)(c_str p \<mapsto> [])\<rparr>"
  have h: "open_ids ?h = open_ids h" "h_next ?h = h_next h" "h_misused ?h = h_misused h" by (simp_all add: open_ids_def)
  assume "open_write p h = (f, h')"
  then show ?thesis
    using add_stream_effect[of "new_stream\<lparr>st_path := Some (c_str p)\<rparr>" ?h] h
    by (auto simp: open_write_def fopen_wb_def opens_def split: option.splits if_splits prod.splits)
qed

lemma close_effect:
  assumes "fl_impl f = Some i" "fl_owns f" "i \<in> open_ids h"
  shows "open_ids (close_file f h) = open_ids h - {i}" "h_next (close_file f h) = h_next h" "h_misused (close_file f h) = h_misused h"
  using assms by (auto simp: close_file_def fclose_c_def open_ids_def Let_def split: option.splits)

lemma close_no_effect: "\<not> (fl_owns f \<and> fl_impl f \<noteq> None) \<Longrightarrow> close_file f h = h"
  by (auto simp: close_file_def split: option.split)

lemma io_effect:
  "file_read n f h = (t, h') \<Longrightarrow> open_ids h' = open_ids h \<and> h_next h' = h_next h \<and> h_misused h' = h_misused h"
  "write_all x f h = (b, h') \<Longrightarrow> open_ids h' = open_ids h \<and> h_next h' = h_next h \<and> h_misused h' = h_misused h"
  by (auto simp: file_read_def write_all_def fread_c_def fwrite_c_def open_ids_def Let_def split: option.splits if_splits)

section \<open>The invariant\<close>

definition owner :: "objects \<Rightarrow> nat \<Rightarrow> nat \<Rightarrow> bool" where
  "owner s v i \<longleftrightarrow> (\<exists>f. ob_files s v = Some f \<and> fl_owns f \<and> fl_impl f = Some i)"

definition owners_ok :: "(nat \<Rightarrow> nat \<Rightarrow> bool) \<Rightarrow> host \<Rightarrow> bool" where
  "owners_ok P h \<longleftrightarrow> \<not> h_misused h \<and> 3 \<le> h_next h \<and> open_ids h \<subseteq> {..<h_next h} \<and>
     (\<forall>i\<ge>3. i \<in> open_ids h \<longleftrightarrow> (\<exists>v. P v i)) \<and> (\<forall>v i. P v i \<longrightarrow> 3 \<le> i) \<and> (\<forall>v w i. P v i \<longrightarrow> P w i \<longrightarrow> v = w)"

text \<open>Only the standard streams are open, and no object exists.\<close>

definition at_start :: "objects \<Rightarrow> bool" where
  "at_start s \<longleftrightarrow> (\<forall>v. ob_files s v = None) \<and> \<not> h_misused (ob_host s) \<and> h_next (ob_host s) = 3 \<and> open_ids (ob_host s) \<subseteq> {0, 1, 2}"

lemma start_ok: "at_start s \<Longrightarrow> owners_ok (owner s) (ob_host s)"
  by (auto simp: at_start_def owners_ok_def owner_def)

lemma owners_open:
  assumes "owners_ok P h" "opens h f h'" "\<And>i. \<not> P v i"
    "\<And>w i. Q w i \<longleftrightarrow> P w i \<or> (w = v \<and> fl_impl f = Some i)"
  shows "owners_ok Q h'"
proof (cases "fl_impl f")
  case None
  with assms have "Q = P" by (intro ext) simp
  with assms(1,2) None show ?thesis by (simp add: owners_ok_def opens_def)
next
  case (Some n)
  with assms(2) have o: "n = h_next h" "open_ids h' = insert n (open_ids h)" "h_next h' = n + 1" "h_misused h' = h_misused h"
    by (simp_all add: opens_def)
  have "n \<notin> open_ids h" "3 \<le> n" using assms(1) o(1) by (auto simp: owners_ok_def)
  with assms(1) have "\<not> P w n" for w unfolding owners_ok_def by blast
  with assms Some o \<open>3 \<le> n\<close> show ?thesis unfolding owners_ok_def by auto
qed

lemma owners_close:
  assumes "owners_ok P h" "fl_owns f \<longrightarrow> (\<forall>i. fl_impl f = Some i \<longrightarrow> P v i)"
    "\<And>w i. Q w i \<longleftrightarrow> P w i \<and> \<not> (w = v \<and> fl_owns f \<and> fl_impl f = Some i)"
  shows "owners_ok Q (close_file f h)"
proof (cases "fl_owns f \<and> fl_impl f \<noteq> None")
  case True
  then obtain n where f: "fl_owns f" "fl_impl f = Some n" by auto
  with assms(1,2) have n: "P v n" "n \<in> open_ids h" "3 \<le> n" by (auto simp: owners_ok_def)
  have "Q w i \<longleftrightarrow> P w i \<and> i \<noteq> n" for w i
    using assms(1,3) f n(1) unfolding owners_ok_def by auto
  with assms(1) close_effect[OF f(2,1) n(2)] show ?thesis unfolding owners_ok_def by auto
next
  case False
  with assms(3) have "Q = P" by (intro ext) auto
  with assms(1) close_no_effect[OF False] show ?thesis by simp
qed

text \<open>Handing a stream over to another object renames its owner.\<close>

lemma owners_rename:
  assumes "owners_ok P h" "\<And>i. \<not> P v i" "\<And>u i. Q u i \<longleftrightarrow> (if u = v then P w i else u \<noteq> w \<and> P u i)" "v \<noteq> w"
  shows "owners_ok Q h"
proof -
  have "(\<exists>u. Q u i) \<longleftrightarrow> (\<exists>u. P u i)" for i using assms(2-4) by metis
  moreover have "Q u i \<Longrightarrow> Q u' i \<Longrightarrow> u = u'" for u u' i
    using assms(1,3) unfolding owners_ok_def by metis
  moreover have "Q u i \<Longrightarrow> 3 \<le> i" for u i using assms(1,3) unfolding owners_ok_def by metis
  ultimately show ?thesis using assms(1) unfolding owners_ok_def by simp
qed

lemma owner_null: "fl_impl f = None \<Longrightarrow> ob_files s v = Some f \<Longrightarrow> \<not> owner s v i"
  by (simp add: owner_def)

lemma step_ok: "file_step s s' \<Longrightarrow> owners_ok (owner s) (ob_host s) \<Longrightarrow> owners_ok (owner s') (ob_host s')"
proof (induction rule: file_step.induct)
  case (Default s v)
  then have "owner (s\<lparr>ob_files := (ob_files s)(v \<mapsto> null_file)\<rparr>) = owner s"
    by (intro ext) (simp add: owner_def null_file_def)
  with Default show ?case by simp
next
  case (Read_Open s v p f h)
  show ?case
    using owners_open[OF Read_Open(3) open_read_opens[OF Read_Open(2)], of v] Read_Open(1) open_read_opens[OF Read_Open(2)]
    by (simp add: owner_def opens_def)
next
  case (Write_Open s v p f h)
  show ?case
    using owners_open[OF Write_Open(3) open_write_opens[OF Write_Open(2)], of v] Write_Open(1) open_write_opens[OF Write_Open(2)]
    by (simp add: owner_def opens_def)
next
  case (Move s v w f g g')
  then have "v \<noteq> w" by auto
  show ?case
    by (simp, rule owners_rename[OF Move(4), of v _ w]) (use Move \<open>v \<noteq> w\<close> in \<open>auto simp: owner_def move_file_def\<close>)
next
  case (Assign s v w)
  show ?case
  proof (cases "\<exists>f g. ob_files s v = Some f \<and> ob_files s w = Some g \<and> v \<noteq> w")
    case True
    then obtain f g where fg: "ob_files s v = Some f" "ob_files s w = Some g" "v \<noteq> w" by blast
    let ?P = "\<lambda>u i. owner s u i \<and> \<not> (u = v \<and> fl_owns f \<and> fl_impl f = Some i)"
    have "owners_ok ?P (close_file f (ob_host s))"
      by (rule owners_close[OF Assign, of f v]) (use fg in \<open>auto simp: owner_def\<close>)
    then have "owners_ok (owner (move_assign v w s)) (close_file f (ob_host s))"
      by (rule owners_rename[of _ _ v _ w]) (use fg in \<open>auto simp: owner_def move_assign_def null_file_def\<close>)
    with fg show ?thesis by (simp add: move_assign_def)
  next
    case False
    then have "move_assign v w s = s" by (auto simp: move_assign_def split: option.split)
    with Assign show ?thesis by simp
  qed
next
  case (Destroy s v)
  show ?case
  proof (cases "ob_files s v")
    case (Some f)
    have "owners_ok (owner (destroy v s)) (close_file f (ob_host s))"
      by (rule owners_close[OF Destroy, of f v]) (use Some in \<open>auto simp: owner_def destroy_def\<close>)
    with Some show ?thesis by (simp add: destroy_def)
  qed (use Destroy in \<open>simp add: destroy_def\<close>)
next
  case (Input s v f n t h)
  with io_effect(1)[OF Input(2)] show ?case by (simp add: owners_ok_def owner_def)
next
  case (Output s v f t b h)
  with io_effect(2)[OF Output(2)] show ?case by (simp add: owners_ok_def owner_def)
qed

lemma reachable_ok:
  assumes "at_start s" "file_step\<^sup>*\<^sup>* s s'"
  shows "owners_ok (owner s') (ob_host s')"
  using assms(2) by (induction) (use start_ok[OF assms(1)] step_ok in blast)+

section \<open>Properties\<close>

text \<open>C30. No stream is leaked, closed twice or closed while it is still in use: after any sequence
  of constructions, opens, moves, move assignments (of an object to itself included), reads,
  writes and destructions, nothing has been closed that was not open, every stream that is
  open apart from the standard ones has exactly one owner, and when no object is left none is
  open.\<close>

theorem streams_owned:
  assumes "at_start s" "file_step\<^sup>*\<^sup>* s s'"
  shows "\<not> h_misused (ob_host s') \<and>
    (\<forall>i\<ge>3. h_streams (ob_host s') i \<noteq> None \<longleftrightarrow> (\<exists>!v. owner s' v i)) \<and>
    ((\<forall>v. ob_files s' v = None) \<longrightarrow> (\<forall>i\<ge>3. h_streams (ob_host s') i = None))"
proof -
  note ok = reachable_ok[OF assms]
  have open_owner: "h_streams (ob_host s') i \<noteq> None \<longleftrightarrow> (\<exists>v. owner s' v i)" if "3 \<le> i" for i
    using ok that by (simp add: owners_ok_def open_ids_def)
  moreover have "owner s' v i \<Longrightarrow> owner s' w i \<Longrightarrow> v = w" for v w i
    using ok unfolding owners_ok_def by blast
  ultimately have "h_streams (ob_host s') i \<noteq> None \<longleftrightarrow> (\<exists>!v. owner s' v i)" if "3 \<le> i" for i
    using that by blast
  moreover have "\<not> owner s' v i" if "ob_files s' v = None" for v i using that by (simp add: owner_def)
  ultimately show ?thesis using ok open_owner by (auto simp: owners_ok_def)
qed

text \<open>A host without files; a file is opened, moved to another object and closed there.\<close>

definition plain_host :: host where
  "plain_host = \<lparr>h_files = Map.empty, h_can_read = (\<lambda>p. True), h_read_limit = Map.empty, h_can_write = (\<lambda>p. True),
     h_accepts = (\<lambda>p. None), h_keeps = Map.empty,
     h_streams = (\<lambda>i. if i < 3 then Some new_stream else None), h_next = 3, h_misused = False\<rparr>"

lemma streams_owned_witness:
  "\<exists>s'. file_step\<^sup>*\<^sup>* \<lparr>ob_files = Map.empty, ob_host = plain_host\<rparr> s' \<and> h_files (ob_host s') ''x'' = Some [] \<and>
     h_streams (ob_host s') 3 = None"
proof -
  let ?s = "\<lparr>ob_files = Map.empty, ob_host = plain_host\<rparr>"
  obtain f h where f: "open_write ''x'' plain_host = (f, h)" by fastforce
  define s1 where "s1 = \<lparr>ob_files = [0 \<mapsto> f], ob_host = h\<rparr>"
  define s2 where "s2 = s1\<lparr>ob_files := (ob_files s1)(1 \<mapsto> f, 0 \<mapsto> null_file)\<rparr>"
  define s4 where "s4 = destroy 0 (destroy 1 s2)"
  have "file_step ?s s1" unfolding s1_def
    using file_step.Write_Open[of ?s 0 "''x''" f h] f by simp
  moreover have "file_step s1 s2"
    unfolding s2_def by (rule file_step.Move) (simp_all add: s1_def move_file_def null_file_def)
  ultimately have r: "file_step\<^sup>*\<^sup>* ?s s4"
    unfolding s4_def by (meson file_step.Destroy r_into_rtranclp rtranclp.rtrancl_into_rtrancl)
  have start: "at_start ?s" by (auto simp: at_start_def plain_host_def open_ids_def split: if_splits)
  have "\<forall>v. ob_files s4 v = None"
    by (auto simp: s4_def s2_def s1_def destroy_def split: option.split)
  with streams_owned[OF start r] have "h_streams (ob_host s4) 3 = None" by simp
  moreover have "h_files (ob_host s4) ''x'' = Some []"
    using f by (auto simp: s4_def s2_def s1_def destroy_def open_write_def fopen_wb_def plain_host_def add_stream_def
        close_file_def fclose_c_def null_file_def new_stream_def limit_def c_str_def)
  ultimately show ?thesis using r by blast
qed

end
