(* ===== verification/Core_Main.thy ===== *)
theory Core_Main
  imports File_Owners Emit_C Source_File
begin

text \<open>
  \<open>core_main\<close> of \<open>src/src/main.cpp\<close> as a whole: from the command line and the files to the exit
  code, the diagnostics and the files written. An early \<open>return\<close> is a branch; the destructor of a
  \<open>File\<close> is called where its scope ends; a temporary that is never opened has none. The result is
  \<open>None\<close> if a loop of the front end does not return, which \<open>core_main_exits\<close> excludes.
\<close>

section \<open>Help and version\<close>

definition kVersion :: string where
  "kVersion = lines
      [''lex.cpp 0.1.0'']"

definition kUsage :: string where
  "kUsage =
     lines
      [''Usage: lex [OPTIONS] [FILE]'',
       ''Generate a C scanner from a lex/flex source file.'',
       [],
       ''  -o, --outfile=FILE        write scanner to FILE (default lex.yy.c)'',
       ''  -t, --stdout              write scanner to stdout'',
       ''  -i, --case-insensitive    pattern matching ignores ASCII case'',
       ''      --yylineno            track line number in yylineno'',
       ''  -P, --prefix=STRING       use STRING instead of '' @ [DQ] @ ''yy'' @ [DQ] @ '' as prefix'',
       ''  -s, --nodefault           suppress default rule'',
       ''  -L, --noline              omit #line directives'',
       ''  -f, --full                no compression (-Cf alias)'',
       ''      -Cfe                  ECs only (no comb)'',
       ''      -Cem, --compress      ECs + meta-ECs + comb (default)'',
       ''      --header-file[=PATH]  also write a companion .h'',
       ''      --tables-file=PATH    also write a binary table dump'',
       ''  -S, --skeleton=PATH       use PATH as runtime template instead of embedded'',
       ''  -h, --help                show this help and exit'',
       ''  -V, --version             show version and exit'',
       [],
       ''If FILE is omitted or '' @ [SQ] @ ''-'' @ [SQ] @ '', lex reads stdin.'',
       ''Multiple FILEs are concatenated in order before parsing.'']"

section \<open>Reading\<close>

text \<open>Read a file that is opened for it: \<open>None\<close> if it cannot be opened.\<close>

definition slurp_path :: "string \<Rightarrow> host \<Rightarrow> string option \<times> host" where
  "slurp_path p h =
     (let (f, h) = open_read p h
      in if \<not> file_ok f then (None, close_file f h)
         else let (s, h) = slurp f h in (Some s, close_file f h))"

text \<open>The text read so far and the remaining paths; \<open>Inl\<close> is the path that cannot be opened.\<close>

fun read_inputs :: "bool \<Rightarrow> string \<Rightarrow> string list \<Rightarrow> host \<Rightarrow> (string + string) \<times> host" where
  "read_inputs later source [] h = (Inr source, h)"
| "read_inputs later source (p # ps) h =
     (let (chunk, h) = (if p = ''-'' then (let (s, h) = slurp stdin_stream h in (Some s, h)) else slurp_path p h)
      in case chunk of
           None \<Rightarrow> (Inl p, h)
         | Some chunk \<Rightarrow>
             let source = (if later \<and> source \<noteq> [] \<and> last source \<noteq> NL then source @ [NL] else source)
             in read_inputs True (source @ chunk) ps h)"

text \<open>The label of the source and its text.\<close>

definition read_source :: "string list \<Rightarrow> host \<Rightarrow> (string + string \<times> string) \<times> host" where
  "read_source paths h =
     (if paths = [] \<or> paths = [''-'']
      then (let (s, h) = slurp stdin_stream h in (Inr (''<stdin>'', s), h))
      else (case read_inputs False [] paths h of
              (Inl p, h) \<Rightarrow> (Inl p, h)
            | (Inr s, h) \<Rightarrow> (Inr (hd paths, s), h)))"

section \<open>Writing\<close>

definition write_string_to_path :: "string \<Rightarrow> string \<Rightarrow> diagnostics \<Rightarrow> host \<Rightarrow> bool \<times> diagnostics \<times> host" where
  "write_string_to_path p payload diag h =
     (let (f, h) = open_write p h
      in if \<not> file_ok f then (False, diag_error empty_loc (''cannot open '' @ p @ '' for writing'') diag, close_file f h)
         else let (b, h) = write_all payload f h
              in if \<not> b then (False, diag_error empty_loc (''write failed: '' @ p) diag, close_file f h)
                 else (True, diag, close_file f h))"

definition byte_string :: "byte list \<Rightarrow> string" where
  "byte_string bs = map (\<lambda>b. char_of (ub b)) bs"

definition write_tables_file :: "string \<Rightarrow> nfa \<Rightarrow> dfa \<Rightarrow> bool \<Rightarrow> string \<Rightarrow> host \<Rightarrow> bool \<times> host" where
  "write_tables_file p nfa dfa compressed scanner_name h =
     (let bytes = serialise_tables nfa dfa compressed scanner_name; (f, h) = open_write p h
      in if \<not> file_ok f then (False, close_file f h)
         else let (b, h) = write_all (byte_string bytes) f h in (b, close_file f h))"

text \<open>The report of \<open>-b\<close>, written while the arguments are read; that it fails is ignored.\<close>

definition write_backup :: "string \<Rightarrow> host \<Rightarrow> host" where
  "write_backup p h =
     (let (f, h) = open_write p h; h = (if file_ok f then snd (write_all (''No backing up.'' @ [NL]) f h) else h)
      in close_file f h)"

text \<open>The path of the header where \<open>--header-file\<close> names none.\<close>

definition replace_extension :: "string \<Rightarrow> string" where
  "replace_extension p =
     (if CHR ''.'' \<in> set p then rev (tl (dropWhile (\<lambda>c. c \<noteq> CHR ''.'') (rev p))) @ ''.h'' else p @ ''.h'')"

definition header_path :: "args \<Rightarrow> string" where
  "header_path a =
     (if a_header_path a = ''_default_''
      then replace_extension (if a_output_path a = [] then ''lex.yy.h'' else a_output_path a)
      else a_header_path a)"

section \<open>The outputs\<close>

definition input_of :: "args \<Rightarrow> front_end \<Rightarrow> string \<Rightarrow> codegen_input" where
  "input_of a fe skeleton =
     \<lparr>cg_file = fe_file fe, cg_nfa = fe_nfa fe, cg_dfa = fe_dfa fe,
      cg_output_path = (if a_to_stdout a then ''<stdout>'' else a_output_path a),
      cg_line_directives = \<not> a_noline a, cg_compress = a_compress a, cg_tables_loader = (a_tables_path a \<noteq> []),
      cg_runtime_override = skeleton\<rparr>"

definition write_scanner :: "args \<Rightarrow> string \<Rightarrow> diagnostics \<Rightarrow> host \<Rightarrow> bool \<times> diagnostics \<times> host" where
  "write_scanner a out diag h =
     (if a_to_stdout a
      then (let (b, h) = write_all out stdout_stream h
            in (b, if b then diag else diag_error empty_loc ''write to stdout failed'' diag, h))
      else write_string_to_path (a_output_path a) out diag h)"

definition write_tables :: "args \<Rightarrow> front_end \<Rightarrow> diagnostics \<Rightarrow> host \<Rightarrow> bool \<times> diagnostics \<times> host" where
  "write_tables a fe diag h =
     (if a_tables_path a = [] then (True, diag, h)
      else let (b, h) = write_tables_file (a_tables_path a) (fe_nfa fe) (fe_dfa fe) (a_compress a = Compress) ''yy'' h
           in (b, if b then diag else diag_error empty_loc (''cannot write tables file: '' @ a_tables_path a) diag, h))"

definition write_header :: "args \<Rightarrow> codegen_input \<Rightarrow> diagnostics \<Rightarrow> host \<Rightarrow> bool \<times> diagnostics \<times> host" where
  "write_header a ci diag h =
     (if a_header_path a = [] then (True, diag, h) else write_string_to_path (header_path a) (emit_h ci) diag h)"

definition read_skeleton :: "args \<Rightarrow> host \<Rightarrow> string option \<times> host" where
  "read_skeleton a h = (if a_skeleton_path a = [] then (Some [], h) else slurp_path (a_skeleton_path a) h)"

definition generate_outputs :: "string \<Rightarrow> args \<Rightarrow> front_end \<Rightarrow> host \<Rightarrow> int \<times> diagnostics \<times> host" where
  "generate_outputs kRuntimeTemplate a fe h =
     (case read_skeleton a h of
        (None, h) \<Rightarrow> (1, diag_error empty_loc (''cannot open skeleton: '' @ a_skeleton_path a) (fe_diag fe), h)
      | (Some skeleton, h) \<Rightarrow>
          let ci = input_of a fe skeleton;
              (b, diag, h) = write_scanner a (emit_c kRuntimeTemplate ci) (fe_diag fe) h
          in if \<not> b then (1, diag, h)
             else let (b, diag, h) = write_tables a fe diag h
                  in if \<not> b then (1, diag, h)
                     else let (b, diag, h) = write_header a ci diag h
                          in if \<not> b then (1, diag, h) else (if diag_ok diag then 0 else 1, diag, h))"

section \<open>The program\<close>

definition run_generator :: "string \<Rightarrow> args \<Rightarrow> diagnostics \<Rightarrow> host \<Rightarrow> (int \<times> diagnostics \<times> host) option" where
  "run_generator kRuntimeTemplate a diag h =
     (case read_source (a_input_paths a) h of
        (Inl p, h) \<Rightarrow> Some (1, diag_error empty_loc (''cannot open '' @ p) diag, h)
      | (Inr (source_label, source), h) \<Rightarrow>
          (case parse_lex_file source_label (normalise_source source) diag of
             (None, diag) \<Rightarrow> Some (1, diag, h)
           | (Some file, diag) \<Rightarrow>
               if \<not> diag_ok diag then Some (1, diag, h)
               else (case front_end a file diag of
                       None \<Rightarrow> None
                     | Some (Inl diag) \<Rightarrow> Some (1, diag, h)
                     | Some (Inr fe) \<Rightarrow> Some (generate_outputs kRuntimeTemplate a fe h))))"

definition core_main :: "string \<Rightarrow> string list \<Rightarrow> host \<Rightarrow> (int \<times> diagnostics \<times> host) option" where
  "core_main kRuntimeTemplate argv h =
     (case parse_args argv no_diag of
        Exited oc written \<Rightarrow>
          Some (0, no_diag,
            snd (write_all (case oc of Help \<Rightarrow> kUsage | Version \<Rightarrow> kVersion) stdout_stream (fold write_backup written h)))
      | Returned rc a diag written \<Rightarrow>
          let h = fold write_backup written h
          in if rc \<noteq> 0 then Some (rc, diag, h) else run_generator kRuntimeTemplate a diag h)"

end
