(* ===== verification/Core_Run.thy ===== *)
theory Core_Run
  imports Core_Main
begin

text \<open>
  What a run of \<open>core_main\<close> leaves behind: its exit code against the diagnostics, the files it may
  change, and the streams it leaves open.
\<close>

section \<open>The exit code\<close>

lemma args_loop_verdict:
  "args_loop argv out diag written = Returned rc a d ws \<Longrightarrow> rc = 0 \<and> d = diag \<or> rc = 2 \<and> \<not> diag_ok d"
  by (induction argv out diag written rule: args_loop.induct) (auto simp: diag_ok_def split: arg_act.splits)

lemma not_ok_error [simp]: "\<not> diag_ok (diag_error loc msg d)"
  by (simp add: diag_ok_def)

lemma write_string_verdict: "write_string_to_path p t d h = (b, d', h') \<Longrightarrow> if b then d' = d else \<not> diag_ok d'"
  by (auto simp: write_string_to_path_def Let_def split: prod.splits if_splits)

lemma write_scanner_verdict: "write_scanner a t d h = (b, d', h') \<Longrightarrow> if b then d' = d else \<not> diag_ok d'"
  using write_string_verdict by (auto simp: write_scanner_def Let_def split: prod.splits if_splits)

lemma write_tables_verdict: "write_tables a fe d h = (b, d', h') \<Longrightarrow> if b then d' = d else \<not> diag_ok d'"
  by (auto simp: write_tables_def Let_def split: prod.splits if_splits)

lemma write_header_verdict: "write_header a ci d h = (b, d', h') \<Longrightarrow> if b then d' = d else \<not> diag_ok d'"
  using write_string_verdict by (auto simp: write_header_def Let_def split: prod.splits if_splits)

lemma outputs_verdict:
  assumes "diag_ok (fe_diag fe)" "generate_outputs rt a fe h = (rc, d, h')"
  shows "rc = 0 \<and> diag_ok d \<or> rc = 1 \<and> \<not> diag_ok d"
proof -
  obtain sk h0 where sk: "read_skeleton a h = (sk, h0)" by fastforce
  show ?thesis
  proof (cases sk)
    case None
    with assms(2) sk show ?thesis by (auto simp: generate_outputs_def)
  next
    case (Some t)
    let ?ci = "input_of a fe t"
    obtain b1 d1 h1 where 1: "write_scanner a (emit_c rt ?ci) (fe_diag fe) h0 = (b1, d1, h1)" by (metis prod_cases3)
    obtain b2 d2 h2 where 2: "write_tables a fe d1 h1 = (b2, d2, h2)" by (metis prod_cases3)
    obtain b3 d3 h3 where 3: "write_header a ?ci d2 h2 = (b3, d3, h3)" by (metis prod_cases3)
    have "generate_outputs rt a fe h = (if \<not> b1 then (1, d1, h1) else if \<not> b2 then (1, d2, h2) else if \<not> b3 then (1, d3, h3)
        else (if diag_ok d3 then 0 else 1, d3, h3))"
      by (simp add: generate_outputs_def sk Some 1 2 3 Let_def)
    then show ?thesis
      using assms write_scanner_verdict[OF 1] write_tables_verdict[OF 2] write_header_verdict[OF 3]
      by (cases b1; cases b2; cases b3) auto
  qed
qed

lemma run_verdict:
  assumes "diag_ok diag"
  shows "\<exists>rc d h'. run_generator rt a diag h = Some (rc, d, h') \<and> (rc = 0 \<and> diag_ok d \<or> rc = 1 \<and> \<not> diag_ok d)"
proof -
  obtain src h1 where s: "read_source (a_input_paths a) h = (src, h1)" by fastforce
  show ?thesis
  proof (cases src)
    case (Inr ls)
    obtain l t where ls: "ls = (l, t)" by fastforce
    obtain r d where p: "parse_lex_file l (normalise_source t) diag = (r, d)" by fastforce
    show ?thesis
    proof (cases r)
      case None
      with p have "\<not> diag_ok d" by (auto simp: parse_lex_file_def Let_def split: if_splits)
      with None p s Inr ls show ?thesis by (simp add: run_generator_def)
    next
      case (Some lf)
      with p have ok: "diag_ok d" by (auto simp: parse_lex_file_def Let_def split: if_splits)
      obtain fe where fe: "front_end a lf d = Some fe" using front_end_terminates by blast
      show ?thesis
      proof (cases fe)
        case (Inl e)
        with front_end_verdict_of[OF fe] s Inr ls p Some ok fe show ?thesis by (simp add: run_generator_def)
      next
        case (Inr x)
        obtain rc d' h' where g: "generate_outputs rt a x h1 = (rc, d', h')" by (metis prod_cases3)
        have "diag_ok (fe_diag x)" using front_end_verdict_of[OF fe] Inr by simp
        from outputs_verdict[OF this g] show ?thesis
          using s \<open>src = Inr ls\<close> ls p Some ok fe Inr g by (simp add: run_generator_def)
      qed
    qed
  qed (use s in \<open>simp add: run_generator_def\<close>)
qed

section \<open>The files and the streams\<close>

text \<open>No stream is open under a number that is still to be given out.\<close>

definition fresh :: "host \<Rightarrow> bool" where
  "fresh h \<longleftrightarrow> open_ids h \<subseteq> {..<h_next h}"

text \<open>From \<open>h\<close> to \<open>h'\<close> only the files in \<open>ps\<close> changed, and the same streams are open.\<close>

definition tidy :: "string set \<Rightarrow> host \<Rightarrow> host \<Rightarrow> bool" where
  "tidy ps h h' \<longleftrightarrow> (\<forall>p. p \<notin> ps \<longrightarrow> h_files h' p = h_files h p) \<and> open_ids h' = open_ids h \<and> h_misused h' = h_misused h \<and>
     h_next h \<le> h_next h'"

lemma tidy_refl [simp]: "tidy ps h h"
  by (simp add: tidy_def)

lemma tidy_trans: "tidy ps h h' \<Longrightarrow> tidy qs h' h'' \<Longrightarrow> tidy (ps \<union> qs) h h''"
  by (auto simp: tidy_def)

lemma tidy_mono: "tidy ps h h' \<Longrightarrow> ps \<subseteq> qs \<Longrightarrow> tidy qs h h'"
  unfolding tidy_def by blast

lemma tidy_fresh: "fresh h \<Longrightarrow> tidy ps h h' \<Longrightarrow> fresh h'"
  unfolding tidy_def fresh_def by fastforce

lemma fresh_next: "fresh h \<Longrightarrow> h_streams h (h_next h) = None"
  by (auto simp: fresh_def open_ids_def)

text \<open>Opening, writing and closing a file in one step.\<close>

definition stored :: "string \<Rightarrow> string \<Rightarrow> host \<Rightarrow> host" where
  "stored q t h = h\<lparr>h_files := (h_files h)(q \<mapsto> limit (h_keeps h q) (limit (h_accepts h (Some q)) t)), h_next := h_next h + 1\<rparr>"

lemma write_file:
  assumes "fresh h" "h_can_write h (c_str p)"
  obtains f h1 where "open_write p h = (f, h1)" "file_ok f"
    "\<And>t. write_all t f h1 = (limit (h_accepts h (Some (c_str p))) t = t, snd (write_all t f h1))"
    "\<And>t. close_file f (snd (write_all t f h1)) = stored (c_str p) t h"
proof -
  let ?q = "c_str p" and ?n = "h_next h"
  let ?f = "\<lparr>fl_impl = Some ?n, fl_owns = True\<rparr>" and ?s = "new_stream\<lparr>st_path := Some ?q\<rparr>"
  let ?h1 = "h\<lparr>h_files := (h_files h)(?q \<mapsto> []), h_streams := (h_streams h)(?n \<mapsto> ?s), h_next := Suc ?n\<rparr>"
  have o: "open_write p h = (?f, ?h1)"
    using assms(2) by (simp add: open_write_def fopen_wb_def add_stream_def)
  have len: "length (limit k t) = length t \<longleftrightarrow> limit k t = t" for k t
    by (cases k) (auto simp: limit_def min_def)
  have w: "write_all t ?f ?h1 = (limit (h_accepts h (Some ?q)) t = t,
      ?h1\<lparr>h_streams := (h_streams h)(?n \<mapsto> ?s\<lparr>st_written := limit (h_accepts h (Some ?q)) t\<rparr>)\<rparr>)" for t
    by (simp add: write_all_def fwrite_c_def Let_def new_stream_def len)
  have "(h_streams h)(?n := None) = h_streams h" using fresh_next[OF assms(1)] by auto
  then have "close_file ?f (snd (write_all t ?f ?h1)) = stored ?q t h" for t
    unfolding w snd_conv by (simp add: close_file_def fclose_c_def Let_def stored_def new_stream_def)
  with o w that[of ?f ?h1] show thesis by (simp add: file_ok_def)
qed

lemma open_write_fails: "\<not> h_can_write h (c_str p) \<Longrightarrow> open_write p h = (\<lparr>fl_impl = None, fl_owns = True\<rparr>, h)"
  by (simp add: open_write_def fopen_wb_def)

lemma close_null [simp]: "close_file \<lparr>fl_impl = None, fl_owns = b\<rparr> h = h" "\<not> file_ok \<lparr>fl_impl = None, fl_owns = b\<rparr>"
  by (simp_all add: close_file_def file_ok_def)

lemma tidy_stored: "tidy {q} h (stored q t h)"
  by (auto simp: tidy_def stored_def open_ids_def)

lemma write_string_exact:
  assumes "fresh h"
  shows "write_string_to_path p t d h =
    (if \<not> h_can_write h (c_str p) then (False, diag_error empty_loc (''cannot open '' @ p @ '' for writing'') d, h)
     else if limit (h_accepts h (Some (c_str p))) t = t then (True, d, stored (c_str p) t h)
     else (False, diag_error empty_loc (''write failed: '' @ p) d, stored (c_str p) t h))"
proof (cases "h_can_write h (c_str p)")
  case True
  obtain f h1 where "open_write p h = (f, h1)" "file_ok f"
    "\<And>t. write_all t f h1 = (limit (h_accepts h (Some (c_str p))) t = t, snd (write_all t f h1))"
    "\<And>t. close_file f (snd (write_all t f h1)) = stored (c_str p) t h"
    by (rule write_file[OF assms True]) blast
  then show ?thesis using True
    by (simp add: write_string_to_path_def Let_def split: prod.split) (metis fst_conv snd_conv)
qed (simp add: write_string_to_path_def open_write_fails)

lemma write_tables_file_exact:
  assumes "fresh h"
  shows "write_tables_file p nfa dfa c name h =
    (if \<not> h_can_write h (c_str p) then (False, h)
     else let t = byte_string (serialise_tables nfa dfa c name)
          in (limit (h_accepts h (Some (c_str p))) t = t, stored (c_str p) t h))"
proof (cases "h_can_write h (c_str p)")
  case True
  obtain f h1 where "open_write p h = (f, h1)" "file_ok f"
    "\<And>t. write_all t f h1 = (limit (h_accepts h (Some (c_str p))) t = t, snd (write_all t f h1))"
    "\<And>t. close_file f (snd (write_all t f h1)) = stored (c_str p) t h"
    by (rule write_file[OF assms True]) blast
  then show ?thesis using True
    by (simp add: write_tables_file_def Let_def split: prod.split) (metis fst_conv snd_conv)
qed (simp add: write_tables_file_def open_write_fails)

lemma write_backup_exact:
  assumes "fresh h"
  shows "write_backup p h = (if h_can_write h (c_str p) then stored (c_str p) (''No backing up.'' @ [NL]) h else h)"
proof (cases "h_can_write h (c_str p)")
  case True
  obtain f h1 where "open_write p h = (f, h1)" "file_ok f"
    "\<And>t. close_file f (snd (write_all t f h1)) = stored (c_str p) t h"
    by (rule write_file[OF assms True]) blast
  with True show ?thesis by (simp add: write_backup_def)
qed (simp add: write_backup_def open_write_fails)

text \<open>Reading a file in one step.\<close>

lemma slurp_path_exact:
  assumes "fresh h"
  shows "slurp_path p h =
    (case h_files h (c_str p) of
       Some s \<Rightarrow> if h_can_read h (c_str p)
                 then (Some (limit (h_read_limit h (c_str p)) s), h\<lparr>h_next := h_next h + 1\<rparr>) else (None, h)
     | None \<Rightarrow> (None, h))"
proof (cases "h_files h (c_str p)")
  case (Some s)
  let ?n = "h_next h" and ?t = "limit (h_read_limit h (c_str p)) s"
  have same: "(h_streams h)(?n := None) = h_streams h" using fresh_next[OF assms] by auto
  show ?thesis
  proof (cases "h_can_read h (c_str p)")
    case True
    let ?f = "\<lparr>fl_impl = Some ?n, fl_owns = True\<rparr>" and ?s = "new_stream\<lparr>st_unread := ?t, st_breaks := ?t \<noteq> s\<rparr>"
    let ?h1 = "h\<lparr>h_streams := (h_streams h)(?n \<mapsto> ?s), h_next := ?n + 1\<rparr>"
    have o: "open_read p h = (?f, ?h1)"
      using Some True by (simp add: open_read_def fopen_rb_def add_stream_def)
    have "slurp ?f ?h1 = (?t, ?h1\<lparr>h_streams := (h_streams ?h1)(?n \<mapsto> read_to_end ?s)\<rparr>)"
      using slurp_stream[of ?f ?n ?h1 ?s] by (simp add: new_stream_def)
    then show ?thesis
      using True Some same by (simp add: slurp_path_def o file_ok_def close_file_def fclose_c_def read_to_end_def new_stream_def)
  qed (use Some in \<open>simp add: slurp_path_def open_read_def fopen_rb_def\<close>)
qed (simp add: slurp_path_def open_read_def fopen_rb_def)

section \<open>What a run may change\<close>

lemma tidy_io:
  "slurp stdin_stream h = (s, h') \<Longrightarrow> tidy {} h h'"
  "write_all t stdout_stream h = (b, h') \<Longrightarrow> tidy {} h h'"
proof -
  assume s: "slurp stdin_stream h = (s, h')"
  show "tidy {} h h'"
  proof (cases "h_streams h 0")
    case None
    have "slurp stdin_stream h = ([], h)"
      by (subst slurp.simps) (simp add: file_read_def fread_c_def stdin_stream_def None)
    with s show ?thesis by simp
  next
    case (Some st)
    with s slurp_stream[of stdin_stream 0 h st] have "h' = h\<lparr>h_streams := (h_streams h)(0 \<mapsto> read_to_end st)\<rparr>"
      by (simp add: stdin_stream_def)
    with Some show ?thesis by (auto simp: tidy_def open_ids_def)
  qed
next
  assume w: "write_all t stdout_stream h = (b, h')"
  show "tidy {} h h'"
  proof (cases "h_streams h 1")
    case None
    with w show ?thesis by (simp add: write_all_def fwrite_c_def stdout_stream_def)
  next
    case (Some st)
    with w show ?thesis
      by (auto simp: write_all_def fwrite_c_def stdout_stream_def tidy_def open_ids_def Let_def split: if_splits)
  qed
qed

lemma slurp_path_tidy: "fresh h \<Longrightarrow> slurp_path p h = (r, h') \<Longrightarrow> tidy {} h h'"
  by (auto simp: slurp_path_exact tidy_def open_ids_def split: option.splits if_splits)

lemma read_inputs_tidy: "fresh h \<Longrightarrow> read_inputs l s ps h = (r, h') \<Longrightarrow> tidy {} h h'"
proof (induction l s ps h rule: read_inputs.induct)
  case (2 l s p ps h)
  obtain c h1 where c: "(if p = ''-'' then (let (s, h) = slurp stdin_stream h in (Some s, h)) else slurp_path p h) = (c, h1)"
    by fastforce
  have t: "tidy {} h h1"
  proof (cases "p = ''-''")
    case True
    with c tidy_io(1)[of h] show ?thesis by (cases "slurp stdin_stream h") auto
  qed (use c slurp_path_tidy[OF 2(2)] in auto)
  show ?case
  proof (cases c)
    case None
    with 2(3) c t show ?thesis by simp
  next
    case (Some x)
    with 2(3) c have "read_inputs True ((if l \<and> s \<noteq> [] \<and> last s \<noteq> NL then s @ [NL] else s) @ x) ps h1 = (r, h')"
      by (simp add: Let_def)
    from 2(1)[OF c[symmetric] refl Some refl tidy_fresh[OF 2(2) t] this] tidy_trans[OF t] show ?thesis by fastforce
  qed
qed simp

lemma read_source_tidy: "fresh h \<Longrightarrow> read_source ps h = (r, h') \<Longrightarrow> tidy {} h h'"
  using read_inputs_tidy[of h False "[]" ps] tidy_io(1)[of h]
  by (auto simp: read_source_def Let_def split: prod.splits if_splits sum.splits)

lemma write_string_tidy: "fresh h \<Longrightarrow> write_string_to_path p t d h = (b, d', h') \<Longrightarrow> tidy {c_str p} h h'"
  using tidy_stored by (auto simp: write_string_exact split: if_splits)

lemma write_backups_tidy: "fresh h \<Longrightarrow> tidy (c_str ` set ws) h (fold write_backup ws h)"
proof (induction ws arbitrary: h)
  case (Cons w ws)
  have t: "tidy {c_str w} h (write_backup w h)" using tidy_stored by (simp add: write_backup_exact[OF Cons.prems])
  from tidy_trans[OF t Cons.IH[OF tidy_fresh[OF Cons.prems t]]] show ?case by simp
qed simp

definition targets :: "args \<Rightarrow> string set" where
  "targets a =
     (if a_to_stdout a then {} else {c_str (a_output_path a)}) \<union>
     (if a_tables_path a = [] then {} else {c_str (a_tables_path a)}) \<union>
     (if a_header_path a = [] then {} else {c_str (header_path a)})"

lemma generate_outputs_tidy:
  assumes "fresh h" "generate_outputs rt a fe h = (rc, d, h')"
  shows "tidy (targets a) h h'"
proof -
  let ?A = "if a_to_stdout a then {} else {c_str (a_output_path a)}"
  let ?B = "if a_tables_path a = [] then {} else {c_str (a_tables_path a)}"
  let ?C = "if a_header_path a = [] then {} else {c_str (header_path a)}"
  obtain sk h0 where sk: "read_skeleton a h = (sk, h0)" by fastforce
  have t0: "tidy {} h h0"
    using sk slurp_path_tidy[OF assms(1)] by (auto simp: read_skeleton_def split: if_splits)
  note f0 = tidy_fresh[OF assms(1) t0]
  show ?thesis
  proof (cases sk)
    case None
    with assms(2) sk have "h' = h0" by (simp add: generate_outputs_def)
    with tidy_mono[OF t0] show ?thesis by simp
  next
    case (Some t)
    let ?ci = "input_of a fe t"
    obtain b1 d1 h1 where 1: "write_scanner a (emit_c rt ?ci) (fe_diag fe) h0 = (b1, d1, h1)" by (metis prod_cases3)
    obtain b2 d2 h2 where 2: "write_tables a fe d1 h1 = (b2, d2, h2)" by (metis prod_cases3)
    obtain b3 d3 h3 where 3: "write_header a ?ci d2 h2 = (b3, d3, h3)" by (metis prod_cases3)
    have t1: "tidy ?A h0 h1"
      using 1 write_string_tidy[OF f0] tidy_io(2) by (auto simp: write_scanner_def Let_def split: if_splits prod.splits)
    note f1 = tidy_fresh[OF f0 t1]
    have t2: "tidy ?B h1 h2"
      using 2 tidy_stored by (auto simp: write_tables_def write_tables_file_exact[OF f1] Let_def split: if_splits)
    note f2 = tidy_fresh[OF f1 t2]
    have t3: "tidy ?C h2 h3"
      using 3 write_string_tidy[OF f2] by (auto simp: write_header_def split: if_splits)
    have "h' \<in> {h1, h2, h3}"
      using assms(2) by (auto simp: generate_outputs_def sk Some 1 2 3 Let_def split: if_splits)
    moreover have "tidy (?A \<union> ?B \<union> ?C) h h1" by (rule tidy_mono[OF tidy_trans[OF t0 t1]]) simp
    moreover have "tidy (?A \<union> ?B \<union> ?C) h h2" by (rule tidy_mono[OF tidy_trans[OF tidy_trans[OF t0 t1] t2]]) simp
    moreover have "tidy (?A \<union> ?B \<union> ?C) h h3" by (rule tidy_mono[OF tidy_trans[OF tidy_trans[OF tidy_trans[OF t0 t1] t2] t3]]) simp
    ultimately show ?thesis unfolding targets_def by blast
  qed
qed

text \<open>The specification is read, parsed and compiled without an error.\<close>

definition accepted :: "args \<Rightarrow> diagnostics \<Rightarrow> host \<Rightarrow> bool" where
  "accepted a diag h \<longleftrightarrow>
     (\<exists>l s h1 file d fe. read_source (a_input_paths a) h = (Inr (l, s), h1) \<and>
        parse_lex_file l (normalise_source s) diag = (Some file, d) \<and> front_end a file d = Some (Inr fe))"

lemma run_tidy:
  assumes "fresh h" "run_generator rt a diag h = Some (rc, d, h')"
  shows "tidy (if accepted a diag h then targets a else {}) h h'"
proof -
  obtain src h1 where s: "read_source (a_input_paths a) h = (src, h1)" by fastforce
  note t = read_source_tidy[OF assms(1) s]
  then have t': "tidy X h h1" for X using tidy_mono by blast
  show ?thesis
  proof (cases "\<exists>l t lf e fe. src = Inr (l, t) \<and> parse_lex_file l (normalise_source t) diag = (Some lf, e) \<and> diag_ok e \<and>
      front_end a lf e = Some (Inr fe)")
    case True
    then obtain l x lf e fe where x: "src = Inr (l, x)" "parse_lex_file l (normalise_source x) diag = (Some lf, e)"
      "diag_ok e" "front_end a lf e = Some (Inr fe)" by blast
    then have "generate_outputs rt a fe h1 = (rc, d, h')" using assms(2) s by (simp add: run_generator_def)
    from tidy_trans[OF t generate_outputs_tidy[OF tidy_fresh[OF assms(1) t] this]]
    have "tidy (targets a) h h'" by simp
    moreover have "accepted a diag h" unfolding accepted_def using x s by blast
    ultimately show ?thesis by simp
  next
    case False
    have "h' = h1"
    proof (cases src)
      case (Inl p)
      with assms(2) s show ?thesis by (simp add: run_generator_def)
    next
      case (Inr lt)
      obtain l x r e where x: "lt = (l, x)" "parse_lex_file l (normalise_source x) diag = (r, e)" by fastforce
      show ?thesis
      proof (cases r)
        case None
        with assms(2) s Inr x show ?thesis by (simp add: run_generator_def)
      next
        case (Some lf)
        obtain y where "front_end a lf e = Some y" using front_end_terminates by blast
        with False assms(2) s Inr x Some show ?thesis
          by (cases y; cases "diag_ok e") (simp_all add: run_generator_def)
      qed
    qed
    with t' show ?thesis by simp
  qed
qed

lemma core_main_ends: "core_main rt argv h \<noteq> None"
proof -
  have "front_end a lf diag = None \<longleftrightarrow> False" for a lf diag using front_end_terminates by (metis option.distinct(1))
  then have "run_generator rt a diag h \<noteq> None" for a diag h
    by (simp add: run_generator_def split: prod.split sum.split option.split del: not_None_eq)
  then show ?thesis by (simp add: core_main_def Let_def split: cli.split del: not_None_eq)
qed

section \<open>Properties\<close>

text \<open>C27. The generator always ends, and its exit code tells the truth: for every command line and
  every state of the files, all loops included, \<open>core_main\<close> returns 0, 1 or 2; it returns 0 exactly
  when no error was reported, and 2 exactly when the command line is wrong.\<close>

theorem core_main_exits:
  "\<exists>rc d h'. core_main kRuntimeTemplate argv h = Some (rc, d, h') \<and> rc \<in> {0, 1, 2} \<and> (rc = 0 \<longleftrightarrow> diag_ok d) \<and>
     (rc = 2 \<longleftrightarrow> (\<exists>a e ws. parse_args argv no_diag = Returned 2 a e ws))"
proof (cases "parse_args argv no_diag")
  case (Exited oc ws)
  then show ?thesis by (simp add: core_main_def diag_ok_def no_diag_def)
next
  case (Returned rc a d ws)
  then have v: "rc = 0 \<and> d = no_diag \<or> rc = 2 \<and> \<not> diag_ok d"
    using args_loop_verdict unfolding parse_args_def by blast
  show ?thesis
  proof (cases "rc = 0")
    case True
    with v have d: "d = no_diag" by simp
    have "diag_ok no_diag" by (simp add: diag_ok_def no_diag_def)
    from run_verdict[OF this, of kRuntimeTemplate a "fold write_backup ws h"] obtain rc' d' h' where
      "run_generator kRuntimeTemplate a d (fold write_backup ws h) = Some (rc', d', h')"
      "rc' = 0 \<and> diag_ok d' \<or> rc' = 1 \<and> \<not> diag_ok d'" unfolding d by blast
    with Returned True show ?thesis by (auto simp: core_main_def)
  next
    case False
    with Returned v show ?thesis by (simp add: core_main_def)
  qed
qed

text \<open>The files a run may change: those of the backup reports, and those of the outputs when the
  specification is accepted.\<close>

definition may_change :: "string list \<Rightarrow> host \<Rightarrow> string set" where
  "may_change argv h =
     (case parse_args argv no_diag of
        Exited oc ws \<Rightarrow> c_str ` set ws
      | Returned rc a d ws \<Rightarrow>
          c_str ` set ws \<union> (if rc = 0 \<and> accepted a d (fold write_backup ws h) then targets a else {}))"

text \<open>C28. The generator touches nothing else. A run changes only the files named for its outputs, and
  these only when the command line and the specification are accepted, and the file of the
  backup report of \<open>-b\<close>, which is written while the arguments are read and so also when the
  command line or the specification is then rejected. Every stream it opens is closed again,
  and closed once.\<close>

theorem writes_only:
  assumes "fresh h" "core_main kRuntimeTemplate argv h = Some (rc, d, h')"
  shows "(\<forall>p. p \<notin> may_change argv h \<longrightarrow> h_files h' p = h_files h p) \<and>
    (\<forall>i. h_streams h' i = None \<longleftrightarrow> h_streams h i = None) \<and> h_misused h' = h_misused h"
proof -
  have "tidy (may_change argv h) h h'"
  proof (cases "parse_args argv no_diag")
    case (Exited oc ws)
    let ?h = "fold write_backup ws h"
    have "tidy {} ?h h'"
      using assms(2) Exited tidy_io(2)[of _ ?h] by (metis (no_types, lifting) cli.simps(5) core_main_def option.inject prod.collapse prod.inject)
    from tidy_trans[OF write_backups_tidy[OF assms(1)] this] Exited show ?thesis by (simp add: may_change_def)
  next
    case (Returned rc0 a e ws)
    let ?h = "fold write_backup ws h"
    note t = write_backups_tidy[OF assms(1), of ws]
    show ?thesis
    proof (cases "rc0 = 0")
      case True
      with assms(2) Returned have "run_generator kRuntimeTemplate a e ?h = Some (rc, d, h')" by (simp add: core_main_def)
      from tidy_trans[OF t run_tidy[OF tidy_fresh[OF assms(1) t] this]] Returned True show ?thesis
        by (simp add: may_change_def)
    next
      case False
      with assms(2) Returned t show ?thesis by (simp add: core_main_def may_change_def)
    qed
  qed
  moreover have "h_streams x i = None \<longleftrightarrow> i \<notin> open_ids x" for x i by (simp add: open_ids_def)
  ultimately show ?thesis by (simp add: tidy_def)
qed

lemma writes_only_witness:
  "\<exists>rc d h'. core_main ''rt'' [''lex'', ''no.l''] plain_host = Some (rc, d, h') \<and> h_files h' ''lex.yy.c'' = None"
proof -
  obtain rc d h' where r: "core_main ''rt'' [''lex'', ''no.l''] plain_host = Some (rc, d, h')"
    using core_main_ends by (metis option.exhaust prod_cases3)
  have f: "fresh plain_host" by (auto simp: fresh_def open_ids_def plain_host_def split: if_splits)
  let ?a = "no_args\<lparr>a_input_paths := [''no.l''], a_output_path := ''lex.yy.c''\<rparr>"
  have "parse_args [''lex'', ''no.l''] no_diag = Returned 0 ?a no_diag []"
    by (simp add: parse_args_def arg_step_def flag_act_def value_act_def arg_modes_def ignored_args_def no_args_def)
  moreover have "\<not> accepted ?a no_diag plain_host"
    by (simp add: accepted_def read_source_def slurp_path_exact[OF f]) (simp add: plain_host_def)
  ultimately have "may_change [''lex'', ''no.l''] plain_host = {}" by (simp add: may_change_def)
  with writes_only[OF f r] have "h_files h' ''lex.yy.c'' = h_files plain_host ''lex.yy.c''" by simp
  with r show ?thesis by (simp add: plain_host_def)
qed

end
