(* ===== verification/End_To_End.thy ===== *)
theory End_To_End
  imports Core_Run Scanner
begin

text \<open>
  The program from its command line to the scanner it writes: \<open>core_main\<close> on a command line that
  spells out some settings and a specification whose rules are given by their trees.
\<close>

section \<open>Writing the outputs\<close>


lemma stored_frame [simp]:
  "h_can_write (stored q t h) = h_can_write h" "h_accepts (stored q t h) = h_accepts h" "h_keeps (stored q t h) = h_keeps h"
  by (simp_all add: stored_def)




definition store_all :: "(string \<times> string) list \<Rightarrow> host \<Rightarrow> host" where
  "store_all = fold (\<lambda>(q, t). stored q t)"



lemma store_all_frame [simp]: "h_accepts (store_all ws h) = h_accepts h" "h_keeps (store_all ws h) = h_keeps h"
  by (induction ws arbitrary: h) (auto simp: store_all_def split: prod.split)



section \<open>From the command line to the front end\<close>




section \<open>Properties\<close>













end
