(* ===== verification/Runtime.thy ===== *)
theory Runtime
  imports Lex_Prelude
begin

text \<open>
  The runtime \<open>src/runtime/runtime.c.in\<close> that is copied into every scanner, in its non-reentrant form
  with \<open>yytext\<close> a pointer: buffers and their stack, reading input, \<open>unput\<close>, \<open>input\<close>, \<open>yyless\<close>, the
  stack of start conditions and \<open>yylex_destroy\<close>. It is C code, so memory is explicit: blocks of
  bytes and buffer structures at addresses, which are freed, reallocated and pointed into. An
  access that C leaves undefined is \<open>Fault\<close>; \<open>YY_FATAL_ERROR\<close> is \<open>Fatal\<close>.
\<close>

section \<open>Results\<close>

datatype 'a run = Done 'a | Fatal string | Fault

fun and_then :: "'a run \<Rightarrow> ('a \<Rightarrow> 'b run) \<Rightarrow> 'b run" where
  "and_then (Done x) f = f x"
| "and_then (Fatal msg) f = Fatal msg"
| "and_then Fault f = Fault"

lemma and_then_Done: "and_then m f = Done y \<longleftrightarrow> (\<exists>x. m = Done x \<and> f x = Done y)"
  by (cases m) auto

lemma and_then_cong [fundef_cong]: "m = m' \<Longrightarrow> (\<And>x. m' = Done x \<Longrightarrow> f x = g x) \<Longrightarrow> and_then m f = and_then m' g"
  by (cases m') auto

section \<open>Memory\<close>

text \<open>
  \<open>struct yy_buffer_state\<close>; \<open>yb_data\<close> is the address of a block. \<open>yy_is_interactive\<close>, which nothing
  reads, is left out. Sizes are natural numbers: nothing here comes near \<open>2^64\<close> except the position
  after \<open>yyless\<close>, where the wrap-around is written out.
\<close>

record yy_buffer =
  yb_input_file :: "nat option"
  yb_data :: nat
  yb_size :: nat
  yb_pos :: nat
  yb_end :: nat
  yb_at_bol :: bool
  yb_done :: bool
  yb_is_our_buffer :: bool

text \<open>
  \<open>struct yyguts_t\<close> and the globals, with the memory. \<open>yg_foreign\<close> are the blocks of the user, which
  are not from the allocator; \<open>yg_oom n\<close> that the \<open>n\<close>-th allocation fails; \<open>yg_junk\<close> is what fresh
  memory holds. \<open>yg_unread f\<close> is what file \<open>f\<close> will deliver.
\<close>

record guts =
  yg_blocks :: "nat \<Rightarrow> byte list option"
  yg_foreign :: "nat set"
  yg_buffers :: "nat \<Rightarrow> yy_buffer option"
  yg_next :: nat
  yg_oom :: "nat \<Rightarrow> bool"
  yg_junk :: byte
  yg_unread :: "nat \<Rightarrow> byte list"
  yy_buffer_stack :: "nat option list option"
  yy_buffer_stack_max :: nat
  yy_buffer_stack_top :: nat
  yy_state_stack :: "nat list option"
  yy_state_stack_max :: nat
  yy_state_stack_top :: nat
  yy_text :: "(nat \<times> int) option"
  yy_leng :: int
  yy_lineno :: int
  yy_in :: "nat option"
  yy_start :: nat
  yy_text_save :: byte
  yy_text_active :: bool
  yy_init_done :: bool
  yy_more_flag :: bool
  yy_more_offset :: int

definition read_at :: "nat \<Rightarrow> int \<Rightarrow> guts \<Rightarrow> byte run" where
  "read_at a i g =
     (case yg_blocks g a of
        Some bs \<Rightarrow> if 0 \<le> i \<and> nat i < length bs then Done (bs ! nat i) else Fault
      | None \<Rightarrow> Fault)"

definition write_at :: "nat \<Rightarrow> int \<Rightarrow> byte \<Rightarrow> guts \<Rightarrow> guts run" where
  "write_at a i v g =
     (case yg_blocks g a of
        Some bs \<Rightarrow> if 0 \<le> i \<and> nat i < length bs then Done (g\<lparr>yg_blocks := (yg_blocks g)(a \<mapsto> bs[nat i := v])\<rparr>) else Fault
      | None \<Rightarrow> Fault)"

text \<open>\<open>yyalloc\<close>: \<open>None\<close> is a null pointer. The stacks are arrays of their own, of which only the
  failure of an allocation is modelled.\<close>

definition new_address :: "guts \<Rightarrow> nat option \<times> guts" where
  "new_address g = (if yg_oom g (yg_next g) then None else Some (yg_next g), g\<lparr>yg_next := yg_next g + 1\<rparr>)"

definition yyalloc :: "nat \<Rightarrow> guts \<Rightarrow> nat option \<times> guts" where
  "yyalloc n g =
     (case new_address g of
        (None, g) \<Rightarrow> (None, g)
      | (Some a, g) \<Rightarrow> (Some a, g\<lparr>yg_blocks := (yg_blocks g)(a \<mapsto> replicate n (yg_junk g))\<rparr>))"

definition yyfree :: "nat \<Rightarrow> guts \<Rightarrow> guts run" where
  "yyfree a g =
     (if yg_blocks g a = None \<or> a \<in> yg_foreign g then Fault else Done (g\<lparr>yg_blocks := (yg_blocks g)(a := None)\<rparr>))"

definition yyrealloc :: "nat \<Rightarrow> nat \<Rightarrow> guts \<Rightarrow> (nat option \<times> guts) run" where
  "yyrealloc a n g =
     (case yg_blocks g a of
        None \<Rightarrow> Fault
      | Some bs \<Rightarrow>
          if a \<in> yg_foreign g then Fault
          else (case new_address g of
                  (None, g) \<Rightarrow> Done (None, g)
                | (Some a', g) \<Rightarrow> Done (Some a', g\<lparr>yg_blocks :=
                    (yg_blocks g)(a := None, a' \<mapsto> take n bs @ replicate (n - length bs) (yg_junk g))\<rparr>)))"

text \<open>A buffer structure that is dereferenced, and stored back.\<close>

definition the_buffer :: "nat \<Rightarrow> guts \<Rightarrow> yy_buffer run" where
  "the_buffer b g = (case yg_buffers g b of Some v \<Rightarrow> Done v | None \<Rightarrow> Fault)"

definition set_buffer :: "nat \<Rightarrow> yy_buffer \<Rightarrow> guts \<Rightarrow> guts" where
  "set_buffer b v g = g\<lparr>yg_buffers := (yg_buffers g)(b \<mapsto> v)\<rparr>"

definition out_of_memory :: string where
  "out_of_memory = ''lex: out of memory''"

section \<open>The stack of buffers\<close>

text \<open>\<open>YY_CURRENT_BUFFER\<close>, where null is \<open>None\<close>, and the assignment to it.\<close>

definition yy_current :: "guts \<Rightarrow> nat option run" where
  "yy_current g =
     (case yy_buffer_stack g of
        None \<Rightarrow> Done None
      | Some st \<Rightarrow> if yy_buffer_stack_top g < length st then Done (st ! yy_buffer_stack_top g) else Fault)"

definition set_current :: "nat option \<Rightarrow> guts \<Rightarrow> guts run" where
  "set_current b g =
     (case yy_buffer_stack g of
        None \<Rightarrow> Fault
      | Some st \<Rightarrow>
          if yy_buffer_stack_top g < length st
          then Done (g\<lparr>yy_buffer_stack := Some (st[yy_buffer_stack_top g := b])\<rparr>) else Fault)"

definition yyensure_buffer_stack :: "guts \<Rightarrow> guts run" where
  "yyensure_buffer_stack g =
     (case yy_buffer_stack g of
        Some st \<Rightarrow> Done g
      | None \<Rightarrow>
          (case new_address g of
             (None, g) \<Rightarrow> Fatal out_of_memory
           | (Some a, g) \<Rightarrow> Done (g\<lparr>yy_buffer_stack_max := 1, yy_buffer_stack := Some [None], yy_buffer_stack_top := 0\<rparr>)))"

definition yy_grow_stack :: "guts \<Rightarrow> guts run" where
  "yy_grow_stack g =
     (let new_max = (if yy_buffer_stack_max g \<noteq> 0 then yy_buffer_stack_max g * 2 else 4);
          st = (case yy_buffer_stack g of None \<Rightarrow> [] | Some st \<Rightarrow> st)
      in case new_address g of
           (None, g) \<Rightarrow> Fatal out_of_memory
         | (Some a, g) \<Rightarrow>
             Done (g\<lparr>yy_buffer_stack := Some (st @ replicate (new_max - yy_buffer_stack_max g) None),
                     yy_buffer_stack_max := new_max\<rparr>))"

definition YY_BUF_SIZE :: nat where
  "YY_BUF_SIZE = 16384"

definition yy_create_buffer :: "nat option \<Rightarrow> int \<Rightarrow> guts \<Rightarrow> (nat option \<times> guts) run" where
  "yy_create_buffer file_id sz g =
     (case new_address g of
        (None, g) \<Rightarrow> Done (None, g)
      | (Some b, g) \<Rightarrow>
          let n = (if sz > 0 then nat sz else YY_BUF_SIZE)
          in case yyalloc (n + 2) g of
               (None, g) \<Rightarrow> Done (None, g)
             | (Some a, g) \<Rightarrow>
                 and_then (write_at a 0 0 g) (\<lambda>g. and_then (write_at a 1 0 g) (\<lambda>g.
                   Done (Some b, set_buffer b \<lparr>yb_input_file = file_id, yb_data = a, yb_size = n, yb_pos = 0, yb_end = 0,
                     yb_at_bol = True, yb_done = False, yb_is_our_buffer = True\<rparr> g))))"

definition yy_delete_buffer :: "nat option \<Rightarrow> guts \<Rightarrow> guts run" where
  "yy_delete_buffer ob g =
     (case ob of
        None \<Rightarrow> Done g
      | Some b \<Rightarrow>
          and_then (the_buffer b g) (\<lambda>v.
            and_then (if yb_is_our_buffer v then yyfree (yb_data v) g else Done g) (\<lambda>g.
              Done (g\<lparr>yg_buffers := (yg_buffers g)(b := None)\<rparr>))))"

definition yy_flush_buffer :: "nat option \<Rightarrow> guts \<Rightarrow> guts run" where
  "yy_flush_buffer ob g =
     (case ob of
        None \<Rightarrow> Done g
      | Some b \<Rightarrow>
          and_then (the_buffer b g) (\<lambda>v.
            let g = set_buffer b (v\<lparr>yb_pos := 0, yb_end := 0, yb_done := (yb_input_file v = None), yb_at_bol := True\<rparr>) g
            in and_then (write_at (yb_data v) 0 0 g) (write_at (yb_data v) 1 0)))"

text \<open>\<open>if (b) yyin = b->yy_input_file;\<close>\<close>

definition take_input :: "nat option \<Rightarrow> guts \<Rightarrow> guts run" where
  "take_input ob g =
     (case ob of None \<Rightarrow> Done g | Some b \<Rightarrow> and_then (the_buffer b g) (\<lambda>v. Done (g\<lparr>yy_in := yb_input_file v\<rparr>)))"

definition yy_switch_to_buffer :: "nat option \<Rightarrow> guts \<Rightarrow> guts run" where
  "yy_switch_to_buffer ob g =
     and_then (yyensure_buffer_stack g) (\<lambda>g. and_then (yy_current g) (\<lambda>c.
       if c = ob then Done g else and_then (set_current ob g) (take_input ob)))"

definition yypush_buffer_state :: "nat option \<Rightarrow> guts \<Rightarrow> guts run" where
  "yypush_buffer_state ob g =
     and_then (yyensure_buffer_stack g) (\<lambda>g. and_then (yy_current g) (\<lambda>c.
       and_then
         (if c \<noteq> None
          then (let g = g\<lparr>yy_buffer_stack_top := yy_buffer_stack_top g + 1\<rparr>
                in if yy_buffer_stack_top g \<ge> yy_buffer_stack_max g then yy_grow_stack g else Done g)
          else Done g)
         (\<lambda>g. and_then (set_current ob g) (take_input ob))))"

definition yypop_buffer_state :: "guts \<Rightarrow> guts run" where
  "yypop_buffer_state g =
     (if yy_buffer_stack g = None then Done g
      else and_then (yy_current g) (\<lambda>c. and_then (yy_delete_buffer c g) (\<lambda>g. and_then (set_current None g) (\<lambda>g.
        if yy_buffer_stack_top g > 0
        then (let g = g\<lparr>yy_buffer_stack_top := yy_buffer_stack_top g - 1\<rparr> in and_then (yy_current g) (\<lambda>c. take_input c g))
        else Done g))))"

section \<open>Scanning from memory\<close>

definition yy_scan_buffer :: "nat \<Rightarrow> nat \<Rightarrow> guts \<Rightarrow> (nat option \<times> guts) run" where
  "yy_scan_buffer base sz g =
     (if sz < 2 then Done (None, g)
      else and_then (read_at base (int sz - 2) g) (\<lambda>x.
        if x \<noteq> 0 then Done (None, g)
        else and_then (read_at base (int sz - 1) g) (\<lambda>y.
          if y \<noteq> 0 then Done (None, g)
          else (case new_address g of
                  (None, g) \<Rightarrow> Done (None, g)
                | (Some b, g) \<Rightarrow>
                    let g = set_buffer b \<lparr>yb_input_file = None, yb_data = base, yb_size = sz - 2, yb_pos = 0, yb_end = sz - 2,
                      yb_at_bol = True, yb_done = True, yb_is_our_buffer = False\<rparr> g
                    in and_then (yypush_buffer_state (Some b) g) (\<lambda>g. Done (Some b, g))))))"

text \<open>\<open>bytes\<close> are the bytes at the pointer, at least \<open>len\<close> of them.\<close>

definition yy_scan_bytes :: "byte list \<Rightarrow> int \<Rightarrow> guts \<Rightarrow> (nat option \<times> guts) run" where
  "yy_scan_bytes bytes len g =
     (let n = nat len
      in case yyalloc (n + 2) g of
           (None, g) \<Rightarrow> Done (None, g)
         | (Some a, g) \<Rightarrow>
             if n > length bytes then Fault
             else let g = g\<lparr>yg_blocks := (yg_blocks g)(a \<mapsto> take n bytes @ [0, 0])\<rparr>
                  in case new_address g of
                       (None, g) \<Rightarrow> and_then (yyfree a g) (\<lambda>g. Done (None, g))
                     | (Some b, g) \<Rightarrow>
                         let g = set_buffer b \<lparr>yb_input_file = None, yb_data = a, yb_size = n, yb_pos = 0, yb_end = n,
                           yb_at_bol = True, yb_done = True, yb_is_our_buffer = True\<rparr> g
                         in and_then (yypush_buffer_state (Some b) g) (\<lambda>g. Done (Some b, g)))"

definition yy_scan_string :: "byte list \<Rightarrow> guts \<Rightarrow> (nat option \<times> guts) run" where
  "yy_scan_string s g = yy_scan_bytes s (int (length (takeWhile (\<lambda>c. c \<noteq> 0) s))) g"

section \<open>Reading\<close>

text \<open>\<open>while (s < want) s *= 2;\<close>, where \<open>s\<close> starts at 1 or more.\<close>

function double_to :: "nat \<Rightarrow> nat \<Rightarrow> nat" where
  "double_to s want = (if s = 0 \<or> s \<ge> want then s else double_to (s * 2) want)"
  by pat_completeness auto
termination by (relation "measure (\<lambda>(s, want). want - s)") auto

declare double_to.simps [simp del]

definition yy_buf_grow :: "nat \<Rightarrow> nat \<Rightarrow> guts \<Rightarrow> guts run" where
  "yy_buf_grow b want g =
     and_then (the_buffer b g) (\<lambda>v.
       if yb_size v \<ge> want then Done g
       else let s = double_to (if yb_size v \<noteq> 0 then yb_size v else 4096) want
            in and_then (yyrealloc (yb_data v) (s + 2) g) (\<lambda>(p, g).
                 case p of
                   None \<Rightarrow> Fatal out_of_memory
                 | Some a \<Rightarrow>
                     let g = set_buffer b (v\<lparr>yb_data := a, yb_size := s\<rparr>) g
                     in and_then (write_at a (int (yb_end v)) 0 g) (write_at a (int (yb_end v) + 1) 0)))"

text \<open>\<open>YY_INPUT\<close>: what \<open>fread\<close> puts at offset \<open>i\<close> of a block.\<close>

definition yy_fread :: "nat \<Rightarrow> nat \<Rightarrow> nat \<Rightarrow> guts \<Rightarrow> (nat \<times> guts) run" where
  "yy_fread a i n g =
     (case (yy_in g, yg_blocks g a) of
        (Some f, Some bs) \<Rightarrow>
          let got = take n (yg_unread g f)
          in if i + n > length bs then Fault
             else Done (length got, g\<lparr>yg_unread := (yg_unread g)(f := drop n (yg_unread g f)),
                    yg_blocks := (yg_blocks g)(a \<mapsto> take i bs @ got @ drop (i + length got) bs)\<rparr>)
      | _ \<Rightarrow> Fault)"

definition yy_refill :: "guts \<Rightarrow> guts run" where
  "yy_refill g =
     and_then (yy_current g) (\<lambda>c.
       case c of
         None \<Rightarrow> Done g
       | Some b \<Rightarrow>
           and_then (the_buffer b g) (\<lambda>v.
             if yb_done v then Done g
             else and_then (yy_buf_grow b (yb_end v + 4096) g) (\<lambda>g. and_then (the_buffer b g) (\<lambda>v.
               and_then (yy_fread (yb_data v) (yb_end v) (yb_size v - yb_end v) g) (\<lambda>(n, g).
                 let g = set_buffer b (v\<lparr>yb_end := yb_end v + n, yb_done := (n = 0)\<rparr>) g
                 in and_then (write_at (yb_data v) (int (yb_end v + n)) 0 g) (write_at (yb_data v) (int (yb_end v + n) + 1) 0))))))"

end
