(* ===== verification/Runtime_Input.thy ===== *)
theory Runtime_Input
  imports Runtime
begin

text \<open>
  The operations of \<open>src/runtime/runtime.c.in\<close> that read input and move in it: \<open>yy_slurp\<close>,
  \<open>yyrestart\<close>, \<open>unput\<close>, \<open>input\<close>, \<open>yyless\<close>, the stack of start conditions, and \<open>yylex_destroy\<close>.
\<close>

section \<open>What a refill leaves unchanged\<close>

lemma write_at_Done:
  "write_at a i v g = Done g' \<longleftrightarrow>
     (\<exists>bs. yg_blocks g a = Some bs \<and> 0 \<le> i \<and> nat i < length bs \<and> g' = g\<lparr>yg_blocks := (yg_blocks g)(a \<mapsto> bs[nat i := v])\<rparr>)"
  by (auto simp: write_at_def split: option.splits if_splits)

text \<open>The fields that are not memory.\<close>

definition apart_from_memory :: "guts \<Rightarrow> guts" where
  "apart_from_memory g = g\<lparr>yg_blocks := Map.empty, yg_next := 0\<rparr>"

lemma apart_simps [simp]:
  "apart_from_memory (g\<lparr>yg_blocks := m\<rparr>) = apart_from_memory g" "apart_from_memory (g\<lparr>yg_next := k\<rparr>) = apart_from_memory g"
  by (simp_all add: apart_from_memory_def)

lemma apart_fields:
  assumes "apart_from_memory g' = apart_from_memory g"
  shows "yg_buffers g' = yg_buffers g" "yy_buffer_stack g' = yy_buffer_stack g" "yy_buffer_stack_top g' = yy_buffer_stack_top g"
    "yy_in g' = yy_in g" "yg_unread g' = yg_unread g" "yy_buffer_stack_max g' = yy_buffer_stack_max g" "yg_foreign g' = yg_foreign g"
    "yg_oom g' = yg_oom g"
  using arg_cong[OF assms, of yg_buffers] arg_cong[OF assms, of yy_buffer_stack] arg_cong[OF assms, of yy_buffer_stack_top]
    arg_cong[OF assms, of yy_in] arg_cong[OF assms, of yg_unread] arg_cong[OF assms, of yy_buffer_stack_max]
    arg_cong[OF assms, of yg_foreign] arg_cong[OF assms, of yg_oom]
  by (simp_all add: apart_from_memory_def)

lemma write_at_apart: "write_at a i v g = Done g' \<Longrightarrow> apart_from_memory g' = apart_from_memory g"
  by (auto simp: write_at_Done)

lemma yyrealloc_apart:
  assumes "yyrealloc a n g = Done (p, g')"
  shows "apart_from_memory g' = apart_from_memory g"
proof -
  obtain bs where bs: "yg_blocks g a = Some bs" "a \<notin> yg_foreign g"
    using assms by (cases "yg_blocks g a") (simp_all add: yyrealloc_def split: if_splits)
  show ?thesis
  proof (cases "yg_oom g (yg_next g)")
    case True
    with assms bs have "g' = g\<lparr>yg_next := yg_next g + 1\<rparr>" by (simp add: yyrealloc_def new_address_def)
    then show ?thesis by (simp only: apart_simps)
  next
    case False
    with assms bs have "\<exists>m. g' = g\<lparr>yg_next := yg_next g + 1\<rparr>\<lparr>yg_blocks := m\<rparr>"
      by (simp add: yyrealloc_def new_address_def) blast
    then show ?thesis by (auto simp only: apart_simps)
  qed
qed

lemma current_apart:
  assumes "apart_from_memory g' = apart_from_memory g"
  shows "yy_current g' = yy_current g"
  unfolding yy_current_def apart_fields(2)[OF assms] apart_fields(3)[OF assms] by (rule refl)

lemma set_buffer_apart:
  "yg_buffers (set_buffer b v g) = (yg_buffers g)(b \<mapsto> v)" "yy_current (set_buffer b v g) = yy_current g"
  "yy_in (set_buffer b v g) = yy_in g" "yg_unread (set_buffer b v g) = yg_unread g"
  subgoal by (simp add: set_buffer_def)
  subgoal by (simp add: set_buffer_def yy_current_def split: option.split)
  subgoal by (simp add: set_buffer_def)
  subgoal by (simp add: set_buffer_def)
  done

text \<open>Growing a buffer changes its data and size only.\<close>

lemma grow_frame:
  assumes "yy_buf_grow b want g = Done g'" "yg_buffers g b = Some v"
  shows "yy_current g' = yy_current g" "yy_in g' = yy_in g" "yg_unread g' = yg_unread g"
    "\<exists>a s. yg_buffers g' b = Some (v\<lparr>yb_data := a, yb_size := s\<rparr>)"
proof -
  have "yy_current g' = yy_current g \<and> yy_in g' = yy_in g \<and> yg_unread g' = yg_unread g \<and>
      (\<exists>a s. yg_buffers g' b = Some (v\<lparr>yb_data := a, yb_size := s\<rparr>))"
  proof (cases "yb_size v \<ge> want")
    case True
    with assms have "g' = g" by (simp add: yy_buf_grow_def the_buffer_def)
    moreover have "v = v\<lparr>yb_data := yb_data v, yb_size := yb_size v\<rparr>" by simp
    ultimately show ?thesis using assms(2) by metis
  next
    case False
    let ?s = "double_to (if yb_size v \<noteq> 0 then yb_size v else 4096) want"
    from assms False obtain p h where h: "yyrealloc (yb_data v) (?s + 2) g = Done (p, h)"
      by (auto simp: yy_buf_grow_def the_buffer_def and_then_Done Let_def)
    from assms False h obtain a where a: "p = Some a"
      by (cases p) (auto simp: yy_buf_grow_def the_buffer_def Let_def)
    let ?v = "v\<lparr>yb_data := a, yb_size := ?s\<rparr>"
    from assms False h a obtain k where k: "write_at a (int (yb_end v)) 0 (set_buffer b ?v h) = Done k"
      "write_at a (int (yb_end v) + 1) 0 k = Done g'"
      by (auto simp: yy_buf_grow_def the_buffer_def and_then_Done Let_def)
    have "apart_from_memory g' = apart_from_memory (set_buffer b ?v h)"
      using write_at_apart[OF k(1)] write_at_apart[OF k(2)] by simp
    note e = apart_fields[OF this] current_apart[OF this]
    note f = apart_fields[OF yyrealloc_apart[OF h]] current_apart[OF yyrealloc_apart[OF h]]
    have "yg_buffers g' b = Some ?v" using e(1) by (simp add: set_buffer_apart)
    moreover have "yy_current g' = yy_current g" "yy_in g' = yy_in g" "yg_unread g' = yg_unread g"
      using e f by (simp_all add: set_buffer_apart)
    ultimately show ?thesis by blast
  qed
  then show "yy_current g' = yy_current g" "yy_in g' = yy_in g" "yg_unread g' = yg_unread g"
    "\<exists>a s. yg_buffers g' b = Some (v\<lparr>yb_data := a, yb_size := s\<rparr>)" by blast+
qed

lemma fread_frame:
  assumes "yy_fread a i n g = Done (k, g')"
  obtains f where "yy_in g = Some f" "yy_in g' = Some f" "k = min n (length (yg_unread g f))"
    "yg_unread g' = (yg_unread g)(f := drop n (yg_unread g f))" "yg_buffers g' = yg_buffers g" "yy_current g' = yy_current g"
  using assms by (auto simp: yy_fread_def Let_def yy_current_def min.commute split: option.splits if_splits)

text \<open>A refill takes at least one byte, or notes the end of the input.\<close>

lemma refill_effect:
  assumes "yy_refill g = Done g'" "yy_current g = Done (Some b)" "yg_buffers g b = Some v" "\<not> yb_done v"
  obtains f n a s v' where "yy_in g = Some f" "yy_in g' = Some f" "yy_current g' = Done (Some b)" "yg_buffers g' b = Some v'"
    "v' = v\<lparr>yb_data := a, yb_size := s, yb_end := yb_end v + n, yb_done := (n = 0)\<rparr>" "n = min (s - yb_end v) (length (yg_unread g f))"
    "yg_unread g' f = drop n (yg_unread g f)"
proof -
  from assms obtain h where h: "yy_buf_grow b (yb_end v + 4096) g = Done h"
    by (auto simp: yy_refill_def the_buffer_def and_then_Done)
  note gf = grow_frame[OF h assms(3)]
  from gf(4) obtain a s where w: "yg_buffers h b = Some (v\<lparr>yb_data := a, yb_size := s\<rparr>)" by blast
  let ?w = "v\<lparr>yb_data := a, yb_size := s\<rparr>"
  from assms h w obtain n k where k: "yy_fread a (yb_end v) (s - yb_end v) h = Done (n, k)"
    by (auto simp: yy_refill_def the_buffer_def and_then_Done)
  let ?v = "?w\<lparr>yb_end := yb_end v + n, yb_done := (n = 0)\<rparr>"
  from assms h w k obtain l where l: "write_at a (int (yb_end v + n)) 0 (set_buffer b ?v k) = Done l"
    "write_at a (int (yb_end v + n) + 1) 0 l = Done g'"
    by (auto simp: yy_refill_def the_buffer_def and_then_Done Let_def)
  have "apart_from_memory g' = apart_from_memory (set_buffer b ?v k)"
    using write_at_apart[OF l(1)] write_at_apart[OF l(2)] by simp
  note e = apart_fields[OF this] current_apart[OF this]
  obtain f where f: "yy_in h = Some f" "yy_in k = Some f" "n = min (s - yb_end v) (length (yg_unread h f))"
    "yg_unread k = (yg_unread h)(f := drop (s - yb_end v) (yg_unread h f))" "yg_buffers k = yg_buffers h" "yy_current k = yy_current h"
    using fread_frame[OF k] by blast
  have "drop (s - yb_end v) xs = drop (min (s - yb_end v) (length xs)) xs" for xs :: "byte list"
    by (simp add: min_def)
  then have "yg_unread g' f = drop n (yg_unread g f)" using e(5) f gf(3) by (simp add: set_buffer_apart)
  moreover have "yg_buffers g' b = Some ?v" using e(1) by (simp add: set_buffer_apart)
  moreover have "yy_current g' = Done (Some b)" using e(9) f(6) gf(1) assms(2) by (simp add: set_buffer_apart)
  moreover have "yy_in g = Some f" "yy_in g' = Some f" using f(1,2) gf(2) e(4) by (simp_all add: set_buffer_apart)
  moreover have "n = min (s - yb_end v) (length (yg_unread g f))" using f(3) gf(3) by simp
  ultimately show thesis using that[where ?v' = ?v] by simp
qed

section \<open>Reading all of the input\<close>

definition to_read :: "guts \<Rightarrow> nat" where
  "to_read g =
     2 * (case yy_in g of Some f \<Rightarrow> length (yg_unread g f) | None \<Rightarrow> 0) +
     (case yy_current g of Done (Some b) \<Rightarrow> (case yg_buffers g b of Some v \<Rightarrow> (if yb_done v then 0 else 1) | None \<Rightarrow> 0) | _ \<Rightarrow> 0)"

lemma refill_to_read:
  assumes "yy_current g = Done (Some b)" "the_buffer b g = Done v" "\<not> yb_done v" "yy_refill g = Done g'"
  shows "to_read g' < to_read g"
proof -
  have v: "yg_buffers g b = Some v" using assms(2) by (simp add: the_buffer_def split: option.splits)
  obtain f n a s v' where r: "yy_in g = Some f" "yy_in g' = Some f" "yy_current g' = Done (Some b)" "yg_buffers g' b = Some v'"
    "v' = v\<lparr>yb_data := a, yb_size := s, yb_end := yb_end v + n, yb_done := (n = 0)\<rparr>" "n = min (s - yb_end v) (length (yg_unread g f))"
    "yg_unread g' f = drop n (yg_unread g f)"
    by (rule refill_effect[OF assms(4,1) v assms(3)])
  then show ?thesis using assms(1,3) v by (cases "n = 0") (auto simp: to_read_def)
qed

function yy_slurp :: "guts \<Rightarrow> guts run" where
  "yy_slurp g =
     and_then (yy_current g) (\<lambda>c.
       case c of
         None \<Rightarrow> Done g
       | Some b \<Rightarrow> and_then (the_buffer b g) (\<lambda>v. if yb_done v then Done g else and_then (yy_refill g) yy_slurp))"
  by pat_completeness auto
termination by (relation "measure to_read") (auto intro: refill_to_read)

declare yy_slurp.simps [simp del]

definition yy_init_default_buffer :: "guts \<Rightarrow> guts run" where
  "yy_init_default_buffer g =
     and_then (yyensure_buffer_stack g) (\<lambda>g. and_then (yy_current g) (\<lambda>c.
       and_then
         (if c = None
          then (let g = (if yy_in g = None then g\<lparr>yy_in := Some 0\<rparr> else g)
                in and_then (yy_create_buffer (yy_in g) (int YY_BUF_SIZE) g) (\<lambda>(b, g). and_then (set_current b g) yy_slurp))
          else Done g)
         (\<lambda>g. Done (g\<lparr>yy_init_done := True\<rparr>))))"

definition yyrestart :: "nat option \<Rightarrow> guts \<Rightarrow> guts run" where
  "yyrestart new_input g =
     and_then (yyensure_buffer_stack g) (\<lambda>g. and_then (yy_current g) (\<lambda>c.
       and_then
         (case c of
            None \<Rightarrow> and_then (yy_create_buffer new_input (int YY_BUF_SIZE) g) (\<lambda>(b, g). set_current b g)
          | Some b \<Rightarrow> and_then (the_buffer b g) (\<lambda>v. yy_flush_buffer (Some b) (set_buffer b (v\<lparr>yb_input_file := new_input\<rparr>) g)))
         (\<lambda>g. yy_slurp (g\<lparr>yy_in := new_input, yy_text_active := False, yy_text_save := 0, yy_text := None, yy_leng := 0\<rparr>))))"

section \<open>The text of a match\<close>

text \<open>\<open>yytext[i]\<close>.\<close>

definition read_text :: "int \<Rightarrow> guts \<Rightarrow> byte run" where
  "read_text i g = (case yy_text g of None \<Rightarrow> Fault | Some (a, x) \<Rightarrow> read_at a (x + i) g)"

definition write_text :: "int \<Rightarrow> byte \<Rightarrow> guts \<Rightarrow> guts run" where
  "write_text i v g = (case yy_text g of None \<Rightarrow> Fault | Some (a, x) \<Rightarrow> write_at a (x + i) v g)"

definition yy_text_seal :: "guts \<Rightarrow> guts run" where
  "yy_text_seal g =
     (if yy_text_active g \<and> yy_text g \<noteq> None
      then and_then (read_text (yy_leng g) g) (\<lambda>c. write_text (yy_leng g) 0 (g\<lparr>yy_text_save := c\<rparr>)) else Done g)"

definition yy_text_unseal :: "guts \<Rightarrow> guts run" where
  "yy_text_unseal g =
     (if yy_text_active g \<and> yy_text g \<noteq> None
      then and_then (write_text (yy_leng g) (yy_text_save g) g) (\<lambda>g. Done (g\<lparr>yy_text_active := False\<rparr>)) else Done g)"

section \<open>\<open>unput\<close>, \<open>input\<close> and \<open>yyless\<close>\<close>

text \<open>\<open>memmove(data + 1, data, end)\<close>.\<close>

definition shift_block :: "nat \<Rightarrow> nat \<Rightarrow> guts \<Rightarrow> guts run" where
  "shift_block a n g =
     (case yg_blocks g a of
        None \<Rightarrow> Fault
      | Some bs \<Rightarrow>
          if n + 1 > length bs then Fault
          else Done (g\<lparr>yg_blocks := (yg_blocks g)(a \<mapsto> take 1 bs @ take n bs @ drop (n + 1) bs)\<rparr>))"

definition yy_unput :: "byte \<Rightarrow> guts \<Rightarrow> guts run" where
  "yy_unput c g =
     and_then (yy_text_unseal g) (\<lambda>g. and_then (yy_current g) (\<lambda>cur.
       case cur of
         None \<Rightarrow> Done g
       | Some b \<Rightarrow>
           and_then (the_buffer b g) (\<lambda>v.
             and_then
               (if yb_pos v = 0
                then and_then (yy_buf_grow b (yb_end v + 1) g) (\<lambda>g. and_then (the_buffer b g) (\<lambda>v.
                       and_then (shift_block (yb_data v) (yb_end v) g) (\<lambda>g.
                         Done (set_buffer b (v\<lparr>yb_end := yb_end v + 1, yb_pos := 1\<rparr>) g))))
                else Done g)
               (\<lambda>g. and_then (the_buffer b g) (\<lambda>v.
                  and_then (write_at (yb_data v) (int (yb_pos v) - 1) c g) (\<lambda>g.
                    Done (set_buffer b (v\<lparr>yb_pos := yb_pos v - 1, yb_at_bol := (c = 10)\<rparr>) g)))))))"

text \<open>The byte read, 0 at the end of the input. \<open>track\<close> is \<open>YY_TRACK_LINENO\<close>.\<close>

definition yy_input :: "bool \<Rightarrow> guts \<Rightarrow> (int \<times> guts) run" where
  "yy_input track g =
     and_then (yy_text_unseal g) (\<lambda>g. and_then (yy_current g) (\<lambda>cur.
       case cur of
         None \<Rightarrow> Done (0, g)
       | Some b \<Rightarrow>
           and_then (the_buffer b g) (\<lambda>v.
             and_then (if yb_pos v \<ge> yb_end v then yy_refill g else Done g) (\<lambda>g. and_then (the_buffer b g) (\<lambda>v.
               if yb_pos v \<ge> yb_end v then Done (0, g)
               else and_then (read_at (yb_data v) (int (yb_pos v)) g) (\<lambda>c.
                      let g = set_buffer b (v\<lparr>yb_pos := yb_pos v + 1\<rparr>) g
                      in Done (int (ub c), if track \<and> c = 10 then g\<lparr>yy_lineno := yy_lineno g + 1\<rparr> else g)))))))"

text \<open>Positions are \<open>size_t\<close>: they wrap at \<open>2^64\<close>.\<close>

definition yy_do_yyless :: "int \<Rightarrow> guts \<Rightarrow> guts run" where
  "yy_do_yyless n g =
     and_then (yy_current g) (\<lambda>cur. and_then (write_text (yy_leng g) (yy_text_save g) g) (\<lambda>g.
       case cur of
         None \<Rightarrow> Fault
       | Some b \<Rightarrow>
           and_then (the_buffer b g) (\<lambda>v.
             let g = set_buffer b (v\<lparr>yb_pos := nat ((int (yb_pos v) - (yy_leng g - n)) mod 2 ^ 64)\<rparr>) g;
                 g = g\<lparr>yy_leng := n\<rparr>
             in and_then (read_text n g) (\<lambda>c. and_then (write_text n 0 (g\<lparr>yy_text_save := c\<rparr>)) (\<lambda>g.
                  and_then (if n > 0 then and_then (read_text (n - 1) g) (\<lambda>l. Done (l = 10)) else Done False) (\<lambda>bol.
                    and_then (the_buffer b g) (\<lambda>v. Done (set_buffer b (v\<lparr>yb_at_bol := bol\<rparr>) g))))))))"

section \<open>The stack of start conditions\<close>

definition yy_grow_state_stack :: "guts \<Rightarrow> guts run" where
  "yy_grow_state_stack g =
     (let new_max = (if yy_state_stack_max g \<noteq> 0 then yy_state_stack_max g * 2 else 16);
          st = (case yy_state_stack g of None \<Rightarrow> [] | Some st \<Rightarrow> st)
      in case new_address g of
           (None, g) \<Rightarrow> Fatal out_of_memory
         | (Some a, g) \<Rightarrow> Done (g\<lparr>yy_state_stack := Some (st @ replicate (new_max - length st) (ub (yg_junk g))),
                                  yy_state_stack_max := new_max\<rparr>))"

definition yy_push_state :: "nat \<Rightarrow> guts \<Rightarrow> guts run" where
  "yy_push_state new_state g =
     and_then (if yy_state_stack_top g \<ge> yy_state_stack_max g then yy_grow_state_stack g else Done g) (\<lambda>g.
       case yy_state_stack g of
         None \<Rightarrow> Fault
       | Some st \<Rightarrow>
           if yy_state_stack_top g < length st
           then Done (g\<lparr>yy_state_stack := Some (st[yy_state_stack_top g := yy_start g]),
                        yy_state_stack_top := yy_state_stack_top g + 1, yy_start := new_state\<rparr>)
           else Fault)"

text \<open>The top entry, if it exists in the array.\<close>

definition state_at :: "nat \<Rightarrow> guts \<Rightarrow> nat run" where
  "state_at i g = (case yy_state_stack g of Some st \<Rightarrow> if i < length st then Done (st ! i) else Fault | None \<Rightarrow> Fault)"

definition yy_pop_state :: "guts \<Rightarrow> guts run" where
  "yy_pop_state g =
     (if yy_state_stack_top g = 0 then Done g
      else let g = g\<lparr>yy_state_stack_top := yy_state_stack_top g - 1\<rparr>
           in and_then (state_at (yy_state_stack_top g) g) (\<lambda>s. Done (g\<lparr>yy_start := s\<rparr>)))"

definition yy_top_state :: "guts \<Rightarrow> nat run" where
  "yy_top_state g =
     (if yy_state_stack_top g = 0 then Fatal ''yy_top_state(): empty stack'' else state_at (yy_state_stack_top g - 1) g)"

end
