(* ===== verification/Runtime_Correct.thy ===== *)
theory Runtime_Correct
  imports Runtime_Input
begin

text \<open>
  What the operations of the runtime do to the input: \<open>yy_slurp\<close> loads all of it, \<open>unput\<close> and \<open>input\<close>
  are the two ends of a stack of bytes, and \<open>yyless\<close> gives back the end of a match.
\<close>

lemma take_whole: "length ys = n \<Longrightarrow> take n (ys @ zs) = ys"
  by simp

section \<open>What a buffer holds\<close>

text \<open>The current buffer \<open>b\<close> has read the bytes \<open>xs\<close>, of which \<open>p\<close> are consumed, in memory of its own.\<close>

definition holds :: "nat \<Rightarrow> byte list \<Rightarrow> nat \<Rightarrow> guts \<Rightarrow> bool" where
  "holds b xs p g =
     (yy_current g = Done (Some b) \<and>
      (case yg_buffers g b of
         None \<Rightarrow> False
       | Some v \<Rightarrow>
           yb_end v = length xs \<and> yb_pos v = p \<and> p \<le> length xs \<and> length xs \<le> yb_size v \<and> yb_data v \<notin> yg_foreign g \<and>
           (case yg_blocks g (yb_data v) of None \<Rightarrow> False | Some bs \<Rightarrow> length bs = yb_size v + 2 \<and> take (length xs) bs = xs)))"

lemma holdsE:
  assumes "holds b xs p g"
  obtains v bs where "yy_current g = Done (Some b)" "yg_buffers g b = Some v" "yg_blocks g (yb_data v) = Some bs"
    "yb_end v = length xs" "yb_pos v = p" "p \<le> length xs" "length xs \<le> yb_size v" "yb_data v \<notin> yg_foreign g"
    "length bs = yb_size v + 2" "take (length xs) bs = xs"
  using assms by (auto simp: holds_def split: option.splits)

text \<open>Memory does not run out, and the allocator does not hand out the blocks of the user.\<close>

definition roomy :: "guts \<Rightarrow> bool" where
  "roomy g = ((\<forall>n. \<not> yg_oom g n) \<and> (\<forall>a \<in> yg_foreign g. a < yg_next g))"

lemma current_cong:
  "yy_buffer_stack g' = yy_buffer_stack g \<Longrightarrow> yy_buffer_stack_top g' = yy_buffer_stack_top g \<Longrightarrow> yy_current g' = yy_current g"
  by (simp add: yy_current_def split: option.split)

section \<open>Growing\<close>

lemma double_to_enough: "0 < s \<Longrightarrow> want \<le> double_to s want \<and> 0 < double_to s want"
  by (induction s want rule: double_to.induct) (simp add: double_to.simps)

lemma grow_ok:
  assumes h: "holds b xs p g" and r: "roomy g" and v: "yg_buffers g b = Some v"
  obtains m k a s bs where "yy_buf_grow b want g = Done (g\<lparr>yg_blocks := m, yg_next := k,
      yg_buffers := (yg_buffers g)(b \<mapsto> v\<lparr>yb_data := a, yb_size := s\<rparr>)\<rparr>)"
    "want \<le> s" "yb_size v \<le> s" "m a = Some bs" "length bs = s + 2" "take (length xs) bs = xs" "a \<notin> yg_foreign g" "yg_next g \<le> k"
proof (cases "want \<le> yb_size v")
  case True
  from h v obtain bs where bs: "yg_blocks g (yb_data v) = Some bs" "length bs = yb_size v + 2" "take (length xs) bs = xs"
    "yb_data v \<notin> yg_foreign g" by (auto elim: holdsE)
  have "yy_buf_grow b want g = Done g" using True v by (simp add: yy_buf_grow_def the_buffer_def)
  moreover have "g = g\<lparr>yg_blocks := yg_blocks g, yg_next := yg_next g,
      yg_buffers := (yg_buffers g)(b \<mapsto> v\<lparr>yb_data := yb_data v, yb_size := yb_size v\<rparr>)\<rparr>"
    using v by (simp add: fun_upd_idem)
  ultimately show ?thesis
    using that[where m = "yg_blocks g" and k = "yg_next g" and a = "yb_data v" and s = "yb_size v" and bs = bs] bs True
    by (metis order_refl)
next
  case False
  from h v obtain bs where bs: "yg_blocks g (yb_data v) = Some bs" "length bs = yb_size v + 2" "take (length xs) bs = xs"
    "yb_data v \<notin> yg_foreign g" "length xs \<le> yb_size v" "yb_end v = length xs" by (auto elim: holdsE)
  let ?s = "double_to (if yb_size v \<noteq> 0 then yb_size v else 4096) want"
  let ?a = "yg_next g" let ?new = "take (?s + 2) bs @ replicate (?s + 2 - length bs) (yg_junk g)"
  have s: "want \<le> ?s" by (rule conjunct1[OF double_to_enough]) simp
  have len: "length ?new = ?s + 2" by simp
  have p: "length xs + 1 < length ?new" using s False bs(5) unfolding len by linarith
  have "yyrealloc (yb_data v) (?s + 2) g = Done (Some ?a, g\<lparr>yg_next := yg_next g + 1\<rparr>\<lparr>yg_blocks :=
      (yg_blocks g)(yb_data v := None, ?a \<mapsto> ?new)\<rparr>)"
    using r bs by (simp add: yyrealloc_def new_address_def roomy_def)
  then have grow: "yy_buf_grow b want g = Done (g\<lparr>yg_blocks := (yg_blocks g)(yb_data v := None, ?a \<mapsto> ?new[length xs := 0, length xs + 1 := 0]),
      yg_next := yg_next g + 1, yg_buffers := (yg_buffers g)(b \<mapsto> v\<lparr>yb_data := ?a, yb_size := ?s\<rparr>)\<rparr>)"
    using False v p len bs(6) unfolding yy_buf_grow_def the_buffer_def Let_def write_at_def set_buffer_def
    by (simp add: nat_add_distrib)
  have "take (length xs) ?new = xs" using bs False s by (simp add: min_def)
  moreover have "?a \<notin> yg_foreign g" using r by (auto simp: roomy_def)
  ultimately show ?thesis using that[OF grow] s False len by simp
qed

section \<open>Reading the whole input\<close>

text \<open>Two null bytes follow what the buffer holds.\<close>

definition nuls_follow :: "nat \<Rightarrow> guts \<Rightarrow> bool" where
  "nuls_follow b g =
     (case yg_buffers g b of
        None \<Rightarrow> False
      | Some v \<Rightarrow> read_at (yb_data v) (int (yb_end v)) g = Done 0 \<and> read_at (yb_data v) (int (yb_end v) + 1) g = Done 0)"

lemma nuls_written:
  assumes "yg_buffers g b = Some v" "yg_blocks g (yb_data v) = Some (bs[e := 0, e + 1 := 0])" "yb_end v = e" "e + 1 < length bs"
  shows "nuls_follow b g"
  using assms by (simp add: nuls_follow_def read_at_def nat_add_distrib)

definition reads_on :: "nat \<Rightarrow> guts \<Rightarrow> bool" where
  "reads_on b g = (case yg_buffers g b of None \<Rightarrow> False | Some v \<Rightarrow> \<not> yb_done v)"

lemma refill_ok:
  assumes h: "holds b xs p g" and r: "roomy g" and on: "reads_on b g" and f: "yy_in g = Some f"
  obtains g' n where "yy_refill g = Done g'" "holds b (xs @ take n (yg_unread g f)) p g'" "roomy g'" "yy_in g' = Some f"
    "yg_unread g' f = drop n (yg_unread g f)" "nuls_follow b g'" "reads_on b g' \<longleftrightarrow> yg_unread g f \<noteq> []"
    "yy_lineno g' = yy_lineno g" "0 < n"
proof -
  obtain v where v: "yg_buffers g b = Some v" "yy_current g = Done (Some b)" "yb_end v = length xs" "yb_pos v = p" "p \<le> length xs"
    using h by (auto elim: holdsE)
  have nd: "\<not> yb_done v" using on v by (simp add: reads_on_def)
  obtain m k a s bs where grow: "yy_buf_grow b (yb_end v + 4096) g = Done (g\<lparr>yg_blocks := m, yg_next := k,
      yg_buffers := (yg_buffers g)(b \<mapsto> v\<lparr>yb_data := a, yb_size := s\<rparr>)\<rparr>)"
    and s: "yb_end v + 4096 \<le> s" and bs: "m a = Some bs" "length bs = s + 2" "take (length xs) bs = xs" "a \<notin> yg_foreign g"
    and k: "yg_next g \<le> k"
    using grow_ok[OF h r v(1), where want = "yb_end v + 4096"] by metis
  let ?u = "yg_unread g f" let ?n = "s - length xs" let ?got = "take ?n ?u"
  let ?v = "v\<lparr>yb_data := a, yb_size := s\<rparr>\<lparr>yb_end := length xs + length ?got, yb_done := (length ?got = 0)\<rparr>"
  let ?bs = "take (length xs) bs @ ?got @ drop (length xs + length ?got) bs"
  let ?e = "length xs + length ?got"
  let ?bs' = "?bs[?e := 0, ?e + 1 := 0]"
  let ?g = "g\<lparr>yg_blocks := m(a \<mapsto> ?bs'), yg_next := k, yg_buffers := (yg_buffers g)(b \<mapsto> ?v),
      yg_unread := (yg_unread g)(f := drop ?n ?u)\<rparr>"
  have e: "?e \<le> s" using s v(3) by simp
  have len: "length ?bs = s + 2" using bs s v(3) e by simp
  have "yy_refill g = Done ?g"
    unfolding yy_refill_def v(2) and_then.simps option.case the_buffer_def v(1) if_not_P[OF nd] grow
    using bs f e len v(3) s
    by (simp add: yy_fread_def the_buffer_def write_at_def set_buffer_def Let_def nat_add_distrib fun_upd_twist)
  moreover have "take ?e ?bs = xs @ ?got"
    using take_whole[of "xs @ ?got" ?e "drop ?e bs"] bs(3) by simp
  then have pre: "take ?e ?bs' = xs @ ?got" by simp
  have "holds b (xs @ ?got) p ?g"
    unfolding holds_def using v bs len pre e current_cong[of ?g g] by simp
  moreover have "roomy ?g" using r k by (auto simp: roomy_def)
  moreover have "?e + 1 < length ?bs" unfolding len using e by linarith
  then have "nuls_follow b ?g"
    by (intro nuls_written[where v = ?v and bs = ?bs and e = ?e]) simp_all
  moreover have "reads_on b ?g \<longleftrightarrow> ?u \<noteq> []" using s v(3) by (simp add: reads_on_def)
  moreover have "0 < ?n" using s v(3) by simp
  ultimately show thesis using that[of ?g ?n] f by simp
qed

lemma slurp_ok:
  assumes "holds b xs p g" "roomy g" "reads_on b g" "yy_in g = Some f"
  shows "\<exists>g'. yy_slurp g = Done g' \<and> holds b (xs @ yg_unread g f) p g' \<and> roomy g' \<and> yg_unread g' f = [] \<and> nuls_follow b g' \<and>
    \<not> reads_on b g' \<and> yy_lineno g' = yy_lineno g"
  using assms
proof (induction "length (yg_unread g f)" arbitrary: g xs rule: less_induct)
  case less
  obtain v where v: "yg_buffers g b = Some v" "yy_current g = Done (Some b)" using less.prems(1) by (auto elim: holdsE)
  obtain g1 n where g1: "yy_refill g = Done g1" "holds b (xs @ take n (yg_unread g f)) p g1" "roomy g1" "yy_in g1 = Some f"
    "yg_unread g1 f = drop n (yg_unread g f)" "nuls_follow b g1" "reads_on b g1 \<longleftrightarrow> yg_unread g f \<noteq> []"
    "yy_lineno g1 = yy_lineno g" "0 < n"
    by (rule refill_ok[OF less.prems])
  have step: "yy_slurp g = yy_slurp g1"
    using v less.prems(3) g1(1) by (subst yy_slurp.simps) (simp add: the_buffer_def reads_on_def)
  show ?case
  proof (cases "yg_unread g f = []")
    case True
    obtain v1 where "yg_buffers g1 b = Some v1" "yy_current g1 = Done (Some b)" using g1(2) by (auto elim: holdsE)
    then have "yy_slurp g1 = Done g1" using g1(7) True by (subst yy_slurp.simps) (simp add: the_buffer_def reads_on_def)
    then show ?thesis using step g1 True by simp
  next
    case False
    then have "length (yg_unread g1 f) < length (yg_unread g f)" using g1(5,9) by simp
    from less.hyps[OF this g1(2,3) _ g1(4)] False g1(7) show ?thesis
      unfolding step g1(5) append_assoc append_take_drop_id g1(8) by simp
  qed
qed

section \<open>What these depend on\<close>

lemma holds_cong:
  assumes "yy_buffer_stack g' = yy_buffer_stack g" "yy_buffer_stack_top g' = yy_buffer_stack_top g" "yg_buffers g' = yg_buffers g"
    "yg_foreign g' = yg_foreign g" "yg_blocks g' = yg_blocks g"
  shows "holds b xs p g' = holds b xs p g" "nuls_follow b g' = nuls_follow b g" "reads_on b g' = reads_on b g"
  unfolding holds_def nuls_follow_def reads_on_def read_at_def current_cong[OF assms(1,2)] assms(3-) by (rule refl)+

end
