(* ===== verification/Runtime_Moves.thy ===== *)
theory Runtime_Moves
  imports Runtime_Correct
begin

text \<open>
  The first call loads the whole input; \<open>unput\<close> and \<open>input\<close> are the two ends of a stack of bytes; \<open>yyless\<close>
  gives back the end of a match.
\<close>

section \<open>The first buffer\<close>

lemma create_ok:
  assumes "roomy g"
  obtains b g' where "yy_create_buffer fl sz g = Done (Some b, g')" "roomy g'"
    "yg_buffers g' b = Some \<lparr>yb_input_file = fl, yb_data = b + 1, yb_size = (if sz > 0 then nat sz else YY_BUF_SIZE), yb_pos = 0,
       yb_end = 0, yb_at_bol = True, yb_done = False, yb_is_our_buffer = True\<rparr>"
    "\<exists>bs. yg_blocks g' (b + 1) = Some bs \<and> length bs = (if sz > 0 then nat sz else YY_BUF_SIZE) + 2" "b + 1 \<notin> yg_foreign g'"
    "yg_unread g' = yg_unread g" "yy_in g' = yy_in g" "yy_buffer_stack g' = yy_buffer_stack g"
    "yy_buffer_stack_top g' = yy_buffer_stack_top g"
proof -
  let ?n = "if sz > 0 then nat sz else YY_BUF_SIZE"
  let ?a = "yg_next g + 1"
  let ?g = "g\<lparr>yg_next := yg_next g + 2, yg_blocks := (yg_blocks g)(?a \<mapsto> (replicate (?n + 2) (yg_junk g))[0 := 0, 1 := 0]),
    yg_buffers := (yg_buffers g)(yg_next g \<mapsto> \<lparr>yb_input_file = fl, yb_data = ?a, yb_size = ?n, yb_pos = 0,
       yb_end = 0, yb_at_bol = True, yb_done = False, yb_is_our_buffer = True\<rparr>)\<rparr>"
  have "yy_create_buffer fl sz g = Done (Some (yg_next g), ?g)"
    using assms by (simp add: yy_create_buffer_def yyalloc_def new_address_def roomy_def write_at_def set_buffer_def Let_def)
  moreover have "roomy ?g" "?a \<notin> yg_foreign ?g" using assms by (auto simp: roomy_def)
  ultimately show thesis by (intro that[of "yg_next g" ?g]) simp_all
qed

lemma set_current_ok:
  assumes "yy_buffer_stack g = Some st" "yy_buffer_stack_top g < length st"
  shows "set_current ob g = Done (g\<lparr>yy_buffer_stack := Some (st[yy_buffer_stack_top g := ob])\<rparr>)"
    "yy_current (g\<lparr>yy_buffer_stack := Some (st[yy_buffer_stack_top g := ob])\<rparr>) = Done ob"
  using assms by (simp_all add: set_current_def yy_current_def)

lemma init_ok:
  assumes r: "roomy g" and no: "yy_buffer_stack g = None" and f: "yy_in g = Some f"
  shows "\<exists>g' b. yy_init_default_buffer g = Done g' \<and> holds b (yg_unread g f) 0 g' \<and> nuls_follow b g' \<and> \<not> reads_on b g' \<and>
    yg_unread g' f = [] \<and> yy_init_done g'"
proof -
  let ?g = "g\<lparr>yg_next := yg_next g + 1, yy_buffer_stack_max := 1, yy_buffer_stack := Some [None], yy_buffer_stack_top := 0\<rparr>"
  have ens: "yyensure_buffer_stack g = Done ?g" using r no by (simp add: yyensure_buffer_stack_def new_address_def roomy_def)
  have cur: "yy_current ?g = Done None" by (simp add: yy_current_def)
  have "roomy ?g" using r by (auto simp: roomy_def)
  then obtain b h where b: "yy_create_buffer (Some f) (int YY_BUF_SIZE) ?g = Done (Some b, h)" "roomy h"
    "yg_buffers h b = Some \<lparr>yb_input_file = Some f, yb_data = b + 1, yb_size = YY_BUF_SIZE, yb_pos = 0,
       yb_end = 0, yb_at_bol = True, yb_done = False, yb_is_our_buffer = True\<rparr>"
    "\<exists>bs. yg_blocks h (b + 1) = Some bs \<and> length bs = YY_BUF_SIZE + 2" "b + 1 \<notin> yg_foreign h"
    "yg_unread h = yg_unread g" "yy_in h = Some f" "yy_buffer_stack h = Some [None]" "yy_buffer_stack_top h = 0"
    by (rule create_ok[where fl = "Some f" and sz = "int YY_BUF_SIZE"]) (simp add: f YY_BUF_SIZE_def)
  let ?h = "h\<lparr>yy_buffer_stack := Some [Some b]\<rparr>"
  have set: "set_current (Some b) h = Done ?h" "yy_current ?h = Done (Some b)" using set_current_ok[of h "[None]"] b(8,9) by simp_all
  have "holds b [] 0 ?h" using b(3,4,5) set(2) by (auto simp: holds_def)
  moreover have "roomy ?h" "reads_on b ?h" "yy_in ?h = Some f" using b by (simp_all add: roomy_def reads_on_def)
  ultimately obtain g' where g': "yy_slurp ?h = Done g'" "holds b (yg_unread g f) 0 g'" "yg_unread g' f = []" "nuls_follow b g'"
    "\<not> reads_on b g'"
    using slurp_ok[of b "[]" 0 ?h f] b(6) by auto
  have frame: "holds b (yg_unread g f) 0 (g'\<lparr>yy_init_done := True\<rparr>)" "nuls_follow b (g'\<lparr>yy_init_done := True\<rparr>)"
    "\<not> reads_on b (g'\<lparr>yy_init_done := True\<rparr>)"
    using g'(2,4,5) holds_cong[of "g'\<lparr>yy_init_done := True\<rparr>" g'] by simp_all
  have "yy_init_default_buffer g = Done (g'\<lparr>yy_init_done := True\<rparr>)"
    unfolding yy_init_default_buffer_def ens and_then.simps cur using f b(1) set(1) g'(1) by simp
  then show ?thesis using frame g'(3) by (intro exI[of _ "g'\<lparr>yy_init_done := True\<rparr>"] exI[of _ b]) simp
qed

text \<open>C20. The first call of the scanner loads the whole input. Whatever the length of the input and as
  long as memory is there, \<open>yy_init_default_buffer\<close> returns; the new current buffer then holds exactly
  the bytes the file had to deliver, at position 0 and followed by two null bytes, and nothing is left
  to read. The loop of the scanner, which never asks for more input, so sees all of it.
\<close>

theorem init_loads_input:
  assumes "roomy g" "yy_buffer_stack g = None" "yy_in g = Some f"
  shows "\<exists>g' b. yy_init_default_buffer g = Done g' \<and> holds b (yg_unread g f) 0 g' \<and> nuls_follow b g' \<and> \<not> reads_on b g' \<and>
    yg_unread g' f = [] \<and> yy_init_done g'"
  by (rule init_ok[OF assms])

text \<open>The state of the scanner before its first call, with one file to read.\<close>

definition fresh_guts :: "byte list \<Rightarrow> guts" where
  "fresh_guts xs =
     \<lparr>yg_blocks = Map.empty, yg_foreign = {}, yg_buffers = Map.empty, yg_next = 0, yg_oom = (\<lambda>n. False), yg_junk = 165,
      yg_unread = (\<lambda>f. if f = 0 then xs else []), yy_buffer_stack = None, yy_buffer_stack_max = 0, yy_buffer_stack_top = 0,
      yy_state_stack = None, yy_state_stack_max = 0, yy_state_stack_top = 0, yy_text = None, yy_leng = 0, yy_lineno = 1,
      yy_in = Some 0, yy_start = 0, yy_text_save = 0, yy_text_active = False, yy_init_done = False, yy_more_flag = False,
      yy_more_offset = 0\<rparr>"

lemma init_loads_input_witness:
  "\<exists>g' b. yy_init_default_buffer (fresh_guts [97, 98]) = Done g' \<and> holds b [97, 98] 0 g' \<and> yg_unread g' 0 = []"
proof -
  have "roomy (fresh_guts [97, 98])" "yy_buffer_stack (fresh_guts [97, 98]) = None" "yy_in (fresh_guts [97, 98]) = Some 0"
    by (simp_all add: fresh_guts_def roomy_def)
  from init_loads_input[OF this] show ?thesis by (auto simp: fresh_guts_def)
qed

end
