(* ===== verification/Runtime_Text.thy ===== *)
theory Runtime_Text
  imports Runtime_Moves
begin

text \<open>
  \<open>unput\<close> and \<open>input\<close> as the two ends of a stack of bytes, and \<open>yyless\<close>, in terms of what the buffer holds.
\<close>

section \<open>\<open>unput\<close> and \<open>input\<close>\<close>

lemma unseal_again: "yy_text_unseal g = Done h \<Longrightarrow> \<not> (yy_text_active h \<and> yy_text h \<noteq> None)"
  by (auto simp: yy_text_unseal_def and_then_Done split: if_splits)

lemma unseal_idle: "\<not> (yy_text_active g \<and> yy_text g \<noteq> None) \<Longrightarrow> yy_text_unseal g = Done g"
  by (simp only: yy_text_unseal_def if_False)

lemma shifted:
  assumes "take (length xs) bs = xs" "length xs + 1 \<le> length bs"
  shows "take (length xs + 1) ((take 1 bs @ take (length xs) bs @ drop (length xs + 1) bs)[0 := c]) = c # xs"
    "length (take 1 bs @ take (length xs) bs @ drop (length xs + 1) bs) = length bs"
proof -
  obtain y ys where bs: "bs = y # ys" using assms(2) by (cases bs) auto
  have "take 1 bs @ take (length xs) bs @ drop (length xs + 1) bs = y # xs @ drop (length xs) ys"
    unfolding assms(1) using bs by simp
  then show "take (length xs + 1) ((take 1 bs @ take (length xs) bs @ drop (length xs + 1) bs)[0 := c]) = c # xs" by simp
  show "length (take 1 bs @ take (length xs) bs @ drop (length xs + 1) bs) = length bs" using assms(2) by simp
qed

lemma unput_ok:
  assumes u: "yy_text_unseal g = Done h" and h: "holds b xs p h" and r: "roomy h"
  shows "\<exists>g' ys q. yy_unput c g = Done g' \<and> holds b ys q g' \<and> q < length ys \<and> drop q ys = c # drop p xs \<and>
    yy_text_active g' = yy_text_active h \<and> yy_text g' = yy_text h \<and> yy_lineno g' = yy_lineno h \<and> roomy g'"
proof -
  obtain v bs where v: "yy_current h = Done (Some b)" "yg_buffers h b = Some v" "yg_blocks h (yb_data v) = Some bs"
    "yb_end v = length xs" "yb_pos v = p" "p \<le> length xs" "length xs \<le> yb_size v" "yb_data v \<notin> yg_foreign h"
    "length bs = yb_size v + 2" "take (length xs) bs = xs"
    using h by (rule holdsE)
  show ?thesis
  proof (cases "p = 0")
    case False
    let ?g = "h\<lparr>yg_blocks := (yg_blocks h)(yb_data v \<mapsto> bs[p - 1 := c]),
      yg_buffers := (yg_buffers h)(b \<mapsto> v\<lparr>yb_pos := p - 1, yb_at_bol := (c = 10)\<rparr>)\<rparr>"
    have i: "nat (int p - 1) = p - 1" "0 \<le> int p - 1" "p - 1 < length bs" using False v(6,7,9) by simp_all
    have "yy_unput c g = Done ?g"
      unfolding yy_unput_def u and_then.simps v(1) option.case the_buffer_def v(2) if_not_P[OF False[folded v(5)]]
      using v i by (simp add: write_at_def set_buffer_def)
    moreover have "take (length xs) (bs[p - 1 := c]) = xs[p - 1 := c]" using v(10) by (simp add: take_update_swap)
    then have "holds b (xs[p - 1 := c]) (p - 1) ?g"
      unfolding holds_def using v current_cong[of ?g h] by simp
    moreover have "drop (p - 1) (xs[p - 1 := c]) = c # drop p xs"
      using False v(6) Cons_nth_drop_Suc[of "p - 1" "xs[p - 1 := c]"] by simp
    moreover have "roomy ?g" using r by (simp add: roomy_def)
    ultimately show ?thesis using False v(6) by (intro exI[of _ ?g] exI[of _ "xs[p - 1 := c]"] exI[of _ "p - 1"]) simp
  next
    case True
    obtain m k a s bs where grow: "yy_buf_grow b (yb_end v + 1) h = Done (h\<lparr>yg_blocks := m, yg_next := k,
        yg_buffers := (yg_buffers h)(b \<mapsto> v\<lparr>yb_data := a, yb_size := s\<rparr>)\<rparr>)"
      and s: "yb_end v + 1 \<le> s" and bs: "m a = Some bs" "length bs = s + 2" "take (length xs) bs = xs" "a \<notin> yg_foreign h"
      and k: "yg_next h \<le> k"
      using grow_ok[OF h r v(2), where want = "yb_end v + 1"] by metis
    let ?new = "take 1 bs @ take (length xs) bs @ drop (length xs + 1) bs"
    let ?g = "h\<lparr>yg_blocks := m(a \<mapsto> ?new[0 := c]), yg_next := k,
        yg_buffers := (yg_buffers h)(b \<mapsto> v\<lparr>yb_data := a, yb_size := s, yb_end := length xs + 1, yb_pos := 0, yb_at_bol := (c = 10)\<rparr>)\<rparr>"
    have room: "length xs + 1 \<le> length bs" using s bs(2) v(4) by simp
    then have ne: "bs \<noteq> []" by auto
    note sh = shifted[OF bs(3) room]
    have "yy_unput c g = Done ?g"
      unfolding yy_unput_def u and_then.simps v(1) option.case the_buffer_def v(2) if_P[OF True[folded v(5)]] grow
      using v bs(1) room sh(2) ne by (simp add: write_at_def set_buffer_def shift_block_def)
    moreover have "holds b (c # xs) 0 ?g"
      unfolding holds_def using v(1) current_cong[of ?g h] bs(2,4) s v(4) sh by simp
    moreover have "roomy ?g" using r k by (auto simp: roomy_def)
    ultimately show ?thesis using True by (intro exI[of _ ?g] exI[of _ "c # xs"] exI[of _ 0]) simp
  qed
qed

lemma input_ok:
  assumes u: "yy_text_unseal g = Done h" and h: "holds b xs p h" and p: "p < length xs"
  shows "\<exists>g'. yy_input track g = Done (int (ub (xs ! p)), g') \<and> holds b xs (p + 1) g' \<and>
    yy_lineno g' = yy_lineno h + (if track \<and> xs ! p = 10 then 1 else 0) \<and>
    (\<exists>v v'. yg_buffers h b = Some v \<and> yg_buffers g' b = Some v' \<and> yb_at_bol v' = yb_at_bol v) \<and>
    yy_text_active g' = yy_text_active h \<and> yy_text g' = yy_text h \<and> (roomy h \<longrightarrow> roomy g')"
proof -
  obtain v bs where v: "yy_current h = Done (Some b)" "yg_buffers h b = Some v" "yg_blocks h (yb_data v) = Some bs"
    "yb_end v = length xs" "yb_pos v = p" "p \<le> length xs" "length xs \<le> yb_size v" "yb_data v \<notin> yg_foreign h"
    "length bs = yb_size v + 2" "take (length xs) bs = xs"
    using h by (rule holdsE)
  let ?h = "h\<lparr>yg_buffers := (yg_buffers h)(b \<mapsto> v\<lparr>yb_pos := p + 1\<rparr>)\<rparr>"
  let ?g = "if track \<and> xs ! p = 10 then ?h\<lparr>yy_lineno := yy_lineno h + 1\<rparr> else ?h"
  have no: "\<not> yb_end v \<le> yb_pos v" using v(4,5) p by simp
  have "read_at (yb_data v) (int p) h = Done (xs ! p)"
    using v(3,6,7,9) p nth_take[of p "length xs" bs] v(10) by (simp add: read_at_def)
  then have "yy_input track g = Done (int (ub (xs ! p)), ?g)"
    unfolding yy_input_def u and_then.simps v(1) option.case the_buffer_def v(2) if_not_P[OF no]
    using v(5) by (simp add: set_buffer_def Let_def)
  moreover have hh: "holds b xs (p + 1) ?h"
    unfolding holds_def using v current_cong[of ?h h] p by simp
  then have "holds b xs (p + 1) ?g" using holds_cong(1)[of "?h\<lparr>yy_lineno := yy_lineno h + 1\<rparr>" ?h b xs "p + 1"] by simp
  moreover have "roomy h \<longrightarrow> roomy ?g" by (simp add: roomy_def)
  ultimately show ?thesis using v(2) by (intro exI[of _ ?g]) simp
qed

text \<open>C22. \<open>unput\<close> and \<open>input\<close> are the two ends of one stack of bytes, for a current buffer whose memory
  comes from the allocator and as long as memory is available. Whether a text is sealed or not,
  \<open>unput(c)\<close> returns and makes \<open>c\<close> the next byte of the input, in front of the bytes not yet
  consumed, at the start of the buffer too, where the block is enlarged and moved; \<open>input()\<close> then reads
  \<open>c\<close> and leaves the bytes that were there before. The line count is not taken back by \<open>unput\<close>, so a
  newline that is put back is counted again. A buffer of \<open>yy_scan_buffer\<close> is different:
  see \<open>unput_on_user_memory\<close>.
\<close>

theorem unput_then_input:
  assumes "yy_text_unseal g = Done h" "holds b xs p h" "roomy h"
  shows "\<exists>g1 g2 ys q. yy_unput c g = Done g1 \<and> holds b ys q g1 \<and> drop q ys = c # drop p xs \<and>
    yy_input track g1 = Done (int (ub c), g2) \<and> holds b ys (q + 1) g2 \<and> drop (q + 1) ys = drop p xs \<and>
    yy_lineno g2 = yy_lineno h + (if track \<and> c = 10 then 1 else 0)"
proof -
  obtain g1 ys q where g1: "yy_unput c g = Done g1" "holds b ys q g1" "q < length ys" "drop q ys = c # drop p xs"
    "yy_text_active g1 = yy_text_active h" "yy_text g1 = yy_text h" "yy_lineno g1 = yy_lineno h"
    using unput_ok[OF assms] by blast
  have c: "ys ! q = c" "drop (q + 1) ys = drop p xs" using g1(3,4) Cons_nth_drop_Suc[of q ys] by simp_all
  have "yy_text_unseal g1 = Done g1" using unseal_again[OF assms(1)] g1(5,6) by (intro unseal_idle) simp
  then obtain g2 where "yy_input track g1 = Done (int (ub c), g2)" "holds b ys (q + 1) g2"
    "yy_lineno g2 = yy_lineno h + (if track \<and> c = 10 then 1 else 0)"
    using input_ok[OF _ g1(2,3), of g1 track] c(1) g1(7) by metis
  then show ?thesis using g1(1,2,4) c(2) by metis
qed

text \<open>A scanner with the bytes \<open>xs\<close> in its only buffer, at position \<open>p\<close>.\<close>

definition loaded_guts :: "byte list \<Rightarrow> nat \<Rightarrow> guts" where
  "loaded_guts xs p = (fresh_guts [])\<lparr>yg_blocks := [1 \<mapsto> xs @ [0, 0]], yg_next := 2,
     yg_buffers := [0 \<mapsto> \<lparr>yb_input_file = Some 0, yb_data = 1, yb_size = length xs, yb_pos = p, yb_end = length xs,
       yb_at_bol = True, yb_done = True, yb_is_our_buffer = True\<rparr>],
     yy_buffer_stack := Some [Some 0], yy_buffer_stack_max := 1, yy_init_done := True\<rparr>"

lemma loaded_holds: "p \<le> length xs \<Longrightarrow> holds 0 xs p (loaded_guts xs p) \<and> roomy (loaded_guts xs p)"
  by (simp add: loaded_guts_def fresh_guts_def holds_def roomy_def yy_current_def)

lemma unput_then_input_witness:
  "\<exists>g1 g2. yy_unput 10 (loaded_guts [97, 98] 0) = Done g1 \<and> yy_input True g1 = Done (10, g2) \<and> yy_lineno g2 = 2"
proof -
  have "yy_text_unseal (loaded_guts [97, 98] 0) = Done (loaded_guts [97, 98] 0)"
    by (rule unseal_idle) (simp add: loaded_guts_def fresh_guts_def)
  from unput_then_input[OF this, of 0 "[97, 98]" 0 10 True] loaded_holds[of 0 "[97, 98]"]
  show ?thesis by (auto simp: loaded_guts_def fresh_guts_def)
qed

text \<open>
  On a full buffer in memory of the user, as \<open>yy_scan_buffer\<close> makes it, \<open>unput\<close> at the start hands that
  memory to \<open>yyrealloc\<close>.
\<close>

lemma unput_on_user_memory:
  assumes "yy_text_unseal g = Done h" "yy_current h = Done (Some b)" "yg_buffers h b = Some v"
    and "yb_pos v = 0" "yb_size v = yb_end v" "yb_data v \<in> yg_foreign h"
  shows "yy_unput c g = Fault"
proof -
  have "yyrealloc (yb_data v) n h = Fault" for n using assms(6) by (simp add: yyrealloc_def split: option.splits)
  then have "yy_buf_grow b (yb_end v + 1) h = Fault"
    using assms(3,5) by (simp add: yy_buf_grow_def the_buffer_def Let_def)
  with assms(1-4) show ?thesis by (simp add: yy_unput_def the_buffer_def)
qed

section \<open>\<open>yyless\<close>\<close>

text \<open>The text of a match: the \<open>l\<close> bytes from \<open>x\<close> on in the block of the buffer, up to its position \<open>p\<close>.\<close>

definition matched :: "nat \<Rightarrow> nat \<Rightarrow> nat \<Rightarrow> guts \<Rightarrow> bool" where
  "matched b x l g =
     (yy_text_active g \<and> yy_leng g = int l \<and>
      (case yg_buffers g b of None \<Rightarrow> False | Some v \<Rightarrow> yy_text g = Some (yb_data v, int x) \<and> yb_pos v = x + l))"

text \<open>C21. \<open>yyless(n)\<close> gives back all but the first \<open>n\<close> bytes of a match. It returns, \<open>yytext\<close> is then the
  first \<open>n\<close> bytes with a null byte behind, and when the next call has taken the null byte out again,
  the buffer holds the same bytes as before the match, at the position behind these \<open>n\<close> bytes; the flag
  of the line start says whether the last of them is a newline.
\<close>

theorem yyless_gives_back:
  assumes "holds b xs p g0" "matched b x l g0" "n \<le> l" "length xs < 2 ^ 64" "yy_text_seal g0 = Done g"
  shows "\<exists>g1 g2 v. yy_do_yyless (int n) g = Done g1 \<and> yy_leng g1 = int n \<and> read_text (int n) g1 = Done 0 \<and>
    (\<forall>i<n. read_text (int i) g1 = Done (xs ! (x + i))) \<and> yy_text_unseal g1 = Done g2 \<and> holds b xs (x + n) g2 \<and>
    yg_buffers g2 b = Some v \<and> (yb_at_bol v \<longleftrightarrow> 0 < n \<and> xs ! (x + n - 1) = 10)"
proof -
  obtain v bs where v: "yy_current g0 = Done (Some b)" "yg_buffers g0 b = Some v" "yg_blocks g0 (yb_data v) = Some bs"
    "yb_end v = length xs" "yb_pos v = p" "p \<le> length xs" "length xs \<le> yb_size v" "yb_data v \<notin> yg_foreign g0"
    "length bs = yb_size v + 2" "take (length xs) bs = xs"
    using assms(1) by (rule holdsE)
  let ?a = "yb_data v"
  have m: "yy_text_active g0" "yy_leng g0 = int l" "yy_text g0 = Some (?a, int x)" "p = x + l"
    using assms(2) v(2,5) by (simp_all add: matched_def)
  have len: "x + l < length bs" "x + n < length bs" using m(4) v(6,7,9) assms(3) by simp_all
  let ?g = "g0\<lparr>yy_text_save := bs ! p, yg_blocks := (yg_blocks g0)(?a \<mapsto> bs[p := 0])\<rparr>"
  have seal: "g = ?g"
    using assms(5) m v(3) len(1) by (simp add: yy_text_seal_def read_text_def write_text_def read_at_def write_at_def nat_add_distrib)
  let ?bol = "0 < n \<and> bs ! (x + n - 1) = 10"
  let ?v = "v\<lparr>yb_pos := x + n, yb_at_bol := ?bol\<rparr>"
  let ?g1 = "g0\<lparr>yg_blocks := (yg_blocks g0)(?a \<mapsto> bs[x + n := 0]), yy_text_save := bs ! (x + n), yy_leng := int n,
    yg_buffers := (yg_buffers g0)(b \<mapsto> ?v)\<rparr>"
  have cur: "yy_current ?g = Done (Some b)" using v(1) current_cong[of ?g g0] by simp
  have pos: "nat ((int p - (int l - int n)) mod 2 ^ 64) = x + n"
    using m(4) assms(3,4) v(6) by (simp flip: of_nat_add of_nat_diff add: nat_mod_distrib)
  have "yy_do_yyless (int n) ?g = Done ?g1"
  proof (cases n)
    case 0
    then show ?thesis
      unfolding yy_do_yyless_def cur
      using v(2,3,5) m(2,3,4) len pos
      by (simp add: write_text_def read_text_def write_at_def read_at_def the_buffer_def set_buffer_def nat_add_distrib Let_def)
  next
    case (Suc k)
    then have k: "nat (int x + int k) = x + k" "int n - 1 = int k" "x + n - 1 = x + k" by simp_all
    show ?thesis
      unfolding yy_do_yyless_def cur
      using v(2,3,5) m(2,3,4) len pos Suc
      by (simp add: k write_text_def read_text_def write_at_def read_at_def the_buffer_def set_buffer_def nat_add_distrib Let_def)
  qed
  moreover have "read_text (int n) ?g1 = Done 0" "\<forall>i<n. read_text (int i) ?g1 = Done (bs ! (x + i))"
    using m(3) len by (simp_all add: read_text_def read_at_def nat_add_distrib)
  moreover let ?g2 = "?g1\<lparr>yg_blocks := (yg_blocks g0)(?a \<mapsto> bs), yy_text_active := False\<rparr>"
  have "yy_text_unseal ?g1 = Done ?g2"
    using m(1,3) len by (simp add: yy_text_unseal_def write_text_def write_at_def nat_add_distrib)
  moreover have "holds b xs (x + n) ?g2"
    unfolding holds_def using v m(4) assms(3) current_cong[of ?g2 g0] by simp
  moreover have "bs ! j = xs ! j" if "j < length xs" for j using that v(10) nth_take[of j "length xs" bs] by simp
  then have "\<forall>i<n. bs ! (x + i) = xs ! (x + i)" "0 < n \<Longrightarrow> bs ! (x + n - 1) = xs ! (x + n - 1)"
    using m(4) v(6) assms(3) by auto
  moreover have "yg_buffers ?g2 b = Some ?v" "yy_leng ?g1 = int n" by simp_all
  ultimately show ?thesis unfolding seal
    by (intro exI[of _ ?g1] exI[of _ ?g2] exI[of _ ?v]) auto
qed

lemma yyless_gives_back_witness:
  "\<exists>g g1 g2. yy_text_seal ((loaded_guts [97, 98, 99, 100] 3)\<lparr>yy_text_active := True, yy_text := Some (1, 0), yy_leng := 3\<rparr>) = Done g \<and>
     yy_do_yyless 1 g = Done g1 \<and> yy_text_unseal g1 = Done g2 \<and> holds 0 [97, 98, 99, 100] 1 g2"
proof -
  let ?g = "(loaded_guts [97, 98, 99, 100] 3)\<lparr>yy_text_active := True, yy_text := Some (1, 0), yy_leng := 3\<rparr>"
  have "holds 0 [97, 98, 99, 100] 3 ?g" "matched 0 0 3 ?g"
    by (simp_all add: loaded_guts_def fresh_guts_def holds_def matched_def yy_current_def)
  moreover obtain g where g: "yy_text_seal ?g = Done g"
    by (simp add: yy_text_seal_def read_text_def read_at_def write_text_def write_at_def loaded_guts_def fresh_guts_def)
  ultimately show ?thesis using yyless_gives_back[of 0 "[97, 98, 99, 100]" 3 ?g 0 3 1 g] by auto
qed

end
