(* ===== verification/Runtime_Stacks.thy ===== *)
theory Runtime_Stacks
  imports Runtime_Text
begin

text \<open>
  The stack of start conditions, the stack of buffers, and \<open>yylex_destroy\<close>. A locale states what a
  stack promises; the start conditions and the input with \<open>unput\<close> and \<open>input\<close> are stacks in this sense.
\<close>

section \<open>What a stack promises\<close>

fun run_all :: "('a \<Rightarrow> 's \<Rightarrow> 's run) \<Rightarrow> 'a list \<Rightarrow> 's \<Rightarrow> 's run" where
  "run_all f [] g = Done g"
| "run_all f (x # xs) g = and_then (f x g) (run_all f xs)"

lemma run_all_length: "length xs = length ys \<Longrightarrow> run_all (\<lambda>_. f) xs g = run_all (\<lambda>_. f) ys g"
proof (induction xs ys arbitrary: g rule: list_induct2)
  case (Cons x xs y ys)
  then show ?case by (cases "f g") simp_all
qed simp

text \<open>\<open>fixed\<close> entries at the bottom cannot be taken off.\<close>

locale last_in_first_out =
  fixes inv :: "'s \<Rightarrow> bool" and contents :: "'s \<Rightarrow> 'a list" and fixed :: nat
    and push :: "'a \<Rightarrow> 's \<Rightarrow> 's run" and pop :: "'s \<Rightarrow> 's run"
  assumes pushed: "inv g \<Longrightarrow> \<exists>g'. push x g = Done g' \<and> inv g' \<and> contents g' = x # contents g"
    and popped: "inv g \<Longrightarrow> contents g = x # ys \<Longrightarrow> fixed \<le> length ys \<Longrightarrow> \<exists>g'. pop g = Done g' \<and> inv g' \<and> contents g' = ys"
begin

lemma all_pushed: "inv g \<Longrightarrow> \<exists>g'. run_all push xs g = Done g' \<and> inv g' \<and> contents g' = rev xs @ contents g"
proof (induction xs arbitrary: g)
  case (Cons x xs)
  then obtain g1 where g1: "push x g = Done g1" "inv g1" "contents g1 = x # contents g" using pushed by blast
  then show ?case using Cons.IH[OF g1(2)] by simp
qed simp

lemma all_popped:
  "inv g \<Longrightarrow> contents g = xs @ ys \<Longrightarrow> fixed \<le> length ys \<Longrightarrow>
     \<exists>g'. run_all (\<lambda>_. pop) xs g = Done g' \<and> inv g' \<and> contents g' = ys"
proof (induction xs arbitrary: g)
  case (Cons x xs)
  then obtain g1 where "pop g = Done g1" "inv g1" "contents g1 = xs @ ys"
    using popped[of g x "xs @ ys"] by auto
  then show ?case using Cons.IH[of g1] Cons.prems(3) by simp
qed simp

lemma all_taken_back:
  assumes "inv g" "fixed \<le> length (contents g)"
  shows "\<exists>h g'. run_all push xs g = Done h \<and> contents h = rev xs @ contents g \<and> run_all (\<lambda>_. pop) xs h = Done g' \<and> inv g' \<and>
    contents g' = contents g"
proof -
  obtain h where h: "run_all push xs g = Done h" "inv h" "contents h = rev xs @ contents g" using all_pushed[OF assms(1)] by blast
  have "run_all (\<lambda>_. pop) xs h = run_all (\<lambda>_. pop) (rev xs) h"
    by (rule run_all_length) simp
  then show ?thesis using h all_popped[OF h(2,3) assms(2)] by auto
qed

end

section \<open>The stack of start conditions\<close>

definition states_ok :: "guts \<Rightarrow> bool" where
  "states_ok g =
     (yy_state_stack_top g \<le> yy_state_stack_max g \<and> (\<forall>n. \<not> yg_oom g n) \<and>
      (case yy_state_stack g of None \<Rightarrow> yy_state_stack_max g = 0 | Some st \<Rightarrow> length st = yy_state_stack_max g))"

text \<open>The current start condition and those that are saved, the last one first.\<close>

definition conditions :: "guts \<Rightarrow> nat list" where
  "conditions g = yy_start g # (case yy_state_stack g of None \<Rightarrow> [] | Some st \<Rightarrow> rev (take (yy_state_stack_top g) st))"

lemma push_state_ok:
  assumes "states_ok g"
  shows "\<exists>g'. yy_push_state s g = Done g' \<and> states_ok g' \<and> conditions g' = s # conditions g"
proof -
  obtain h st where h: "(if yy_state_stack_top g \<ge> yy_state_stack_max g then yy_grow_state_stack g else Done g) = Done h"
    "states_ok h" "yy_state_stack h = Some st" "yy_state_stack_top h < length st" "conditions h = conditions g"
  proof (cases "yy_state_stack_top g \<ge> yy_state_stack_max g")
    case False
    with assms that[of g] show ?thesis by (cases "yy_state_stack g") (auto simp: states_ok_def)
  next
    case True
    let ?old = "case yy_state_stack g of None \<Rightarrow> [] | Some st \<Rightarrow> st"
    let ?m = "if yy_state_stack_max g \<noteq> 0 then yy_state_stack_max g * 2 else 16"
    let ?st = "?old @ replicate (?m - length ?old) (ub (yg_junk g))"
    let ?h = "g\<lparr>yg_next := yg_next g + 1, yy_state_stack := Some ?st, yy_state_stack_max := ?m\<rparr>"
    have old: "length ?old = yy_state_stack_max g" "yy_state_stack_top g = length ?old" "\<not> yg_oom g (yg_next g)"
      using assms True by (auto simp: states_ok_def split: option.splits)
    have "yy_grow_state_stack g = Done ?h"
      using old(3) by (simp add: yy_grow_state_stack_def new_address_def Let_def)
    moreover have "length ?st = ?m" using old(1) by simp
    moreover have "yy_state_stack_top g < ?m" using old by simp
    moreover have "take (yy_state_stack_top g) ?st = ?old" using old(2) by simp
    then have "conditions ?h = conditions g"
      using old(2) by (simp add: conditions_def split: option.split)
    ultimately show ?thesis using that[of ?h ?st] True assms by (simp add: states_ok_def)
  qed
  let ?g = "h\<lparr>yy_state_stack := Some (st[yy_state_stack_top h := yy_start h]),
    yy_state_stack_top := yy_state_stack_top h + 1, yy_start := s\<rparr>"
  have "yy_push_state s g = Done ?g" unfolding yy_push_state_def h(1) using h(3,4) by simp
  moreover have "conditions ?g = s # conditions h"
    using h(3,4) by (simp add: conditions_def take_Suc_conv_app_nth)
  ultimately show ?thesis using h by (simp add: states_ok_def)
qed

lemma pop_state_ok:
  assumes "states_ok g"
  shows "\<exists>g'. yy_pop_state g = Done g' \<and> states_ok g' \<and>
    conditions g' = (case conditions g of s # t # rest \<Rightarrow> t # rest | cs \<Rightarrow> cs)"
proof (cases "yy_state_stack_top g")
  case 0
  then have "conditions g = [yy_start g]" by (simp add: conditions_def split: option.split)
  with 0 assms show ?thesis by (simp add: yy_pop_state_def)
next
  case (Suc k)
  then obtain st where st: "yy_state_stack g = Some st" "k < length st"
    using assms by (cases "yy_state_stack g") (auto simp: states_ok_def)
  let ?g = "g\<lparr>yy_state_stack_top := k, yy_start := st ! k\<rparr>"
  have "yy_pop_state g = Done ?g" using Suc st by (simp add: yy_pop_state_def state_at_def Let_def)
  moreover have "conditions g = yy_start g # st ! k # rev (take k st)"
    using Suc st by (simp add: conditions_def take_Suc_conv_app_nth)
  moreover have "conditions ?g = st ! k # rev (take k st)" using st by (simp add: conditions_def)
  ultimately show ?thesis using assms Suc st by (simp add: states_ok_def)
qed

lemma top_state_ok:
  assumes "states_ok g"
  shows "yy_top_state g = (case conditions g of s # t # rest \<Rightarrow> Done t | cs \<Rightarrow> Fatal ''yy_top_state(): empty stack'')"
proof (cases "yy_state_stack_top g")
  case 0
  then show ?thesis by (simp add: yy_top_state_def conditions_def split: option.split)
next
  case (Suc k)
  then obtain st where st: "yy_state_stack g = Some st" "k < length st"
    using assms by (cases "yy_state_stack g") (auto simp: states_ok_def)
  then show ?thesis using Suc by (simp add: yy_top_state_def state_at_def conditions_def take_Suc_conv_app_nth)
qed

interpretation conds: last_in_first_out states_ok conditions 1 yy_push_state yy_pop_state
proof
  fix g x and ys :: "nat list"
  show "states_ok g \<Longrightarrow> \<exists>g'. yy_push_state x g = Done g' \<and> states_ok g' \<and> conditions g' = x # conditions g" by (rule push_state_ok)
  show "states_ok g \<Longrightarrow> conditions g = x # ys \<Longrightarrow> 1 \<le> length ys \<Longrightarrow> \<exists>g'. yy_pop_state g = Done g' \<and> states_ok g' \<and> conditions g' = ys"
    using pop_state_ok[of g] by (cases ys) auto
qed

section \<open>The input as a stack\<close>

text \<open>What is still to be read from the current buffer.\<close>

definition pending :: "guts \<Rightarrow> byte list" where
  "pending g =
     (case yy_current g of
        Done (Some b) \<Rightarrow>
          (case yg_buffers g b of
             Some v \<Rightarrow> (case yg_blocks g (yb_data v) of Some bs \<Rightarrow> drop (yb_pos v) (take (yb_end v) bs) | None \<Rightarrow> [])
           | None \<Rightarrow> [])
      | _ \<Rightarrow> [])"

definition input_ready :: "guts \<Rightarrow> bool" where
  "input_ready g = (roomy g \<and> \<not> (yy_text_active g \<and> yy_text g \<noteq> None) \<and> (\<exists>b xs p. holds b xs p g))"

lemma holds_pending: "holds b xs p g \<Longrightarrow> pending g = drop p xs"
  by (erule holdsE) (simp add: pending_def)

lemma unput_pending:
  assumes "input_ready g"
  shows "\<exists>g'. yy_unput c g = Done g' \<and> input_ready g' \<and> pending g' = c # pending g"
proof -
  from assms obtain b xs p where h: "holds b xs p g" "roomy g" "\<not> (yy_text_active g \<and> yy_text g \<noteq> None)"
    by (auto simp: input_ready_def)
  from unput_ok[OF unseal_idle[OF h(3)] h(1,2), of c] h(3) show ?thesis
    unfolding input_ready_def holds_pending[OF h(1)] using holds_pending by metis
qed

lemma input_pending:
  assumes "input_ready g" "pending g = c # ys"
  shows "\<exists>g'. yy_input track g = Done (int (ub c), g') \<and> input_ready g' \<and> pending g' = ys"
proof -
  from assms(1) obtain b xs p where h: "holds b xs p g" "roomy g" "\<not> (yy_text_active g \<and> yy_text g \<noteq> None)"
    by (auto simp: input_ready_def)
  have d: "drop p xs = c # ys" using holds_pending[OF h(1)] assms(2) by simp
  then have p: "p < length xs" using assms(2) by (cases "p < length xs") simp_all
  then have c: "xs ! p = c" "drop (p + 1) xs = ys" using d Cons_nth_drop_Suc[of p xs] by simp_all
  from input_ok[OF unseal_idle[OF h(3)] h(1) p, of track] h(2,3) c show ?thesis
    unfolding input_ready_def using holds_pending by metis
qed

interpretation bytes: last_in_first_out input_ready pending 0 yy_unput "\<lambda>g. and_then (yy_input True g) (\<lambda>(c, g). Done g)"
proof
  fix g x and ys :: "byte list"
  show "input_ready g \<Longrightarrow> \<exists>g'. yy_unput x g = Done g' \<and> input_ready g' \<and> pending g' = x # pending g" by (rule unput_pending)
  show "input_ready g \<Longrightarrow> pending g = x # ys \<Longrightarrow> 0 \<le> length ys \<Longrightarrow>
      \<exists>g'. and_then (yy_input True g) (\<lambda>(c, g). Done g) = Done g' \<and> input_ready g' \<and> pending g' = ys"
    using input_pending[of g x ys True] by auto
qed

text \<open>C23. The start conditions are a stack. From any state in which memory is there, \<open>yy_push_state\<close> makes the
  given condition the current one and keeps the others below it, growing the array as needed;
  \<open>yy_pop_state\<close> goes back to the condition before and does nothing when none is saved; \<open>yy_top_state\<close>
  is the last saved condition, and a fatal error when there is none. However many conditions are
  pushed, as many pops lead back to the very same conditions.
\<close>

theorem start_conditions_are_a_stack:
  assumes "states_ok g"
  shows "(\<exists>g'. yy_push_state s g = Done g' \<and> states_ok g' \<and> conditions g' = s # conditions g) \<and>
    (\<exists>g'. yy_pop_state g = Done g' \<and> states_ok g' \<and>
       conditions g' = (case conditions g of s # t # rest \<Rightarrow> t # rest | cs \<Rightarrow> cs)) \<and>
    yy_top_state g = (case conditions g of s # t # rest \<Rightarrow> Done t | cs \<Rightarrow> Fatal ''yy_top_state(): empty stack'') \<and>
    (\<exists>h g'. run_all yy_push_state ss g = Done h \<and> conditions h = rev ss @ conditions g \<and>
       run_all (\<lambda>_. yy_pop_state) ss h = Done g' \<and> conditions g' = conditions g)"
proof -
  have "1 \<le> length (conditions g)" by (simp add: conditions_def)
  from push_state_ok[OF assms] pop_state_ok[OF assms] top_state_ok[OF assms] conds.all_taken_back[OF assms this, of ss]
  show ?thesis by blast
qed

lemma start_conditions_are_a_stack_witness:
  "\<exists>h g'. run_all yy_push_state [3, 2] (fresh_guts []) = Done h \<and> conditions h = [2, 3, 0] \<and>
     run_all (\<lambda>_. yy_pop_state) [3, 2 :: nat] h = Done g' \<and> conditions g' = [0::nat]"
proof -
  have "states_ok (fresh_guts [])" by (simp add: states_ok_def fresh_guts_def)
  moreover have "conditions (fresh_guts []) = [0]" by (simp add: conditions_def fresh_guts_def)
  ultimately show ?thesis using start_conditions_are_a_stack[of "fresh_guts []" 0 "[3, 2]"] by (auto simp del: run_all.simps)
qed

end
