(* ===== verification/Runtime_Buffers.thy ===== *)
theory Runtime_Buffers
  imports Runtime_Stacks
begin

text \<open>
  The stack of buffers, with the memory that goes with a buffer, \<open>yyrestart\<close>, and \<open>yylex_destroy\<close>.
\<close>

section \<open>Memory from a string\<close>

definition buffers_ok :: "guts \<Rightarrow> bool" where
  "buffers_ok g =
     (case yy_buffer_stack g of
        None \<Rightarrow> True
      | Some st \<Rightarrow> length st = yy_buffer_stack_max g \<and> yy_buffer_stack_top g < length st)"

text \<open>
  Pushing buffer \<open>b\<close> on a stack whose current buffer is \<open>c\<close>: \<open>c\<close> stays in its place below, and memory
  is not touched.
\<close>

lemma push_buffer_ok:
  assumes ok: "buffers_ok g" and r: "roomy g" and c: "yy_current g = Done (Some c)" and b: "yg_buffers g b = Some v"
  obtains st k m where "yypush_buffer_state (Some b) g = Done (g\<lparr>yg_next := k, yy_buffer_stack := Some st, yy_buffer_stack_max := m,
      yy_buffer_stack_top := yy_buffer_stack_top g + 1, yy_in := yb_input_file v\<rparr>)"
    "yy_buffer_stack_top g + 1 < length st" "st ! yy_buffer_stack_top g = Some c" "st ! (yy_buffer_stack_top g + 1) = Some b"
    "length st = m" "yg_next g \<le> k"
proof -
  let ?t = "yy_buffer_stack_top g" and ?m = "yy_buffer_stack_max g"
  obtain st0 where st0: "yy_buffer_stack g = Some st0" "length st0 = ?m" "?t < length st0" "st0 ! ?t = Some c"
    using ok c by (cases "yy_buffer_stack g") (auto simp: buffers_ok_def yy_current_def split: if_splits)
  have ens: "yyensure_buffer_stack g = Done g" using st0(1) by (simp add: yyensure_buffer_stack_def)
  show thesis
  proof (cases "?t + 1 \<ge> ?m")
    case False
    let ?st = "st0[?t + 1 := Some b]"
    have "yypush_buffer_state (Some b) g = Done (g\<lparr>yg_next := yg_next g, yy_buffer_stack := Some ?st, yy_buffer_stack_max := ?m,
      yy_buffer_stack_top := ?t + 1, yy_in := yb_input_file v\<rparr>)"
      unfolding yypush_buffer_state_def ens and_then.simps c
      using False st0 b by (simp add: set_current_def take_input_def the_buffer_def Let_def)
    from that[OF this] False st0 show ?thesis by simp
  next
    case True
    let ?st1 = "st0 @ replicate (?m * 2 - ?m) None"
    let ?st = "?st1[?t + 1 := Some b]"
    have m: "?m \<noteq> 0" "?t + 1 < length ?st1" using st0 True by simp_all
    have "yypush_buffer_state (Some b) g = Done (g\<lparr>yg_next := yg_next g + 1, yy_buffer_stack := Some ?st, yy_buffer_stack_max := ?m * 2,
      yy_buffer_stack_top := ?t + 1, yy_in := yb_input_file v\<rparr>)"
      unfolding yypush_buffer_state_def ens and_then.simps c
      using True st0 b r m
      by (simp add: set_current_def take_input_def the_buffer_def Let_def yy_grow_stack_def new_address_def roomy_def)
    from that[OF this] m st0 show ?thesis by (simp add: nth_append)
  qed
qed

text \<open>A buffer that \<open>yy_delete_buffer\<close> can take down.\<close>

definition deletable :: "nat \<Rightarrow> guts \<Rightarrow> bool" where
  "deletable b g =
     (case yg_buffers g b of
        None \<Rightarrow> False
      | Some v \<Rightarrow> yb_is_our_buffer v \<longrightarrow> yg_blocks g (yb_data v) \<noteq> None \<and> yb_data v \<notin> yg_foreign g)"

definition without_buffer :: "nat \<Rightarrow> yy_buffer \<Rightarrow> guts \<Rightarrow> guts" where
  "without_buffer b v g =
     g\<lparr>yg_blocks := (if yb_is_our_buffer v then (yg_blocks g)(yb_data v := None) else yg_blocks g),
       yg_buffers := (yg_buffers g)(b := None)\<rparr>"

lemma delete_ok:
  assumes "deletable b g" "yg_buffers g b = Some v"
  shows "yy_delete_buffer (Some b) g = Done (without_buffer b v g)"
  using assms by (auto simp: deletable_def yy_delete_buffer_def the_buffer_def yyfree_def without_buffer_def)

lemma pop_buffer_ok:
  assumes st: "yy_buffer_stack g = Some st" "yy_buffer_stack_top g < length st" "st ! yy_buffer_stack_top g = Some b"
    and top: "yy_buffer_stack_top g = Suc t" "st ! t = Some c"
    and d: "deletable b g" "yg_buffers g b = Some v" and c: "yg_buffers g c = Some w" "c \<noteq> b"
  shows "yypop_buffer_state g = Done ((without_buffer b v g)\<lparr>yy_buffer_stack := Some (st[Suc t := None]), yy_buffer_stack_top := t,
    yy_in := yb_input_file w\<rparr>)"
proof -
  have "yy_current g = Done (Some b)" using st by (simp add: yy_current_def)
  then show ?thesis
    unfolding yypop_buffer_state_def using st top c delete_ok[OF d]
    by (simp add: set_current_def yy_current_def take_input_def the_buffer_def Let_def without_buffer_def)
qed

text \<open>C24. A buffer that is pushed and popped leaves the scanner where it was. With buffer \<open>c\<close> current and
  memory there, \<open>yypush_buffer_state(b)\<close> makes \<open>b\<close> current and reads from its file, growing the stack as
  needed; \<open>yypop_buffer_state()\<close> then frees \<open>b\<close> with the block it owns, and no other memory, and makes
  \<open>c\<close> current again with \<open>yyin\<close> the file of \<open>c\<close>.
\<close>

theorem pushed_buffer_popped:
  assumes "buffers_ok g" "roomy g" "yy_current g = Done (Some c)" "yg_buffers g c = Some w"
    "yg_buffers g b = Some v" "deletable b g" "b \<noteq> c"
  shows "\<exists>g1 g2. yypush_buffer_state (Some b) g = Done g1 \<and> yy_current g1 = Done (Some b) \<and> yy_in g1 = yb_input_file v \<and>
    yg_blocks g1 = yg_blocks g \<and> yg_buffers g1 = yg_buffers g \<and>
    yypop_buffer_state g1 = Done g2 \<and> yy_current g2 = Done (Some c) \<and> yy_in g2 = yb_input_file w \<and>
    yy_buffer_stack_top g2 = yy_buffer_stack_top g \<and> buffers_ok g2 \<and> yg_buffers g2 = (yg_buffers g)(b := None) \<and>
    yg_blocks g2 = (if yb_is_our_buffer v then (yg_blocks g)(yb_data v := None) else yg_blocks g)"
proof -
  let ?t = "yy_buffer_stack_top g"
  obtain st k m where push: "yypush_buffer_state (Some b) g = Done (g\<lparr>yg_next := k, yy_buffer_stack := Some st, yy_buffer_stack_max := m,
      yy_buffer_stack_top := ?t + 1, yy_in := yb_input_file v\<rparr>)"
    and st: "?t + 1 < length st" "st ! ?t = Some c" "st ! (?t + 1) = Some b" "length st = m"
    by (rule push_buffer_ok[OF assms(1-3,5)])
  let ?g1 = "g\<lparr>yg_next := k, yy_buffer_stack := Some st, yy_buffer_stack_max := m, yy_buffer_stack_top := ?t + 1,
    yy_in := yb_input_file v\<rparr>"
  let ?g2 = "(without_buffer b v ?g1)\<lparr>yy_buffer_stack := Some (st[Suc ?t := None]), yy_buffer_stack_top := ?t, yy_in := yb_input_file w\<rparr>"
  have "deletable b ?g1" using assms(6) by (simp add: deletable_def split: option.splits)
  then have "yypop_buffer_state ?g1 = Done ?g2"
    using st assms(1-6) assms(7)[symmetric] by (intro pop_buffer_ok) simp_all
  moreover have "yy_current ?g1 = Done (Some b)" "yy_current ?g2 = Done (Some c)" "buffers_ok ?g2"
    using st by (simp_all add: yy_current_def buffers_ok_def without_buffer_def)
  ultimately show ?thesis using push by (intro exI[of _ ?g1] exI[of _ ?g2]) (simp add: without_buffer_def)
qed

lemma pushed_buffer_popped_witness:
  "\<exists>g g1 g2. yy_current g = Done (Some 0) \<and> yypush_buffer_state (Some 5) g = Done g1 \<and> yy_current g1 = Done (Some 5) \<and>
     yypop_buffer_state g1 = Done g2 \<and> yy_current g2 = Done (Some 0) \<and> yg_buffers g2 5 = None \<and> yg_blocks g2 6 = None"
proof -
  let ?v = "\<lparr>yb_input_file = Some 1, yb_data = 6, yb_size = 1, yb_pos = 0, yb_end = 0, yb_at_bol = True, yb_done = False,
    yb_is_our_buffer = True\<rparr>"
  let ?g = "(loaded_guts [97] 1)\<lparr>yg_buffers := (yg_buffers (loaded_guts [97] 1))(5 \<mapsto> ?v),
    yg_blocks := (yg_blocks (loaded_guts [97] 1))(6 \<mapsto> [0, 0, 0]), yg_next := 7\<rparr>"
  obtain g where h: "buffers_ok g" "roomy g" "yy_current g = Done (Some 0)" "yg_buffers g 5 = Some ?v" "deletable 5 g"
    "yg_buffers g 0 \<noteq> None"
    by (rule that[of ?g]) (simp_all add: loaded_guts_def fresh_guts_def buffers_ok_def roomy_def yy_current_def deletable_def)
  then obtain w where "yg_buffers g 0 = Some w" by blast
  from pushed_buffer_popped[OF h(1-3) this h(4,5)]
  obtain g1 g2 where "yypush_buffer_state (Some 5) g = Done g1" "yy_current g1 = Done (Some 5)" "yypop_buffer_state g1 = Done g2"
    "yy_current g2 = Done (Some 0)" "yg_buffers g2 5 = None" "yg_blocks g2 6 = None"
    by force
  then show ?thesis using h(3) by blast
qed

section \<open>Popping while a text is sealed\<close>

text \<open>What taking down buffers leaves alone.\<close>

definition left_alone :: "guts \<Rightarrow> (nat \<times> int) option \<times> bool \<times> nat \<times> nat" where
  "left_alone g = (yy_text g, yy_text_active g, yy_state_stack_max g, yy_state_stack_top g)"

lemma set_current_frame:
  "set_current c g = Done g' \<Longrightarrow>
     yg_blocks g' = yg_blocks g \<and> left_alone g' = left_alone g \<and> yy_buffer_stack_top g' = yy_buffer_stack_top g \<and> yy_current g' = Done c"
  by (auto simp: set_current_def left_alone_def yy_current_def split: option.splits if_splits)

lemma take_input_frame:
  "take_input c g = Done g' \<Longrightarrow>
     yg_blocks g' = yg_blocks g \<and> left_alone g' = left_alone g \<and> yy_buffer_stack_top g' = yy_buffer_stack_top g"
  by (auto simp: take_input_def the_buffer_def left_alone_def split: option.splits)

lemma delete_frame:
  assumes "yy_delete_buffer (Some b) g = Done h" "yg_buffers g b = Some v"
  shows "h = without_buffer b v g"
  using assms by (auto simp: yy_delete_buffer_def the_buffer_def yyfree_def without_buffer_def split: if_splits)

lemma pop_buffer_frame:
  assumes "yypop_buffer_state g = Done g'" "yy_current g = Done (Some b)"
  obtains v where "yg_buffers g b = Some v" "yg_blocks g' = yg_blocks (without_buffer b v g)" "left_alone g' = left_alone g"
    "yy_buffer_stack_top g' < yy_buffer_stack_top g \<or> yy_current g' = Done None"
proof -
  have stack: "yy_buffer_stack g \<noteq> None" using assms(2) by (auto simp: yy_current_def split: option.splits)
  from assms(1) stack obtain h k where h: "yy_delete_buffer (Some b) g = Done h" "set_current None h = Done k"
    "(if yy_buffer_stack_top k > 0
      then (let k = k\<lparr>yy_buffer_stack_top := yy_buffer_stack_top k - 1\<rparr> in and_then (yy_current k) (\<lambda>c. take_input c k))
      else Done k) = Done g'"
    unfolding yypop_buffer_state_def assms(2) by (auto simp: and_then_Done)
  obtain v where v: "yg_buffers g b = Some v" using h(1) by (cases "yg_buffers g b") (simp_all add: yy_delete_buffer_def the_buffer_def)
  note hv = delete_frame[OF h(1) v] and k = set_current_frame[OF h(2)]
  have "yg_blocks g' = yg_blocks k \<and> left_alone g' = left_alone k \<and>
      (yy_buffer_stack_top g' < yy_buffer_stack_top k \<or> g' = k)"
  proof (cases "yy_buffer_stack_top k > 0")
    case True
    with h(3) obtain c where "take_input c (k\<lparr>yy_buffer_stack_top := yy_buffer_stack_top k - 1\<rparr>) = Done g'"
      by (auto simp: Let_def and_then_Done)
    from take_input_frame[OF this] True show ?thesis by (simp add: left_alone_def)
  next
    case False
    then show ?thesis using h(3) by simp
  qed
  moreover have "left_alone h = left_alone g" "yy_buffer_stack_top h = yy_buffer_stack_top g"
    by (simp_all add: hv left_alone_def without_buffer_def)
  ultimately show thesis using that[OF v] k hv by auto
qed

text \<open>C39. \<open>yypop_buffer_state\<close> in an action frees the memory \<open>yytext\<close> points into, but the text stays
  active: the call of \<open>yy_text_unseal\<close> with which the scanner goes on writes the saved byte into freed
  memory. This is so in every action, the one for the end of the file included, for every buffer that
  owns its memory.
\<close>

theorem pop_in_action_dangles:
  assumes "yypop_buffer_state g = Done g'" "yy_current g = Done (Some b)" "yg_buffers g b = Some v" "yb_is_our_buffer v"
    "yy_text_active g" "yy_text g = Some (yb_data v, x)"
  shows "yy_text_unseal g' = Fault"
proof -
  obtain v' where v': "yg_buffers g b = Some v'" "yg_blocks g' = yg_blocks (without_buffer b v' g)" "left_alone g' = left_alone g"
    by (rule pop_buffer_frame[OF assms(1,2)])
  then have "yg_blocks g' (yb_data v) = None" using assms(3,4) by (simp add: without_buffer_def)
  moreover have "yy_text g' = Some (yb_data v, x)" "yy_text_active g'" using v'(3) assms(5,6) by (simp_all add: left_alone_def)
  ultimately show ?thesis by (simp add: yy_text_unseal_def write_text_def write_at_def)
qed

lemma pop_in_action_dangles_witness:
  "\<exists>g'. yypop_buffer_state ((loaded_guts [97] 1)\<lparr>yy_text_active := True, yy_text := Some (1, 0)\<rparr>) = Done g' \<and> yy_text_unseal g' = Fault"
proof -
  let ?g = "(loaded_guts [97] 1)\<lparr>yy_text_active := True, yy_text := Some (1, 0)\<rparr>"
  have "yy_current ?g = Done (Some 0)" by (simp add: loaded_guts_def yy_current_def fresh_guts_def)
  moreover have "\<exists>g'. yypop_buffer_state ?g = Done g'"
    by (simp add: loaded_guts_def yy_current_def fresh_guts_def yypop_buffer_state_def yy_delete_buffer_def the_buffer_def yyfree_def
        set_current_def Let_def)
  moreover obtain v where v: "yg_buffers ?g 0 = Some v" by (simp add: loaded_guts_def)
  moreover from v have "yb_is_our_buffer v" "yy_text ?g = Some (yb_data v, 0)" by (auto simp: loaded_guts_def)
  moreover have "yy_text_active ?g" by simp
  ultimately show ?thesis using pop_in_action_dangles by blast
qed

section \<open>\<open>yylex_destroy\<close>\<close>

text \<open>\<open>while (YY_CURRENT_BUFFER) yypop_buffer_state();\<close>\<close>

definition buffers_left :: "guts \<Rightarrow> nat" where
  "buffers_left g = (case yy_current g of Done (Some b) \<Rightarrow> yy_buffer_stack_top g + 1 | _ \<Rightarrow> 0)"

function pop_all_buffers :: "guts \<Rightarrow> guts run" where
  "pop_all_buffers g =
     and_then (yy_current g) (\<lambda>c. if c = None then Done g else and_then (yypop_buffer_state g) pop_all_buffers)"
  by pat_completeness auto
termination
  by (relation "measure buffers_left") (auto simp: buffers_left_def elim!: pop_buffer_frame split: run.split option.split)

declare pop_all_buffers.simps [simp del]

definition yylex_destroy :: "guts \<Rightarrow> guts run" where
  "yylex_destroy g =
     and_then (pop_all_buffers g) (\<lambda>g. Done (g\<lparr>yy_buffer_stack := None, yy_state_stack := None, yy_init_done := False\<rparr>))"

text \<open>The buffers \<open>bs\<close>, the current one last, are the stack; each can be deleted, and no two share a block.\<close>

definition stacked :: "nat list \<Rightarrow> guts \<Rightarrow> bool" where
  "stacked bs g =
     (bs \<noteq> [] \<and> yy_buffer_stack_top g = length bs - 1 \<and> distinct bs \<and>
      (case yy_buffer_stack g of None \<Rightarrow> False | Some st \<Rightarrow> length bs \<le> length st \<and> take (length bs) st = map Some bs) \<and>
      (\<forall>b \<in> set bs. deletable b g) \<and> distinct (map (\<lambda>b. map_option yb_data (yg_buffers g b)) bs))"

lemma stackedE:
  assumes "stacked bs g"
  obtains st where "bs \<noteq> []" "yy_buffer_stack g = Some st" "length bs \<le> length st" "\<And>i. i < length bs \<Longrightarrow> st ! i = Some (bs ! i)"
    "yy_buffer_stack_top g = length bs - 1" "yy_current g = Done (Some (last bs))"
proof -
  from assms obtain st where st: "bs \<noteq> []" "yy_buffer_stack g = Some st" "length bs \<le> length st" "take (length bs) st = map Some bs"
    "yy_buffer_stack_top g = length bs - 1"
    by (auto simp: stacked_def split: option.splits)
  have nth: "st ! i = Some (bs ! i)" if "i < length bs" for i
    using that st(4) nth_take[of i "length bs" st] by simp
  have "length bs - 1 < length bs" using st(1) by (cases bs) simp_all
  with st(3) have "length bs - 1 < length st" by simp
  with \<open>length bs - 1 < length bs\<close> have "yy_current g = Done (Some (last bs))"
    using st nth[of "length bs - 1"] by (simp add: yy_current_def last_conv_nth)
  then show thesis using that st nth by blast
qed

lemma deletable_stays:
  assumes "deletable c g" "yg_buffers g b = Some v" "c \<noteq> b" "map_option yb_data (yg_buffers g c) \<noteq> Some (yb_data v)"
  shows "deletable c (without_buffer b v g)"
  using assms by (auto simp: deletable_def without_buffer_def split: option.splits)

lemma pop_stacked:
  assumes s: "stacked (bs @ [b]) g" "bs \<noteq> []" and v: "yg_buffers g b = Some v"
  shows "\<exists>g'. yypop_buffer_state g = Done g' \<and> stacked bs g' \<and> yg_blocks g' = yg_blocks (without_buffer b v g) \<and>
    yg_buffers g' = (yg_buffers g)(b := None)"
proof -
  obtain st where st: "yy_buffer_stack g = Some st" "length bs + 1 \<le> length st" "\<And>i. i < length (bs @ [b]) \<Longrightarrow> st ! i = Some ((bs @ [b]) ! i)"
    "yy_buffer_stack_top g = length bs"
    by (rule stackedE[OF s(1)]) simp
  obtain t where t: "length bs = Suc t" using s(2) by (cases bs) simp_all
  have last: "last bs = bs ! t" using s(2) t by (simp add: last_conv_nth)
  have in_bs: "last bs \<in> set bs" using s(2) by simp
  moreover have "b \<notin> set bs" using s(1) by (simp add: stacked_def)
  ultimately have not_b: "last bs \<noteq> b" by metis
  from in_bs have "deletable (last bs) g" using s(1) by (simp add: stacked_def)
  then obtain w where w: "yg_buffers g (last bs) = Some w" by (auto simp: deletable_def split: option.splits)
  let ?g = "(without_buffer b v g)\<lparr>yy_buffer_stack := Some (st[Suc t := None]), yy_buffer_stack_top := t, yy_in := yb_input_file w\<rparr>"
  have "yypop_buffer_state g = Done ?g"
    by (rule pop_buffer_ok[where c = "last bs"])
      (use st t s v w not_b st(3)[of "length bs"] st(3)[of t] last in \<open>simp_all add: nth_append stacked_def\<close>)
  moreover have "deletable c ?g" if "c \<in> set bs" for c
  proof -
    have "map_option yb_data (yg_buffers g c) \<noteq> map_option yb_data (yg_buffers g b)"
    proof -
      let ?f = "\<lambda>c. map_option yb_data (yg_buffers g c)"
      have "?f b \<notin> ?f ` set bs" using s(1) by (simp add: stacked_def)
      then show ?thesis using imageI[OF that, of ?f] by metis
    qed
    then have "deletable c (without_buffer b v g)"
      using that s(1) v by (intro deletable_stays) (auto simp: stacked_def)
    then show ?thesis by (simp add: deletable_def split: option.splits)
  qed
  moreover have "take (length bs) (st[Suc t := None]) = map Some bs"
    using st(2,3) t by (intro nth_equalityI) (simp_all add: nth_append)
  moreover have "distinct (map (\<lambda>c. map_option yb_data (yg_buffers ?g c)) bs)"
  proof -
    have "map (\<lambda>c. map_option yb_data (yg_buffers ?g c)) bs = map (\<lambda>c. map_option yb_data (yg_buffers g c)) bs"
      using s(1) by (intro map_cong refl) (auto simp: stacked_def without_buffer_def)
    moreover have "distinct (map (\<lambda>c. map_option yb_data (yg_buffers g c)) bs)" using s(1) by (simp add: stacked_def)
    ultimately show ?thesis by (rule ssubst)
  qed
  ultimately show ?thesis using s st(2) t
    by (intro exI[of _ ?g]) (simp add: stacked_def without_buffer_def)
qed

lemma pop_only:
  assumes s: "stacked [b] g" and v: "yg_buffers g b = Some v"
  shows "\<exists>g'. yypop_buffer_state g = Done g' \<and> yy_current g' = Done None \<and> yg_blocks g' = yg_blocks (without_buffer b v g) \<and>
    yg_buffers g' = (yg_buffers g)(b := None)"
proof -
  obtain st where st: "yy_buffer_stack g = Some st" "1 \<le> length st" "st ! 0 = Some b" "yy_buffer_stack_top g = 0"
      "yy_current g = Done (Some b)"
    by (rule stackedE[OF s]) simp
  have "deletable b g" using s by (simp add: stacked_def)
  from delete_ok[OF this v] st show ?thesis
    by (intro exI[of _ "(without_buffer b v g)\<lparr>yy_buffer_stack := Some (st[0 := None])\<rparr>"])
      (auto simp: yypop_buffer_state_def set_current_def without_buffer_def yy_current_def)
qed

lemma pop_all_ok:
  "stacked bs g \<Longrightarrow> \<exists>g'. pop_all_buffers g = Done g' \<and> (\<forall>b \<in> set bs. yg_buffers g' b = None) \<and>
     (\<forall>b \<in> set bs. \<forall>v. yg_buffers g b = Some v \<and> yb_is_our_buffer v \<longrightarrow> yg_blocks g' (yb_data v) = None) \<and>
     (\<forall>a. yg_blocks g a = None \<longrightarrow> yg_blocks g' a = None) \<and> (\<forall>b. b \<notin> set bs \<longrightarrow> yg_buffers g' b = yg_buffers g b)"
proof (induction bs arbitrary: g rule: rev_induct)
  case Nil
  then show ?case by (simp add: stacked_def)
next
  case (snoc b bs)
  have "deletable b g" using snoc.prems by (simp add: stacked_def)
  then obtain v where v: "yg_buffers g b = Some v" by (auto simp: deletable_def split: option.splits)
  have cur: "yy_current g = Done (Some b)" by (rule stackedE[OF snoc.prems]) simp
  have nin: "b \<notin> set bs" using snoc.prems by (simp add: stacked_def)
  show ?case
  proof (cases "bs = []")
    case True
    with snoc.prems v obtain g' where g': "yypop_buffer_state g = Done g'" "yy_current g' = Done None"
      "yg_blocks g' = yg_blocks (without_buffer b v g)" "yg_buffers g' = (yg_buffers g)(b := None)"
      using pop_only[of b g v] by auto
    have "pop_all_buffers g = Done g'" using cur g'(1,2) by (simp add: pop_all_buffers.simps[of g] pop_all_buffers.simps[of g'])
    then show ?thesis using g'(3,4) True v by (simp add: without_buffer_def)
  next
    case False
    obtain g1 where g1: "yypop_buffer_state g = Done g1" "stacked bs g1" "yg_blocks g1 = yg_blocks (without_buffer b v g)"
      "yg_buffers g1 = (yg_buffers g)(b := None)"
      using pop_stacked[OF snoc.prems False v] by blast
    obtain g' where g': "pop_all_buffers g1 = Done g'" "\<forall>b \<in> set bs. yg_buffers g' b = None"
      "\<forall>b \<in> set bs. \<forall>v. yg_buffers g1 b = Some v \<and> yb_is_our_buffer v \<longrightarrow> yg_blocks g' (yb_data v) = None"
      "\<forall>a. yg_blocks g1 a = None \<longrightarrow> yg_blocks g' a = None" "\<forall>b. b \<notin> set bs \<longrightarrow> yg_buffers g' b = yg_buffers g1 b"
      using snoc.IH[OF g1(2)] by blast
    have "pop_all_buffers g = Done g'" using cur g1(1) g'(1) by (simp add: pop_all_buffers.simps[of g])
    moreover have "yg_blocks g' (yb_data w) = None" if "c \<in> set bs" "yg_buffers g c = Some w" "yb_is_our_buffer w" for c w
      using g'(3) that g1(4) nin by (metis fun_upd_other)
    moreover have "yg_blocks g' (yb_data v) = None" if "yb_is_our_buffer v"
      using g'(4) that g1(3) by (simp add: without_buffer_def)
    moreover have "yg_blocks g' a = None" if "yg_blocks g a = None" for a
      using g'(4) that g1(3) by (auto simp: without_buffer_def)
    ultimately show ?thesis using g'(2,5) g1(4) nin v by auto
  qed
qed

lemma pop_all_left_alone: "pop_all_buffers g = Done g' \<Longrightarrow> left_alone g' = left_alone g"
proof (induction g rule: pop_all_buffers.induct)
  case (1 g)
  from "1.prems" obtain c where c: "yy_current g = Done c" by (auto simp: pop_all_buffers.simps[of g] and_then_Done)
  show ?case
  proof (cases c)
    case None
    then show ?thesis using "1.prems" c by (simp add: pop_all_buffers.simps[of g])
  next
    case (Some b)
    then obtain h where h: "yypop_buffer_state g = Done h" "pop_all_buffers h = Done g'"
      using "1.prems" c by (auto simp: pop_all_buffers.simps[of g] and_then_Done)
    have "left_alone h = left_alone g" using c Some by (auto intro: pop_buffer_frame[OF h(1)])
    moreover have "left_alone g' = left_alone h" using "1.IH"[OF c _ h] Some by simp
    ultimately show ?thesis by simp
  qed
qed

text \<open>C26. \<open>yylex_destroy\<close> takes the scanner down, but not for a next use. From any stack of buffers that do
  not share their blocks it returns, each of these buffers and each block they own is freed, exactly
  once, and the scanner is marked as not initialised. The bounds of the stack of start conditions are
  kept while the array is freed: if a condition was ever pushed and the stack is not full, the first
  \<open>yy_push_state\<close> of the next use writes through a null pointer.
\<close>

theorem destroy_frees_buffers:
  assumes "stacked bs g"
  shows "\<exists>g'. yylex_destroy g = Done g' \<and> \<not> yy_init_done g' \<and> yy_buffer_stack g' = None \<and> (\<forall>b \<in> set bs. yg_buffers g' b = None) \<and>
    (\<forall>b \<in> set bs. \<forall>v. yg_buffers g b = Some v \<and> yb_is_our_buffer v \<longrightarrow> yg_blocks g' (yb_data v) = None) \<and>
    (\<forall>b. b \<notin> set bs \<longrightarrow> yg_buffers g' b = yg_buffers g b) \<and>
    (yy_state_stack_top g < yy_state_stack_max g \<longrightarrow> yy_push_state s g' = Fault)"
proof -
  obtain h where h: "pop_all_buffers g = Done h" "\<forall>b \<in> set bs. yg_buffers h b = None"
    "\<forall>b \<in> set bs. \<forall>v. yg_buffers g b = Some v \<and> yb_is_our_buffer v \<longrightarrow> yg_blocks h (yb_data v) = None"
    "\<forall>b. b \<notin> set bs \<longrightarrow> yg_buffers h b = yg_buffers g b"
    using pop_all_ok[OF assms] by blast
  let ?g = "h\<lparr>yy_buffer_stack := None, yy_state_stack := None, yy_init_done := False\<rparr>"
  have "yylex_destroy g = Done ?g" using h(1) by (simp add: yylex_destroy_def)
  moreover have "yy_push_state s ?g = Fault" if "yy_state_stack_top g < yy_state_stack_max g"
    using that pop_all_left_alone[OF h(1)] by (simp add: yy_push_state_def left_alone_def)
  ultimately show ?thesis using h(2-) by (intro exI[of _ ?g]) simp
qed

lemma destroy_frees_buffers_witness:
  "\<exists>g g1 g'. yy_push_state 1 (loaded_guts [97] 0) = Done g \<and> yy_pop_state g = Done g1 \<and> yylex_destroy g1 = Done g' \<and>
     yg_blocks g' 1 = None \<and> yy_push_state 1 g' = Fault"
proof -
  obtain g g1 where g: "yy_push_state 1 (loaded_guts [97] 0) = Done g" "yy_pop_state g = Done g1" "stacked [0] g1"
    "yy_state_stack_top g1 < yy_state_stack_max g1" "yg_buffers g1 0 \<noteq> None" "\<forall>v. yg_buffers g1 0 = Some v \<longrightarrow> yb_is_our_buffer v \<and> yb_data v = 1"
    by (simp add: loaded_guts_def fresh_guts_def yy_push_state_def yy_grow_state_stack_def new_address_def Let_def yy_pop_state_def
        state_at_def stacked_def deletable_def)
  then show ?thesis using destroy_frees_buffers[OF g(3), of 1] by (force simp del: One_nat_def)
qed

section \<open>\<open>yyrestart\<close>\<close>

lemma flush_ok:
  assumes h: "holds b xs p g" and v: "yg_buffers g b = Some v"
  obtains g' v' where "yy_flush_buffer (Some b) g = Done g'" "holds b [] 0 g'" "yg_buffers g' b = Some v'" "yb_at_bol v'"
    "yb_done v' \<longleftrightarrow> yb_input_file v = None" "yg_unread g' = yg_unread g" "roomy g' \<longleftrightarrow> roomy g"
proof -
  obtain bs where bs: "yy_current g = Done (Some b)" "yg_blocks g (yb_data v) = Some bs" "length bs = yb_size v + 2" "yb_data v \<notin> yg_foreign g"
    using h v by (auto elim: holdsE)
  let ?v = "v\<lparr>yb_pos := 0, yb_end := 0, yb_done := (yb_input_file v = None), yb_at_bol := True\<rparr>"
  let ?g = "g\<lparr>yg_blocks := (yg_blocks g)(yb_data v \<mapsto> bs[0 := 0, 1 := 0]), yg_buffers := (yg_buffers g)(b \<mapsto> ?v)\<rparr>"
  have "yy_flush_buffer (Some b) g = Done ?g"
    using v bs by (simp add: yy_flush_buffer_def the_buffer_def set_buffer_def write_at_def Let_def)
  moreover have "holds b [] 0 ?g" using bs current_cong[of ?g g] by (simp add: holds_def)
  moreover have "roomy ?g \<longleftrightarrow> roomy g" by (simp add: roomy_def)
  ultimately show thesis by (intro that[of ?g ?v]) simp_all
qed

text \<open>C25. \<open>yyrestart\<close> gives the current buffer a new file. Whatever the buffer held, consumed or not, and
  whatever its size, the call returns with the buffer holding exactly the bytes of the file, at
  position 0 and with nothing left to read; this is how the scanner loads a buffer that a user made with
  \<open>yy_create_buffer\<close>, and how it goes on with the next file.
\<close>

theorem restart_reads_file:
  assumes "holds b xs p g" "roomy g"
  shows "\<exists>g'. yyrestart (Some f) g = Done g' \<and> holds b (yg_unread g f) 0 g' \<and> nuls_follow b g' \<and> \<not> reads_on b g' \<and>
    yg_unread g' f = []"
proof -
  obtain v bs where v: "yy_current g = Done (Some b)" "yg_buffers g b = Some v" "yg_blocks g (yb_data v) = Some bs"
    "yb_end v = length xs" "yb_pos v = p" "p \<le> length xs" "length xs \<le> yb_size v" "yb_data v \<notin> yg_foreign g"
    "length bs = yb_size v + 2" "take (length xs) bs = xs"
    using assms(1) by (rule holdsE)
  have stack: "yy_buffer_stack g \<noteq> None" using v(1) by (auto simp: yy_current_def split: option.splits)
  let ?h = "set_buffer b (v\<lparr>yb_input_file := Some f\<rparr>) g"
  have "holds b xs p ?h"
    unfolding holds_def using v set_buffer_apart(2)[of b "v\<lparr>yb_input_file := Some f\<rparr>" g] by (simp add: set_buffer_def)
  moreover have "yg_buffers ?h b = Some (v\<lparr>yb_input_file := Some f\<rparr>)" by (simp add: set_buffer_def)
  ultimately obtain k w where k: "yy_flush_buffer (Some b) ?h = Done k" "holds b [] 0 k" "yg_buffers k b = Some w"
    "yb_done w \<longleftrightarrow> yb_input_file (v\<lparr>yb_input_file := Some f\<rparr>) = None" "yg_unread k = yg_unread ?h" "roomy k \<longleftrightarrow> roomy ?h"
    by (rule flush_ok)
  let ?k = "k\<lparr>yy_in := Some f, yy_text_active := False, yy_text_save := 0, yy_text := None, yy_leng := 0\<rparr>"
  have "yyensure_buffer_stack g = Done g" using stack by (auto simp: yyensure_buffer_stack_def)
  then have restart: "yyrestart (Some f) g = yy_slurp ?k"
    using v(1,2) k(1) by (simp add: yyrestart_def the_buffer_def)
  have "holds b [] 0 ?k" "reads_on b ?k = reads_on b k" using k(2) holds_cong[of ?k k] by simp_all
  moreover have "reads_on b k" using k(3,4) by (simp add: reads_on_def)
  moreover have "roomy ?k" using k(6) assms(2) by (simp add: roomy_def set_buffer_def)
  ultimately show ?thesis
    unfolding restart using slurp_ok[of b "[]" 0 ?k f] k(5) by (auto simp: set_buffer_apart)
qed

lemma restart_reads_file_witness:
  "\<exists>g'. yyrestart (Some 7) ((loaded_guts [97] 1)\<lparr>yg_unread := (\<lambda>f. [98, 99])\<rparr>) = Done g' \<and> holds 0 [98, 99] 0 g'"
proof -
  let ?g = "(loaded_guts [97] 1)\<lparr>yg_unread := (\<lambda>f. [98, 99])\<rparr>"
  have "holds 0 [97] 1 ?g" "roomy ?g" using loaded_holds[of 1 "[97]"] holds_cong(1)[of ?g "loaded_guts [97] 1"] by (simp_all add: roomy_def)
  from restart_reads_file[OF this, of 7] show ?thesis by auto
qed

end
