(* ===== verification/Runtime_Scan.thy ===== *)
theory Runtime_Scan
  imports Runtime_Stacks Match_Loop
begin

text \<open>
  A turn of the loop of \<open>yylex\<close> on the memory of the runtime: the text of \<open>yy_lex_body\<close> in
  \<open>src/src/codegen.cpp\<close> with \<open>yytext\<close> sealed in the buffer and unsealed before the next turn. It
  refines \<open>yy_turn\<close>, in which the buffer is a list and a text a part of it.
\<close>

section \<open>The turn\<close>

text \<open>
  Where the loop stands: at the end-of-file rule of the condition, at \<open>yy_jam_report\<close>, behind the
  default rule, which wrote a byte to \<open>yyout\<close>, or at the action of a rule.
\<close>

datatype mem_turn = MemEof guts | MemJammed guts | MemEchoed byte guts | MemMatched int guts

text \<open>\<open>if (yy_buf_pos >= yy_buf_end && YY_CURRENT_BUFFER->yy_input_file && yyin) yyrestart(yyin);\<close>\<close>

definition restart_at_end :: "nat \<Rightarrow> guts \<Rightarrow> guts run" where
  "restart_at_end b g =
     and_then (the_buffer b g) (\<lambda>v.
       if yb_pos v \<ge> yb_end v \<and> yb_input_file v \<noteq> None \<and> yy_in g \<noteq> None then yyrestart (yy_in g) g else Done g)"

text \<open>The bytes \<open>yytext[0]\<close> to \<open>yytext[n - 1]\<close>, which the loop reads one by one.\<close>

definition text_bytes :: "nat \<Rightarrow> guts \<Rightarrow> byte list run" where
  "text_bytes n g =
     (case yy_text g of
        None \<Rightarrow> Fault
      | Some (a, x) \<Rightarrow>
          (case yg_blocks g a of
             None \<Rightarrow> Fault
           | Some bs \<Rightarrow> if 0 \<le> x \<and> nat x + n \<le> length bs then Done (take n (drop (nat x) bs)) else Fault))"

definition mem_echo :: "options \<Rightarrow> nat \<Rightarrow> yy_buffer \<Rightarrow> byte \<Rightarrow> guts \<Rightarrow> mem_turn run" where
  "mem_echo opt b v d g =
     (let g = set_buffer b (v\<lparr>yb_pos := yb_pos v + 1, yb_at_bol := (d = 10)\<rparr>) g
      in Done (MemEchoed d (if o_yylineno opt \<and> d = 10 then g\<lparr>yy_lineno := yy_lineno g + 1\<rparr> else g)))"

definition mem_take :: "options \<Rightarrow> nat \<Rightarrow> yy_buffer \<Rightarrow> nat \<Rightarrow> nat \<Rightarrow> guts \<Rightarrow> guts run" where
  "mem_take opt b v mb len g =
     (let v = v\<lparr>yb_pos := mb + len\<rparr>;
          off = yy_more_offset g;
          g = g\<lparr>yy_text := Some (yb_data v, if off > 0 then int mb - off else int mb)\<rparr>;
          len = (if off > 0 then len + nat off else len);
          g = g\<lparr>yy_more_flag := False, yy_leng := int len\<rparr>
      in and_then (read_text (int len) g) (\<lambda>c. and_then (write_text (int len) 0 (g\<lparr>yy_text_save := c\<rparr>)) (\<lambda>g.
           let g = g\<lparr>yy_text_active := True\<rparr>
           in and_then (text_bytes len g) (\<lambda>text.
                let g = (if o_yylineno opt then g\<lparr>yy_lineno := yy_lineno g + int (newlines text)\<rparr> else g)
                in Done (set_buffer b (v\<lparr>yb_at_bol := (len > 0 \<and> text ! (len - 1) = 10)\<rparr>) g)))))"

definition mem_yy_turn :: "options \<Rightarrow> scan_tables \<Rightarrow> guts \<Rightarrow> mem_turn run" where
  "mem_yy_turn opt T g =
     and_then (yy_text_unseal g) (\<lambda>g. and_then (yy_current g) (\<lambda>cur.
       case cur of
         None \<Rightarrow> Fault
       | Some b \<Rightarrow> and_then (restart_at_end b g) (\<lambda>g. and_then (the_buffer b g) (\<lambda>v.
           if yb_pos v \<ge> yb_end v
           then Done (MemEof (g\<lparr>yy_text := Some (yb_data v, int (yb_pos v)), yy_leng := 0, yy_text_save := 0, yy_text_active := True\<rparr>))
           else (case yg_blocks g (yb_data v) of
                   None \<Rightarrow> Fault
                 | Some bs \<Rightarrow>
                     if yb_end v > length bs then Fault
                     else let buf = take (yb_end v) bs; mb = yb_pos v;
                              m = match_loop T buf mb (match_start T mb (yy_start g) (yb_at_bol v));
                              (rule, len) = pick_rule buf mb m
                          in if rule < 0
                             then (if o_nodefault opt then Done (MemJammed g) else mem_echo opt b v (buf ! mb) g)
                             else and_then (mem_take opt b v mb (trim_trail T mb m rule len) g) (\<lambda>g. Done (MemMatched rule g)))))))"

section \<open>The scanner a state stands for\<close>

definition scanner_of :: "nat \<Rightarrow> byte list \<Rightarrow> guts \<Rightarrow> scanner option" where
  "scanner_of b out g =
     (case yg_buffers g b of
        None \<Rightarrow> None
      | Some v \<Rightarrow>
          (case yg_blocks g (yb_data v) of
             None \<Rightarrow> None
           | Some bs \<Rightarrow>
               Some \<lparr>ys_buf = take (yb_end v) bs, ys_pos = yb_pos v, ys_start = yy_start g, ys_at_bol = yb_at_bol v,
                 ys_more_flag = yy_more_flag g, ys_more_offset = nat (yy_more_offset g), ys_lineno = nat (yy_lineno g), ys_out = out\<rparr>))"

section \<open>A match stays in the buffer\<close>

definition within :: "byte list \<Rightarrow> nat \<Rightarrow> match \<Rightarrow> bool" where
  "within buf mb m =
     (mb \<le> m_scan m \<and> m_scan m \<le> length buf \<and> m_acc_n_len m \<le> m_scan m - mb \<and> m_acc_e_len m \<le> m_scan m - mb)"

lemma within_note: "within buf mb m \<Longrightarrow> within buf mb (note_accept T mb (note_bounds T m))"
  by (auto simp: within_def note_accept_def note_bounds_def Let_def split: option.split)

lemma within_start: "mb \<le> length buf \<Longrightarrow> within buf mb (match_start T mb c bol)"
  unfolding match_start_def by (rule within_note) (simp add: within_def)

lemma within_loop: "within buf mb m \<Longrightarrow> within buf mb (match_loop T buf mb m)"
proof (induction T buf mb m rule: match_loop.induct)
  case (1 T buf mb m)
  have "within buf mb (match_step T mb (nat (next_state T (m_state m) (buf ! m_scan m))) m)" if "m_scan m < length buf"
    unfolding match_step_def using "1.prems" that by (intro within_note) (auto simp: within_def)
  with "1" show ?case by (subst match_loop.simps) (simp add: Let_def)
qed

lemma picked_within: "within buf mb m \<Longrightarrow> pick_rule buf mb m = (rule, len) \<Longrightarrow> rule \<ge> 0 \<Longrightarrow> mb + len \<le> length buf"
  by (auto simp: within_def pick_rule_def Let_def split: if_splits)

lemma trimmed_le: "trim_trail T mb m rule len \<le> len"
  by (auto simp: trim_trail_def Let_def split: option.split)

section \<open>The turns agree\<close>

lemma scanner_of_holds:
  assumes "holds b xs p h" "yg_buffers h b = Some v"
  shows "scanner_of b out h = Some \<lparr>ys_buf = xs, ys_pos = p, ys_start = yy_start h, ys_at_bol = yb_at_bol v,
    ys_more_flag = yy_more_flag h, ys_more_offset = nat (yy_more_offset h), ys_lineno = nat (yy_lineno h), ys_out = out\<rparr>"
  by (rule holdsE[OF assms(1)]) (use assms(2) in \<open>simp add: scanner_of_def\<close>)

lemma window_update: "first + n \<le> i \<Longrightarrow> take n (drop first (bs[i := y])) = take n (drop first bs)"
  by (simp add: take_drop)

text \<open>The buffer is not read from a file, so there is nothing to read on at its end.\<close>

definition from_memory :: "nat \<Rightarrow> guts \<Rightarrow> bool" where
  "from_memory b g = (case yg_buffers g b of None \<Rightarrow> False | Some v \<Rightarrow> yb_input_file v = None)"

lemma text_bytes_at:
  "yy_text g = Some (a, int x) \<Longrightarrow> yg_blocks g a = Some bs \<Longrightarrow> x + n \<le> length bs \<Longrightarrow> text_bytes n g = Done (take n (drop x bs))"
  by (simp add: text_bytes_def)

lemma mem_take_ok:
  assumes h: "holds b xs p h" and v: "yg_buffers h b = Some v" and s: "scanner_of b out h = Some s"
    and more: "0 \<le> yy_more_offset h" "yy_more_offset h \<le> int mb" and len: "mb + len \<le> length xs" and line: "0 \<le> yy_lineno h"
    and take: "take_text opt mb len s = (text, s')"
  shows "\<exists>g' k. mem_take opt b v mb len h = Done g' \<and> yy_leng g' = int (length text) \<and> text_bytes (length text) g' = Done text \<and>
    read_text (int (length text)) g' = Done 0 \<and> yy_text_unseal g' = Done k \<and> holds b xs (mb + len) k \<and> scanner_of b out k = Some s' \<and>
    from_memory b k = from_memory b h \<and> 0 \<le> yy_lineno k"
proof -
  obtain bs where w: "yy_current h = Done (Some b)" "yg_blocks h (yb_data v) = Some bs" "yb_end v = length xs" "length xs \<le> yb_size v"
    "yb_data v \<notin> yg_foreign h" "length bs = yb_size v + 2" "take (length xs) bs = xs"
    using h v by (auto elim: holdsE)
  let ?a = "yb_data v" let ?off = "nat (yy_more_offset h)"
  let ?first = "mb - ?off" let ?n = "len + ?off"
  have fn: "?first + ?n = mb + len" using more by simp
  have s_eq: "s = \<lparr>ys_buf = xs, ys_pos = p, ys_start = yy_start h, ys_at_bol = yb_at_bol v, ys_more_flag = yy_more_flag h,
      ys_more_offset = ?off, ys_lineno = nat (yy_lineno h), ys_out = out\<rparr>"
    using s scanner_of_holds[OF h v, of out] by simp
  have tx: "text = take ?n (drop ?first xs)" and s': "s' = s\<lparr>ys_pos := mb + len, ys_more_flag := False,
      ys_lineno := (if o_yylineno opt then nat (yy_lineno h) + newlines text else nat (yy_lineno h)),
      ys_at_bol := (?n > 0 \<and> text ! (?n - 1) = 10)\<rparr>"
    using take by (auto simp add: take_text_def Let_def s_eq cong: if_cong conj_cong)
  have n: "length text = ?n" using len fn by (simp add: tx)
  have in_bs: "mb + len < length bs" using len w(4,6) by simp
  let ?bs = "bs[mb + len := 0]"
  have window: "take ?n (drop ?first ?bs) = text"
  proof -
    have "take ?n (drop ?first ?bs) = take ?n (drop ?first bs)" by (rule window_update) (simp only: fn)
    also have "\<dots> = drop ?first (take (mb + len) (take (length xs) bs))" using len fn by (simp add: take_drop add.commute min_def)
    also have "\<dots> = text" unfolding w(7) tx using fn by (simp add: take_drop add.commute)
    finally show ?thesis .
  qed
  let ?line = "if o_yylineno opt then yy_lineno h + int (newlines text) else yy_lineno h"
  let ?v = "v\<lparr>yb_pos := mb + len, yb_at_bol := (?n > 0 \<and> text ! (?n - 1) = 10)\<rparr>"
  let ?g = "h\<lparr>yy_text := Some (?a, int ?first), yy_more_flag := False, yy_leng := int ?n, yy_text_save := bs ! (mb + len),
    yg_blocks := (yg_blocks h)(?a \<mapsto> ?bs), yy_text_active := True, yy_lineno := ?line,
    yg_buffers := (yg_buffers h)(b \<mapsto> ?v)\<rparr>"
  have x: "(if yy_more_offset h > 0 then int mb - yy_more_offset h else int mb) = int ?first"
    "(if yy_more_offset h > 0 then len + nat (yy_more_offset h) else len) = ?n"
    using more by auto
  have pos: "int ?first + int ?n = int (mb + len)" unfolding of_nat_add[symmetric] fn by (rule refl)
  have nat_pos: "nat (int ?first + int ?n) = mb + len" unfolding pos by simp
  have tk: "mem_take opt b v mb len h = Done ?g"
    unfolding mem_take_def Let_def x
    using w(2) in_bs window
    by (simp add: read_text_def write_text_def read_at_def write_at_def text_bytes_def nat_pos fn set_buffer_def del: of_nat_add)
  let ?k = "?g\<lparr>yg_blocks := (yg_blocks h)(?a \<mapsto> bs), yy_text_active := False\<rparr>"
  have "?first + ?n \<le> length ?bs" unfolding fn using in_bs by simp
  then have "text_bytes ?n ?g = Done (take ?n (drop ?first ?bs))" by (intro text_bytes_at[where a = ?a]) simp_all
  then have "text_bytes ?n ?g = Done text" unfolding window .
  moreover have "read_text (int ?n) ?g = Done 0"
    using in_bs by (simp add: read_text_def read_at_def nat_pos del: of_nat_add)
  moreover have "yy_text_unseal ?g = Done ?k"
    using in_bs by (simp add: yy_text_unseal_def write_text_def write_at_def nat_pos del: of_nat_add)
  moreover have "yy_current ?k = Done (Some b)" using w(1) current_cong[of ?k h] by simp
  then have k: "holds b xs (mb + len) ?k" using w len by (simp add: holds_def)
  moreover have vk: "yg_buffers ?k b = Some ?v" by simp
  have "scanner_of b out ?k = Some s'"
    by (rule trans[OF scanner_of_holds[OF k vk]]) (use line in \<open>simp add: s' s_eq nat_add_distrib\<close>)
  moreover have "from_memory b ?k = from_memory b h" "0 \<le> yy_lineno ?k" using v line by (simp_all add: from_memory_def)
  ultimately show ?thesis using tk n by (intro exI[of _ ?g] exI[of _ ?k]) simp
qed

lemma mem_turn_ok:
  assumes u: "yy_text_unseal g = Done h" and h: "holds b xs p h" and at: "p < length xs \<or> from_memory b h"
    and s: "scanner_of b out h = Some s" and more: "0 \<le> yy_more_offset h" "yy_more_offset h \<le> int p" and line: "0 \<le> yy_lineno h"
  shows "case yy_turn opt T s of
      AtEof s' \<Rightarrow> \<exists>g'. mem_yy_turn opt T g = Done (MemEof g') \<and> yy_leng g' = 0 \<and> scanner_of b out g' = Some s'
    | Jammed s' \<Rightarrow> mem_yy_turn opt T g = Done (MemJammed h) \<and> s' = s
    | Echoed s' \<Rightarrow> \<exists>d g'. mem_yy_turn opt T g = Done (MemEchoed d g') \<and> ys_out s' = out @ [d] \<and> yy_text_unseal g' = Done g' \<and>
        holds b xs (ys_pos s') g' \<and> scanner_of b (ys_out s') g' = Some s' \<and> from_memory b g' = from_memory b h \<and> 0 \<le> yy_lineno g' \<and>
        yy_more_offset g' = yy_more_offset h \<and> p \<le> ys_pos s'
    | Matched rule text s' \<Rightarrow> \<exists>g' k. mem_yy_turn opt T g = Done (MemMatched rule g') \<and> yy_leng g' = int (length text) \<and>
        text_bytes (length text) g' = Done text \<and> read_text (int (length text)) g' = Done 0 \<and>
        yy_text_unseal g' = Done k \<and> holds b xs (ys_pos s') k \<and> scanner_of b out k = Some s' \<and>
        from_memory b k = from_memory b h \<and> 0 \<le> yy_lineno k"
proof -
  obtain v bs where w: "yy_current h = Done (Some b)" "yg_buffers h b = Some v" "yg_blocks h (yb_data v) = Some bs"
    "yb_end v = length xs" "yb_pos v = p" "p \<le> length xs" "length xs \<le> yb_size v" "yb_data v \<notin> yg_foreign h"
    "length bs = yb_size v + 2" "take (length xs) bs = xs"
    using h by (rule holdsE)
  have s_eq: "s = \<lparr>ys_buf = xs, ys_pos = p, ys_start = yy_start h, ys_at_bol = yb_at_bol v, ys_more_flag = yy_more_flag h,
      ys_more_offset = nat (yy_more_offset h), ys_lineno = nat (yy_lineno h), ys_out = out\<rparr>"
    using s scanner_of_holds[OF h w(2), of out] by simp
  have no_restart: "restart_at_end b h = Done h"
    using at w by (auto simp: restart_at_end_def the_buffer_def from_memory_def)
  have turn: "mem_yy_turn opt T g = (if p \<ge> length xs
      then Done (MemEof (h\<lparr>yy_text := Some (yb_data v, int p), yy_leng := 0, yy_text_save := 0, yy_text_active := True\<rparr>))
      else let m = match_loop T xs p (match_start T p (yy_start h) (yb_at_bol v)); (rule, len) = pick_rule xs p m
           in if rule < 0 then (if o_nodefault opt then Done (MemJammed h) else mem_echo opt b v (xs ! p) h)
              else and_then (mem_take opt b v p (trim_trail T p m rule len) h) (\<lambda>g. Done (MemMatched rule g)))"
    unfolding mem_yy_turn_def u and_then.simps w(1) option.case no_restart the_buffer_def w(2)
    using w(3-) by (simp add: Let_def)
  show ?thesis
  proof (cases "p < length xs")
    case False
    then have "yy_turn opt T s = AtEof s" by (simp add: yy_turn_def s_eq)
    moreover let ?g = "h\<lparr>yy_text := Some (yb_data v, int p), yy_leng := 0, yy_text_save := 0, yy_text_active := True\<rparr>"
    have "scanner_of b out ?g = Some s" using scanner_of_holds[OF h w(2), of out] s_eq w(2,3) by (simp add: scanner_of_def)
    ultimately show ?thesis using False turn by simp
  next
    case True
    define m where "m = match_loop T xs p (match_start T p (yy_start h) (yb_at_bol v))"
    obtain rule len where pick: "pick_rule xs p m = (rule, len)" by fastforce
    have absturn: "yy_turn opt T s = (if rule < 0 then (if o_nodefault opt then Jammed s else Echoed (echo_byte opt s))
        else (case take_text opt p (trim_trail T p m rule len) s of (text, s) \<Rightarrow> Matched rule text s))"
      using True pick by (simp add: yy_turn_def s_eq m_def[symmetric])
    have memturn: "mem_yy_turn opt T g = (if rule < 0 then (if o_nodefault opt then Done (MemJammed h) else mem_echo opt b v (xs ! p) h)
        else and_then (mem_take opt b v p (trim_trail T p m rule len) h) (\<lambda>g. Done (MemMatched rule g)))"
      using True pick by (simp add: turn m_def[symmetric])
    show ?thesis
    proof (cases "rule < 0")
      case False
      have "within xs p m" unfolding m_def using True by (intro within_loop within_start) simp
      from picked_within[OF this pick] False have len: "p + trim_trail T p m rule len \<le> length xs"
        using trimmed_le[of T p m rule len] by simp
      obtain ts s' where tk: "take_text opt p (trim_trail T p m rule len) s = (ts, s')" by fastforce
      then have "ys_pos s' = p + trim_trail T p m rule len" by (auto simp: take_text_def Let_def)
      with mem_take_ok[OF h w(2) s more len line tk] show ?thesis using False absturn memturn tk by auto
    next
      case neg: True
      show ?thesis
      proof (cases "o_nodefault opt")
        case False
        let ?h = "h\<lparr>yg_buffers := (yg_buffers h)(b \<mapsto> v\<lparr>yb_pos := p + 1, yb_at_bol := (xs ! p = 10)\<rparr>)\<rparr>"
        let ?g = "if o_yylineno opt \<and> xs ! p = 10 then ?h\<lparr>yy_lineno := yy_lineno h + 1\<rparr> else ?h"
        have "mem_echo opt b v (xs ! p) h = Done (MemEchoed (xs ! p) ?g)"
          using w(5) by (simp add: mem_echo_def set_buffer_def Let_def)
        moreover have "\<not> (yy_text_active h \<and> yy_text h \<noteq> None)" by (rule unseal_again[OF u])
        then have "yy_text_unseal ?g = Done ?g" by (intro unseal_idle) simp
        moreover have "holds b xs (p + 1) ?h"
          unfolding holds_def using w current_cong[of ?h h] True by simp
        then have k: "holds b xs (p + 1) ?g"
        proof (cases "o_yylineno opt \<and> xs ! p = 10")
          case True
          have "holds b xs (p + 1) (?h\<lparr>yy_lineno := yy_lineno h + 1\<rparr>) = holds b xs (p + 1) ?h" by (rule holds_cong) simp_all
          with \<open>holds b xs (p + 1) ?h\<close> show ?thesis unfolding if_P[OF True] by (rule iffD2[rotated])
        next
          case False
          from \<open>holds b xs (p + 1) ?h\<close> show ?thesis unfolding if_not_P[OF False] .
        qed
        moreover have "yg_buffers ?g b = Some (v\<lparr>yb_pos := p + 1, yb_at_bol := (xs ! p = 10)\<rparr>)" by simp
        have "scanner_of b (out @ [xs ! p]) ?g = Some (echo_byte opt s)"
          by (rule trans[OF scanner_of_holds[OF k \<open>yg_buffers ?g b = _\<close>]])
            (use line in \<open>simp add: s_eq echo_byte_def Let_def nat_add_distrib\<close>)
        moreover have "from_memory b ?g = from_memory b h" using w(2) by (simp add: from_memory_def)
        moreover have "0 \<le> yy_lineno ?g" "yy_more_offset ?g = yy_more_offset h" using line by simp_all
        ultimately show ?thesis using False neg absturn memturn by (simp add: echo_byte_def Let_def s_eq)
      qed (use neg absturn memturn in simp)
    qed
  qed
qed

text \<open>C18. The loop of \<open>yylex\<close> on the memory of the runtime refines the loop on lists. From any state in which
  the current buffer holds the input, with whatever text sealed in it, a turn of the emitted loop
  never leaves the memory of the buffer and does what \<open>yy_turn\<close> says: it stops at the end of the
  input or at a jam exactly where \<open>yy_turn\<close> does, the default rule writes the byte \<open>yy_turn\<close> echoes,
  and at the action of a rule \<open>yytext\<close> is the text of \<open>yy_turn\<close>, the prefix of \<open>yymore\<close> included,
  \<open>yyleng\<close> bytes long with a null byte behind; once the text is unsealed the input is
  undamaged and the state is the one \<open>yy_turn\<close> goes on with.
\<close>

theorem mem_turn_refines:
  assumes u: "yy_text_unseal g = Done h" and h: "holds b xs p h" and at: "p < length xs \<or> from_memory b h"
    and s: "scanner_of b out h = Some s" and more: "0 \<le> yy_more_offset h" "yy_more_offset h \<le> int p" and line: "0 \<le> yy_lineno h"
  shows "case yy_turn opt T s of
      AtEof s' \<Rightarrow> \<exists>g'. mem_yy_turn opt T g = Done (MemEof g') \<and> yy_leng g' = 0 \<and> scanner_of b out g' = Some s'
    | Jammed s' \<Rightarrow> mem_yy_turn opt T g = Done (MemJammed h) \<and> s' = s
    | Echoed s' \<Rightarrow> \<exists>d g'. mem_yy_turn opt T g = Done (MemEchoed d g') \<and> ys_out s' = out @ [d] \<and> yy_text_unseal g' = Done g' \<and>
        holds b xs (ys_pos s') g' \<and> scanner_of b (ys_out s') g' = Some s'
    | Matched rule text s' \<Rightarrow> \<exists>g' k. mem_yy_turn opt T g = Done (MemMatched rule g') \<and> yy_leng g' = int (length text) \<and>
        text_bytes (length text) g' = Done text \<and> read_text (int (length text)) g' = Done 0 \<and>
        yy_text_unseal g' = Done k \<and> holds b xs (ys_pos s') k \<and> scanner_of b out k = Some s'"
  using mem_turn_ok[OF assms, of opt T] by (cases "yy_turn opt T s") (simp_all, blast+)

text \<open>Tables with one rule, which matches one byte of any value, and a scanner at the first of two bytes.\<close>

definition any_byte_tables :: scan_tables where
  "any_byte_tables =
     \<lparr>st_mode = Full, st_ncls = 1,
      st_tabs = \<lparr>yy_ec = replicate 256 0, yy_meta = [], yy_base = [], yy_def = [], yy_nxt = [1, -1], yy_chk = [],
        yy_accept_normal = [-1, 0], yy_accept_eol = [-1, -1], yy_cond_normal = [0], yy_cond_bol = [0], yy_rule_trail_len = [0]\<rparr>,
      st_nrules = 1, st_boundary = None, st_rule_eol = [0], st_accept = ([0, 0, 1], [0])\<rparr>"

lemma any_byte_turn:
  "yy_turn default_options any_byte_tables \<lparr>ys_buf = [97, 98], ys_pos = 0, ys_start = 0, ys_at_bol = True, ys_more_flag = False,
     ys_more_offset = 0, ys_lineno = 1, ys_out = []\<rparr> =
   Matched 0 [97] \<lparr>ys_buf = [97, 98], ys_pos = 1, ys_start = 0, ys_at_bol = False, ys_more_flag = False, ys_more_offset = 0,
     ys_lineno = 1, ys_out = []\<rparr>"
  by code_simp

lemma mem_turn_refines_witness:
  "\<exists>g' k. mem_yy_turn default_options any_byte_tables (loaded_guts [97, 98] 0) = Done (MemMatched 0 g') \<and> yy_leng g' = 1 \<and>
     text_bytes 1 g' = Done [97] \<and> yy_text_unseal g' = Done k \<and> holds 0 [97, 98] 1 k"
proof -
  let ?g = "loaded_guts [97, 98] 0"
  have u: "yy_text_unseal ?g = Done ?g" by (rule unseal_idle) (simp add: loaded_guts_def fresh_guts_def)
  have h: "holds 0 [97, 98] 0 ?g" using loaded_holds[of 0 "[97, 98]"] by simp
  have s: "scanner_of 0 [] ?g = Some \<lparr>ys_buf = [97, 98], ys_pos = 0, ys_start = 0, ys_at_bol = True, ys_more_flag = False,
     ys_more_offset = 0, ys_lineno = 1, ys_out = []\<rparr>"
    by (simp add: scanner_of_def loaded_guts_def fresh_guts_def)
  have "0 \<le> yy_more_offset ?g" "yy_more_offset ?g \<le> int 0" "0 \<le> yy_lineno ?g" by (simp_all add: loaded_guts_def fresh_guts_def)
  from mem_turn_refines[OF u h _ s this, of default_options any_byte_tables] show ?thesis
    unfolding any_byte_turn by auto
qed

end
