(* ===== verification/Runtime_Run.thy ===== *)
theory Runtime_Run
  imports Runtime_Scan
begin

text \<open>
  Scanning a text in memory: \<open>yy_scan_bytes\<close> and then turn after turn of the loop, with actions that
  do nothing, gives the texts of \<open>yylex\<close>.
\<close>

section \<open>The loop\<close>

text \<open>
  At most \<open>n\<close> turns; \<open>None\<close> when these are not enough. An empty action leaves the memory as it is, and
  \<open>yy_more_offset\<close> is set behind the \<open>switch\<close>. The result has the rules and what their actions
  found in \<open>yytext\<close>.
\<close>

fun mem_yylex :: "nat \<Rightarrow> options \<Rightarrow> scan_tables \<Rightarrow> guts \<Rightarrow> ((int \<times> byte list) list \<times> lex_end \<times> guts) option run" where
  "mem_yylex 0 opt T g = Done None"
| "mem_yylex (Suc n) opt T g =
     and_then (mem_yy_turn opt T g) (\<lambda>t.
       case t of
         MemEof g \<Rightarrow> Done (Some ([], Eof, g))
       | MemJammed g \<Rightarrow> Done (Some ([], Jam, g))
       | MemEchoed d g \<Rightarrow> mem_yylex n opt T g
       | MemMatched rule g \<Rightarrow>
           and_then (text_bytes (nat (yy_leng g)) g) (\<lambda>bs.
             and_then (mem_yylex n opt T (g\<lparr>yy_more_offset := (if yy_more_flag g then yy_leng g else 0)\<rparr>)) (\<lambda>r.
               Done (map_option (\<lambda>(ms, e, g). ((rule, bs) # ms, e, g)) r))))"

section \<open>It finds the texts of \<open>yylex\<close>\<close>

text \<open>The memory \<open>g\<close>, with a text sealed or not, stands for the scanner \<open>s\<close>.\<close>

definition stands_for :: "nat \<Rightarrow> byte list \<Rightarrow> guts \<Rightarrow> scanner \<Rightarrow> bool" where
  "stands_for b xs g s \<longleftrightarrow>
     (\<exists>h out. yy_text_unseal g = Done h \<and> holds b xs (ys_pos s) h \<and> from_memory b h \<and> scanner_of b out h = Some s \<and>
        0 \<le> yy_more_offset h \<and> yy_more_offset h \<le> int (ys_pos s) \<and> 0 \<le> yy_lineno h)"

lemma unseal_more:
  assumes "yy_text_unseal g = Done k"
  shows "yy_text_unseal (g\<lparr>yy_more_offset := m\<rparr>) = Done (k\<lparr>yy_more_offset := m\<rparr>)" "yy_more_flag k = yy_more_flag g"
  using assms
  by (auto simp: yy_text_unseal_def write_text_def write_at_def and_then_Done split: if_splits option.splits prod.splits)

lemma take_text_facts: "take_text opt mb len s = (text, s') \<Longrightarrow> \<not> ys_more_flag s' \<and> mb \<le> ys_pos s'"
  by (auto simp: take_text_def Let_def)

lemma matched_facts: "yy_turn opt T s = Matched rule text s' \<Longrightarrow> \<not> ys_more_flag s'"
  by (auto simp: yy_turn_def Let_def split: if_splits prod.splits dest: take_text_facts)

lemma mem_yylex_follows:
  assumes "yylex opt T act s = Some y"
  shows "act = (\<lambda>rule bs s. (s, False)) \<longrightarrow> (\<forall>g. stands_for b xs g s \<longrightarrow>
    (\<exists>n g'. mem_yylex n opt T g = Done (Some (fst y, fst (snd y), g'))))"
  using assms
proof (rule yylex.raw_induct[where P = "\<lambda>opt T act s y. act = (\<lambda>rule bs s. (s, False)) \<longrightarrow> (\<forall>g. stands_for b xs g s \<longrightarrow>
    (\<exists>n g'. mem_yylex n opt T g = Done (Some (fst y, fst (snd y), g'))))", rotated], intro impI allI)
  fix yylex :: "options \<Rightarrow> scan_tables \<Rightarrow> action \<Rightarrow> scanner \<Rightarrow> ((int \<times> byte list) list \<times> lex_end \<times> scanner) option"
    and opt T and act :: action and s y g
  assume IH: "\<And>opt T act s y. yylex opt T act s = Some y \<Longrightarrow> act = (\<lambda>rule bs s. (s, False)) \<longrightarrow> (\<forall>g. stands_for b xs g s \<longrightarrow>
      (\<exists>n g'. mem_yylex n opt T g = Done (Some (fst y, fst (snd y), g'))))"
    and hyps: "(case yy_turn opt T s of
        AtEof s \<Rightarrow> Some ([], Eof, s)
      | Jammed s \<Rightarrow> Some ([], Jam, s)
      | Echoed s \<Rightarrow> yylex opt T act s
      | Matched rule text s \<Rightarrow>
          (case act rule text s of (s, returned) \<Rightarrow>
             if returned then Some ([(rule, text)], LexReturned rule, s)
             else do { (ms, e, s) \<leftarrow> yylex opt T act (after_action text s); Some ((rule, text) # ms, e, s) })) = Some y"
    and act: "act = (\<lambda>rule bs s. (s, False))" and "stands_for b xs g s"
  from this(4) obtain h out where h: "yy_text_unseal g = Done h" "holds b xs (ys_pos s) h" "from_memory b h"
    "scanner_of b out h = Some s" "0 \<le> yy_more_offset h" "yy_more_offset h \<le> int (ys_pos s)" "0 \<le> yy_lineno h"
    by (auto simp: stands_for_def)
  note ok = mem_turn_ok[OF h(1,2) disjI2[OF h(3)] h(4-7), of opt T]
  show "\<exists>n g'. mem_yylex n opt T g = Done (Some (fst y, fst (snd y), g'))"
  proof (cases "yy_turn opt T s")
    case (AtEof s')
    with ok obtain g' where "mem_yy_turn opt T g = Done (MemEof g')" by auto
    moreover have "y = ([], Eof, s')" using hyps AtEof by simp
    ultimately show ?thesis by (intro exI[of _ 1] exI[of _ g']) simp
  next
    case (Jammed s')
    with ok have "mem_yy_turn opt T g = Done (MemJammed h)" by simp
    moreover have "y = ([], Jam, s')" using hyps Jammed by simp
    ultimately show ?thesis by (intro exI[of _ 1] exI[of _ h]) simp
  next
    case (Echoed s')
    with ok obtain d g' where t: "mem_yy_turn opt T g = Done (MemEchoed d g')" "yy_text_unseal g' = Done g'" "holds b xs (ys_pos s') g'"
      "scanner_of b (ys_out s') g' = Some s'" "from_memory b g'" "0 \<le> yy_lineno g'" "yy_more_offset g' = yy_more_offset h"
      "ys_pos s \<le> ys_pos s'" using h(3) by auto
    have "stands_for b xs g' s'" unfolding stands_for_def using t h(5,6) by (intro exI[of _ g'] exI[of _ "ys_out s'"]) simp
    moreover have "yylex opt T act s' = Some y" using hyps Echoed by simp
    ultimately obtain n g2 where "mem_yylex n opt T g' = Done (Some (fst y, fst (snd y), g2))"
      using IH act by blast
    then show ?thesis using t(1) by (intro exI[of _ "Suc n"] exI[of _ g2]) simp
  next
    case (Matched rule bs s')
    with ok obtain g' k where t: "mem_yy_turn opt T g = Done (MemMatched rule g')" "yy_leng g' = int (length bs)"
      "text_bytes (length bs) g' = Done bs" "yy_text_unseal g' = Done k" "holds b xs (ys_pos s') k" "scanner_of b out k = Some s'"
      "from_memory b k" "0 \<le> yy_lineno k" using h(3) by auto
    have "scanner_of b out k = Some s'" by (rule t(6))
    then have flag: "yy_more_flag k = ys_more_flag s'" by (auto simp: scanner_of_def split: option.splits)
    then have no: "\<not> yy_more_flag g'" using unseal_more(2)[OF t(4)] matched_facts[OF Matched] by simp
    let ?g = "g'\<lparr>yy_more_offset := 0\<rparr>" and ?k = "k\<lparr>yy_more_offset := 0\<rparr>"
    have "scanner_of b out ?k = Some (after_action bs s')"
      using t(6) matched_facts[OF Matched] by (auto simp: scanner_of_def after_action_def split: option.splits)
    moreover have "holds b xs (ys_pos s') ?k" using t(5) holds_cong(1)[of ?k k] by simp
    moreover have "from_memory b ?k" using t(7) by (simp add: from_memory_def)
    ultimately have "stands_for b xs ?g (after_action bs s')"
      unfolding stands_for_def using unseal_more(1)[OF t(4), of 0] t(8)
      by (intro exI[of _ ?k] exI[of _ out]) (simp add: after_action_def)
    moreover obtain z where z: "yylex opt T act (after_action bs s') = Some z" "y = ((rule, bs) # fst z, fst (snd z), snd (snd z))"
      using hyps Matched act by (auto simp: bind_eq_Some_conv)
    ultimately obtain n g2 where "mem_yylex n opt T ?g = Done (Some (fst z, fst (snd z), g2))"
      using IH act by blast
    then show ?thesis using t(1-3) no z(2) by (intro exI[of _ "Suc n"] exI[of _ g2]) simp
  qed
qed

section \<open>Scanning bytes in memory\<close>

lemma scan_bytes_ok:
  assumes r: "roomy g" and no: "yy_buffer_stack g = None"
  obtains b g' where "yy_scan_bytes bs (int (length bs)) g = Done (Some b, g')" "holds b bs 0 g'" "from_memory b g'" "roomy g'"
    "yg_buffers g' b = Some \<lparr>yb_input_file = None, yb_data = yg_next g, yb_size = length bs, yb_pos = 0, yb_end = length bs,
       yb_at_bol = True, yb_done = True, yb_is_our_buffer = True\<rparr>"
    "yy_text_active g' = yy_text_active g" "yy_text g' = yy_text g" "yy_more_offset g' = yy_more_offset g"
    "yy_more_flag g' = yy_more_flag g" "yy_lineno g' = yy_lineno g" "yy_start g' = yy_start g"
proof -
  let ?a = "yg_next g" and ?b = "yg_next g + 1"
  let ?v = "\<lparr>yb_input_file = None, yb_data = ?a, yb_size = length bs, yb_pos = 0, yb_end = length bs,
       yb_at_bol = True, yb_done = True, yb_is_our_buffer = True\<rparr>"
  let ?g = "g\<lparr>yg_next := yg_next g + 3, yg_blocks := (yg_blocks g)(?a \<mapsto> bs @ [0, 0]), yg_buffers := (yg_buffers g)(?b \<mapsto> ?v),
    yy_buffer_stack_max := 1, yy_buffer_stack := Some [Some ?b], yy_buffer_stack_top := 0, yy_in := None\<rparr>"
  have "?a \<notin> yg_foreign g" using r by (auto simp: roomy_def)
  moreover have "yy_scan_bytes bs (int (length bs)) g = Done (Some ?b, ?g)"
    using r no
    by (simp add: yy_scan_bytes_def yyalloc_def new_address_def roomy_def set_buffer_def Let_def yypush_buffer_state_def
        yyensure_buffer_stack_def yy_current_def set_current_def take_input_def the_buffer_def)
  moreover have "holds ?b bs 0 ?g" using calculation(1) by (simp add: holds_def yy_current_def)
  moreover have "from_memory ?b ?g" "roomy ?g" using r by (auto simp: from_memory_def roomy_def)
  ultimately show thesis by (intro that[of ?b ?g]) simp_all
qed

text \<open>C19. Scanning a text in memory. In a scanner that has not run yet and to which memory is given,
  \<open>yy_scan_bytes\<close> makes the bytes the input, and the emitted loop, turn after turn on the memory of the
  runtime and with empty actions, ends as \<open>yylex\<close> on lists does: with the same rules, the
  same texts found in \<open>yytext\<close>, and at the end of the input or at a jam alike.
\<close>

theorem scan_bytes_exact:
  assumes "roomy g" "yy_buffer_stack g = None" "\<not> (yy_text_active g \<and> yy_text g \<noteq> None)" "yy_more_offset g = 0" "0 \<le> yy_lineno g"
    and "yylex opt T (\<lambda>rule text s. (s, False))
      \<lparr>ys_buf = bs, ys_pos = 0, ys_start = yy_start g, ys_at_bol = True, ys_more_flag = yy_more_flag g, ys_more_offset = 0,
       ys_lineno = nat (yy_lineno g), ys_out = []\<rparr> = Some (ms, e, s')"
  shows "\<exists>b g1 n g2. yy_scan_bytes bs (int (length bs)) g = Done (Some b, g1) \<and> mem_yylex n opt T g1 = Done (Some (ms, e, g2))"
proof -
  obtain b g1 where g1: "yy_scan_bytes bs (int (length bs)) g = Done (Some b, g1)" "holds b bs 0 g1" "from_memory b g1" "roomy g1"
    "yg_buffers g1 b = Some \<lparr>yb_input_file = None, yb_data = yg_next g, yb_size = length bs, yb_pos = 0, yb_end = length bs,
       yb_at_bol = True, yb_done = True, yb_is_our_buffer = True\<rparr>"
    "yy_text_active g1 = yy_text_active g" "yy_text g1 = yy_text g" "yy_more_offset g1 = yy_more_offset g"
    "yy_more_flag g1 = yy_more_flag g" "yy_lineno g1 = yy_lineno g" "yy_start g1 = yy_start g"
    by (rule scan_bytes_ok[OF assms(1,2), of bs])
  let ?s = "\<lparr>ys_buf = bs, ys_pos = 0, ys_start = yy_start g, ys_at_bol = True, ys_more_flag = yy_more_flag g, ys_more_offset = 0,
    ys_lineno = nat (yy_lineno g), ys_out = []\<rparr>"
  have "yy_text_unseal g1 = Done g1" using assms(3) g1(6,7) by (intro unseal_idle) simp
  moreover have "scanner_of b [] g1 = Some ?s" using scanner_of_holds[OF g1(2,5), of "[]"] g1(8-11) assms(4) by simp
  ultimately have "stands_for b bs g1 ?s"
    unfolding stands_for_def using g1(2,3,8,10) assms(4,5) by (intro exI[of _ g1] exI[of _ "[]"]) simp
  with mem_yylex_follows[OF assms(6), of b bs] obtain n g2 where "mem_yylex n opt T g1 = Done (Some (ms, e, g2))" by auto
  then show ?thesis using g1(1) by blast
qed

lemma two_bytes:
  "yylex default_options any_byte_tables (\<lambda>rule text s. (s, False))
      \<lparr>ys_buf = [97, 98], ys_pos = 0, ys_start = 0, ys_at_bol = True, ys_more_flag = False, ys_more_offset = 0,
       ys_lineno = 1, ys_out = []\<rparr> = Some ([(0, [97]), (0, [98])], Eof,
      \<lparr>ys_buf = [97, 98], ys_pos = 2, ys_start = 0, ys_at_bol = False, ys_more_flag = False, ys_more_offset = 0,
       ys_lineno = 1, ys_out = []\<rparr>)"
proof -
  have t: "yy_turn default_options any_byte_tables \<lparr>ys_buf = [97, 98], ys_pos = 1, ys_start = 0, ys_at_bol = False, ys_more_flag = False,
       ys_more_offset = 0, ys_lineno = 1, ys_out = []\<rparr> =
     Matched 0 [98] \<lparr>ys_buf = [97, 98], ys_pos = 2, ys_start = 0, ys_at_bol = False, ys_more_flag = False, ys_more_offset = 0,
       ys_lineno = 1, ys_out = []\<rparr>"
    by code_simp
  have e: "yy_turn default_options any_byte_tables \<lparr>ys_buf = [97, 98], ys_pos = 2, ys_start = 0, ys_at_bol = False, ys_more_flag = False,
       ys_more_offset = 0, ys_lineno = 1, ys_out = []\<rparr> =
     AtEof \<lparr>ys_buf = [97, 98], ys_pos = 2, ys_start = 0, ys_at_bol = False, ys_more_flag = False, ys_more_offset = 0,
       ys_lineno = 1, ys_out = []\<rparr>"
    by code_simp
  have a: "after_action bs s = s\<lparr>ys_more_offset := (if ys_more_flag s then length bs else 0)\<rparr>" for bs s by (rule after_action_def)
  show ?thesis
    by (subst yylex.simps, subst any_byte_turn, simp del: One_nat_def add: a, subst yylex.simps, subst t,
        simp del: One_nat_def add: a, subst yylex.simps, subst e, simp)
qed

lemma scan_bytes_exact_witness:
  "\<exists>b g1 n g2. yy_scan_bytes [97, 98] 2 (fresh_guts []) = Done (Some b, g1) \<and>
     mem_yylex n default_options any_byte_tables g1 = Done (Some ([(0, [97]), (0, [98])], Eof, g2))"
proof -
  let ?g = "fresh_guts []"
  have "roomy ?g" "yy_buffer_stack ?g = None" "\<not> (yy_text_active ?g \<and> yy_text ?g \<noteq> None)" "yy_more_offset ?g = 0" "0 \<le> yy_lineno ?g"
    by (simp_all add: fresh_guts_def roomy_def)
  moreover have "yy_start ?g = 0" "yy_more_flag ?g = False" "nat (yy_lineno ?g) = 1" by (simp_all add: fresh_guts_def)
  ultimately show ?thesis
    using scan_bytes_exact[of ?g default_options any_byte_tables "[97, 98]"] two_bytes by simp
qed

end
