(* ===== verification/Fuzz.thy ===== *)
theory Fuzz
  imports Core_Run
begin

text \<open>
  The fuzz drivers \<open>src/fuzz/fuzz_regex.cc\<close> and \<open>src/fuzz/fuzz_lfile.cc\<close>: the parts of the generator put
  together without its driver. A driver that returns early, without an automaton, is \<open>None\<close> in the
  result; the outer \<open>option\<close> is \<open>None\<close> if a loop does not return.
\<close>

section \<open>One pattern\<close>

definition fuzz_regex :: "string \<Rightarrow> dfa option option" where
  "fuzz_regex src =
     (if length src > 4096 then Some None
      else do {
        (tree, diag) \<leftarrow> parse_regex (pattern_fuel [] src) src (\<lambda>name. None) False no_diag empty_loc;
        if tree = Null \<or> \<not> diag_ok diag then Some None
        else do {
          dfa \<leftarrow> build_dfa (add_rule_to_nfa (init_nfa empty_nfa [''INITIAL''] [0]) tree 0
            \<lparr>rs_conds = [], rs_any_state = False\<rparr> 0) False False;
          Some (Some dfa) } })"

section \<open>A specification\<close>

fun fuzz_rules :: "lex_file \<Rightarrow> lex_rule list \<Rightarrow> nat \<Rightarrow> nat \<Rightarrow> nfa \<Rightarrow> diagnostics \<Rightarrow> (nfa \<times> diagnostics) option option" where
  "fuzz_rules file [] i nfa_rule_id nfa diag = Some (Some (nfa, diag))"
| "fuzz_rules file (r # rs) i nfa_rule_id nfa diag =
     (case resolve_conds (lf_conds file) (r_conds r) of
        Inl cn \<Rightarrow> Some None
      | Inr cs \<Rightarrow>
          let sites = \<lparr>rs_conds = cs, rs_any_state = r_any_state r\<rparr>
          in if r_eof r then fuzz_rules file rs (Suc i) nfa_rule_id (add_eof_rule nfa i sites) diag
             else do {
               (tree, diag) \<leftarrow> parse_regex (pattern_fuel (lf_defs file) (r_pattern r)) (r_pattern r)
                 (resolver_of (lf_defs file)) (o_case_insensitive (lf_options file)) diag (r_loc r);
               if tree = Null \<or> \<not> diag_ok diag then Some None
               else fuzz_rules file rs (Suc i) (Suc nfa_rule_id) (add_rule_to_nfa nfa tree nfa_rule_id sites 0) diag })"

definition fuzz_lfile :: "string \<Rightarrow> string \<Rightarrow> (dfa \<times> string) option option" where
  "fuzz_lfile kRuntimeTemplate src =
     (if length src > 8192 then Some None
      else case parse_lex_file ''<fuzz>'' src no_diag of
             (None, diag) \<Rightarrow> Some None
           | (Some file, diag) \<Rightarrow>
               if \<not> diag_ok diag then Some None
               else do {
                 r \<leftarrow> fuzz_rules file (lf_rules file) 0 0
                   (init_nfa empty_nfa (cond_names (lf_conds file)) (cond_excl (lf_conds file))) diag;
                 case r of
                   None \<Rightarrow> Some None
                 | Some (nfa, diag) \<Rightarrow>
                     if \<not> diag_ok diag then Some None
                     else do {
                       dfa \<leftarrow> build_dfa nfa False False;
                       Some (Some (dfa, emit_c kRuntimeTemplate
                         \<lparr>cg_file = file, cg_nfa = nfa, cg_dfa = dfa, cg_output_path = [], cg_line_directives = True,
                          cg_compress = Compress, cg_tables_loader = False, cg_runtime_override = []\<rparr>)) } })"

section \<open>Every driver returns\<close>

lemma parse_regex_returns: "parse_regex (pattern_fuel defs src) src (resolver_of defs) ci diag loc \<noteq> None"
  by (rule parse_regex_total[OF resolver_bounded pattern_fuel_enough])

lemma fuzz_rules_returns: "fuzz_rules file rs i k nfa diag \<noteq> None"
proof (induction rs arbitrary: i k nfa diag)
  case (Cons r rs)
  obtain tree d where "parse_regex (pattern_fuel (lf_defs file) (r_pattern r)) (r_pattern r)
      (resolver_of (lf_defs file)) (o_case_insensitive (lf_options file)) diag (r_loc r) = Some (tree, d)"
    using parse_regex_returns by (metis option.exhaust surj_pair)
  with Cons.IH show ?case by (auto simp: Let_def split: sum.split)
qed simp

lemma fuzz_rules_carries:
  assumes "fuzz_rules file rs i (length ps) nfa diag = Some (Some (nfa', diag'))"
    and "carries (cond_names (lf_conds file)) excl ps nfa"
  shows "\<exists>qs. carries (cond_names (lf_conds file)) excl (ps @ qs) nfa'"
  using assms
proof (induction rs arbitrary: i ps nfa diag)
  case Nil
  then show ?case by (auto intro: exI[of _ "[]"])
next
  case (Cons r rs)
  from Cons.prems(1) obtain cs where cs: "resolve_conds (lf_conds file) (r_conds r) = Inr cs"
    by (auto split: sum.splits)
  let ?sites = "\<lparr>rs_conds = cs, rs_any_state = r_any_state r\<rparr>"
  show ?case
  proof (cases "r_eof r")
    case True
    with Cons.prems cs have "fuzz_rules file rs (Suc i) (length ps) (add_eof_rule nfa i ?sites) diag = Some (Some (nfa', diag'))"
      by simp
    from Cons.IH[OF this carries_eof[OF Cons.prems(2)]] show ?thesis .
  next
    case False
    with Cons.prems(1) cs obtain tree d where
      t: "fuzz_rules file rs (Suc i) (Suc (length ps)) (add_rule_to_nfa nfa tree (length ps) ?sites 0) d = Some (Some (nfa', diag'))"
      by (auto simp: bind_eq_Some_conv Let_def split: if_splits)
    let ?q = "(clean tree, ?sites, 0)"
    have "carries (cond_names (lf_conds file)) excl (ps @ [?q]) (add_rule_to_nfa nfa tree (length ps) ?sites 0)"
      by (rule carries_rule[OF Cons.prems(2)]) (simp add: resolve_conds_less[OF cs])
    from Cons.IH[OF _ this, of "Suc i" d] t obtain qs where
      "carries (cond_names (lf_conds file)) excl (ps @ ?q # qs) nfa'" by auto
    then show ?thesis by blast
  qed
qed

lemma carries_first: "carries (cond_names conds) (cond_excl conds) [] (init_nfa empty_nfa (cond_names conds) (cond_excl conds))"
  by (rule carries_init) (simp add: cond_names_def cond_excl_def)

lemma fuzz_table:
  assumes "fuzz_rules fl (lf_rules fl) 0 0 (init_nfa empty_nfa (cond_names (lf_conds fl)) (cond_excl (lf_conds fl))) diag
    = Some (Some (nfa, d))"
  shows "\<exists>dfa. build_dfa nfa False False = Some dfa"
proof -
  obtain qs where "carries (cond_names (lf_conds fl)) (cond_excl (lf_conds fl)) ([] @ qs) nfa"
    using fuzz_rules_carries[where ps = "[]" and i = 0, OF _ carries_first] assms by fastforce
  from build_dfa_built[OF carriesD(1)[OF this]] show ?thesis by metis
qed

text \<open>
  The driver for patterns returns on every text. When it builds a table, the text is a pattern, and the
  table is that of a scanner with the single rule of this pattern.
\<close>

theorem fuzz_regex_returns:
  "\<exists>r. fuzz_regex src = Some r \<and>
    (\<forall>dfa. r = Some dfa \<longrightarrow> (\<exists>tree d. parse_regex (pattern_fuel [] src) src (\<lambda>name. None) False no_diag empty_loc = Some (tree, d) \<and>
       tree \<noteq> Null \<and> scans [''INITIAL''] [0] [(clean tree, \<lparr>rs_conds = [], rs_any_state = False\<rparr>, 0)] dfa))"
proof (cases "length src > 4096")
  case False
  have none: "resolver_of [] = (\<lambda>name. None)" by (simp add: resolver_of_def fun_eq_iff)
  obtain tree d where p: "parse_regex (pattern_fuel [] src) src (\<lambda>name. None) False no_diag empty_loc = Some (tree, d)"
    using parse_regex_returns[of "[]" src False no_diag empty_loc] unfolding none by auto
  let ?s = "\<lparr>rs_conds = [], rs_any_state = False\<rparr>"
  let ?N = "add_rule_to_nfa (init_nfa empty_nfa [''INITIAL''] [0]) tree 0 ?s 0"
  have "carries [''INITIAL''] [0] [] (init_nfa empty_nfa [''INITIAL''] [0])" by (rule carries_init) simp
  from carries_rule[OF this, of ?s tree 0] have c: "carries [''INITIAL''] [0] [(clean tree, ?s, 0)] ?N" by simp
  obtain dfa where b: "build_dfa ?N False False = Some dfa" using build_dfa_built[OF carriesD(1)[OF c]] by metis
  show ?thesis using False p b table_scans[OF c b] by (simp add: fuzz_regex_def)
qed (simp add: fuzz_regex_def)

text \<open>The driver for specifications returns on every text, whatever the runtime template is.\<close>

theorem fuzz_lfile_returns: "\<exists>r. fuzz_lfile rt src = Some r"
proof -
  obtain parsed d where p: "parse_lex_file ''<fuzz>'' src no_diag = (parsed, d)" by fastforce
  show ?thesis
  proof (cases "length src > 8192 \<or> parsed = None \<or> \<not> diag_ok d")
    case True
    with p show ?thesis by (auto simp: fuzz_lfile_def split: option.split)
  next
    case False
    then obtain fl where fl: "parsed = Some fl" by auto
    let ?N = "init_nfa empty_nfa (cond_names (lf_conds fl)) (cond_excl (lf_conds fl))"
    obtain r where r: "fuzz_rules fl (lf_rules fl) 0 0 ?N d = Some r" using fuzz_rules_returns by blast
    show ?thesis
    proof (cases r)
      case (Some q)
      obtain nfa e where q: "q = (nfa, e)" by fastforce
      with fuzz_table r Some obtain dfa where "build_dfa nfa False False = Some dfa" by blast
      with False p fl r Some q show ?thesis by (simp add: fuzz_lfile_def)
    qed (use False p fl r in \<open>simp add: fuzz_lfile_def\<close>)
  qed
qed

end
