(* ===== verification/Platform_Main.thy ===== *)
theory Platform_Main
  imports Core_Run "HOL-Library.Word"
begin

text \<open>
  The entry points: \<open>main\<close> and \<open>log_stderr\<close> of \<open>src/src/platform_posix.cpp\<close>, and what
  \<open>src/src/platform_windows.cpp\<close> does differently, where paths and arguments are UTF-16. The Windows API
  is a parameter: \<open>to_wide\<close> and \<open>from_wide\<close> are \<open>MultiByteToWideChar\<close> and \<open>WideCharToMultiByte\<close> for
  \<open>CP_UTF8\<close>, \<open>None\<close> where they return 0; \<open>named\<close> gives the name under which \<open>host\<close> has the file
  of a wide path. The operations of \<open>class File\<close> are the same text on both sides.
\<close>

type_synonym wide = "16 word list"

section \<open>POSIX\<close>

definition stderr_stream :: file_obj where
  "stderr_stream = \<lparr>fl_impl = Some 2, fl_owns = False\<rparr>"

definition log_stderr :: "string \<Rightarrow> host \<Rightarrow> host" where
  "log_stderr msg h = snd (write_all msg stderr_stream h)"

text \<open>\<open>argv\<close> are the bytes at the pointers, at least up to the null byte; the result is the exit code.\<close>

definition main_posix :: "string \<Rightarrow> string list \<Rightarrow> host \<Rightarrow> (int \<times> diagnostics \<times> host) option" where
  "main_posix kRuntimeTemplate argv h = core_main kRuntimeTemplate (map c_str argv) h"

section \<open>Windows\<close>

definition utf8_to_wide :: "(string \<Rightarrow> wide option) \<Rightarrow> string \<Rightarrow> wide" where
  "utf8_to_wide to_wide s = (if s = [] then [] else case to_wide s of None \<Rightarrow> [] | Some w \<Rightarrow> w)"

definition wide_to_utf8 :: "(wide \<Rightarrow> string option) \<Rightarrow> wide \<Rightarrow> string" where
  "wide_to_utf8 from_wide w = (if w = [] then [] else case from_wide w of None \<Rightarrow> [] | Some s \<Rightarrow> s)"

definition wc_str :: "wide \<Rightarrow> wide" where
  "wc_str w = takeWhile (\<lambda>c. c \<noteq> 0) w"

definition open_read_windows :: "(string \<Rightarrow> wide option) \<Rightarrow> (wide \<Rightarrow> string) \<Rightarrow> string \<Rightarrow> host \<Rightarrow> file_obj \<times> host" where
  "open_read_windows to_wide named p h =
     (let wp = utf8_to_wide to_wide p; (i, h) = fopen_rb (named (wc_str wp)) h in (\<lparr>fl_impl = i, fl_owns = True\<rparr>, h))"

definition open_write_windows :: "(string \<Rightarrow> wide option) \<Rightarrow> (wide \<Rightarrow> string) \<Rightarrow> string \<Rightarrow> host \<Rightarrow> file_obj \<times> host" where
  "open_write_windows to_wide named p h =
     (let wp = utf8_to_wide to_wide p; (i, h) = fopen_wb (named (wc_str wp)) h in (\<lparr>fl_impl = i, fl_owns = True\<rparr>, h))"

text \<open>\<open>wargv\<close> is what \<open>CommandLineToArgvW\<close> makes of the command line, \<open>None\<close> a null pointer.\<close>

definition main_windows ::
    "(wide \<Rightarrow> string option) \<Rightarrow> string \<Rightarrow> wide list option \<Rightarrow> host \<Rightarrow> (int \<times> diagnostics \<times> host) option" where
  "main_windows from_wide kRuntimeTemplate wargv h =
     (case wargv of
        None \<Rightarrow> Some (2, no_diag, h)
      | Some ws \<Rightarrow> core_main kRuntimeTemplate (map (\<lambda>w. wide_to_utf8 from_wide (wc_str w)) ws) h)"

section \<open>The same program\<close>

text \<open>
  Where the conversion of a text to UTF-16 and back is the identity, as it is for well-formed UTF-8,
  the Windows program gets the arguments of the POSIX one, whatever they are, and does the same.
\<close>

lemma arguments_back:
  assumes "\<And>s. s \<in> good \<Longrightarrow> s \<noteq> [] \<Longrightarrow> \<exists>w. w \<noteq> [] \<and> to_wide s = Some w \<and> from_wide w = Some s \<and> 0 \<notin> set w"
    and "s \<in> good" "c_str s = s"
  shows "wide_to_utf8 from_wide (wc_str (utf8_to_wide to_wide s)) = s"
proof (cases "s = []")
  case False
  then obtain w where w: "to_wide s = Some w" "from_wide w = Some s" "0 \<notin> set w" "w \<noteq> []" using assms by blast
  have "wc_str w = w" using w(3) by (auto simp: wc_str_def takeWhile_eq_all_conv)
  then show ?thesis
    using w False by (auto simp: utf8_to_wide_def wide_to_utf8_def)
qed (simp add: utf8_to_wide_def wide_to_utf8_def wc_str_def)

lemma windows_runs_the_same:
  assumes "\<And>s. s \<in> good \<Longrightarrow> s \<noteq> [] \<Longrightarrow> \<exists>w. w \<noteq> [] \<and> to_wide s = Some w \<and> from_wide w = Some s \<and> 0 \<notin> set w"
    and "set argv \<subseteq> good" "\<forall>s \<in> set argv. c_str s = s"
  shows "main_windows from_wide rt (Some (map (utf8_to_wide to_wide) argv)) h = main_posix rt argv h"
proof -
  have "map (\<lambda>w. wide_to_utf8 from_wide (wc_str w)) (map (utf8_to_wide to_wide) argv) = map c_str argv"
    using assms by (auto simp: arguments_back[where good = good])
  then show ?thesis by (simp only: main_windows_def main_posix_def option.case)
qed

end
