(* ===== verification/Spec2Isabelle.thy ===== *)
theory Spec2Isabelle
  imports Lex_Prelude Byte_Set Regex_Ast Regex_Text Nfa Paths Nfa_Rules Comb Meta_Classes Tables Front_End Reject_Loop Scanner_Limits Emit_Lines End_To_End
    Runtime_Buffers Runtime_Run Fuzz Platform_Main
begin

text \<open>
  A verification development for lex.cpp, a scanner generator in C++ that reads flex
  specifications and writes a C scanner. The program is a pipeline, and the theories follow it:

  \<^item> the platform layer (\<open>src/src/platform.hpp\<close>, \<open>platform_posix.cpp\<close>): \<open>Platform\<close> has \<open>class File\<close>,
    \<open>open_read\<close>, \<open>open_write\<close> and \<open>slurp\<close> over a state of C streams, \<open>File_Owners\<close> the moves and the
    destructor, \<open>Platform_Main\<close> the entry points and what \<open>platform_windows.cpp\<close> does differently;
  \<^item> diagnostics (\<open>src/src/diag.cpp\<close>): \<open>Diag\<close>;
  \<^item> the driver (\<open>src/src/main.cpp\<close>): \<open>Driver\<close> has the command line and the searches in text,
    \<open>Front_End\<close> the middle of \<open>core_main\<close> from the parsed file to the automaton and its table,
    \<open>Core_Main\<close> \<open>core_main\<close> as a whole, \<open>Core_Run\<close> the files and the exit code it leaves behind;
  \<^item> the specification file (\<open>src/src/source.hpp\<close>, \<open>source.cpp\<close>): \<open>Source_Data\<close> (the data), \<open>Source_Lex\<close>
    (the cursor), \<open>Source_Blocks\<close> (comments, verbatim blocks, patterns, actions), \<open>Source_Parse\<close>
    (options, conditions, definitions, rules), \<open>Source_File\<close> (the sections, \<open>parse_lex_file\<close>); the proofs on
    them are in \<open>Source_Actions\<close>, \<open>Source_Text\<close> and \<open>Source_Roundtrip\<close>;
  \<^item> patterns to trees (\<open>src/src/regex.hpp\<close>, \<open>regex.cpp\<close>): \<open>Byte_Set\<close> (\<open>ByteSet\<close>),
    \<open>Regex_Ast\<close> (\<open>Node\<close>, \<open>fixed_length\<close>, the anchors), \<open>Regex_Lex\<close> (cursor, escapes, quoted
    text, repeat counts), \<open>Regex_Class\<close> (character classes), \<open>Regex_Parser\<close> (\<open>class Parser\<close>,
    \<open>find_top_level_slash\<close>, \<open>parse_pattern\<close>), with the theorems on them in \<open>Regex_Patterns\<close>
    and \<open>Regex_Text\<close>;
  \<^item> trees to an automaton (\<open>src/src/nfa.cpp\<close>): \<open>Nfa\<close>; paths in automata and the correctness
    of the compiler are in \<open>Paths\<close> and \<open>Thompson\<close>, adding rules in \<open>Nfa_Rules\<close>;
  \<^item> byte classes (\<open>src/src/eclass.cpp\<close>): \<open>Eclass\<close>;
  \<^item> the subset construction (\<open>src/src/dfa.cpp\<close>, \<open>build_dfa\<close>): \<open>Dfa\<close>; what its steps compute is
    in \<open>Dfa_Sets\<close>, the worklist loop in \<open>Subset\<close>, the simulation in \<open>Dfa_Correct\<close>; \<open>Table_Spec\<close>
    specifies an automaton that carries a list of rules and the table that scans them;
  \<^item> table compression (\<open>compress_dfa\<close>, \<open>compute_meta_classes\<close>): \<open>Comb\<close>, \<open>Meta_Classes\<close>;
  \<^item> table files (\<open>src/src/tables.cpp\<close> and the loader that \<open>codegen.cpp\<close> emits): \<open>Tables\<close>;
  \<^item> the C text (\<open>src/src/codegen.cpp\<close>): \<open>Emit_Text\<close> (line directives, arrays, names, the two
    \<open>switch\<close> statements), \<open>Emit_Tables\<close> (the arrays), \<open>Emit_Body\<close> (\<open>yy_lex_body\<close> and
    \<open>yy_lex_body_reject\<close>), \<open>Emit_C\<close> (\<open>emit_c\<close> and \<open>emit_h\<close>), and \<open>Emit_Lines\<close>, where a compiler
    places the code of the user;
  \<^item> what that text does: \<open>Match_Loop\<close> is the loop of \<open>yy_lex_body\<close> on the tables, \<open>Match_Run\<close>,
    \<open>Match_Turn\<close> and \<open>Match_Correct\<close> say what it notes, takes and picks, \<open>Scanner\<close> is the scanner of a
    specification, \<open>Reject_Loop\<close> the loop of \<open>yy_lex_body_reject\<close>, \<open>Scanner_Limits\<close> what goes wrong;
  \<^item> the runtime in every scanner (\<open>src/runtime/runtime.c.in\<close>): \<open>Runtime\<close> has memory, the buffers and
    their stack, \<open>yy_refill\<close>; \<open>Runtime_Input\<close> has \<open>yy_slurp\<close>, \<open>yyrestart\<close>, the sealing of \<open>yytext\<close>,
    \<open>unput\<close>, \<open>input\<close>, \<open>yyless\<close> and the stack of start conditions; \<open>Runtime_Correct\<close>, \<open>Runtime_Moves\<close>,
    \<open>Runtime_Text\<close>, \<open>Runtime_Stacks\<close> and \<open>Runtime_Buffers\<close> (with \<open>yylex_destroy\<close>) prove what they do;
    \<open>Runtime_Scan\<close> and \<open>Runtime_Run\<close> run the loop of \<open>yylex\<close> on this memory and show that it
    refines the loop on lists;
  \<^item> the parts put together: \<open>Generate\<close> goes from the text of a specification to the table,
    \<open>End_To_End\<close> from the command line to the tokens of the scanner, \<open>Fuzz\<close> has the drivers under
    \<open>src/fuzz\<close>; the prelude is \<open>Lex_Prelude\<close>.

  State is passed explicitly: the parser state \<open>pst\<close> with the fixed environment \<open>penv\<close>, the state
  \<open>sparser\<close> of the specification parser, the automaton \<open>nfa\<close>, the table under construction
  \<open>builder\<close>, the counters of \<open>diagnostics\<close>, the streams and files of \<open>host\<close>, the globals and the
  memory of a scanner \<open>guts\<close>. Errors are values: an early return is \<open>Inl\<close>, a null tree is \<open>Null\<close>, a
  failed read is \<open>None\<close>, a fatal error and an access that C leaves undefined are \<open>Fatal\<close> and \<open>Fault\<close>.
  Machine integers keep their width where the code can wrap: byte sets are four 64-bit
  words, class ids 8-bit words, repeat counts 32-bit words, \<open>fixed_length\<close> works modulo \<open>2^32\<close>, the
  position after \<open>yyless\<close> modulo \<open>2^64\<close>. State and rule ids are natural numbers; the code's \<open>int32_t\<close>
  agrees below \<open>2^31\<close>.

  Loops: the recursion of the pattern parser carries fuel, and \<open>parser_fuel\<close> (which counts every
  macro once, since a macro that is being expanded is not opened again) is shown to be enough. The
  worklist loop of the subset construction, the search for \<open>REJECT\<close> and \<open>yylex\<close> are partial
  functions that are shown to be defined: the first since its sets are distinct sorted lists of
  states, \<open>yylex\<close> as long as no head of a trailing context can be empty. The other loops are
  structural or have a measure; for \<open>yy_slurp\<close> it is what the file has left to deliver.

  Interfaces are locales: \<open>byte_container\<close> for byte sets, \<open>table_automaton\<close> for tables that
  simulate an automaton (interpreted on the dense and on the packed table), the array
  formats of the table file (\<open>table_array\<close> and its instances), and \<open>last_in_first_out\<close> for stacks
  (interpreted on the start conditions and on the input with \<open>unput\<close> and \<open>input\<close>).

  Parameters: the runtime template is an argument of \<open>emit_c\<close>, since the build turns it into a
  string; what the C library does with files is part of the state \<open>host\<close>; what the allocator
  refuses and what a file delivers is part of the state \<open>guts\<close>; the conversions of the Windows API
  are arguments of the functions that call them.

  Not modelled: \<open>class File\<close> of the Windows side, which is the text of the POSIX side again, and the
  binary mode of its standard streams; the console (diagnostics are a log); in the scanner \<open>%option array\<close>, the debug trace, the report of a
  jam, the accessors of the reentrant form; actions that call the runtime: the loop on lists has any
  action as a function on its state, the loop on memory runs with empty actions, and what \<open>unput\<close>,
  \<open>input\<close>, \<open>yyless\<close> and the stacks do between turns is proved for each by itself; the loop of scanners
  that use \<open>REJECT\<close> on memory; \<open>fuzz_runtime.cc\<close>, which runs a compiled scanner.
\<close>

section \<open>Properties of the whole construction\<close>

text \<open>C4. End to end: for every list of well-formed rules, the table built for their automaton
recognises exactly the rules. After a string read from the start of a condition, the state
lists exactly the rules that are active there and match the string, in ascending order, its
two accept entries are the smallest such rule without and with a trailing anchor, and its
boundary rules are those whose \<open>r/s\<close> head matches; the run is dead only if no rule matches
any extension of the string.\<close>

theorem scanner_table_correct:
  assumes "spec_ok names excl rs" "c < length names"
  shows "\<exists>dfa. build_dfa (spec_nfa names excl rs) use_eclasses compute_meta = Some dfa \<and>
    (\<forall>bol w. case run_from (dfa_delta dfa) (dfa_start_of dfa c bol) w of
      None \<Rightarrow> \<forall>v r. \<not> rule_matches names excl rs c bol (w @ v) r
    | Some t \<Rightarrow> reports names excl rs c bol w (dfa_states dfa ! t))"
proof -
  obtain dfa bd where d: "build_dfa (spec_nfa names excl rs) use_eclasses compute_meta = Some dfa"
    by (rule build_dfa_built[OF spec_nfa_spec(1)[OF assms]])
  from table_scans[OF spec_nfa_carries[OF assms(1)] d] d show ?thesis
    using assms(2) unfolding scans_def by blast
qed

text \<open>A specification with the single rule \<open>a\<close>.\<close>

definition rule_a :: pattern_rule where
  "rule_a = (Class (bs_add bs_clear 97), \<lparr>rs_conds = [], rs_any_state = False\<rparr>, 0)"

lemma spec_a: "spec_ok [''INITIAL''] [0] [rule_a]"
proof -
  have "bs_test (bs_add bs_clear 97) 97" by (simp add: bs_test_add)
  then have "\<not> bs_empty (bs_add bs_clear 97)" by (rule bs_nonemptyI) simp
  then show ?thesis by (simp add: spec_ok_def rule_ok_def rule_a_def)
qed

lemma matches_a: "rule_matches [''INITIAL''] [0] [rule_a] 0 b [97] r \<longleftrightarrow> r = 0"
  by (auto simp: rule_matches_def rule_active_def active_in_def rule_lang_def rule_a_def unwrap_anchors_def
      unwrap_bol_def unwrap_eol_def linked_conds_def init_conds_frame init_nfa_conds bs_test_add)

lemma scanner_table_correct_witness:
  "\<exists>dfa. build_dfa (spec_nfa [''INITIAL''] [0] [rule_a]) True False = Some dfa \<and>
    (case run_from (dfa_delta dfa) (dfa_start_of dfa 0 False) [97] of
       None \<Rightarrow> False | Some t \<Rightarrow> set (d_accept_list (dfa_states dfa ! t)) = {0})"
proof -
  obtain dfa where d: "build_dfa (spec_nfa [''INITIAL''] [0] [rule_a]) True False = Some dfa"
    and h: "\<forall>bol w. case run_from (dfa_delta dfa) (dfa_start_of dfa 0 bol) w of
      None \<Rightarrow> \<forall>v r. \<not> rule_matches [''INITIAL''] [0] [rule_a] 0 bol (w @ v) r
    | Some t \<Rightarrow> reports [''INITIAL''] [0] [rule_a] 0 bol w (dfa_states dfa ! t)"
    using scanner_table_correct[OF spec_a, of 0 True False] by auto
  show ?thesis
  proof (cases "run_from (dfa_delta dfa) (dfa_start_of dfa 0 False) [97]")
    case None
    with h[rule_format, of False "[97]"] have "\<not> rule_matches [''INITIAL''] [0] [rule_a] 0 False ([97] @ []) 0" by simp
    then show ?thesis by (simp add: matches_a)
  next
    case (Some t)
    with h[rule_format, of False "[97]"] d show ?thesis by (simp add: reports_def matches_a)
  qed
qed

text \<open>C7. The compressed table is equivalent to the dense one: from every start state and over
every string, running the emitted lookup macro on the packed table gives the same state, or
the same dead end, as the dense table.\<close>

theorem compressed_scanner_equivalent:
  assumes "nfa_ok nfa" "build_dfa nfa use_eclasses compute_meta = Some dfa" "c < length (nfa_cond_names nfa)"
  shows "run_from (yy_transition (dfa_eclasses dfa) (compress_dfa dfa)) (dfa_start_of dfa c bol) w
    = run_from (dfa_delta dfa) (dfa_start_of dfa c bol) w"
proof -
  obtain bd where b: "built nfa dfa bd"
    using build_dfa_built[OF assms(1)] assms(2) by (metis option.inject)
  have "live bd (dfa_start_of dfa c bol)"
    using dfa_run_sets[OF assms(1) b assms(3), of bol "[]"] by simp
  then have "table_ok (nfa, dfa, bd)" "dfa_start_of dfa c bol \<in> table_ids (nfa, dfa, bd)"
    using assms(1) b by (simp_all add: table_defs)
  from comb_run[OF this, of w] show ?thesis by (simp add: comb_delta_def dense_delta_def)
qed

lemma compressed_scanner_equivalent_witness:
  "\<exists>dfa. build_dfa (spec_nfa [''INITIAL''] [0] [rule_a]) True False = Some dfa \<and>
    run_from (yy_transition (dfa_eclasses dfa) (compress_dfa dfa)) (dfa_start_of dfa 0 False) [97]
      = run_from (dfa_delta dfa) (dfa_start_of dfa 0 False) [97]"
proof -
  have c: "0 < length [''INITIAL'']" by simp
  note s = spec_nfa_spec[OF spec_a c]
  obtain dfa bd where d: "build_dfa (spec_nfa [''INITIAL''] [0] [rule_a]) True False = Some dfa"
    by (rule build_dfa_built[OF s(1)])
  from compressed_scanner_equivalent[OF s(1) d, of 0 False "[97]"] d show ?thesis by (simp add: s(2))
qed

end
